(* ===== verification/Prelude.thy ===== *)
theory Prelude
  imports Main "HOL-Library.Word" "HOL-Library.Monad_Syntax"
begin

text \<open>
  Shared vocabulary of the development.  Rust's \<open>std::cmp::Ordering\<close>, the machine
  integers, fixed-capacity vectors and the panics of the standard library are modelled
  here once, together with the generic list and option lemmas the components use.

  A Rust expression that may panic has a result of type \<open>'a option\<close> in the model:
  \<open>None\<close> is the panic.  Blocks of such expressions are written in \<open>do\<close> notation.
\<close>

section \<open>Machine integers\<close>

type_synonym u8 = "8 word"
type_synonym u16 = "16 word"
type_synonym u32 = "32 word"
type_synonym u64 = "64 word"

text \<open>\<open>saturating_sub\<close> of the unsigned integer types.\<close>

definition saturating_sub :: "'a::len word \<Rightarrow> 'a word \<Rightarrow> 'a word" where
  "saturating_sub a b = (if a < b then 0 else a - b)"

lemma saturating_sub_self [simp]: "saturating_sub a a = 0"
  by (simp add: saturating_sub_def)

lemma unat_saturating_sub: "unat (saturating_sub a b) = unat a - unat b"
  by (auto simp: saturating_sub_def word_less_nat_alt unat_sub word_le_nat_alt)

section \<open>Comparison results\<close>

datatype ordering = Less | Equal | Greater

text \<open>\<open>Ord::cmp\<close> of a totally ordered type.\<close>

definition cmp :: "'a::linorder \<Rightarrow> 'a \<Rightarrow> ordering" where
  "cmp a b = (if a < b then Less else if a = b then Equal else Greater)"

fun then_with :: "ordering \<Rightarrow> ordering \<Rightarrow> ordering" where
  "then_with Equal o2 = o2"
| "then_with o1 _ = o1"

lemma cmp_simps [simp]:
  "cmp a b = Less \<longleftrightarrow> a < b"
  "cmp a b = Equal \<longleftrightarrow> a = b"
  "cmp a b = Greater \<longleftrightarrow> b < a"
  by (auto simp: cmp_def)

lemma cmp_refl [simp]: "cmp a a = Equal"
  by (simp add: cmp_def)

section \<open>Panicking accessors of the standard library\<close>

text \<open>\<open>unwrap\<close> of the first or last element, and slice indexing.\<close>

definition list_first :: "'a list \<Rightarrow> 'a option" where
  "list_first xs = (case xs of [] \<Rightarrow> None | x # _ \<Rightarrow> Some x)"

definition list_last :: "'a list \<Rightarrow> 'a option" where
  "list_last xs = (if xs = [] then None else Some (last xs))"

definition list_get :: "'a list \<Rightarrow> nat \<Rightarrow> 'a option" where
  "list_get xs i = (if i < length xs then Some (xs ! i) else None)"

definition set_last :: "'a list \<Rightarrow> 'a \<Rightarrow> 'a list" where
  "set_last xs x = butlast xs @ [x]"

definition set_first :: "'a list \<Rightarrow> 'a \<Rightarrow> 'a list" where
  "set_first xs x = x # tl xs"

text \<open>An \<open>assert!\<close> is \<open>guard\<close>: it panics unless its condition holds.\<close>

definition assert_that :: "bool \<Rightarrow> unit option" where
  "assert_that b = (if b then Some () else None)"

lemma list_first_simps [simp]:
  "list_first [] = None" "list_first (x # xs) = Some x"
  by (simp_all add: list_first_def)

lemma list_last_simps [simp]:
  "list_last [] = None" "list_last (xs @ [x]) = Some x"
  by (simp_all add: list_last_def)

lemma list_last_nonempty: "xs \<noteq> [] \<Longrightarrow> list_last xs = Some (last xs)"
  by (simp add: list_last_def)

lemma list_first_nonempty: "xs \<noteq> [] \<Longrightarrow> list_first xs = Some (hd xs)"
  by (cases xs) simp_all

lemma list_get_simps [simp]:
  "list_get [] i = None" "list_get (x # xs) 0 = Some x"
  "list_get (x # xs) (Suc i) = list_get xs i"
  by (simp_all add: list_get_def)

lemma list_get_length [simp]: "list_get (xs @ y # ys) (length xs) = Some y"
  by (simp add: list_get_def)

lemma list_get_None [simp]: "list_get xs i = None \<longleftrightarrow> length xs \<le> i"
  by (auto simp: list_get_def)

lemma set_last_append [simp]: "set_last (xs @ [x]) y = xs @ [y]"
  by (simp add: set_last_def)

lemma set_first_Cons [simp]: "set_first (x # xs) y = y # xs"
  by (simp add: set_first_def)

lemma assert_that_simps [simp]:
  "assert_that True = Some ()" "assert_that False = None"
  by (simp_all add: assert_that_def)

lemma assert_that_eq_Some [simp]: "assert_that b = Some u \<longleftrightarrow> b"
  by (simp add: assert_that_def)

section \<open>Fixed-capacity vectors\<close>

text \<open>
  \<open>heapless::Vec<T, N>\<close> (imported as \<open>ArrayVec\<close>): \<open>push\<close> on a full vector is an
  error, which the callers unwrap (\<open>unwrap_oob\<close>), and \<open>extend\<close> or \<open>collect\<close> beyond
  the capacity panics.
\<close>

definition arr_push :: "nat \<Rightarrow> 'a list \<Rightarrow> 'a \<Rightarrow> 'a list option" where
  "arr_push n xs x = (if length xs < n then Some (xs @ [x]) else None)"

definition arr_extend :: "nat \<Rightarrow> 'a list \<Rightarrow> 'a list \<Rightarrow> 'a list option" where
  "arr_extend n xs ys = (if length xs + length ys \<le> n then Some (xs @ ys) else None)"

definition arr_collect :: "nat \<Rightarrow> 'a list \<Rightarrow> 'a list option" where
  "arr_collect n xs = (if length xs \<le> n then Some xs else None)"

definition arr_insert_front :: "nat \<Rightarrow> 'a list \<Rightarrow> 'a \<Rightarrow> 'a list option" where
  "arr_insert_front n xs x = (if length xs < n then Some (x # xs) else None)"

lemmas arr_defs = arr_push_def arr_extend_def arr_collect_def arr_insert_front_def

lemma arr_collect_map [simp]: "arr_collect n (map f xs) = map_option (map f) (arr_collect n xs)"
  by (simp add: arr_collect_def)

lemma arr_collect_take [simp]: "m \<le> n \<Longrightarrow> arr_collect n (take m xs) = Some (take m xs)"
  by (simp add: arr_collect_def)

lemma arr_collect_drop [simp]: "length xs - m \<le> n \<Longrightarrow> arr_collect n (drop m xs) = Some (drop m xs)"
  by (simp add: arr_collect_def)

text \<open>Splitting an over-full vector in the middle gives two non-empty halves that fit.\<close>

lemma midpoint_bounds:
  fixes n c :: nat
  assumes "c < n" "n \<le> 2 * c" "1 \<le> c"
  shows "0 < (n + n mod 2) div 2" "(n + n mod 2) div 2 < n"
    "(n + n mod 2) div 2 \<le> c" "n - (n + n mod 2) div 2 \<le> c"
  using assms by presburger+

lemma midpoint_ceil: "Suc n div 2 = (n + n mod 2) div 2"
  by presburger

section \<open>Chunks of a list\<close>

text \<open>The consecutive chunks of length \<open>n\<close>, the last one possibly shorter.\<close>

function chunks :: "nat \<Rightarrow> 'a list \<Rightarrow> 'a list list" where
  "chunks n xs = (if xs = [] \<or> n = 0 then [] else take n xs # chunks n (drop n xs))"
  by pat_completeness auto
termination
  by (relation "measure (\<lambda>(n, xs). length xs)") auto

declare chunks.simps [simp del]

lemma chunks_Nil [simp]: "chunks n [] = []"
  by (subst chunks.simps) simp

lemma chunks_nonempty: "xs \<noteq> [] \<Longrightarrow> 0 < n \<Longrightarrow> chunks n xs = take n xs # chunks n (drop n xs)"
  by (subst chunks.simps) simp

lemma concat_chunks: "0 < n \<Longrightarrow> concat (chunks n xs) = xs"
proof (induction n xs rule: chunks.induct)
  case (1 n xs)
  then show ?case
    by (cases "xs = []") (auto simp: chunks_nonempty)
qed

lemma chunks_element:
  "c \<in> set (chunks n xs) \<Longrightarrow> c \<noteq> [] \<and> length c \<le> n \<and> set c \<subseteq> set xs"
proof (induction n xs rule: chunks.induct)
  case (1 n xs)
  show ?case
  proof (cases "xs = [] \<or> n = 0")
    case True
    then show ?thesis using 1 by (subst (asm) chunks.simps) auto
  next
    case False
    then have "c = take n xs \<or> c \<in> set (chunks n (drop n xs))"
      using 1 by (subst (asm) chunks.simps) auto
    then show ?thesis
      using False 1 by (auto dest: in_set_takeD in_set_dropD)
  qed
qed

lemma chunks_eq_Nil [simp]: "0 < n \<Longrightarrow> chunks n xs = [] \<longleftrightarrow> xs = []"
  by (subst chunks.simps) simp

lemma length_chunks: "1 < n \<Longrightarrow> 1 < length xs \<Longrightarrow> length (chunks n xs) < length xs"
proof (induction n xs rule: chunks.induct)
  case (1 n xs)
  then have xs: "xs \<noteq> []" and n: "0 < n"
    by auto
  show ?case
  proof (cases "1 < length (drop n xs)")
    case True
    then show ?thesis
      using 1 xs n by (auto simp: chunks_nonempty)
  next
    case False
    then have "length (chunks n (drop n xs)) \<le> 1"
      using n by (cases "drop n xs") (auto simp: chunks_nonempty)
    moreover have "length (chunks n (drop n xs)) = 0" if "length xs = 2"
      using that 1 by simp
    ultimately show ?thesis
      using 1 xs n by (cases "length xs = 2") (auto simp: chunks_nonempty)
  qed
qed

section \<open>Generic lemmas\<close>

lemma concat_map_concat: "concat (map (\<lambda>c. concat (map f c)) cs) = concat (map f (concat cs))"
  by (induction cs) auto

lemma bind_eq_Some [simp]:
  "Option.bind m f = Some y \<longleftrightarrow> (\<exists>x. m = Some x \<and> f x = Some y)"
  by (cases m) auto

lemma option_eqI: "(\<And>n. a = Some n \<longleftrightarrow> b = Some n) \<Longrightarrow> a = b"
  by (cases a; cases b) auto

end
