(* ===== verification/SumTree.thy ===== *)
theory SumTree
  imports Prelude
begin

text \<open>
  The B+ tree of \<open>crates/sum_tree/src/sum_tree.rs\<close>: its nodes, the node accessors and the
  operations that build and join trees.  A tree stores items in its leaves; every node caches
  the sum of the summaries below it.  The \<open>Item\<close> and \<open>Summary\<close> trait implementations are a
  record of functions that every operation takes as its first argument; the summary context
  \<open>cx\<close> of the source is fixed in those functions.  \<open>Arc\<close> sharing and copy-on-write
  (\<open>Arc::make_mut\<close>) are invisible in a model with immutable trees: an operation that mutates
  its tree returns the new one.
\<close>

section \<open>Items, summaries and nodes\<close>

record ('t, 's) item_impl =
  item_summary :: "'t \<Rightarrow> 's"
  summary_zero :: 's
  add_summary :: "'s \<Rightarrow> 's \<Rightarrow> 's"

definition TREE_BASE :: nat where
  "TREE_BASE = 6"

abbreviation CAP :: nat where
  "CAP \<equiv> 2 * TREE_BASE"

datatype bias = Left | Right

fun bias_invert :: "bias \<Rightarrow> bias" where
  "bias_invert Left = Right"
| "bias_invert Right = Left"

datatype ('t, 's) sum_tree =
    Internal nat 's "'s list" "('t, 's) sum_tree list"
  | Leaf 's "'t list" "'s list"

fun node_is_leaf :: "('t, 's) sum_tree \<Rightarrow> bool" where
  "node_is_leaf (Leaf _ _ _) = True"
| "node_is_leaf (Internal _ _ _ _) = False"

fun node_height :: "('t, 's) sum_tree \<Rightarrow> nat" where
  "node_height (Internal h _ _ _) = h"
| "node_height (Leaf _ _ _) = 0"

fun node_summary :: "('t, 's) sum_tree \<Rightarrow> 's" where
  "node_summary (Internal _ s _ _) = s"
| "node_summary (Leaf s _ _) = s"

fun child_summaries :: "('t, 's) sum_tree \<Rightarrow> 's list" where
  "child_summaries (Internal _ _ css _) = css"
| "child_summaries (Leaf _ _ iss) = iss"

fun child_trees :: "('t, 's) sum_tree \<Rightarrow> ('t, 's) sum_tree list option" where
  "child_trees (Internal _ _ _ cts) = Some cts"
| "child_trees (Leaf _ _ _) = None"

fun node_items :: "('t, 's) sum_tree \<Rightarrow> 't list option" where
  "node_items (Leaf _ its _) = Some its"
| "node_items (Internal _ _ _ _) = None"

fun is_underflowing :: "('t, 's) sum_tree \<Rightarrow> bool" where
  "is_underflowing (Internal _ _ _ cts) \<longleftrightarrow> length cts < TREE_BASE"
| "is_underflowing (Leaf _ its _) \<longleftrightarrow> length its < TREE_BASE"

fun tree_is_empty :: "('t, 's) sum_tree \<Rightarrow> bool" where
  "tree_is_empty (Internal _ _ _ _) = False"
| "tree_is_empty (Leaf _ its _) \<longleftrightarrow> its = []"

definition summary_sum :: "('t, 's) item_impl \<Rightarrow> 's list \<Rightarrow> 's" where
  "summary_sum I ss = foldl (add_summary I) (summary_zero I) ss"

section \<open>Construction\<close>

definition tree_new :: "('t, 's) item_impl \<Rightarrow> ('t, 's) sum_tree" where
  "tree_new I = Leaf (summary_zero I) [] []"

definition tree_from_summary :: "'s \<Rightarrow> ('t, 's) sum_tree" where
  "tree_from_summary s = Leaf s [] []"

text \<open>
  The body of the first loop of \<open>from_iter\<close>: a leaf of at most \<open>2 * TREE_BASE\<close> items.  Its
  summary starts from the first item's summary, whose index panics on an empty chunk.
\<close>

definition leaf_of_chunk :: "('t, 's) item_impl \<Rightarrow> 't list \<Rightarrow> ('t, 's) sum_tree option" where
  "leaf_of_chunk I chunk = do {
     its \<leftarrow> arr_collect CAP chunk;
     let iss = map (item_summary I) its;
     s0 \<leftarrow> list_first iss;
     Some (Leaf (foldl (add_summary I) s0 (tl iss)) its iss) }"

fun collect_options :: "'a option list \<Rightarrow> 'a list option" where
  "collect_options [] = Some []"
| "collect_options (x # xs) = do { y \<leftarrow> x; ys \<leftarrow> collect_options xs; Some (y # ys) }"

text \<open>
  One round of the second loop of \<open>from_iter\<close>: the nodes of one level are pushed in order
  into parents (\<open>cur\<close> is \<open>current_parent_node\<close>, \<open>ps\<close> is \<open>parent_nodes\<close>); a parent that
  reaches \<open>2 * TREE_BASE\<close> children is moved to \<open>parent_nodes\<close>.
\<close>

fun group_nodes ::
  "('t, 's) item_impl \<Rightarrow> nat \<Rightarrow> ('t, 's) sum_tree option \<Rightarrow> ('t, 's) sum_tree list \<Rightarrow>
   ('t, 's) sum_tree list \<Rightarrow> ('t, 's) sum_tree list option" where
  "group_nodes I h cur ps [] = Some (ps @ (case cur of None \<Rightarrow> [] | Some p \<Rightarrow> [p]))"
| "group_nodes I h cur ps (c # cs) =
     (case (case cur of None \<Rightarrow> Internal h (summary_zero I) [] [] | Some p \<Rightarrow> p) of
        Leaf _ _ _ \<Rightarrow> None
      | Internal h' s css cts \<Rightarrow> do {
          css' \<leftarrow> arr_push CAP css (node_summary c);
          cts' \<leftarrow> arr_push CAP cts c;
          let p = Internal h' (add_summary I s (node_summary c)) css' cts';
          if length cts' = CAP then group_nodes I h None (ps @ [p]) cs
          else group_nodes I h (Some p) ps cs })"

lemma TREE_BASE_bounds [simp]: "0 < TREE_BASE" "1 < TREE_BASE" "TREE_BASE \<noteq> 0" "1 < CAP" "Suc 0 < CAP" "0 < CAP"
  by (simp_all add: TREE_BASE_def)

definition parent_of :: "('t, 's) item_impl \<Rightarrow> nat \<Rightarrow> ('t, 's) sum_tree list \<Rightarrow> ('t, 's) sum_tree" where
  "parent_of I h cs = Internal h (summary_sum I (map node_summary cs)) (map node_summary cs) cs"

lemma summary_sum_simps [simp]:
  "summary_sum I [] = summary_zero I"
  "summary_sum I (ss @ [s]) = add_summary I (summary_sum I ss) s"
  by (simp_all add: summary_sum_def)

lemma chunks_short: "xs \<noteq> [] \<Longrightarrow> length xs \<le> n \<Longrightarrow> chunks n xs = [xs]"
  by (subst chunks_nonempty) (auto simp: Suc_le_eq length_greater_0_conv [symmetric] simp del: length_greater_0_conv)

lemma chunks_full: "length xs = n \<Longrightarrow> 0 < n \<Longrightarrow> chunks n (xs @ ys) = xs # chunks n ys"
  by (subst chunks.simps) auto

lemma group_nodes_chunks:
  assumes "length cts < CAP"
  shows "group_nodes I h (if cts = [] then None else Some (parent_of I h cts)) ps cs =
         Some (ps @ map (parent_of I h) (chunks CAP (cts @ cs)))"
  using assms
proof (induction cs arbitrary: cts ps)
  case Nil
  then show ?case by (simp add: chunks_short)
next
  case (Cons c cs)
  let ?cur = "if cts = [] then None else Some (parent_of I h cts)"
  have cur: "(case ?cur of None \<Rightarrow> Internal h (summary_zero I) [] [] | Some p \<Rightarrow> p) = parent_of I h cts"
    by (simp add: parent_of_def)
  have step: "group_nodes I h ?cur ps (c # cs) =
      (if Suc (length cts) = CAP then group_nodes I h None (ps @ [parent_of I h (cts @ [c])]) cs
       else group_nodes I h (Some (parent_of I h (cts @ [c]))) ps cs)"
    unfolding group_nodes.simps(2) cur using Cons.prems
    by (simp add: parent_of_def arr_push_def)
  show ?case
  proof (cases "Suc (length cts) = CAP")
    case True
    have "chunks CAP (cts @ c # cs) = (cts @ [c]) # chunks CAP cs"
      using chunks_full [of "cts @ [c]" CAP cs] True by simp
    then show ?thesis
      using True Cons.IH [of "[]" "ps @ [parent_of I h (cts @ [c])]"] unfolding step by simp
  next
    case False
    then show ?thesis
      using Cons.prems Cons.IH [of "cts @ [c]" ps] unfolding step by simp
  qed
qed

lemma length_chunks_CAP [simp]: "Suc 0 < length xs \<Longrightarrow> length (chunks CAP xs) < length xs"
  by (rule length_chunks) simp_all

lemma group_nodes_eq: "group_nodes I h None [] cs = Some (map (parent_of I h) (chunks CAP cs))"
  using group_nodes_chunks [of "[]" I h "[]" cs] by simp

text \<open>The second loop of \<open>from_iter\<close>: levels are built until one node is left.\<close>

function build_levels ::
  "('t, 's) item_impl \<Rightarrow> nat \<Rightarrow> ('t, 's) sum_tree list \<Rightarrow> ('t, 's) sum_tree list option" where
  "build_levels I h nodes =
     (if 1 < length nodes
      then do { ps \<leftarrow> group_nodes I (Suc h) None [] nodes; build_levels I (Suc h) ps }
      else Some nodes)"
  by pat_completeness auto
termination
  by (relation "measure (\<lambda>(I, h, nodes). length nodes)") (auto simp: group_nodes_eq)

declare build_levels.simps [simp del]

definition from_iter :: "('t, 's) item_impl \<Rightarrow> 't list \<Rightarrow> ('t, 's) sum_tree option" where
  "from_iter I its = do {
     leaves \<leftarrow> collect_options (map (leaf_of_chunk I) (chunks CAP its));
     nodes \<leftarrow> build_levels I 0 leaves;
     if nodes = [] then Some (tree_new I) else list_last nodes }"

text \<open>
  \<open>from_par_iter\<close> maps over chunks in parallel; the chunks are independent, so the order of
  evaluation does not matter.  A parent's summary starts from its first child's summary here.
\<close>

definition par_parent :: "('t, 's) item_impl \<Rightarrow> nat \<Rightarrow> ('t, 's) sum_tree list \<Rightarrow> ('t, 's) sum_tree option" where
  "par_parent I h chunk = do {
     cts \<leftarrow> arr_collect CAP chunk;
     let css = map node_summary cts;
     s0 \<leftarrow> list_first css;
     Some (Internal h (foldl (add_summary I) s0 (tl css)) css cts) }"

lemma collect_options_map_Some [simp]: "collect_options (map (\<lambda>x. Some (f x)) xs) = Some (map f xs)"
  by (induction xs) simp_all

lemma length_collect_options: "collect_options xs = Some ys \<Longrightarrow> length ys = length xs"
  by (induction xs arbitrary: ys) auto

function build_levels_par ::
  "('t, 's) item_impl \<Rightarrow> nat \<Rightarrow> ('t, 's) sum_tree list \<Rightarrow> ('t, 's) sum_tree list option" where
  "build_levels_par I h nodes =
     (if 1 < length nodes
      then do { ps \<leftarrow> collect_options (map (par_parent I (Suc h)) (chunks CAP nodes));
                build_levels_par I (Suc h) ps }
      else Some nodes)"
  by pat_completeness auto
termination
  by (relation "measure (\<lambda>(I, h, nodes). length nodes)")
    (auto dest!: length_collect_options)

declare build_levels_par.simps [simp del]

definition from_par_iter :: "('t, 's) item_impl \<Rightarrow> 't list \<Rightarrow> ('t, 's) sum_tree option" where
  "from_par_iter I its = do {
     leaves \<leftarrow> collect_options (map (leaf_of_chunk I) (chunks CAP its));
     nodes \<leftarrow> build_levels_par I 0 leaves;
     if nodes = [] then Some (tree_new I) else list_last nodes }"

section \<open>Joining trees\<close>

definition from_child_trees ::
  "('t, 's) item_impl \<Rightarrow> ('t, 's) sum_tree \<Rightarrow> ('t, 's) sum_tree \<Rightarrow> ('t, 's) sum_tree option" where
  "from_child_trees I left right = do {
     css \<leftarrow> arr_push CAP [] (node_summary left);
     css \<leftarrow> arr_push CAP css (node_summary right);
     cts \<leftarrow> arr_push CAP [] left;
     cts \<leftarrow> arr_push CAP cts right;
     Some (Internal (node_height left + 1) (summary_sum I css) css cts) }"

lemma size_list_last [termination_simp]:
  "list_last cts = Some t \<Longrightarrow> size t < Suc (k + size_list size cts)"
  by (cases cts rule: rev_cases) (auto simp: size_list_append)

lemma size_list_first [termination_simp]:
  "list_first cts = Some t \<Longrightarrow> size t < Suc (k + size_list size cts)"
  by (cases cts) auto

text \<open>
  The second half of both arms of \<open>push_tree_recursive\<close>: the children to append are added to
  the node, which is split in the middle when they do not fit.  The result is the new node and
  the node split off to its right, if any.
\<close>

definition push_children ::
  "('t, 's) item_impl \<Rightarrow> nat \<Rightarrow> 's \<Rightarrow> 's list \<Rightarrow> ('t, 's) sum_tree list \<Rightarrow> 's list \<Rightarrow> ('t, 's) sum_tree list \<Rightarrow>
   (('t, 's) sum_tree \<times> ('t, 's) sum_tree option) option" where
  "push_children I h s css cts sums trees = do {
     let child_count = length cts + length trees;
     if CAP < child_count then do {
       let midpoint = (child_count + child_count mod 2) div 2;
       lss \<leftarrow> arr_collect CAP (take midpoint (css @ sums));
       rss \<leftarrow> arr_collect CAP (drop midpoint (css @ sums));
       lts \<leftarrow> arr_collect CAP (take midpoint (cts @ trees));
       rts \<leftarrow> arr_collect CAP (drop midpoint (cts @ trees));
       Some (Internal h (summary_sum I lss) lss lts,
             Some (Internal h (summary_sum I rss) rss rts)) }
     else do {
       css' \<leftarrow> arr_extend CAP css sums;
       cts' \<leftarrow> arr_extend CAP cts trees;
       Some (Internal h s css' cts', None) } }"

definition push_leaf_items ::
  "('t, 's) item_impl \<Rightarrow> 's \<Rightarrow> 't list \<Rightarrow> 's list \<Rightarrow> ('t, 's) sum_tree \<Rightarrow>
   (('t, 's) sum_tree \<times> ('t, 's) sum_tree option) option" where
  "push_leaf_items I s its iss other = do {
     oits \<leftarrow> node_items other;
     let child_count = length its + length oits;
     if CAP < child_count then do {
       let midpoint = (child_count + child_count mod 2) div 2;
       lits \<leftarrow> arr_collect CAP (take midpoint (its @ oits));
       rits \<leftarrow> arr_collect CAP (drop midpoint (its @ oits));
       lss \<leftarrow> arr_collect CAP (take midpoint (iss @ child_summaries other));
       rss \<leftarrow> arr_collect CAP (drop midpoint (iss @ child_summaries other));
       Some (Leaf (summary_sum I lss) lits lss, Some (Leaf (summary_sum I rss) rits rss)) }
     else do {
       its' \<leftarrow> arr_extend CAP its oits;
       iss' \<leftarrow> arr_extend CAP iss (child_summaries other);
       Some (Leaf (add_summary I s (node_summary other)) its' iss', None) } }"

text \<open>
  \<open>push_tree_recursive\<close>: the trees to append are the children of \<open>other\<close>, \<open>other\<close> itself or
  what the last child splits off.  The subtraction of heights is on \<open>u8\<close> in the source and
  must not underflow.
\<close>

fun push_tree_recursive ::
  "('t, 's) item_impl \<Rightarrow> ('t, 's) sum_tree \<Rightarrow> ('t, 's) sum_tree \<Rightarrow>
   (('t, 's) sum_tree \<times> ('t, 's) sum_tree option) option" where
  "push_tree_recursive I (Internal h s css cts) other = do {
     let s = add_summary I s (node_summary other);
     assert_that (node_height other \<le> h);
     let height_delta = h - node_height other;
     if height_delta = 0 then do {
       ots \<leftarrow> child_trees other;
       push_children I h s css cts (child_summaries other) ots }
     else if height_delta = 1 \<and> \<not> is_underflowing other then
       push_children I h s css cts [node_summary other] [other]
     else do {
       child \<leftarrow> list_last cts;
       (child', split) \<leftarrow> push_tree_recursive I child other;
       assert_that (css \<noteq> []);
       push_children I h s (set_last css (node_summary child')) (set_last cts child')
         (case split of None \<Rightarrow> [] | Some t \<Rightarrow> [node_summary t])
         (case split of None \<Rightarrow> [] | Some t \<Rightarrow> [t]) } }"
| "push_tree_recursive I (Leaf s its iss) other = push_leaf_items I s its iss other"

text \<open>
  \<open>merge_into_right\<close> puts \<open>small\<close> in front of \<open>large\<close>, a node of the same height, and returns
  the node split off to the left, if any, with the new \<open>large\<close>.
\<close>

fun merge_into_right ::
  "('t, 's) item_impl \<Rightarrow> ('t, 's) sum_tree \<Rightarrow> ('t, 's) sum_tree \<Rightarrow>
   (('t, 's) sum_tree option \<times> ('t, 's) sum_tree) option" where
  "merge_into_right I (Internal _ ss scss scts) (Internal h s css cts) = do {
     let total_child_count = length cts + length scts;
     if total_child_count \<le> CAP then do {
       cts' \<leftarrow> arr_extend CAP scts cts;
       css' \<leftarrow> arr_extend CAP scss css;
       Some (None, Internal h (add_summary I ss s) css' cts') }
     else do {
       let midpoint = (total_child_count + 1) div 2;
       lts \<leftarrow> arr_collect CAP (take midpoint (scts @ cts));
       rts \<leftarrow> arr_collect CAP (drop midpoint (scts @ cts));
       lss \<leftarrow> arr_collect CAP (take midpoint (scss @ css));
       rss \<leftarrow> arr_collect CAP (drop midpoint (scss @ css));
       Some (Some (Internal h (summary_sum I lss) lss lts), Internal h (summary_sum I rss) rss rts) } }"
| "merge_into_right I (Leaf ss sits siss) (Leaf s its iss) = do {
     let total_child_count = length sits + length its;
     if total_child_count \<le> CAP then do {
       its' \<leftarrow> arr_extend CAP sits its;
       iss' \<leftarrow> arr_extend CAP siss iss;
       Some (None, Leaf (add_summary I ss s) its' iss') }
     else do {
       let midpoint = (total_child_count + 1) div 2;
       lits \<leftarrow> arr_collect CAP (take midpoint (sits @ its));
       rits \<leftarrow> arr_collect CAP (drop midpoint (sits @ its));
       lss \<leftarrow> arr_collect CAP (take midpoint (siss @ iss));
       rss \<leftarrow> arr_collect CAP (drop midpoint (siss @ iss));
       Some (Some (Leaf (summary_sum I lss) lits lss), Leaf (summary_sum I rss) rits rss) } }"
| "merge_into_right I _ _ = None"

text \<open>
  \<open>append_large\<close> prepends \<open>small\<close> to the left spine of \<open>large\<close>; it returns the tree that did
  not fit, if any, with the new \<open>large\<close>.
\<close>

function append_large ::
  "('t, 's) item_impl \<Rightarrow> ('t, 's) sum_tree \<Rightarrow> ('t, 's) sum_tree \<Rightarrow>
   (('t, 's) sum_tree option \<times> ('t, 's) sum_tree) option" where
  "append_large I small large =
     (if node_height small = node_height large then
        (if \<not> is_underflowing small then Some (Some small, large)
         else merge_into_right I small large)
      else case large of
        Leaf _ _ _ \<Rightarrow> None
      | Internal h s css cts \<Rightarrow> do {
          let s' = add_summary I (node_summary small) s;
          first \<leftarrow> list_first cts;
          (res, first') \<leftarrow> append_large I small first;
          assert_that (css \<noteq> []);
          let css = set_first css (node_summary first');
          let cts = set_first cts first';
          (case res of
             None \<Rightarrow> Some (None, Internal h s' css cts)
           | Some tree \<Rightarrow>
               if length cts < CAP then do {
                 css' \<leftarrow> arr_insert_front CAP css (node_summary tree);
                 cts' \<leftarrow> arr_insert_front CAP cts tree;
                 Some (None, Internal h s' css' cts') }
               else do {
                 lss \<leftarrow> arr_extend CAP [node_summary tree] (take TREE_BASE css);
                 lts \<leftarrow> arr_extend CAP [tree] (take TREE_BASE cts);
                 let rss = drop TREE_BASE css;
                 Some (Some (Internal h (summary_sum I lss) lss lts),
                       Internal h (summary_sum I rss) rss (drop TREE_BASE cts)) }) })"
  by pat_completeness auto
termination
  by (relation "measure (\<lambda>(I, small, large). size large)") (auto simp: size_list_first)

declare append_large.simps [simp del]

definition tree_append :: 
  "('t, 's) item_impl \<Rightarrow> ('t, 's) sum_tree \<Rightarrow> ('t, 's) sum_tree \<Rightarrow> ('t, 's) sum_tree option" where
  "tree_append I self other =
     (if tree_is_empty self then Some other
      else if \<not> node_is_leaf other \<or> node_items other \<noteq> Some [] then
        (if node_height self < node_height other then do {
           (res, other') \<leftarrow> append_large I self other;
           (case res of
              Some tree \<Rightarrow> from_child_trees I tree other'
            | None \<Rightarrow> Some other') }
         else do {
           (self', split) \<leftarrow> push_tree_recursive I self other;
           (case split of
              Some split_tree \<Rightarrow> from_child_trees I self' split_tree
            | None \<Rightarrow> Some self') })
      else Some self)"

definition tree_push :: "('t, 's) item_impl \<Rightarrow> ('t, 's) sum_tree \<Rightarrow> 't \<Rightarrow> ('t, 's) sum_tree option" where
  "tree_push I self item =
     (let s = item_summary I item in tree_append I self (Leaf s [item] [s]))"

definition tree_extend :: "('t, 's) item_impl \<Rightarrow> ('t, 's) sum_tree \<Rightarrow> 't list \<Rightarrow> ('t, 's) sum_tree option" where
  "tree_extend I self its = do { other \<leftarrow> from_iter I its; tree_append I self other }"

definition par_extend :: "('t, 's) item_impl \<Rightarrow> ('t, 's) sum_tree \<Rightarrow> 't list \<Rightarrow> ('t, 's) sum_tree option" where
  "par_extend I self its = do { other \<leftarrow> from_par_iter I its; tree_append I self other }"

definition from_item :: "('t, 's) item_impl \<Rightarrow> 't \<Rightarrow> ('t, 's) sum_tree option" where
  "from_item I item = tree_push I (tree_new I) item"

section \<open>First and last items\<close>

fun leftmost_leaf :: "('t, 's) sum_tree \<Rightarrow> ('t, 's) sum_tree option" where
  "leftmost_leaf (Leaf s its iss) = Some (Leaf s its iss)"
| "leftmost_leaf (Internal _ _ _ cts) = do { t \<leftarrow> list_first cts; leftmost_leaf t }"

fun rightmost_leaf :: "('t, 's) sum_tree \<Rightarrow> ('t, 's) sum_tree option" where
  "rightmost_leaf (Leaf s its iss) = Some (Leaf s its iss)"
| "rightmost_leaf (Internal _ _ _ cts) = do { t \<leftarrow> list_last cts; rightmost_leaf t }"

text \<open>The outer option is a panic, the inner one the value the source returns.\<close>

definition tree_first :: "('t, 's) sum_tree \<Rightarrow> 't option option" where
  "tree_first t = do { leaf \<leftarrow> leftmost_leaf t; its \<leftarrow> node_items leaf; Some (list_first its) }"

definition tree_last :: "('t, 's) sum_tree \<Rightarrow> 't option option" where
  "tree_last t = do { leaf \<leftarrow> rightmost_leaf t; its \<leftarrow> node_items leaf; Some (list_last its) }"

definition last_summary :: "('t, 's) sum_tree \<Rightarrow> 's option option" where
  "last_summary t = do { leaf \<leftarrow> rightmost_leaf t; Some (list_last (child_summaries leaf)) }"

text \<open>
  \<open>update_last_recursive\<close> returns the new tree and the source's result: the new summary, or
  \<open>None\<close> for an empty leaf, which the caller one level up unwraps.
\<close>

fun update_last_recursive ::
  "('t, 's) item_impl \<Rightarrow> ('t \<Rightarrow> 't) \<Rightarrow> ('t, 's) sum_tree \<Rightarrow> (('t, 's) sum_tree \<times> 's option) option" where
  "update_last_recursive I f (Internal h s css cts) = do {
     assert_that (css \<noteq> []);
     child \<leftarrow> list_last cts;
     (child', res) \<leftarrow> update_last_recursive I f child;
     last_summary \<leftarrow> res;
     let css' = set_last css last_summary;
     let s' = summary_sum I css';
     Some (Internal h s' css' (set_last cts child'), Some s') }"
| "update_last_recursive I f (Leaf s its iss) =
     (if its \<noteq> [] \<and> iss \<noteq> [] then
        let item = f (last its);
            iss' = set_last iss (item_summary I item);
            s' = summary_sum I iss'
        in Some (Leaf s' (set_last its item) iss', Some s')
      else Some (Leaf s its iss, None))"

fun update_first_recursive ::
  "('t, 's) item_impl \<Rightarrow> ('t \<Rightarrow> 't) \<Rightarrow> ('t, 's) sum_tree \<Rightarrow> (('t, 's) sum_tree \<times> 's option) option" where
  "update_first_recursive I f (Internal h s css cts) = do {
     assert_that (css \<noteq> []);
     child \<leftarrow> list_first cts;
     (child', res) \<leftarrow> update_first_recursive I f child;
     first_summary \<leftarrow> res;
     let css' = set_first css first_summary;
     let s' = summary_sum I css';
     Some (Internal h s' css' (set_first cts child'), Some s') }"
| "update_first_recursive I f (Leaf s its iss) =
     (if its \<noteq> [] \<and> iss \<noteq> [] then
        let item = f (hd its);
            iss' = set_first iss (item_summary I item);
            s' = summary_sum I iss'
        in Some (Leaf s' (set_first its item) iss', Some s')
      else Some (Leaf s its iss, None))"

definition update_last :: "('t, 's) item_impl \<Rightarrow> ('t \<Rightarrow> 't) \<Rightarrow> ('t, 's) sum_tree \<Rightarrow> ('t, 's) sum_tree option" where
  "update_last I f t = map_option fst (update_last_recursive I f t)"

definition update_first :: "('t, 's) item_impl \<Rightarrow> ('t \<Rightarrow> 't) \<Rightarrow> ('t, 's) sum_tree \<Rightarrow> ('t, 's) sum_tree option" where
  "update_first I f t = map_option fst (update_first_recursive I f t)"

end
