(* ===== verification/SumTree_Correct.thy ===== *)
theory SumTree_Correct
  imports SumTree
begin

text \<open>
  The contract of \<open>SumTree\<close>.  A tree is well-formed when its nodes hold at most
  \<open>2 * TREE_BASE\<close> entries, all leaves are at the same depth, no inner node has an empty
  subtree, and every cached summary is the sum of the summaries below it.  Its abstract value
  is the list of its items.  For summaries whose addition is associative with \<open>zero\<close> as a left
  unit, every operation is shown to return (no index, capacity or \<open>unwrap\<close> panic), to keep
  trees well-formed and to act on the list of items as its name says.
\<close>

section \<open>Invariant and abstraction\<close>

fun tree_items :: "('t, 's) sum_tree \<Rightarrow> 't list" where
  "tree_items (Leaf _ its _) = its"
| "tree_items (Internal _ _ _ cts) = concat (map tree_items cts)"

fun wf_tree :: "('t, 's) item_impl \<Rightarrow> ('t, 's) sum_tree \<Rightarrow> bool" where
  "wf_tree I (Leaf s its iss) \<longleftrightarrow>
     length its \<le> CAP \<and> iss = map (item_summary I) its \<and> s = summary_sum I iss"
| "wf_tree I (Internal h s css cts) \<longleftrightarrow>
     cts \<noteq> [] \<and> length cts \<le> CAP \<and> css = map node_summary cts \<and> s = summary_sum I css \<and>
     (\<forall>t \<in> set cts. wf_tree I t \<and> Suc (node_height t) = h \<and> \<not> tree_is_empty t)"

abbreviation items_summary :: "('t, 's) item_impl \<Rightarrow> 't list \<Rightarrow> 's" where
  "items_summary I its \<equiv> summary_sum I (map (item_summary I) its)"

definition right_split_ok ::
  "('t, 's) item_impl \<Rightarrow> nat \<Rightarrow> 't list \<Rightarrow> ('t, 's) sum_tree \<Rightarrow> ('t, 's) sum_tree option \<Rightarrow> bool" where
  "right_split_ok I h xs t sp \<longleftrightarrow>
     wf_tree I t \<and> node_height t = h \<and> \<not> tree_is_empty t \<and>
     (case sp of None \<Rightarrow> tree_items t = xs
      | Some u \<Rightarrow> wf_tree I u \<and> node_height u = h \<and> \<not> tree_is_empty u \<and> tree_items t @ tree_items u = xs)"

definition left_split_ok ::
  "('t, 's) item_impl \<Rightarrow> nat \<Rightarrow> 't list \<Rightarrow> ('t, 's) sum_tree option \<Rightarrow> ('t, 's) sum_tree \<Rightarrow> bool" where
  "left_split_ok I h xs sp t \<longleftrightarrow>
     wf_tree I t \<and> node_height t = h \<and> \<not> tree_is_empty t \<and>
     (case sp of None \<Rightarrow> tree_items t = xs
      | Some u \<Rightarrow> wf_tree I u \<and> node_height u = h \<and> \<not> tree_is_empty u \<and> tree_items u @ tree_items t = xs)"

lemma tree_items_eq_Nil [simp]: "wf_tree I t \<Longrightarrow> tree_items t = [] \<longleftrightarrow> tree_is_empty t"
proof (induction t)
  case (Internal h s css cts)
  then show ?case by (cases cts) auto
qed simp

lemma height_pos_child: "wf_tree I (Internal h s css cts) \<Longrightarrow> 0 < h"
  by (cases cts) auto

lemma height_zero_leaf: "wf_tree I t \<Longrightarrow> node_height t = 0 \<longleftrightarrow> node_is_leaf t"
  using height_pos_child [of I] by (cases t) (auto simp del: wf_tree.simps)

section \<open>Summaries\<close>

text \<open>
  The summaries that are added in a tree are sums of the summaries of one or more items; the laws of a
  summary type need to hold for those only.  Nothing is asked of a sum whose second part is zero: no
  operation adds the summary of an empty part.
\<close>

inductive_set summaries :: "('t, 's) item_impl \<Rightarrow> 's set" for I :: "('t, 's) item_impl" where
  item_summary [simp, intro]: "item_summary I x \<in> summaries I"
| add_summary [simp, intro]: "a \<in> summaries I \<Longrightarrow> b \<in> summaries I \<Longrightarrow> add_summary I a b \<in> summaries I"


lemma summaries_items [simp]: "set (map (item_summary I) xs) \<subseteq> summaries I" "item_summary I ` X \<subseteq> summaries I"
  by auto

locale summary_monoid =
  fixes I :: "('t, 's) item_impl"
  assumes add_assoc: "a \<in> summaries I \<Longrightarrow> b \<in> summaries I \<Longrightarrow> c \<in> summaries I \<Longrightarrow>
      add_summary I (add_summary I a b) c = add_summary I a (add_summary I b c)"
    and zero_left: "a \<in> summaries I \<Longrightarrow> add_summary I (summary_zero I) a = a"
begin

lemma summaries_sum [simp]: "set ss \<subseteq> summaries I \<Longrightarrow> ss \<noteq> [] \<Longrightarrow> summary_sum I ss \<in> summaries I"
proof (induction ss rule: rev_induct)
  case (snoc s ss)
  then show ?case using summary_sum_simps(2) [of I "[]" s] by (cases "ss = []") (auto simp: zero_left)
qed simp

lemma summaries_node [simp]: "wf_tree I t \<Longrightarrow> \<not> tree_is_empty t \<Longrightarrow> node_summary t \<in> summaries I"
  by (induction t) (auto intro!: summaries_sum)

lemma summaries_nodes: "\<forall>t \<in> set ts. wf_tree I t \<and> \<not> tree_is_empty t \<Longrightarrow> set (map node_summary ts) \<subseteq> summaries I"
  by auto

lemma sum_append:
  assumes "ys \<noteq> []" "set xs \<subseteq> summaries I" "set ys \<subseteq> summaries I"
  shows "summary_sum I (xs @ ys) = add_summary I (summary_sum I xs) (summary_sum I ys)"
  using assms
proof (induction ys rule: rev_induct)
  case (snoc y ys)
  show ?case
  proof (cases "ys = []")
    case True
    then show ?thesis
      using snoc.prems summary_sum_simps(2) [of I "[]" y] by (simp add: zero_left)
  next
    case False
    then show ?thesis
      using snoc.IH snoc.prems by (cases "xs = []") (simp_all flip: append_assoc add: add_assoc zero_left)
  qed
qed simp

lemma sum_single [simp]: "s \<in> summaries I \<Longrightarrow> summary_sum I [s] = s"
  using summary_sum_simps(2) [of I "[]" s] by (simp add: zero_left)

lemma sum_pair [simp]: "s \<in> summaries I \<Longrightarrow> t \<in> summaries I \<Longrightarrow> summary_sum I [s, t] = add_summary I s t"
  using sum_append [of "[t]" "[s]"] by simp

lemma sum_from_first: "s \<in> summaries I \<Longrightarrow> foldl (add_summary I) s ss = summary_sum I (s # ss)"
  by (simp add: summary_sum_def zero_left)

lemma items_append: "ys \<noteq> [] \<Longrightarrow> items_summary I (xs @ ys) = add_summary I (items_summary I xs) (items_summary I ys)"
  by (simp add: sum_append)

lemma sum_children:
  assumes "\<forall>t \<in> set ts. node_summary t = items_summary I (tree_items t) \<and> tree_items t \<noteq> []"
  shows "summary_sum I (map node_summary ts) = items_summary I (concat (map tree_items ts))"
  using assms by (induction ts rule: rev_induct) (auto simp: sum_append items_append)

lemma wf_summary: "wf_tree I t \<Longrightarrow> node_summary t = items_summary I (tree_items t)"
proof (induction t)
  case (Internal h s css cts)
  then have "\<forall>t \<in> set cts. node_summary t = items_summary I (tree_items t) \<and> tree_items t \<noteq> []"
    by auto
  from sum_children [OF this] Internal.prems show ?case by simp
qed simp

lemma sum_wf_children:
  assumes "\<forall>t \<in> set ts. wf_tree I t \<and> \<not> tree_is_empty t"
  shows "summary_sum I (map node_summary ts) = items_summary I (concat (map tree_items ts))"
  using assms by (intro sum_children) (auto simp: wf_summary)

section \<open>Pushing a tree to the right\<close>

lemma push_children_ok:
  assumes ok: "\<forall>t \<in> set (cts @ trees). wf_tree I t \<and> Suc (node_height t) = h \<and> \<not> tree_is_empty t"
    and len: "cts \<noteq> []" "length cts \<le> CAP" "length trees \<le> CAP"
    and s: "s = items_summary I (concat (map tree_items (cts @ trees)))"
  shows "\<exists>t sp. push_children I h s (map node_summary cts) cts (map node_summary trees) trees = Some (t, sp)
    \<and> right_split_ok I h (concat (map tree_items (cts @ trees))) t sp"
proof (cases "CAP < length cts + length trees")
  case True
  let ?all = "cts @ trees"
  let ?n = "length cts + length trees"
  define m where "m = (?n + ?n mod 2) div 2"
  have m: "0 < m" "m < length ?all" "m \<le> CAP" "length ?all - m \<le> CAP"
    unfolding m_def using midpoint_bounds [of CAP ?n] True len by auto
  have parts: "\<forall>t \<in> set (take m ?all) \<union> set (drop m ?all).
      wf_tree I t \<and> Suc (node_height t) = h \<and> \<not> tree_is_empty t"
    using ok by (auto dest: in_set_takeD in_set_dropD)
  have "push_children I h s (map node_summary cts) cts (map node_summary trees) trees =
      Some (parent_of I h (take m ?all), Some (parent_of I h (drop m ?all)))"
    unfolding push_children_def Let_def m_def [symmetric] using True m
    by (simp add: parent_of_def take_map drop_map
        flip: map_append del: take_append drop_append)
  moreover have "right_split_ok I h (concat (map tree_items ?all))
      (parent_of I h (take m ?all)) (Some (parent_of I h (drop m ?all)))"
    using parts m
    by (auto simp: right_split_ok_def parent_of_def simp flip: concat_append map_append
        simp del: take_append drop_append)
  ultimately show ?thesis by blast
next
  case False
  have "s = summary_sum I (map node_summary (cts @ trees))"
    unfolding s by (rule sum_wf_children [symmetric]) (use ok in blast)
  then show ?thesis
    using False ok len
    by (auto simp: push_children_def arr_extend_def right_split_ok_def)
qed

lemma push_leaf_items_ok:
  assumes t: "wf_tree I (Leaf s its iss)" "its \<noteq> []"
    and u: "wf_tree I (Leaf os oits oiss)" "oits \<noteq> []"
  shows "\<exists>t' sp. push_leaf_items I s its iss (Leaf os oits oiss) = Some (t', sp)
    \<and> right_split_ok I 0 (its @ oits) t' sp"
proof (cases "CAP < length its + length oits")
  case True
  let ?all = "its @ oits"
  let ?n = "length its + length oits"
  define m where "m = (?n + ?n mod 2) div 2"
  let ?leaf = "\<lambda>xs. Leaf (items_summary I xs) xs (map (item_summary I) xs)"
  have m: "0 < m" "m < length ?all" "m \<le> CAP" "length ?all - m \<le> CAP"
    unfolding m_def using midpoint_bounds [of CAP ?n] True t u by auto
  have "push_leaf_items I s its iss (Leaf os oits oiss) =
      Some (?leaf (take m ?all), Some (?leaf (drop m ?all)))"
    unfolding push_leaf_items_def using True m t u
    by (simp add: Let_def m_def [symmetric] take_map drop_map
        flip: map_append del: take_append drop_append)
  moreover have "right_split_ok I 0 ?all (?leaf (take m ?all)) (Some (?leaf (drop m ?all)))"
    using m t by (simp add: right_split_ok_def del: take_append drop_append)
  ultimately show ?thesis by blast
next
  case False
  then show ?thesis
    using t u by (simp add: push_leaf_items_def arr_extend_def right_split_ok_def sum_append)
qed

lemma right_split_ok_children:
  assumes "right_split_ok I h xs t sp"
  shows "\<forall>c \<in> set (t # (case sp of None \<Rightarrow> [] | Some u \<Rightarrow> [u])).
      wf_tree I c \<and> node_height c = h \<and> \<not> tree_is_empty c"
    and "concat (map tree_items (t # (case sp of None \<Rightarrow> [] | Some u \<Rightarrow> [u]))) = xs"
  using assms by (auto simp: right_split_ok_def split: option.splits)

lemma push_tree_recursive_ok:
  assumes "wf_tree I t" "\<not> tree_is_empty t" "wf_tree I u" "\<not> tree_is_empty u"
    and "node_height u \<le> node_height t"
  shows "\<exists>t' sp. push_tree_recursive I t u = Some (t', sp)
    \<and> right_split_ok I (node_height t) (tree_items t @ tree_items u) t' sp"
  using assms
proof (induction t)
  case (Leaf s its iss)
  then obtain os oits oiss where "u = Leaf os oits oiss"
    by (cases u) (auto dest: height_pos_child)
  then show ?case
    using Leaf push_leaf_items_ok by auto
next
  case (Internal h s css cts)
  note wf = Internal.prems(1) and u = Internal.prems(3,4)
  have h: "node_height u \<le> h" and css: "css = map node_summary cts"
    using Internal.prems by auto
  have s: "add_summary I s (node_summary u) = items_summary I (concat (map tree_items cts) @ tree_items u)"
    using wf_summary [OF wf] wf_summary [OF u(1)] u by (simp add: sum_append)
  have kids: "\<forall>t \<in> set cts. wf_tree I t \<and> Suc (node_height t) = h \<and> \<not> tree_is_empty t"
    "cts \<noteq> []" "length cts \<le> CAP"
    using wf by auto
  consider (same) "h = node_height u" | (fits) "h - node_height u = 1" "\<not> is_underflowing u"
    | (deep) "node_height u < h" "\<not> (h - node_height u = 1 \<and> \<not> is_underflowing u)"
    using h by linarith
  then show ?case
  proof cases
    case same
    then obtain us uss ucts where U: "u = Internal h us uss ucts"
      using height_pos_child [OF wf] by (cases u) auto
    show ?thesis
      using push_children_ok [of cts ucts h "add_summary I s (node_summary u)"] kids u U s css
      by auto
  next
    case fits
    then have "Suc (node_height u) = h" "Suc 0 \<le> CAP"
      by (auto simp: TREE_BASE_def)
    then show ?thesis
      using fits push_children_ok [of cts "[u]" h "add_summary I s (node_summary u)"] kids u s css h
      by auto
  next
    case deep
    obtain bs c where cts: "cts = bs @ [c]"
      using kids(2) by (cases cts rule: rev_cases) auto
    have "node_height u \<le> node_height c"
      using deep kids cts by auto
    then obtain c' sp where rec: "push_tree_recursive I c u = Some (c', sp)"
      and ok: "right_split_ok I (node_height c) (tree_items c @ tree_items u) c' sp"
      using Internal.IH [of c] kids cts u by auto
    let ?sp = "case sp of None \<Rightarrow> [] | Some t \<Rightarrow> [t]"
    have *: "push_tree_recursive I (Internal h s css cts) u =
      push_children I h (add_summary I s (node_summary u)) (map node_summary (bs @ [c'])) (bs @ [c'])
        (map node_summary ?sp) ?sp"
      using rec deep cts h css by (auto simp: Let_def split: option.splits)
    have sub: "\<forall>t \<in> set ((bs @ [c']) @ ?sp). wf_tree I t \<and> Suc (node_height t) = h \<and> \<not> tree_is_empty t"
      using right_split_ok_children(1) [OF ok] kids cts by auto
    have its: "concat (map tree_items ((bs @ [c']) @ ?sp)) = concat (map tree_items cts) @ tree_items u"
      using right_split_ok_children(2) [OF ok] cts by simp
    have sp: "bs @ [c'] \<noteq> []" "length (bs @ [c']) \<le> CAP" "length ?sp \<le> CAP"
      using kids(3) cts by (auto simp: TREE_BASE_def split: option.splits)
    have "add_summary I s (node_summary u) = items_summary I (concat (map tree_items ((bs @ [c']) @ ?sp)))"
      unfolding its by (rule s)
    from push_children_ok [OF sub sp this] show ?thesis
      unfolding * its by simp
  qed
qed

section \<open>Pushing a tree to the left\<close>

lemma merge_into_right_ok:
  assumes t: "wf_tree I t" "\<not> tree_is_empty t" and u: "wf_tree I u" "\<not> tree_is_empty u"
    and h: "node_height t = node_height u"
  shows "\<exists>sp u'. merge_into_right I t u = Some (sp, u')
    \<and> left_split_ok I (node_height u) (tree_items t @ tree_items u) sp u'"
proof (cases u)
  case (Leaf s its iss)
  then obtain ss sits siss where T: "t = Leaf ss sits siss"
    using t h by (cases t) (auto dest: height_pos_child)
  let ?n = "length sits + length its"
  define m where "m = Suc ?n div 2"
  let ?leaf = "\<lambda>xs. Leaf (items_summary I xs) xs (map (item_summary I) xs)"
  show ?thesis
  proof (cases "?n \<le> CAP")
    case True
    then show ?thesis
      using t u T Leaf by (simp add: Let_def arr_extend_def left_split_ok_def sum_append)
  next
    case False
    have m: "0 < m" "m < length (sits @ its)" "m \<le> CAP" "length (sits @ its) - m \<le> CAP"
      unfolding m_def midpoint_ceil using midpoint_bounds [of CAP ?n] False t u T Leaf by auto
    have "merge_into_right I t u = Some (Some (?leaf (take m (sits @ its))), ?leaf (drop m (sits @ its)))"
      using False m t u T Leaf
      by (simp add: Let_def m_def [symmetric] take_map drop_map flip: map_append
          del: take_append drop_append)
    moreover have "left_split_ok I 0 (sits @ its)
        (Some (?leaf (take m (sits @ its)))) (?leaf (drop m (sits @ its)))"
      using m t T by (simp add: left_split_ok_def del: take_append drop_append)
    ultimately show ?thesis
      using T Leaf by auto
  qed
next
  case (Internal h' s css cts)
  then obtain ss scss scts where T: "t = Internal h' ss scss scts"
    using u h height_pos_child by (cases t) auto
  let ?n = "length cts + length scts"
  define m where "m = Suc ?n div 2"
  have kids: "\<forall>c \<in> set (scts @ cts). wf_tree I c \<and> Suc (node_height c) = h' \<and> \<not> tree_is_empty c"
    using t u T Internal by auto
  show ?thesis
  proof (cases "?n \<le> CAP")
    case True
    have "add_summary I ss s = summary_sum I (map node_summary (scts @ cts))"
      using t u T Internal summaries_nodes [of scts] summaries_nodes [of cts] by (simp add: sum_append)
    then show ?thesis
      using t u T Internal True kids
      by (auto simp: Let_def arr_extend_def left_split_ok_def)
  next
    case False
    have m: "0 < m" "m < length (scts @ cts)" "m \<le> CAP" "length (scts @ cts) - m \<le> CAP"
      unfolding m_def midpoint_ceil using midpoint_bounds [of CAP ?n] False t u T Internal by auto
    have parts: "\<forall>c \<in> set (take m (scts @ cts)) \<union> set (drop m (scts @ cts)).
        wf_tree I c \<and> Suc (node_height c) = h' \<and> \<not> tree_is_empty c"
      using kids by (auto dest: in_set_takeD in_set_dropD)
    have "merge_into_right I t u =
        Some (Some (parent_of I h' (take m (scts @ cts))), parent_of I h' (drop m (scts @ cts)))"
      using False m t u T Internal
      by (simp add: Let_def m_def [symmetric] parent_of_def take_map drop_map flip: map_append
          del: take_append drop_append)
    moreover have "left_split_ok I h' (concat (map tree_items (scts @ cts)))
        (Some (parent_of I h' (take m (scts @ cts)))) (parent_of I h' (drop m (scts @ cts)))"
      using m parts
      by (auto simp: left_split_ok_def parent_of_def simp flip: concat_append map_append
          simp del: take_append drop_append)
    ultimately show ?thesis
      using T Internal by auto
  qed
qed

lemma append_large_ok:
  assumes "wf_tree I t" "\<not> tree_is_empty t" "wf_tree I u" "\<not> tree_is_empty u"
    and "node_height t \<le> node_height u"
  shows "\<exists>sp u'. append_large I t u = Some (sp, u')
    \<and> left_split_ok I (node_height u) (tree_items t @ tree_items u) sp u'"
  using assms
proof (induction u)
  case (Leaf s its iss)
  then have "node_height t = 0" by simp
  then show ?case
    using Leaf merge_into_right_ok [of t "Leaf s its iss"]
    by (subst append_large.simps) (auto simp: left_split_ok_def)
next
  case (Internal h s css cts)
  note wf = Internal.prems(3) and t = Internal.prems(1,2)
  show ?case
  proof (cases "node_height t = h")
    case True
    then show ?thesis
      using Internal.prems merge_into_right_ok [of t "Internal h s css cts"]
      by (subst append_large.simps) (auto simp: left_split_ok_def)
  next
    case False
    obtain c cs where cts: "cts = c # cs"
      using wf by (cases cts) auto
    have kids: "\<forall>t \<in> set cts. wf_tree I t \<and> Suc (node_height t) = h \<and> \<not> tree_is_empty t"
      using wf by auto
    then obtain sp c' where rec: "append_large I t c = Some (sp, c')"
      and ok: "left_split_ok I (node_height c) (tree_items t @ tree_items c) sp c'"
      using Internal.IH [of c] Internal.prems False cts by fastforce
    let ?all = "(case sp of None \<Rightarrow> [] | Some u \<Rightarrow> [u]) @ c' # cs"
    have sub: "\<forall>t \<in> set ?all. wf_tree I t \<and> Suc (node_height t) = h \<and> \<not> tree_is_empty t"
      using kids ok cts by (auto simp: left_split_ok_def split: option.splits)
    have its: "concat (map tree_items ?all) = tree_items t @ concat (map tree_items cts)"
      using ok cts by (auto simp: left_split_ok_def split: option.splits)
    have "add_summary I (node_summary t) s = items_summary I (tree_items t @ concat (map tree_items cts))"
      using wf_summary [OF wf] tree_items_eq_Nil [OF wf] by (simp add: wf_summary [OF t(1)] sum_append)
    then have s: "add_summary I (node_summary t) s = summary_sum I (map node_summary ?all)"
      unfolding its [symmetric] using sum_wf_children [of ?all] sub by simp
    show ?thesis
    proof (cases "sp = None \<or> length cts < CAP")
      case True
      have "append_large I t (Internal h s css cts) =
          Some (None, Internal h (summary_sum I (map node_summary ?all)) (map node_summary ?all) ?all)"
        using True rec False wf s cts
        by (subst append_large.simps) (auto simp: Let_def arr_insert_front_def split: option.splits)
      then show ?thesis
        using sub its True cts wf
        by (auto simp: left_split_ok_def split: option.splits)
    next
      case no: False
      then obtain u where sp: "sp = Some u" by auto
      have len: "length cts = CAP"
        using no wf by auto
      have "append_large I t (Internal h s css cts) =
          Some (Some (parent_of I h (u # take TREE_BASE (c' # cs))), parent_of I h (drop TREE_BASE (c' # cs)))"
        using len sp rec False wf cts
        by (subst append_large.simps)
          (simp add: Let_def arr_extend_def parent_of_def TREE_BASE_def take_map drop_map)
      moreover have "left_split_ok I h (concat (map tree_items ?all))
          (Some (parent_of I h (u # take TREE_BASE (c' # cs)))) (parent_of I h (drop TREE_BASE (c' # cs)))"
      proof -
        have "concat (map tree_items (take TREE_BASE (c' # cs))) @ concat (map tree_items (drop TREE_BASE (c' # cs)))
            = concat (map tree_items (c' # cs))"
          by (simp only: append_take_drop_id flip: concat_append map_append)
        moreover have "\<forall>t \<in> set (u # take TREE_BASE (c' # cs)) \<union> set (drop TREE_BASE (c' # cs)).
            wf_tree I t \<and> Suc (node_height t) = h \<and> \<not> tree_is_empty t"
          using sub sp set_take_subset [of TREE_BASE "c' # cs"] set_drop_subset [of TREE_BASE "c' # cs"]
          by auto
        ultimately show ?thesis
          using len sp cts by (auto simp: left_split_ok_def parent_of_def TREE_BASE_def)
      qed
      ultimately show ?thesis
        using its by simp
    qed
  qed
qed

section \<open>Append, push, extend\<close>

lemma from_child_trees_ok:
  assumes "wf_tree I t" "\<not> tree_is_empty t" "wf_tree I u" "\<not> tree_is_empty u"
    and "node_height t = node_height u"
  shows "\<exists>r. from_child_trees I t u = Some r \<and> wf_tree I r \<and> tree_items r = tree_items t @ tree_items u"
  using assms by (simp add: from_child_trees_def arr_push_def TREE_BASE_def)

theorem append_ok:
  assumes "wf_tree I t" "wf_tree I u"
  shows "\<exists>r. tree_append I t u = Some r \<and> wf_tree I r \<and> tree_items r = tree_items t @ tree_items u"
proof -
  have empty: "node_is_leaf u \<and> node_items u = Some [] \<longleftrightarrow> tree_is_empty u"
    by (cases u) auto
  consider "tree_is_empty t" | "tree_is_empty u" "\<not> tree_is_empty t"
    | (large) "\<not> tree_is_empty t" "\<not> tree_is_empty u" "node_height t < node_height u"
    | (small) "\<not> tree_is_empty t" "\<not> tree_is_empty u" "node_height u \<le> node_height t"
    by linarith
  then show ?thesis
  proof cases
    case 1
    then show ?thesis
      using assms tree_items_eq_Nil [of I t] by (simp add: tree_append_def)
  next
    case 2
    then show ?thesis
      using assms tree_items_eq_Nil [of I u] empty by (auto simp: tree_append_def)
  next
    case large
    then obtain sp u' where "append_large I t u = Some (sp, u')"
      "left_split_ok I (node_height u) (tree_items t @ tree_items u) sp u'"
      using append_large_ok [of t u] assms by auto
    then show ?thesis
      using large empty from_child_trees_ok [of "the sp" u']
      by (auto simp: tree_append_def left_split_ok_def split: option.splits)
  next
    case small
    then obtain t' sp where "push_tree_recursive I t u = Some (t', sp)"
      "right_split_ok I (node_height t) (tree_items t @ tree_items u) t' sp"
      using push_tree_recursive_ok [of t u] assms by auto
    then show ?thesis
      using small empty from_child_trees_ok [of t' "the sp"]
      by (auto simp: tree_append_def right_split_ok_def split: option.splits)
  qed
qed

lemma wf_tree_new: "wf_tree I (tree_new I)" "tree_items (tree_new I) = []"
  by (simp_all add: tree_new_def)

lemma push_ok:
  assumes "wf_tree I t"
  shows "\<exists>r. tree_push I t x = Some r \<and> wf_tree I r \<and> tree_items r = tree_items t @ [x]"
  using append_ok [of t "Leaf (item_summary I x) [x] [item_summary I x]"] assms
  by (simp add: tree_push_def Let_def TREE_BASE_def)

lemma from_item_ok: "\<exists>r. from_item I x = Some r \<and> wf_tree I r \<and> tree_items r = [x]"
  using push_ok [of "tree_new I" x] by (simp add: from_item_def wf_tree_new)

section \<open>Building a tree from a sequence\<close>

abbreviation leaf_for :: "'t list \<Rightarrow> ('t, 's) sum_tree" where
  "leaf_for c \<equiv> Leaf (items_summary I c) c (map (item_summary I) c)"

lemma collect_options_map:
  "(\<And>x. x \<in> set xs \<Longrightarrow> f x = Some (g x)) \<Longrightarrow> collect_options (map f xs) = Some (map g xs)"
  by (induction xs) auto

lemma leaf_of_chunk_ok: "c \<noteq> [] \<Longrightarrow> length c \<le> CAP \<Longrightarrow> leaf_of_chunk I c = Some (leaf_for c)"
  by (cases c) (simp_all add: leaf_of_chunk_def Let_def arr_collect_def sum_from_first)

lemma leaves_ok:
  "collect_options (map (leaf_of_chunk I) (chunks CAP its)) = Some (map leaf_for (chunks CAP its))"
  using chunks_element [of _ CAP its] by (intro collect_options_map leaf_of_chunk_ok) auto

lemma par_parent_ok:
  "c \<noteq> [] \<Longrightarrow> length c \<le> CAP \<Longrightarrow> \<forall>t \<in> set c. node_summary t \<in> summaries I \<Longrightarrow>
    par_parent I h c = Some (parent_of I h c)"
  by (cases c) (simp_all add: par_parent_def Let_def arr_collect_def sum_from_first parent_of_def)

lemma build_levels_step:
  "1 < length nodes \<Longrightarrow> build_levels I h nodes =
     build_levels I (Suc h) (map (parent_of I (Suc h)) (chunks CAP nodes))"
  by (subst build_levels.simps) (simp add: group_nodes_eq)

lemma build_levels_par_eq:
  "\<forall>t \<in> set nodes. node_summary t \<in> summaries I \<Longrightarrow> build_levels_par I h nodes = build_levels I h nodes"
proof (induction "length nodes" arbitrary: h nodes rule: less_induct)
  case less
  have sub: "\<forall>t \<in> set c. node_summary t \<in> summaries I" if "c \<in> set (chunks CAP nodes)" for c
    using less.prems that concat_chunks [of CAP nodes] by (metis TREE_BASE_bounds(6) UN_I set_concat)
  then have parents: "\<forall>t \<in> set (map (parent_of I (Suc h)) (chunks CAP nodes)). node_summary t \<in> summaries I"
    using chunks_element [of _ CAP nodes] by (auto simp: parent_of_def intro!: summaries_sum)
  show ?case
  proof (cases "1 < length nodes")
    case True
    have "collect_options (map (par_parent I (Suc h)) (chunks CAP nodes)) =
        Some (map (parent_of I (Suc h)) (chunks CAP nodes))"
      using chunks_element [of _ CAP nodes] sub by (intro collect_options_map par_parent_ok) auto
    then have "build_levels_par I h nodes =
        build_levels_par I (Suc h) (map (parent_of I (Suc h)) (chunks CAP nodes))"
      using True by (subst build_levels_par.simps) simp
    also have "\<dots> = build_levels I (Suc h) (map (parent_of I (Suc h)) (chunks CAP nodes))"
      using True parents by (intro less(1)) simp_all
    finally show ?thesis
      using True by (simp add: build_levels_step)
  next
    case False
    then show ?thesis
      by (subst build_levels_par.simps, subst build_levels.simps) simp
  qed
qed

abbreviation level_ok :: "nat \<Rightarrow> ('t, 's) sum_tree list \<Rightarrow> bool" where
  "level_ok h nodes \<equiv> \<forall>t \<in> set nodes. wf_tree I t \<and> node_height t = h \<and> \<not> tree_is_empty t"

lemma level_up:
  assumes "level_ok h nodes"
  shows "level_ok (Suc h) (map (parent_of I (Suc h)) (chunks CAP nodes))"
    and "concat (map tree_items (map (parent_of I (Suc h)) (chunks CAP nodes))) =
      concat (map tree_items nodes)"
proof -
  show "level_ok (Suc h) (map (parent_of I (Suc h)) (chunks CAP nodes))"
    using assms chunks_element [of _ CAP nodes] by (fastforce simp: parent_of_def)
  have "concat (map tree_items (map (parent_of I (Suc h)) (chunks CAP nodes))) =
      concat (map tree_items (concat (chunks CAP nodes)))"
    by (simp add: parent_of_def comp_def concat_map_concat)
  then show "concat (map tree_items (map (parent_of I (Suc h)) (chunks CAP nodes))) =
      concat (map tree_items nodes)"
    by (simp add: concat_chunks)
qed

lemma build_levels_ok:
  assumes "level_ok h nodes" and "nodes \<noteq> []"
  shows "\<exists>r. build_levels I h nodes = Some [r] \<and> wf_tree I r \<and>
    tree_items r = concat (map tree_items nodes)"
  using assms
proof (induction "length nodes" arbitrary: h nodes rule: less_induct)
  case less
  show ?case
  proof (cases "1 < length nodes")
    case True
    let ?up = "map (parent_of I (Suc h)) (chunks CAP nodes)"
    have "\<exists>r. build_levels I (Suc h) ?up = Some [r] \<and> wf_tree I r \<and> tree_items r = concat (map tree_items ?up)"
      using True level_up(1) [OF less.prems(1)] less.prems(2) by (intro less) auto
    then show ?thesis
      using True level_up(2) [OF less.prems(1)] by (simp add: build_levels_step)
  next
    case False
    then obtain t where "nodes = [t]"
      using less.prems by (cases nodes) auto
    then show ?thesis
      using less.prems by (subst build_levels.simps) simp
  qed
qed

theorem from_iter_ok: "\<exists>r. from_iter I its = Some r \<and> wf_tree I r \<and> tree_items r = its"
proof (cases "its = []")
  case True
  then show ?thesis
    using wf_tree_new by (simp add: from_iter_def build_levels.simps)
next
  case False
  have "level_ok 0 (map leaf_for (chunks CAP its))"
    using chunks_element [of _ CAP its] by auto
  moreover have "concat (map tree_items (map leaf_for (chunks CAP its))) = its"
    by (simp add: comp_def concat_chunks)
  moreover have "map leaf_for (chunks CAP its) \<noteq> []"
    using False by simp
  ultimately obtain r where "build_levels I 0 (map leaf_for (chunks CAP its)) = Some [r]"
    "wf_tree I r" "tree_items r = its"
    using build_levels_ok [where h = 0 and nodes = "map leaf_for (chunks CAP its)"] by auto
  then show ?thesis
    by (simp add: from_iter_def leaves_ok list_last_def)
qed

lemma from_par_iter_eq: "from_par_iter I its = from_iter I its"
proof -
  have "\<forall>t \<in> set (map leaf_for (chunks CAP its)). node_summary t \<in> summaries I"
    using chunks_element [of _ CAP its] by (auto intro!: summaries_sum)
  then show ?thesis by (simp add: from_par_iter_def from_iter_def leaves_ok build_levels_par_eq)
qed

lemma tree_extend_ok:
  assumes "wf_tree I t"
  shows "\<exists>r. tree_extend I t xs = Some r \<and> wf_tree I r \<and> tree_items r = tree_items t @ xs"
proof -
  obtain u where "from_iter I xs = Some u" "wf_tree I u" "tree_items u = xs"
    using from_iter_ok by blast
  then show ?thesis
    using append_ok [OF assms, of u] by (simp add: tree_extend_def)
qed

lemma par_extend_eq: "par_extend I t xs = tree_extend I t xs"
  by (simp add: par_extend_def tree_extend_def from_par_iter_eq)

section \<open>First and last items\<close>

lemma leftmost_leaf_ok:
  assumes "wf_tree I t"
  shows "\<exists>l. leftmost_leaf t = Some l \<and> node_is_leaf l \<and> wf_tree I l \<and>
    (\<exists>rest. tree_items t = tree_items l @ rest) \<and> (tree_is_empty l \<longleftrightarrow> tree_is_empty t)"
  using assms
proof (induction t)
  case (Internal h s css cts)
  then show ?case by (cases cts) fastforce+
qed simp

lemma rightmost_leaf_ok:
  assumes "wf_tree I t"
  shows "\<exists>l. rightmost_leaf t = Some l \<and> node_is_leaf l \<and> wf_tree I l \<and>
    (\<exists>rest. tree_items t = rest @ tree_items l) \<and> (tree_is_empty l \<longleftrightarrow> tree_is_empty t)"
  using assms
proof (induction t)
  case (Internal h s css cts)
  then obtain bs c where "cts = bs @ [c]"
    by (cases cts rule: rev_cases) auto
  with Internal show ?case by fastforce
qed simp

lemma tree_first_ok: "wf_tree I t \<Longrightarrow> tree_first t = Some (list_first (tree_items t))"
proof -
  assume wf: "wf_tree I t"
  then obtain s its rest where "leftmost_leaf t = Some (Leaf s its (map (item_summary I) its))"
    "tree_items t = its @ rest" "its = [] \<longleftrightarrow> tree_is_empty t"
    using leftmost_leaf_ok [OF wf] by (auto elim!: node_is_leaf.elims(2))
  then show ?thesis
    using tree_items_eq_Nil [OF wf] by (cases its) (auto simp: tree_first_def)
qed

lemma rightmost_leaf_items:
  assumes wf: "wf_tree I t"
  obtains s its rest where "rightmost_leaf t = Some (Leaf s its (map (item_summary I) its))"
    "tree_items t = rest @ its" "its = [] \<longleftrightarrow> tree_items t = []"
  using rightmost_leaf_ok [OF wf] wf by (auto elim!: node_is_leaf.elims(2))

lemma tree_last_ok: "wf_tree I t \<Longrightarrow> tree_last t = Some (list_last (tree_items t))"
  by (erule rightmost_leaf_items) (auto simp: tree_last_def list_last_def)

lemma last_summary_ok:
  "wf_tree I t \<Longrightarrow> last_summary t = Some (map_option (item_summary I) (list_last (tree_items t)))"
  by (erule rightmost_leaf_items) (auto simp: last_summary_def list_last_def last_map)

section \<open>Updating the first or last item\<close>

lemma update_last_recursive_ok:
  assumes "wf_tree I t" "\<not> tree_is_empty t"
  shows "\<exists>r. update_last_recursive I f t = Some (r, Some (node_summary r)) \<and> wf_tree I r \<and>
    node_height r = node_height t \<and> \<not> tree_is_empty r \<and>
    tree_items r = set_last (tree_items t) (f (last (tree_items t)))"
  using assms
proof (induction t)
  case (Leaf s its iss)
  then show ?case
    by (cases its rule: rev_cases) (auto simp: Let_def)
next
  case (Internal h s css cts)
  then obtain bs c where cts: "cts = bs @ [c]"
    by (cases cts rule: rev_cases) auto
  with Internal have c: "wf_tree I c" "\<not> tree_is_empty c" "tree_items c \<noteq> []"
    by auto
  with Internal.IH [of c] cts obtain r where "update_last_recursive I f c = Some (r, Some (node_summary r))"
    "wf_tree I r" "node_height r = node_height c" "\<not> tree_is_empty r"
    "tree_items r = set_last (tree_items c) (f (last (tree_items c)))"
    by auto
  with Internal.prems cts c show ?case
    by (auto simp: Let_def set_last_def butlast_append)
qed

lemma update_first_recursive_ok:
  assumes "wf_tree I t" "\<not> tree_is_empty t"
  shows "\<exists>r. update_first_recursive I f t = Some (r, Some (node_summary r)) \<and> wf_tree I r \<and>
    node_height r = node_height t \<and> \<not> tree_is_empty r \<and>
    tree_items r = set_first (tree_items t) (f (hd (tree_items t)))"
  using assms
proof (induction t)
  case (Leaf s its iss)
  then show ?case
    by (cases its) (auto simp: Let_def)
next
  case (Internal h s css cts)
  then obtain c cs where cts: "cts = c # cs"
    by (cases cts) auto
  with Internal have c: "wf_tree I c" "\<not> tree_is_empty c" "tree_items c \<noteq> []"
    by auto
  with Internal.IH [of c] cts obtain r where "update_first_recursive I f c = Some (r, Some (node_summary r))"
    "wf_tree I r" "node_height r = node_height c" "\<not> tree_is_empty r"
    "tree_items r = set_first (tree_items c) (f (hd (tree_items c)))"
    by auto
  with Internal.prems cts c show ?case
    by (auto simp: Let_def set_first_def)
qed

lemma update_last_ok:
  assumes "wf_tree I t"
  shows "\<exists>r. update_last I f t = Some r \<and> wf_tree I r \<and>
    tree_items r = (if tree_items t = [] then [] else set_last (tree_items t) (f (last (tree_items t))))"
proof (cases "tree_is_empty t")
  case True
  then show ?thesis using assms by (cases t) (auto simp: update_last_def)
next
  case False
  then show ?thesis
    using update_last_recursive_ok [OF assms, of f] assms by (auto simp: update_last_def)
qed

lemma update_first_ok:
  assumes "wf_tree I t"
  shows "\<exists>r. update_first I f t = Some r \<and> wf_tree I r \<and>
    tree_items r = (if tree_items t = [] then [] else set_first (tree_items t) (f (hd (tree_items t))))"
proof (cases "tree_is_empty t")
  case True
  then show ?thesis using assms by (cases t) (auto simp: update_first_def)
next
  case False
  then show ?thesis
    using update_first_recursive_ok [OF assms, of f] assms by (auto simp: update_first_def)
qed

end

end
