(* ===== verification/SumTree_Find.thy ===== *)
theory SumTree_Find
  imports SumTree_Correct
begin

text \<open>
  Dimensions, seek targets and the \<open>find\<close> family of \<open>crates/sum_tree/src/sum_tree.rs\<close>.  A
  \<open>Dimension\<close> implementation is a record; a \<open>SeekTarget\<close> is the function \<open>target.cmp\<close> from
  positions to orderings.  \<open>find\<close> descends the tree guided by the cached summaries; it is shown
  to agree with a linear scan of the items.
\<close>

section \<open>Dimensions and targets\<close>

record ('s, 'd) dimension =
  dim_zero :: 'd
  dim_add :: "'d \<Rightarrow> 's \<Rightarrow> 'd"

definition with_added_summary :: "('s, 'd) dimension \<Rightarrow> 'd \<Rightarrow> 's \<Rightarrow> 'd" where
  "with_added_summary D d s = dim_add D d s"

definition dim_from_summary :: "('s, 'd) dimension \<Rightarrow> 's \<Rightarrow> 'd" where
  "dim_from_summary D s = dim_add D (dim_zero D) s"

text \<open>A summary type is a dimension of itself, and so is a tuple of dimensions.\<close>

definition summary_dimension :: "('t, 's) item_impl \<Rightarrow> ('s, 's) dimension" where
  "summary_dimension I = \<lparr>dim_zero = summary_zero I, dim_add = add_summary I\<rparr>"

definition unit_dimension :: "('s, unit) dimension" where
  "unit_dimension = \<lparr>dim_zero = (), dim_add = (\<lambda>_ _. ())\<rparr>"

definition dimensions2 :: "('s, 'd) dimension \<Rightarrow> ('s, 'e) dimension \<Rightarrow> ('s, 'd \<times> 'e) dimension" where
  "dimensions2 D E = \<lparr>dim_zero = (dim_zero D, dim_zero E),
     dim_add = (\<lambda>(d, e) s. (dim_add D d s, dim_add E e s))\<rparr>"

text \<open>\<open>SeekTarget\<close> of an ordered dimension, and of the first component of a tuple.\<close>

definition ord_target :: "'d::linorder \<Rightarrow> 'd \<Rightarrow> ordering" where
  "ord_target target d = cmp target d"

definition fst_target :: "('d \<Rightarrow> ordering) \<Rightarrow> 'd \<times> 'e \<Rightarrow> ordering" where
  "fst_target target d = target (fst d)"

definition target_in :: "('d \<Rightarrow> ordering) \<Rightarrow> bias \<Rightarrow> 'd \<Rightarrow> bool" where
  "target_in target bias d \<longleftrightarrow> target d = Less \<or> target d = Equal \<and> bias = Left"

definition target_past :: "('d \<Rightarrow> ordering) \<Rightarrow> bias \<Rightarrow> 'd \<Rightarrow> bool" where
  "target_past target bias d \<longleftrightarrow> target d = Greater \<or> target d = Equal \<and> bias = Right"

lemma target_in_iff: "target_in target b d \<longleftrightarrow> \<not> target_past target b d"
  by (cases "target d"; cases b) (simp_all add: target_in_def target_past_def)

definition extent :: "('s, 'd) dimension \<Rightarrow> ('t, 's) sum_tree \<Rightarrow> 'd" where
  "extent D t = dim_add D (dim_zero D) (node_summary t)"

section \<open>Find\<close>

text \<open>
  \<open>find_iterate\<close> threads the position through the scan of a node's children and continues in
  the first child that contains the target; the loop never comes back to a parent.  The result
  is the final position and the item found, with the position of its end.
\<close>

fun find_iterate ::
  "('s, 'd) dimension \<Rightarrow> ('d \<Rightarrow> ordering) \<Rightarrow> bias \<Rightarrow> bool \<Rightarrow> 'd \<Rightarrow> ('t, 's) sum_tree \<Rightarrow> 'd \<times> ('t \<times> 'd) option"
  and find_children ::
  "('s, 'd) dimension \<Rightarrow> ('d \<Rightarrow> ordering) \<Rightarrow> bias \<Rightarrow> bool \<Rightarrow> 'd \<Rightarrow> ('t, 's) sum_tree list \<Rightarrow> 's list \<Rightarrow>
   'd \<times> ('t \<times> 'd) option"
  and find_items ::
  "('s, 'd) dimension \<Rightarrow> ('d \<Rightarrow> ordering) \<Rightarrow> bias \<Rightarrow> bool \<Rightarrow> 'd \<Rightarrow> 't list \<Rightarrow> 's list \<Rightarrow> 'd \<times> ('t \<times> 'd) option"
  where
  "find_iterate D target bias exact pos (Internal h s css cts) =
     find_children D target bias exact pos cts css"
| "find_iterate D target bias exact pos (Leaf s its iss) =
     find_items D target bias exact pos its iss"
| "find_children D target bias exact pos (t # ts) (s # ss) =
     (let child_end = with_added_summary D pos s in
      if target_in target bias child_end then find_iterate D target bias exact pos t
      else find_children D target bias exact child_end ts ss)"
| "find_children D target bias exact pos [] _ = (pos, None)"
| "find_children D target bias exact pos _ [] = (pos, None)"
| "find_items D target bias exact pos (x # xs) (s # ss) =
     (let child_end = dim_add D pos s;
          entry_found = (if exact then target child_end = Equal else target_in target bias child_end) in
      if entry_found then (pos, Some (x, child_end))
      else find_items D target bias exact child_end xs ss)"
| "find_items D target bias exact pos [] _ = (pos, None)"
| "find_items D target bias exact pos _ [] = (pos, None)"

definition find_with ::
  "bool \<Rightarrow> ('s, 'd) dimension \<Rightarrow> ('d \<Rightarrow> ordering) \<Rightarrow> bias \<Rightarrow> ('t, 's) sum_tree \<Rightarrow> 'd \<times> 'd \<times> 't option" where
  "find_with exact D target bias t =
     (let tree_end = with_added_summary D (dim_zero D) (node_summary t) in
      if target_past target bias tree_end then (tree_end, tree_end, None)
      else case find_iterate D target bias exact (dim_zero D) t of
        (pos, Some (item, e)) \<Rightarrow> (pos, e, Some item)
      | (pos, None) \<Rightarrow> (pos, pos, None))"

definition find ::
  "('s, 'd) dimension \<Rightarrow> ('d \<Rightarrow> ordering) \<Rightarrow> bias \<Rightarrow> ('t, 's) sum_tree \<Rightarrow> 'd \<times> 'd \<times> 't option" where
  "find D target bias t = find_with False D target bias t"

definition find_exact ::
  "('s, 'd) dimension \<Rightarrow> ('d \<Rightarrow> ordering) \<Rightarrow> bias \<Rightarrow> ('t, 's) sum_tree \<Rightarrow> 'd \<times> 'd \<times> 't option" where
  "find_exact D target bias t = find_with True D target bias t"

text \<open>
  \<open>find_with_prev\<close> also remembers the item before the one found.  \<open>prev\<close> is the last item of
  the last child passed over, which \<open>child_tree.last()\<close> computes (outer option: panic).
\<close>

fun find_prev_iterate ::
  "('s, 'd) dimension \<Rightarrow> ('d \<Rightarrow> ordering) \<Rightarrow> bias \<Rightarrow> 'd \<Rightarrow> 't option \<Rightarrow> ('t, 's) sum_tree \<Rightarrow>
   ('d \<times> ('t option \<times> 't \<times> 'd) option) option"
  and find_prev_children ::
  "('s, 'd) dimension \<Rightarrow> ('d \<Rightarrow> ordering) \<Rightarrow> bias \<Rightarrow> 'd \<Rightarrow> 't option \<Rightarrow> ('t, 's) sum_tree list \<Rightarrow> 's list \<Rightarrow>
   ('d \<times> ('t option \<times> 't \<times> 'd) option) option"
  and find_prev_items ::
  "('s, 'd) dimension \<Rightarrow> ('d \<Rightarrow> ordering) \<Rightarrow> bias \<Rightarrow> 'd \<Rightarrow> 't option \<Rightarrow> 't list \<Rightarrow> 's list \<Rightarrow>
   ('d \<times> ('t option \<times> 't \<times> 'd) option) option"
  where
  "find_prev_iterate D target bias pos prev (Internal h s css cts) =
     find_prev_children D target bias pos prev cts css"
| "find_prev_iterate D target bias pos prev (Leaf s its iss) =
     find_prev_items D target bias pos prev its iss"
| "find_prev_children D target bias pos prev (t # ts) (s # ss) =
     (let child_end = with_added_summary D pos s in
      if target_in target bias child_end then find_prev_iterate D target bias pos prev t
      else do { prev' \<leftarrow> tree_last t; find_prev_children D target bias child_end prev' ts ss })"
| "find_prev_children D target bias pos prev [] _ = Some (pos, None)"
| "find_prev_children D target bias pos prev _ [] = Some (pos, None)"
| "find_prev_items D target bias pos prev (x # xs) (s # ss) =
     (let child_end = dim_add D pos s in
      if target_in target bias child_end then Some (pos, Some (prev, x, child_end))
      else find_prev_items D target bias child_end (Some x) xs ss)"
| "find_prev_items D target bias pos prev [] _ = Some (pos, None)"
| "find_prev_items D target bias pos prev _ [] = Some (pos, None)"

definition find_with_prev ::
  "('s, 'd) dimension \<Rightarrow> ('d \<Rightarrow> ordering) \<Rightarrow> bias \<Rightarrow> ('t, 's) sum_tree \<Rightarrow>
   ('d \<times> 'd \<times> ('t option \<times> 't) option) option" where
  "find_with_prev D target bias t =
     (let tree_end = with_added_summary D (dim_zero D) (node_summary t) in
      if target_past target bias tree_end then Some (tree_end, tree_end, None)
      else do {
        r \<leftarrow> find_prev_iterate D target bias (dim_zero D) None t;
        (case r of
           (pos, Some (prev, item, e)) \<Rightarrow> Some (pos, e, Some (prev, item))
         | (pos, None) \<Rightarrow> Some (pos, pos, None)) })"

section \<open>Reference: scanning the items\<close>

text \<open>The position after a list of items, and the split of the items at a target.\<close>

definition pos_after :: "('t, 's) item_impl \<Rightarrow> ('s, 'd) dimension \<Rightarrow> 'd \<Rightarrow> 't list \<Rightarrow> 'd" where
  "pos_after I D d xs = foldl (\<lambda>d x. dim_add D d (item_summary I x)) d xs"

fun seek_split ::
  "('t, 's) item_impl \<Rightarrow> ('s, 'd) dimension \<Rightarrow> ('d \<Rightarrow> bool) \<Rightarrow> 'd \<Rightarrow> 't list \<Rightarrow> 't list \<times> 't list" where
  "seek_split I D P d [] = ([], [])"
| "seek_split I D P d (x # xs) =
     (let e = dim_add D d (item_summary I x) in
      if P e then (case seek_split I D P e xs of (ys, zs) \<Rightarrow> (x # ys, zs)) else ([], x # xs))"

text \<open>
  The target is monotone along the items when it is never reached again once it was passed:
  a position after more items is past the target only if every earlier one is.
\<close>

definition seek_mono ::
  "('t, 's) item_impl \<Rightarrow> ('s, 'd) dimension \<Rightarrow> ('d \<Rightarrow> bool) \<Rightarrow> 'd \<Rightarrow> 't list \<Rightarrow> bool" where
  "seek_mono I D P d xs \<longleftrightarrow>
     (\<forall>ys zs. xs = ys @ zs \<longrightarrow> ys \<noteq> [] \<longrightarrow> (\<forall>us vs. zs = us @ vs \<longrightarrow> P (pos_after I D d (ys @ us)) \<longrightarrow> P (pos_after I D d ys)))"

lemma pos_after_simps [simp]:
  "pos_after I D d [] = d"
  "pos_after I D d (x # xs) = pos_after I D (dim_add D d (item_summary I x)) xs"
  "pos_after I D d (xs @ ys) = pos_after I D (pos_after I D d xs) ys"
  by (simp_all add: pos_after_def)

lemma seek_split_append: "seek_split I D P d xs = (ys, zs) \<Longrightarrow> xs = ys @ zs"
  by (induction xs arbitrary: d ys zs) (auto simp: Let_def split: if_splits prod.splits)

lemma seek_monoD:
  "seek_mono I D P d (ys @ us @ vs) \<Longrightarrow> ys \<noteq> [] \<Longrightarrow> P (pos_after I D d (ys @ us)) \<Longrightarrow> P (pos_after I D d ys)"
  unfolding seek_mono_def by blast

lemma seek_mono_prefix: "seek_mono I D P d (xs @ ys) \<Longrightarrow> seek_mono I D P d xs"
  unfolding seek_mono_def by (metis append.assoc)

lemma seek_mono_suffix:
  assumes "seek_mono I D P d (xs @ ys)"
  shows "seek_mono I D P (pos_after I D d xs) ys"
  unfolding seek_mono_def
proof (intro allI impI)
  fix as bs us vs
  assume "ys = as @ bs" "as \<noteq> []" "bs = us @ vs" "P (pos_after I D (pos_after I D d xs) (as @ us))"
  then show "P (pos_after I D (pos_after I D d xs) as)"
    using seek_monoD [of I D P d "xs @ as" us vs] assms by simp
qed

lemma seek_split_all:
  assumes "seek_mono I D P d (xs @ ys)" and "xs \<noteq> []" and "P (pos_after I D d xs)"
  shows "seek_split I D P d (xs @ ys) =
    (case seek_split I D P (pos_after I D d xs) ys of (as, bs) \<Rightarrow> (xs @ as, bs))"
  using assms
proof (induction xs arbitrary: d)
  case (Cons x xs)
  have x: "P (dim_add D d (item_summary I x))"
    using seek_monoD [of I D P d "[x]" xs ys] Cons.prems by simp
  show ?case
  proof (cases "xs = []")
    case True
    with x show ?thesis by (simp add: Let_def)
  next
    case False
    have "seek_mono I D P (dim_add D d (item_summary I x)) (xs @ ys)"
      using seek_mono_suffix [of I D P d "[x]" "xs @ ys"] Cons.prems by simp
    from Cons.IH [OF this False] Cons.prems x show ?thesis
      by (simp add: Let_def split: prod.splits)
  qed
qed simp

lemma seek_split_stop:
  assumes "xs \<noteq> []" and "\<not> P (pos_after I D d xs)"
  shows "seek_split I D P d (xs @ ys) = (case seek_split I D P d xs of (as, bs) \<Rightarrow> (as, bs @ ys))"
    and "snd (seek_split I D P d xs) \<noteq> []"
  using assms
proof (induction xs arbitrary: d)
  case (Cons x xs)
  {
    case 1
    then show ?case
      using Cons.IH(1) [of "dim_add D d (item_summary I x)"]
      by (cases "xs = []") (auto simp: Let_def split: prod.splits)
  next
    case 2
    then show ?case
      using Cons.IH(2) [of "dim_add D d (item_summary I x)"]
      by (cases "xs = []") (auto simp: Let_def split: prod.splits)
  }
qed simp_all

definition scan_result ::
  "('t, 's) item_impl \<Rightarrow> ('s, 'd) dimension \<Rightarrow> ('d \<Rightarrow> bool) \<Rightarrow> 'd \<Rightarrow> 't list \<Rightarrow> 'd \<times> ('t \<times> 'd) option" where
  "scan_result I D P d xs = (case seek_split I D P d xs of
     (ys, []) \<Rightarrow> (pos_after I D d ys, None)
   | (ys, z # zs) \<Rightarrow> (pos_after I D d ys, Some (z, pos_after I D d (ys @ [z]))))"

text \<open>The item at which a scan stops, provided its end is exactly the target.\<close>

definition scan_exact ::
  "('t, 's) item_impl \<Rightarrow> ('s, 'd) dimension \<Rightarrow> ('d \<Rightarrow> ordering) \<Rightarrow> 'd \<Rightarrow> 't list \<Rightarrow> 't option" where
  "scan_exact I D target d xs = (case scan_result I D (target_past target Left) d xs of
     (_, Some (x, e)) \<Rightarrow> if target e = Equal then Some x else None
   | (_, None) \<Rightarrow> None)"

definition scan_prev ::
  "('t, 's) item_impl \<Rightarrow> ('s, 'd) dimension \<Rightarrow> ('d \<Rightarrow> bool) \<Rightarrow> 'd \<Rightarrow> 't option \<Rightarrow> 't list \<Rightarrow> 'd \<times> ('t option \<times> 't \<times> 'd) option" where
  "scan_prev I D P d prev xs = (case seek_split I D P d xs of
     (ys, []) \<Rightarrow> (pos_after I D d ys, None)
   | (ys, z # zs) \<Rightarrow> (pos_after I D d ys,
       Some (if ys = [] then prev else list_last ys, z, pos_after I D d (ys @ [z]))))"

section \<open>Find agrees with the scan\<close>

locale measured = summary_monoid I
  for I :: "('t, 's) item_impl" +
  fixes D :: "('s, 'd) dimension"
  assumes dim_add_add: "a \<in> summaries I \<Longrightarrow> b \<in> summaries I \<Longrightarrow>
      dim_add D (dim_add D d a) b = dim_add D d (add_summary I a b)"
begin

lemma pos_after_sum: "xs \<noteq> [] \<Longrightarrow> pos_after I D d xs = dim_add D d (items_summary I xs)"
proof (induction xs rule: rev_induct)
  case (snoc x xs)
  then show ?case
    by (cases "xs = []") (simp_all add: dim_add_add)
qed simp

lemma pos_after_tree:
  "wf_tree I t \<Longrightarrow> \<not> tree_is_empty t \<Longrightarrow> dim_add D d (node_summary t) = pos_after I D d (tree_items t)"
  by (simp add: pos_after_sum wf_summary)

lemma scan_result_skip:
  assumes "seek_mono I D P d (xs @ ys)" "xs \<noteq> []" "P (pos_after I D d xs)"
  shows "scan_result I D P d (xs @ ys) = scan_result I D P (pos_after I D d xs) ys"
  using seek_split_all [OF assms] by (simp add: scan_result_def split: prod.splits list.splits)

lemma scan_result_stop:
  assumes "xs \<noteq> []" "\<not> P (pos_after I D d xs)"
  shows "scan_result I D P d (xs @ ys) = scan_result I D P d xs"
  using seek_split_stop [where P = P and d = d and xs = xs and I = I and D = D] assms
  by (auto simp: scan_result_def split: prod.splits list.splits)

lemma scan_result_Cons:
  "scan_result I D P d (x # xs) = (let e = dim_add D d (item_summary I x) in
     if P e then scan_result I D P e xs else (d, Some (x, e)))"
  by (simp add: scan_result_def Let_def split: prod.splits list.splits)

lemma scan_result_Nil [simp]: "scan_result I D P d [] = (d, None)"
  by (simp add: scan_result_def)

lemma find_items_ok:
  "find_items D target b False d its (map (item_summary I) its) = scan_result I D (target_past target b) d its"
  by (induction its arbitrary: d) (simp_all add: scan_result_Cons target_in_iff Let_def)

lemma find_iterate_ok:
  assumes "wf_tree I t" "seek_mono I D (target_past target b) d (tree_items t)"
  shows "find_iterate D target b False d t = scan_result I D (target_past target b) d (tree_items t)"
  using assms
proof (induction t arbitrary: d)
  case (Leaf s its iss)
  then show ?case by (simp add: find_items_ok)
next
  case (Internal h s css cts)
  have "find_children D target b False d ts (map node_summary ts) =
      scan_result I D (target_past target b) d (concat (map tree_items ts))"
    if "\<forall>t \<in> set ts. wf_tree I t \<and> \<not> tree_is_empty t" "set ts \<subseteq> set cts"
      "seek_mono I D (target_past target b) d (concat (map tree_items ts))" for ts
    using that
  proof (induction ts arbitrary: d)
    case (Cons t ts)
    let ?P = "target_past target b"
    have t: "wf_tree I t" "\<not> tree_is_empty t" "tree_items t \<noteq> []"
      using Cons.prems by auto
    have mono: "seek_mono I D ?P d (tree_items t @ concat (map tree_items ts))"
      using Cons.prems(3) by simp
    show ?case
    proof (cases "?P (pos_after I D d (tree_items t))")
      case True
      then show ?thesis
        using Cons t scan_result_skip [OF mono t(3)] seek_mono_suffix [OF mono]
        by (simp add: Let_def with_added_summary_def target_in_iff pos_after_tree)
    next
      case False
      then show ?thesis
        using Cons t scan_result_stop [where P = ?P and xs = "tree_items t" and d = d]
          Internal.IH [of t d] seek_mono_prefix [OF mono]
        by (simp add: Let_def with_added_summary_def target_in_iff pos_after_tree)
    qed
  qed simp
  then show ?case
    using Internal.prems by auto
qed

lemma find_scan:
  assumes wf: "wf_tree I t"
    and mono: "seek_mono I D (target_past target b) (dim_zero D) (tree_items t)"
    and tree_end: "dim_add D (dim_zero D) (node_summary t) = pos_after I D (dim_zero D) (tree_items t)"
  shows "find D target b t =
    (case scan_result I D (target_past target b) (dim_zero D) (tree_items t) of
       (p, Some (x, e)) \<Rightarrow> (p, e, Some x) | (p, None) \<Rightarrow> (p, p, None))"
proof (cases "target_past target b (pos_after I D (dim_zero D) (tree_items t))")
  case True
  have "scan_result I D (target_past target b) (dim_zero D) (tree_items t) =
      (pos_after I D (dim_zero D) (tree_items t), None)"
  proof (cases "tree_items t = []")
    case False
    then show ?thesis
      using scan_result_skip [of _ _ _ "[]"] mono True by simp
  qed simp
  with True show ?thesis
    by (simp add: find_def find_with_def with_added_summary_def tree_end Let_def)
next
  case False
  then show ?thesis
    using find_iterate_ok [OF wf mono]
    by (simp add: find_def find_with_def with_added_summary_def tree_end Let_def
        split: prod.splits option.splits)
qed

lemma find_nonempty:
  "wf_tree I t \<Longrightarrow> \<not> tree_is_empty t \<Longrightarrow> seek_mono I D (target_past target b) (dim_zero D) (tree_items t) \<Longrightarrow>
    find D target b t =
    (case scan_result I D (target_past target b) (dim_zero D) (tree_items t) of
       (p, Some (x, e)) \<Rightarrow> (p, e, Some x) | (p, None) \<Rightarrow> (p, p, None))"
  by (rule find_scan) (simp_all add: pos_after_tree)

end

text \<open>\<open>find\<close> compares the target with the end of an empty tree too, which must be \<open>zero\<close>.\<close>

locale seekable = measured I D
  for I :: "('t, 's) item_impl" and D :: "('s, 'd) dimension" +
  assumes dim_zero_zero: "dim_add D (dim_zero D) (summary_zero I) = dim_zero D"
begin

lemma tree_end: "wf_tree I t \<Longrightarrow> dim_add D (dim_zero D) (node_summary t) = pos_after I D (dim_zero D) (tree_items t)"
  using pos_after_tree [of t "dim_zero D"] by (cases "tree_is_empty t"; cases t) (auto simp: dim_zero_zero)

theorem find_ok:
  assumes wf: "wf_tree I t"
    and mono: "seek_mono I D (target_past target b) (dim_zero D) (tree_items t)"
  shows "find D target b t =
    (case scan_result I D (target_past target b) (dim_zero D) (tree_items t) of
       (p, Some (x, e)) \<Rightarrow> (p, e, Some x) | (p, None) \<Rightarrow> (p, p, None))"
  by (rule find_scan [OF wf mono tree_end [OF wf]])

section \<open>Exact matches\<close>

lemma scan_exact_Cons:
  "scan_exact I D target d (x # xs) = (let e = dim_add D d (item_summary I x) in
     case target e of Less \<Rightarrow> None | Equal \<Rightarrow> Some x | Greater \<Rightarrow> scan_exact I D target e xs)"
  by (simp add: scan_exact_def scan_result_Cons Let_def target_past_def split: ordering.splits)

lemma no_exact_match:
  assumes "seek_mono I D (target_past target Right) d (x # xs)" "target (dim_add D d (item_summary I x)) = Less"
    and "ys \<noteq> []" "x # xs = ys @ zs"
  shows "target (pos_after I D d ys) \<noteq> Equal"
proof
  assume eq: "target (pos_after I D d ys) = Equal"
  obtain ys' where "ys = x # ys'" using assms(3,4) by (cases ys) auto
  with seek_monoD [of I D "target_past target Right" d "[x]" ys' zs] assms eq show False
    by (auto simp: target_past_def)
qed

lemma find_items_none:
  "\<forall>ys zs. its = ys @ zs \<longrightarrow> ys \<noteq> [] \<longrightarrow> target (pos_after I D d ys) \<noteq> Equal \<Longrightarrow>
   snd (find_items D target b True d its (map (item_summary I) its)) = None"
proof (induction its arbitrary: d)
  case (Cons x its)
  have "target (dim_add D d (item_summary I x)) \<noteq> Equal"
    using Cons.prems [rule_format, of "[x]" its] by simp
  moreover have "\<forall>ys zs. its = ys @ zs \<longrightarrow> ys \<noteq> [] \<longrightarrow>
      target (pos_after I D (dim_add D d (item_summary I x)) ys) \<noteq> Equal"
    using Cons.prems by (metis append_Cons list.distinct(1) pos_after_simps(2))
  ultimately show ?case
    using Cons.IH by (simp add: Let_def)
qed simp

lemma find_items_exact:
  assumes "seek_mono I D (target_past target Right) d its"
  shows "map_option fst (snd (find_items D target Left True d its (map (item_summary I) its))) = scan_exact I D target d its"
  using assms
proof (induction its arbitrary: d)
  case (Cons x its)
  let ?e = "dim_add D d (item_summary I x)"
  show ?case
  proof (cases "target ?e")
    case Less
    with no_exact_match [OF Cons.prems Less] find_items_none [of "x # its" target d Left] show ?thesis
      by (simp add: scan_exact_Cons Let_def del: find_items.simps)
  next
    case Greater
    have "seek_mono I D (target_past target Right) ?e its"
      using seek_mono_suffix [of I D "target_past target Right" d "[x]" its] Cons.prems by simp
    from Cons.IH [OF this] Greater show ?thesis by (simp add: scan_exact_Cons Let_def)
  qed (simp add: scan_exact_Cons Let_def)
qed (simp add: scan_exact_def)

lemma find_iterate_exact:
  assumes "wf_tree I t" "seek_mono I D (target_past target Left) d (tree_items t)"
    and "seek_mono I D (target_past target Right) d (tree_items t)"
  shows "map_option fst (snd (find_iterate D target Left True d t)) = scan_exact I D target d (tree_items t)"
  using assms
proof (induction t arbitrary: d)
  case (Leaf s its iss)
  then show ?case by (simp add: find_items_exact)
next
  case (Internal h s css cts)
  let ?L = "target_past target Left"
  let ?R = "target_past target Right"
  have "map_option fst (snd (find_children D target Left True d ts (map node_summary ts))) =
      scan_exact I D target d (concat (map tree_items ts))"
    if "\<forall>t \<in> set ts. wf_tree I t \<and> \<not> tree_is_empty t" "set ts \<subseteq> set cts"
      "seek_mono I D ?L d (concat (map tree_items ts))" "seek_mono I D ?R d (concat (map tree_items ts))" for ts
    using that
  proof (induction ts arbitrary: d)
    case (Cons t ts)
    have t: "wf_tree I t" "\<not> tree_is_empty t" "tree_items t \<noteq> []"
      using Cons.prems by auto
    have mono: "seek_mono I D ?L d (tree_items t @ concat (map tree_items ts))"
      "seek_mono I D ?R d (tree_items t @ concat (map tree_items ts))"
      using Cons.prems(3,4) by simp_all
    show ?case
    proof (cases "?L (pos_after I D d (tree_items t))")
      case True
      then show ?thesis
        using Cons t scan_result_skip [OF mono(1) t(3)] seek_mono_suffix [OF mono(1)] seek_mono_suffix [OF mono(2)]
        by (simp add: Let_def with_added_summary_def target_in_iff pos_after_tree scan_exact_def)
    next
      case False
      then show ?thesis
        using Cons.prems t scan_result_stop [where P = ?L and xs = "tree_items t" and d = d]
          Internal.IH [of t d] seek_mono_prefix [OF mono(1)] seek_mono_prefix [OF mono(2)]
        by (simp add: Let_def with_added_summary_def target_in_iff pos_after_tree scan_exact_def)
    qed
  qed (simp add: scan_exact_def)
  then show ?case
    using Internal.prems by auto
qed

lemma find_exact_ok:
  assumes wf: "wf_tree I t"
    and mono: "seek_mono I D (target_past target Left) (dim_zero D) (tree_items t)"
      "seek_mono I D (target_past target Right) (dim_zero D) (tree_items t)"
  shows "snd (snd (find_exact D target Left t)) = scan_exact I D target (dim_zero D) (tree_items t)"
proof (cases "target_past target Left (pos_after I D (dim_zero D) (tree_items t))")
  case True
  have "scan_exact I D target (dim_zero D) (tree_items t) = None"
  proof (cases "tree_items t = []")
    case False
    then show ?thesis
      using scan_result_skip [of _ _ _ "[]"] mono(1) True by (simp add: scan_exact_def)
  qed (simp add: scan_exact_def)
  with True show ?thesis
    by (simp add: find_exact_def find_with_def with_added_summary_def tree_end [OF wf] Let_def)
next
  case False
  then show ?thesis
    using find_iterate_exact [OF wf mono]
    by (auto simp: find_exact_def find_with_def with_added_summary_def tree_end [OF wf] Let_def
        split: prod.splits option.splits)
qed

section \<open>Finding with the previous item\<close>

lemma scan_prev_skip:
  assumes "seek_mono I D P d (xs @ ys)" "xs \<noteq> []" "P (pos_after I D d xs)"
  shows "scan_prev I D P d prev (xs @ ys) = scan_prev I D P (pos_after I D d xs) (list_last xs) ys"
  using seek_split_all [OF assms] assms(2)
  by (auto simp: scan_prev_def list_last_def split: prod.splits list.splits)

lemma scan_prev_stop:
  assumes "xs \<noteq> []" "\<not> P (pos_after I D d xs)"
  shows "scan_prev I D P d prev (xs @ ys) = scan_prev I D P d prev xs"
  using seek_split_stop [where P = P and d = d and xs = xs and I = I and D = D] assms
  by (auto simp: scan_prev_def split: prod.splits list.splits)

lemma scan_prev_Cons:
  "scan_prev I D P d prev (x # xs) = (let e = dim_add D d (item_summary I x) in
     if P e then scan_prev I D P e (Some x) xs else (d, Some (prev, x, e)))"
  by (auto simp: scan_prev_def Let_def list_last_def split: prod.splits list.splits)

lemma find_prev_items_ok:
  "find_prev_items D target b d prev its (map (item_summary I) its) = Some (scan_prev I D (target_past target b) d prev its)"
  by (induction its arbitrary: d prev) (simp_all add: scan_prev_Cons target_in_iff Let_def, simp add: scan_prev_def)

lemma find_prev_iterate_ok:
  assumes "wf_tree I t" "seek_mono I D (target_past target b) d (tree_items t)"
  shows "find_prev_iterate D target b d prev t = Some (scan_prev I D (target_past target b) d prev (tree_items t))"
  using assms
proof (induction t arbitrary: d prev)
  case (Leaf s its iss)
  then show ?case by (simp add: find_prev_items_ok)
next
  case (Internal h s css cts)
  let ?P = "target_past target b"
  have "find_prev_children D target b d prev ts (map node_summary ts) =
      Some (scan_prev I D ?P d prev (concat (map tree_items ts)))"
    if "\<forall>t \<in> set ts. wf_tree I t \<and> \<not> tree_is_empty t" "set ts \<subseteq> set cts"
      "seek_mono I D ?P d (concat (map tree_items ts))" for ts
    using that
  proof (induction ts arbitrary: d prev)
    case (Cons t ts)
    have t: "wf_tree I t" "\<not> tree_is_empty t" "tree_items t \<noteq> []"
      using Cons.prems by auto
    have mono: "seek_mono I D ?P d (tree_items t @ concat (map tree_items ts))"
      using Cons.prems(3) by simp
    show ?case
    proof (cases "?P (pos_after I D d (tree_items t))")
      case True
      then show ?thesis
        using Cons t scan_prev_skip [OF mono t(3)] seek_mono_suffix [OF mono]
        by (simp add: Let_def with_added_summary_def target_in_iff pos_after_tree tree_last_ok)
    next
      case False
      then show ?thesis
        using Cons t scan_prev_stop [where P = ?P and xs = "tree_items t" and d = d]
          Internal.IH [of t d] seek_mono_prefix [OF mono]
        by (simp add: Let_def with_added_summary_def target_in_iff pos_after_tree)
    qed
  qed (simp add: scan_prev_def)
  then show ?case
    using Internal.prems by auto
qed

lemma find_with_prev_ok:
  assumes wf: "wf_tree I t"
    and mono: "seek_mono I D (target_past target b) (dim_zero D) (tree_items t)"
  shows "find_with_prev D target b t = Some
    (case scan_prev I D (target_past target b) (dim_zero D) None (tree_items t) of
       (p, Some (prev, x, e)) \<Rightarrow> (p, e, Some (prev, x)) | (p, None) \<Rightarrow> (p, p, None))"
proof (cases "target_past target b (pos_after I D (dim_zero D) (tree_items t))")
  case True
  have "scan_prev I D (target_past target b) (dim_zero D) None (tree_items t) =
      (pos_after I D (dim_zero D) (tree_items t), None)"
  proof (cases "tree_items t = []")
    case False
    then show ?thesis
      using scan_prev_skip [of _ _ _ "[]"] mono True by (simp add: scan_prev_def)
  qed (simp add: scan_prev_def)
  with True show ?thesis
    by (simp add: find_with_prev_def with_added_summary_def tree_end [OF wf] Let_def)
next
  case False
  then show ?thesis
    using find_prev_iterate_ok [OF wf mono]
    by (simp add: find_with_prev_def with_added_summary_def tree_end [OF wf] Let_def
        split: prod.splits option.splits)
qed

end

end
