(* ===== verification/SumTree_Cursor.thy ===== *)
theory SumTree_Cursor
  imports SumTree_Find
begin

text \<open>
  The cursors of \<open>crates/sum_tree/src/cursor.rs\<close>.  A cursor is a stack of partially visited
  nodes; the innermost node is the head of the list here (the last element of the source's
  vector).  The stack is an \<open>ArrayVec\<close> of capacity 16.  Each \<open>while\<close> loop of the source is a
  step function, one iteration of the loop, and a recursion that runs it; the recursions are
  proved to terminate.
\<close>

section \<open>Cursors\<close>

record ('t, 's, 'd) stack_entry =
  entry_tree :: "('t, 's) sum_tree"
  entry_index :: nat
  entry_position :: 'd

record ('t, 's, 'd) cursor =
  cursor_tree :: "('t, 's) sum_tree"
  cursor_stack :: "('t, 's, 'd) stack_entry list"
  cursor_position :: 'd
  did_seek :: bool
  at_end :: bool

definition STACK_CAP :: nat where
  "STACK_CAP = 16"

definition stack_push ::
  "('t, 's, 'd) stack_entry list \<Rightarrow> ('t, 's, 'd) stack_entry \<Rightarrow> ('t, 's, 'd) stack_entry list option" where
  "stack_push st e = (if length st < STACK_CAP then Some (e # st) else None)"

definition cursor_new :: "('s, 'd) dimension \<Rightarrow> ('t, 's) sum_tree \<Rightarrow> ('t, 's, 'd) cursor" where
  "cursor_new D t = \<lparr>cursor_tree = t, cursor_stack = [], cursor_position = dim_zero D,
     did_seek = False, at_end = tree_is_empty t\<rparr>"

definition cursor_reset :: "('s, 'd) dimension \<Rightarrow> ('t, 's, 'd) cursor \<Rightarrow> ('t, 's, 'd) cursor" where
  "cursor_reset D c = c\<lparr>did_seek := False, at_end := tree_is_empty (cursor_tree c),
     cursor_stack := [], cursor_position := dim_zero D\<rparr>"

definition cursor_start :: "('t, 's, 'd) cursor \<Rightarrow> 'd" where
  "cursor_start c = cursor_position c"

definition assert_did_seek :: "('t, 's, 'd) cursor \<Rightarrow> unit option" where
  "assert_did_seek c = assert_that (did_seek c)"

text \<open>The outer option of an accessor is a panic, the inner one the value the source returns.\<close>

definition cursor_item :: "('t, 's, 'd) cursor \<Rightarrow> 't option option" where
  "cursor_item c = do {
     assert_did_seek c;
     (case cursor_stack c of
        [] \<Rightarrow> Some None
      | e # _ \<Rightarrow> do {
          its \<leftarrow> node_items (entry_tree e);
          if entry_index e = length its then Some None
          else do { x \<leftarrow> list_get its (entry_index e); Some (Some x) } }) }"

definition cursor_item_summary :: "('t, 's, 'd) cursor \<Rightarrow> 's option option" where
  "cursor_item_summary c = do {
     assert_did_seek c;
     (case cursor_stack c of
        [] \<Rightarrow> Some None
      | e # _ \<Rightarrow>
          (case entry_tree e of
             Internal _ _ _ _ \<Rightarrow> None
           | Leaf _ _ iss \<Rightarrow>
               if entry_index e = length iss then Some None
               else do { s \<leftarrow> list_get iss (entry_index e); Some (Some s) })) }"

definition cursor_end :: "('s, 'd) dimension \<Rightarrow> ('t, 's, 'd) cursor \<Rightarrow> 'd option" where
  "cursor_end D c = do {
     s \<leftarrow> cursor_item_summary c;
     Some (case s of Some s \<Rightarrow> dim_add D (cursor_start c) s | None \<Rightarrow> cursor_start c) }"

fun next_leaf :: "('t, 's, 'd) stack_entry list \<Rightarrow> ('t, 's) sum_tree option option" where
  "next_leaf [] = Some None"
| "next_leaf (e # es) = do {
     cts \<leftarrow> child_trees (entry_tree e);
     assert_that (cts \<noteq> []);
     if entry_index e < length cts - 1 then do {
       t \<leftarrow> list_get cts (entry_index e + 1);
       l \<leftarrow> leftmost_leaf t;
       Some (Some l) }
     else next_leaf es }"

definition next_item :: "('t, 's, 'd) cursor \<Rightarrow> 't option option" where
  "next_item c = do {
     assert_did_seek c;
     (case cursor_stack c of
        [] \<Rightarrow> if at_end c then Some None else tree_first (cursor_tree c)
      | e # es \<Rightarrow> do {
          its \<leftarrow> node_items (entry_tree e);
          assert_that (its \<noteq> []);
          if entry_index e = length its - 1 then do {
            leaf \<leftarrow> next_leaf es;
            (case leaf of
               None \<Rightarrow> Some None
             | Some leaf \<Rightarrow> do { lits \<leftarrow> node_items leaf; x \<leftarrow> list_first lits; Some (Some x) }) }
          else do { x \<leftarrow> list_get its (entry_index e + 1); Some (Some x) } }) }"

fun prev_leaf :: "('t, 's, 'd) stack_entry list \<Rightarrow> ('t, 's) sum_tree option option" where
  "prev_leaf [] = Some None"
| "prev_leaf (e # es) =
     (if entry_index e \<noteq> 0 then do {
        cts \<leftarrow> child_trees (entry_tree e);
        t \<leftarrow> list_get cts (entry_index e - 1);
        l \<leftarrow> rightmost_leaf t;
        Some (Some l) }
      else prev_leaf es)"

definition prev_item :: "('t, 's, 'd) cursor \<Rightarrow> 't option option" where
  "prev_item c = do {
     assert_did_seek c;
     (case cursor_stack c of
        [] \<Rightarrow> if at_end c then tree_last (cursor_tree c) else Some None
      | e # es \<Rightarrow>
          if entry_index e = 0 then do {
            leaf \<leftarrow> prev_leaf es;
            (case leaf of
               None \<Rightarrow> Some None
             | Some leaf \<Rightarrow> do { lits \<leftarrow> node_items leaf; x \<leftarrow> list_last lits; Some (Some x) }) }
          else do {
            its \<leftarrow> node_items (entry_tree e);
            x \<leftarrow> list_get its (entry_index e - 1);
            Some (Some x) }) }"

section \<open>Termination measures\<close>

fun weight :: "('t, 's) sum_tree \<Rightarrow> nat" where
  "weight (Leaf _ _ iss) = 2 + length iss"
| "weight (Internal _ _ css cts) = 2 + length css + sum_list (map weight cts)"

text \<open>The nodes still to visit to the right of index \<open>i\<close>, and to the left of it.\<close>

fun work_right :: "nat \<Rightarrow> ('t, 's) sum_tree \<Rightarrow> nat" where
  "work_right i (Leaf _ _ _) = 1"
| "work_right i (Internal _ _ _ cts) = 1 + sum_list (map weight (drop i cts))"

fun work_left :: "nat \<Rightarrow> ('t, 's) sum_tree \<Rightarrow> nat" where
  "work_left i (Leaf _ _ _) = 1 + i"
| "work_left i (Internal _ _ _ cts) = 1 + i + sum_list (map weight (take i cts))"

definition below_right :: "('t, 's, 'd) stack_entry list \<Rightarrow> nat" where
  "below_right st = sum_list (map (\<lambda>e. work_right (Suc (entry_index e)) (entry_tree e)) st)"

definition below_left :: "('t, 's, 'd) stack_entry list \<Rightarrow> nat" where
  "below_left st = sum_list (map (\<lambda>e. work_left (entry_index e) (entry_tree e)) st)"

fun seek_work :: "('t, 's, 'd) stack_entry list \<Rightarrow> bool \<Rightarrow> nat" where
  "seek_work [] ascending = 0"
| "seek_work (e # st) ascending =
     work_right (if ascending then Suc (entry_index e) else entry_index e) (entry_tree e) + below_right st"

fun back_work :: "('t, 's, 'd) stack_entry list \<Rightarrow> bool \<Rightarrow> nat" where
  "back_work [] descending = 0"
| "back_work (e # st) descending =
     work_left (if descending then Suc (entry_index e) else entry_index e) (entry_tree e) + below_left st"

lemma seek_work_ascending: "seek_work st True = below_right st"
  by (cases st) (simp_all add: below_right_def)

lemma back_work_ascending: "back_work st False = below_left st"
  by (cases st) (simp_all add: below_left_def)

lemma weight_children: "work_right 0 t + 1 \<le> weight t"
  by (cases t) simp_all

section \<open>Seeking\<close>

text \<open>
  \<open>SeekAggregate\<close> implementations; \<open>begin_leaf\<close> does nothing in any of them.  A call may panic
  because it may append to a tree.
\<close>

record ('t, 's, 'a) seek_aggregate =
  agg_end_leaf :: "'a \<Rightarrow> 'a option"
  agg_push_item :: "'a \<Rightarrow> 't \<Rightarrow> 's \<Rightarrow> 'a option"
  agg_push_tree :: "'a \<Rightarrow> ('t, 's) sum_tree \<Rightarrow> 's \<Rightarrow> 'a option"

definition unit_aggregate :: "('t, 's, unit) seek_aggregate" where
  "unit_aggregate = \<lparr>agg_end_leaf = Some, agg_push_item = (\<lambda>a _ _. Some a), agg_push_tree = (\<lambda>a _ _. Some a)\<rparr>"

record ('t, 's) slice_aggregate =
  slice_tree :: "('t, 's) sum_tree"
  leaf_items :: "'t list"
  leaf_item_summaries :: "'s list"
  leaf_summary :: 's

definition slice_end_leaf ::
  "('t, 's) item_impl \<Rightarrow> ('t, 's) slice_aggregate \<Rightarrow> ('t, 's) slice_aggregate option" where
  "slice_end_leaf I a = do {
     t \<leftarrow> tree_append I (slice_tree a) (Leaf (leaf_summary a) (leaf_items a) (leaf_item_summaries a));
     Some \<lparr>slice_tree = t, leaf_items = [], leaf_item_summaries = [], leaf_summary = summary_zero I\<rparr> }"

definition slice_push_item ::
  "('t, 's) item_impl \<Rightarrow> ('t, 's) slice_aggregate \<Rightarrow> 't \<Rightarrow> 's \<Rightarrow> ('t, 's) slice_aggregate option" where
  "slice_push_item I a x s = do {
     its \<leftarrow> arr_push CAP (leaf_items a) x;
     iss \<leftarrow> arr_push CAP (leaf_item_summaries a) s;
     Some (a\<lparr>leaf_items := its, leaf_item_summaries := iss,
             leaf_summary := add_summary I (leaf_summary a) s\<rparr>) }"

definition slice_push_tree ::
  "('t, 's) item_impl \<Rightarrow> ('t, 's) slice_aggregate \<Rightarrow> ('t, 's) sum_tree \<Rightarrow> 's \<Rightarrow> ('t, 's) slice_aggregate option" where
  "slice_push_tree I a t s = do {
     u \<leftarrow> tree_append I (slice_tree a) t;
     Some (a\<lparr>slice_tree := u\<rparr>) }"

definition slice_aggregate_impl :: "('t, 's) item_impl \<Rightarrow> ('t, 's, ('t, 's) slice_aggregate) seek_aggregate" where
  "slice_aggregate_impl I = \<lparr>agg_end_leaf = slice_end_leaf I, agg_push_item = slice_push_item I,
     agg_push_tree = slice_push_tree I\<rparr>"

definition summary_aggregate_impl :: "('s, 'o) dimension \<Rightarrow> ('t, 's, 'o) seek_aggregate" where
  "summary_aggregate_impl E = \<lparr>agg_end_leaf = Some, agg_push_item = (\<lambda>a _ s. Some (dim_add E a s)),
     agg_push_tree = (\<lambda>a _ s. Some (dim_add E a s))\<rparr>"

text \<open>
  The inner \<open>for\<close> loop over the children of an internal node: every child whose end the target
  is past goes to the aggregate; the first other child is the one to descend into.
\<close>

fun seek_children ::
  "('s, 'd) dimension \<Rightarrow> ('d \<Rightarrow> ordering) \<Rightarrow> bias \<Rightarrow> ('t, 's, 'a) seek_aggregate \<Rightarrow>
   nat \<Rightarrow> 'd \<Rightarrow> 'd \<Rightarrow> 'a \<Rightarrow> ('t, 's) sum_tree list \<Rightarrow> 's list \<Rightarrow>
   (nat \<times> 'd \<times> 'd \<times> 'a \<times> ('t, 's) sum_tree option) option" where
  "seek_children D target bias A i epos pos agg (t # ts) (s # ss) =
     (let child_end = dim_add D pos s in
      if target_past target bias child_end then do {
        agg' \<leftarrow> agg_push_tree A agg t s;
        seek_children D target bias A (Suc i) child_end child_end agg' ts ss }
      else Some (i, epos, pos, agg, Some t))"
| "seek_children D target bias A i epos pos agg [] _ = Some (i, epos, pos, agg, None)"
| "seek_children D target bias A i epos pos agg _ [] = Some (i, epos, pos, agg, None)"

fun seek_items ::
  "('s, 'd) dimension \<Rightarrow> ('d \<Rightarrow> ordering) \<Rightarrow> bias \<Rightarrow> ('t, 's, 'a) seek_aggregate \<Rightarrow>
   nat \<Rightarrow> 'd \<Rightarrow> 'a \<Rightarrow> 't list \<Rightarrow> 's list \<Rightarrow> (nat \<times> 'd \<times> 'a \<times> bool) option" where
  "seek_items D target bias A i pos agg (x # xs) (s # ss) =
     (let child_end = dim_add D pos s in
      if target_past target bias child_end then do {
        agg' \<leftarrow> agg_push_item A agg x s;
        seek_items D target bias A (Suc i) child_end agg' xs ss }
      else Some (i, pos, agg, True))"
| "seek_items D target bias A i pos agg [] _ = Some (i, pos, agg, False)"
| "seek_items D target bias A i pos agg _ [] = Some (i, pos, agg, False)"

text \<open>
  One iteration of the outer loop on the innermost entry \<open>e\<close>: \<open>Inl\<close> continues with a new
  stack, position, \<open>ascending\<close> flag and aggregate; \<open>Inr\<close> is \<open>break 'outer\<close>.
\<close>

definition seek_step ::
  "('s, 'd) dimension \<Rightarrow> ('d \<Rightarrow> ordering) \<Rightarrow> bias \<Rightarrow> ('t, 's, 'a) seek_aggregate \<Rightarrow>
   ('t, 's, 'd) stack_entry \<Rightarrow> ('t, 's, 'd) stack_entry list \<Rightarrow> 'd \<Rightarrow> bool \<Rightarrow> 'a \<Rightarrow>
   ((('t, 's, 'd) stack_entry list \<times> 'd \<times> bool \<times> 'a) + (('t, 's, 'd) stack_entry list \<times> 'd \<times> 'a)) option" where
  "seek_step D target bias A e st pos ascending agg =
     (case entry_tree e of
        Internal _ _ css cts \<Rightarrow> do {
          let e = (if ascending then e\<lparr>entry_index := entry_index e + 1, entry_position := pos\<rparr> else e);
          assert_that (entry_index e \<le> length cts \<and> entry_index e \<le> length css);
          (i, epos, pos', agg', child) \<leftarrow>
            seek_children D target bias A (entry_index e) (entry_position e) pos agg
              (drop (entry_index e) cts) (drop (entry_index e) css);
          (case child of
             Some t \<Rightarrow> do {
               st' \<leftarrow> stack_push (e\<lparr>entry_index := i, entry_position := epos\<rparr> # st)
                 \<lparr>entry_tree = t, entry_index = 0, entry_position = pos'\<rparr>;
               Some (Inl (st', pos', False, agg')) }
           | None \<Rightarrow> Some (Inl (st, pos', True, agg'))) }
      | Leaf _ its iss \<Rightarrow> do {
          assert_that (entry_index e \<le> length its \<and> entry_index e \<le> length iss);
          (i, pos', agg', stop) \<leftarrow>
            seek_items D target bias A (entry_index e) pos agg
              (drop (entry_index e) its) (drop (entry_index e) iss);
          agg'' \<leftarrow> agg_end_leaf A agg';
          if stop then Some (Inr (e\<lparr>entry_index := i\<rparr> # st, pos', agg''))
          else Some (Inl (st, pos', True, agg'')) })"

lemma seek_children_index:
  "seek_children D target b A i epos pos agg ts ss = Some (i', epos', pos', agg', Some t) \<Longrightarrow>
   i \<le> i' \<and> i' - i < length ts \<and> t = ts ! (i' - i)"
proof (induction D target b A i epos pos agg ts ss rule: seek_children.induct)
  case (1 D target bias A i epos pos agg t' ts s ss)
  show ?case
  proof (cases "target_past target bias (dim_add D pos s)")
    case True
    with 1 have "Suc i \<le> i' \<and> i' - Suc i < length ts \<and> t = ts ! (i' - Suc i)"
      by (auto simp: Let_def)
    then show ?thesis
      by (auto simp: nth_Cons split: nat.splits) (metis Suc_diff_le diff_Suc_Suc nat.inject Suc_diff_Suc Suc_le_lessD)
  next
    case False
    with 1 show ?thesis by (simp add: Let_def)
  qed
qed auto

lemma sum_list_drop_mono: "i \<le> j \<Longrightarrow> sum_list (map (weight :: ('t, 's) sum_tree \<Rightarrow> nat) (drop j xs)) \<le> sum_list (map weight (drop i xs))"
proof (induction xs arbitrary: i j)
  case (Cons x xs)
  then show ?case
    using Cons.IH [of 0 "j - 1"] by (cases i; cases j) (auto intro: trans_le_add2)
qed simp

lemma seek_step_work:
  assumes "seek_step D target b A e st pos asc agg = Some (Inl (st', pos', asc', agg'))"
  shows "seek_work st' asc' < seek_work (e # st) asc"
proof (cases "entry_tree e")
  case (Leaf s its iss)
  with assms show ?thesis
    by (auto simp: seek_step_def seek_work_ascending split: if_splits)
next
  case (Internal h s css cts)
  define k where "k = (if asc then Suc (entry_index e) else entry_index e)"
  from assms Internal obtain i epos child where
    ch: "seek_children D target b A k (if asc then pos else entry_position e) pos agg (drop k cts) (drop k css)
      = Some (i, epos, pos', agg', child)"
    and k: "k \<le> length cts"
    and res: "child = None \<and> st' = st \<and> asc' \<or>
      (\<exists>t e'. child = Some t \<and> entry_index e' = i \<and> entry_tree e' = entry_tree e \<and> \<not> asc' \<and>
        st' = \<lparr>entry_tree = t, entry_index = 0, entry_position = pos'\<rparr> # e' # st)"
    unfolding seek_step_def k_def stack_push_def
    by (cases asc) (force simp: Let_def split: option.splits if_splits)+
  show ?thesis
  proof (cases child)
    case None
    with res show ?thesis by (simp add: seek_work_ascending Internal)
  next
    case (Some t)
    with seek_children_index ch k have i: "k \<le> i" "i < length cts" "t = cts ! i"
      by (fastforce)+
    have "sum_list (map weight (drop i cts)) = weight t + sum_list (map weight (drop (Suc i) cts))"
      using i by (simp add: Cons_nth_drop_Suc [symmetric])
    then have "weight t + sum_list (map weight (drop (Suc i) cts)) \<le> sum_list (map weight (drop k cts))"
      using sum_list_drop_mono [OF i(1), of cts] by simp
    with weight_children [of t] show ?thesis
      using res Some Internal by (auto simp: below_right_def k_def)
  qed
qed

function seek_loop ::
  "('s, 'd) dimension \<Rightarrow> ('d \<Rightarrow> ordering) \<Rightarrow> bias \<Rightarrow> ('t, 's, 'a) seek_aggregate \<Rightarrow>
   ('t, 's, 'd) stack_entry list \<Rightarrow> 'd \<Rightarrow> bool \<Rightarrow> 'a \<Rightarrow>
   (('t, 's, 'd) stack_entry list \<times> 'd \<times> 'a) option" where
  "seek_loop D target bias A stack pos ascending agg =
     (case stack of
        [] \<Rightarrow> Some ([], pos, agg)
      | e # st \<Rightarrow>
          (case seek_step D target bias A e st pos ascending agg of
             None \<Rightarrow> None
           | Some (Inr r) \<Rightarrow> Some r
           | Some (Inl (st', pos', asc', agg')) \<Rightarrow> seek_loop D target bias A st' pos' asc' agg'))"
  by pat_completeness auto
termination
  by (relation "measure (\<lambda>(D, target, b, A, stack, pos, asc, agg). seek_work stack asc)")
    (auto dest: seek_step_work simp del: seek_work.simps)

declare seek_loop.simps [simp del]

definition seek_internal ::
  "('s, 'd) dimension \<Rightarrow> ('d \<Rightarrow> ordering) \<Rightarrow> bias \<Rightarrow> ('t, 's, 'a) seek_aggregate \<Rightarrow>
   ('t, 's, 'd) cursor \<Rightarrow> 'a \<Rightarrow> (('t, 's, 'd) cursor \<times> 'a \<times> bool) option" where
  "seek_internal D target bias A c agg = do {
     assert_that (target (cursor_position c) \<noteq> Less);
     stack \<leftarrow> (if did_seek c then Some (cursor_stack c)
              else stack_push (cursor_stack c)
                \<lparr>entry_tree = cursor_tree c, entry_index = 0, entry_position = dim_zero D\<rparr>);
     (stack', pos', agg') \<leftarrow> seek_loop D target bias A stack (cursor_position c) False agg;
     let c' = c\<lparr>did_seek := True, cursor_stack := stack', cursor_position := pos', at_end := stack' = []\<rparr>;
     s \<leftarrow> (if bias = Left then cursor_item_summary c' else Some None);
     let e = (case s of Some s \<Rightarrow> dim_add D pos' s | None \<Rightarrow> pos');
     Some (c', agg', target e = Equal) }"

definition seek ::
  "('s, 'd) dimension \<Rightarrow> ('d \<Rightarrow> ordering) \<Rightarrow> bias \<Rightarrow> ('t, 's, 'd) cursor \<Rightarrow> (('t, 's, 'd) cursor \<times> bool) option" where
  "seek D target bias c = do {
     (c', _, found) \<leftarrow> seek_internal D target bias unit_aggregate (cursor_reset D c) ();
     Some (c', found) }"

definition seek_forward ::
  "('s, 'd) dimension \<Rightarrow> ('d \<Rightarrow> ordering) \<Rightarrow> bias \<Rightarrow> ('t, 's, 'd) cursor \<Rightarrow> (('t, 's, 'd) cursor \<times> bool) option" where
  "seek_forward D target bias c = do {
     (c', _, found) \<leftarrow> seek_internal D target bias unit_aggregate c ();
     Some (c', found) }"

definition slice ::
  "('t, 's) item_impl \<Rightarrow> ('s, 'd) dimension \<Rightarrow> ('d \<Rightarrow> ordering) \<Rightarrow> bias \<Rightarrow> ('t, 's, 'd) cursor \<Rightarrow>
   (('t, 's, 'd) cursor \<times> ('t, 's) sum_tree) option" where
  "slice I D target bias c = do {
     (c', a, _) \<leftarrow> seek_internal D target bias (slice_aggregate_impl I) c
       \<lparr>slice_tree = tree_new I, leaf_items = [], leaf_item_summaries = [], leaf_summary = summary_zero I\<rparr>;
     Some (c', slice_tree a) }"

definition end_target :: "'d \<Rightarrow> ordering" where
  "end_target d = Greater"

definition suffix ::
  "('t, 's) item_impl \<Rightarrow> ('s, 'd) dimension \<Rightarrow> ('t, 's, 'd) cursor \<Rightarrow>
   (('t, 's, 'd) cursor \<times> ('t, 's) sum_tree) option" where
  "suffix I D c = slice I D end_target Right c"

definition cursor_summary ::
  "('s, 'd) dimension \<Rightarrow> ('s, 'o) dimension \<Rightarrow> ('d \<Rightarrow> ordering) \<Rightarrow> bias \<Rightarrow> ('t, 's, 'd) cursor \<Rightarrow>
   (('t, 's, 'd) cursor \<times> 'o) option" where
  "cursor_summary D E target bias c = do {
     (c', a, _) \<leftarrow> seek_internal D target bias (summary_aggregate_impl E) c (dim_zero E);
     Some (c', a) }"

section \<open>Moving to the next matching item\<close>

text \<open>The inner loops of \<open>search_forward\<close>: children and items the filter rejects are skipped.\<close>

fun skip_forward ::
  "('s, 'd) dimension \<Rightarrow> ('s \<Rightarrow> bool) \<Rightarrow> nat \<Rightarrow> 'd \<Rightarrow> 'd \<Rightarrow> 's list \<Rightarrow> nat \<times> 'd \<times> 'd" where
  "skip_forward D F i epos pos [] = (i, epos, pos)"
| "skip_forward D F i epos pos (s # ss) =
     (if F s then (i, epos, pos)
      else skip_forward D F (Suc i) (dim_add D epos s) (dim_add D pos s) ss)"

text \<open>
  One iteration of the loop of \<open>search_forward\<close>.  \<open>Inr\<close> is the early return at an item the
  filter accepts.
\<close>

definition forward_step ::
  "('s, 'd) dimension \<Rightarrow> ('s \<Rightarrow> bool) \<Rightarrow> ('t, 's, 'd) stack_entry \<Rightarrow> ('t, 's, 'd) stack_entry list \<Rightarrow> 'd \<Rightarrow> bool \<Rightarrow>
   ((('t, 's, 'd) stack_entry list \<times> 'd \<times> bool) + (('t, 's, 'd) stack_entry list \<times> 'd)) option" where
  "forward_step D F e st pos descend =
     (case entry_tree e of
        Internal _ _ css cts \<Rightarrow> do {
          let e = (if descend then e else e\<lparr>entry_index := entry_index e + 1, entry_position := pos\<rparr>);
          let (i, epos, pos') =
            skip_forward D F (entry_index e) (entry_position e) pos (drop (entry_index e) css);
          (case list_get cts i of
             Some t \<Rightarrow> do {
               st' \<leftarrow> stack_push (e\<lparr>entry_index := i, entry_position := epos\<rparr> # st)
                 \<lparr>entry_tree = t, entry_index = 0, entry_position = pos'\<rparr>;
               Some (Inl (st', pos', True)) }
           | None \<Rightarrow> Some (Inl (st, pos', False))) }
      | Leaf _ its iss \<Rightarrow> do {
          (i0, epos0, pos0) \<leftarrow>
            (if descend then Some (entry_index e, entry_position e, pos)
             else do {
               s \<leftarrow> list_get iss (entry_index e);
               Some (entry_index e + 1, dim_add D (entry_position e) s, dim_add D pos s) });
          let (i, epos, pos') = skip_forward D F i0 epos0 pos0 (drop i0 iss);
          if i < length iss
          then Some (Inr (e\<lparr>entry_index := i, entry_position := epos\<rparr> # st, pos'))
          else Some (Inl (st, pos', False)) })"

lemma skip_forward_index: "i \<le> fst (skip_forward D F i epos pos ss)"
  by (induction ss arbitrary: i epos pos) (auto intro: Suc_leD)

lemma list_get_eq_Some: "list_get xs i = Some x \<longleftrightarrow> i < length xs \<and> x = xs ! i"
  by (auto simp: list_get_def)

lemma forward_step_work:
  assumes "forward_step D F e st pos descend = Some (Inl (st', pos', descend'))"
  shows "seek_work st' (\<not> descend') < seek_work (e # st) (\<not> descend)"
proof (cases "entry_tree e")
  case (Leaf s its iss)
  with assms have "st' = st \<and> \<not> descend'"
    by (cases descend; cases "list_get iss (entry_index e)") (auto simp: forward_step_def Let_def split: if_splits prod.splits)
  then show ?thesis
    by (simp add: seek_work_ascending Leaf)
next
  case (Internal h s css cts)
  define k where "k = (if descend then entry_index e else Suc (entry_index e))"
  from assms Internal obtain i epos where
    sk: "skip_forward D F k (if descend then entry_position e else pos) pos (drop k css) = (i, epos, pos')"
    and res: "length cts \<le> i \<and> st' = st \<and> \<not> descend' \<or>
      (\<exists>e'. i < length cts \<and> entry_index e' = i \<and> entry_tree e' = entry_tree e \<and> descend' \<and>
        st' = \<lparr>entry_tree = cts ! i, entry_index = 0, entry_position = pos'\<rparr> # e' # st)"
    unfolding forward_step_def k_def stack_push_def
    by (cases descend) (force simp: Let_def list_get_eq_Some split: option.splits if_splits prod.splits)+
  then have i: "k \<le> i"
    using skip_forward_index [of k] by (metis fst_conv)
  show ?thesis
  proof (cases "i < length cts")
    case False
    with res show ?thesis by (simp add: seek_work_ascending Internal)
  next
    case True
    have "sum_list (map weight (drop i cts)) = weight (cts ! i) + sum_list (map weight (drop (Suc i) cts))"
      using True by (simp add: Cons_nth_drop_Suc [symmetric])
    then have "weight (cts ! i) + sum_list (map weight (drop (Suc i) cts)) \<le> sum_list (map weight (drop k cts))"
      using sum_list_drop_mono [OF i, of cts] by simp
    with weight_children [of "cts ! i"] show ?thesis
      using res True Internal by (auto simp: below_right_def k_def)
  qed
qed

text \<open>The result carries \<open>True\<close> for the early return, which leaves \<open>at_end\<close> untouched.\<close>

function forward_loop ::
  "('s, 'd) dimension \<Rightarrow> ('s \<Rightarrow> bool) \<Rightarrow> ('t, 's, 'd) stack_entry list \<Rightarrow> 'd \<Rightarrow> bool \<Rightarrow>
   (('t, 's, 'd) stack_entry list \<times> 'd \<times> bool) option" where
  "forward_loop D F stack pos descend =
     (case stack of
        [] \<Rightarrow> Some ([], pos, False)
      | e # st \<Rightarrow>
          (case forward_step D F e st pos descend of
             None \<Rightarrow> None
           | Some (Inr (st', pos')) \<Rightarrow> Some (st', pos', True)
           | Some (Inl (st', pos', descend')) \<Rightarrow> forward_loop D F st' pos' descend'))"
  by pat_completeness auto
termination
  by (relation "measure (\<lambda>(D, F, stack, pos, descend). seek_work stack (\<not> descend))")
    (auto dest: forward_step_work simp del: seek_work.simps)

declare forward_loop.simps [simp del]

definition search_forward ::
  "('s, 'd) dimension \<Rightarrow> ('s \<Rightarrow> bool) \<Rightarrow> ('t, 's, 'd) cursor \<Rightarrow> ('t, 's, 'd) cursor option" where
  "search_forward D F c = do {
     (stack, descend, seeked) \<leftarrow>
       (if cursor_stack c = [] then do {
          stack \<leftarrow> (if at_end c then Some []
                   else stack_push [] \<lparr>entry_tree = cursor_tree c, entry_index = 0, entry_position = dim_zero D\<rparr>);
          Some (stack, \<not> at_end c, True) }
        else Some (cursor_stack c, False, did_seek c));
     (stack', pos', early) \<leftarrow> forward_loop D F stack (cursor_position c) descend;
     Some (c\<lparr>cursor_stack := stack', cursor_position := pos', did_seek := seeked,
             at_end := (if early then at_end c else stack' = [])\<rparr>) }"

definition cursor_next :: "('s, 'd) dimension \<Rightarrow> ('t, 's, 'd) cursor \<Rightarrow> ('t, 's, 'd) cursor option" where
  "cursor_next D c = search_forward D (\<lambda>_. True) c"

section \<open>Moving to the previous matching item\<close>

text \<open>
  One iteration of the loop of \<open>search_backward\<close>.  The position of the entry is recomputed from
  the entry below it and the summaries before its index.
\<close>

definition backward_step ::
  "('s, 'd) dimension \<Rightarrow> ('s \<Rightarrow> bool) \<Rightarrow> ('t, 's, 'd) stack_entry \<Rightarrow> ('t, 's, 'd) stack_entry list \<Rightarrow> bool \<Rightarrow>
   ((('t, 's, 'd) stack_entry list \<times> 'd \<times> bool) + (('t, 's, 'd) stack_entry list \<times> 'd)) option" where
  "backward_step D F e st descending =
     (let base = (case st of [] \<Rightarrow> dim_zero D | b # _ \<Rightarrow> entry_position b) in
      if \<not> descending \<and> entry_index e = 0 then Some (Inl (st, base, False))
      else do {
        let i = (if descending then entry_index e else entry_index e - 1);
        let css = child_summaries (entry_tree e);
        assert_that (i \<le> length css);
        let pos = foldl (dim_add D) base (take i css);
        let e' = e\<lparr>entry_index := i, entry_position := pos\<rparr>;
        s \<leftarrow> list_get css i;
        let descending' = F s;
        (case entry_tree e of
           Internal _ _ _ cts \<Rightarrow>
             if descending' then do {
               t \<leftarrow> list_get cts i;
               assert_that (child_summaries t \<noteq> []);
               st' \<leftarrow> stack_push (e' # st)
                 \<lparr>entry_tree = t, entry_index = length (child_summaries t) - 1, entry_position = dim_zero D\<rparr>;
               Some (Inl (st', pos, True)) }
             else Some (Inl (e' # st, pos, False))
         | Leaf _ _ _ \<Rightarrow>
             if descending' then Some (Inr (e' # st, pos)) else Some (Inl (e' # st, pos, False))) })"

lemma weight_children_left: "work_left (length (child_summaries t)) t < weight t"
proof (cases t)
  case (Internal h s css cts)
  have "sum_list (map weight (take (length css) cts)) \<le> sum_list (map weight cts)"
    using sum_list_append [of "map weight (take (length css) cts)" "map weight (drop (length css) cts)"]
    by (metis append_take_drop_id le_add1 map_append)
  then show ?thesis using Internal by simp
qed simp

lemma work_left_Suc:
  "work_left i t < work_left (Suc i) t"
  "i < length cts \<Longrightarrow> work_left (Suc i) (Internal h s css cts) = 1 + work_left i (Internal h s css cts) + weight (cts ! i)"
  by (cases t; cases "i < length (the (child_trees t))"; simp add: take_Suc_conv_app_nth)
    (simp add: take_Suc_conv_app_nth)

lemma backward_step_work:
  assumes "backward_step D F e st descending = Some (Inl (st', pos', descending'))"
  shows "back_work st' descending' < back_work (e # st) descending"
proof (cases "\<not> descending \<and> entry_index e = 0")
  case True
  with assms show ?thesis
    by (cases "entry_tree e") (auto simp: backward_step_def Let_def back_work_ascending below_left_def)
next
  case False
  define i where "i = (if descending then entry_index e else entry_index e - 1)"
  have idx: "(if descending then Suc (entry_index e) else entry_index e) = Suc i"
    using False by (auto simp: i_def)
  define base where "base = (case st of [] \<Rightarrow> dim_zero D | b # _ \<Rightarrow> entry_position b)"
  define e' where "e' = e\<lparr>entry_index := i, entry_position := foldl (dim_add D) base (take i (child_summaries (entry_tree e)))\<rparr>"
  have *: "back_work (e # st) descending = work_left (Suc i) (entry_tree e) + below_left st"
    using idx by simp
  from assms False have "st' = e' # st \<and> \<not> descending' \<or>
    (\<exists>h s css cts. entry_tree e = Internal h s css cts \<and> i < length cts \<and> descending' \<and> child_summaries (cts ! i) \<noteq> [] \<and>
      st' = \<lparr>entry_tree = cts ! i, entry_index = length (child_summaries (cts ! i)) - 1, entry_position = dim_zero D\<rparr> # e' # st)"
    unfolding backward_step_def base_def [symmetric] i_def [symmetric] e'_def stack_push_def
    by (cases "entry_tree e") (auto simp: Let_def list_get_eq_Some assert_that_def split: if_splits)
  then show ?thesis
  proof (elim disjE exE conjE)
    assume "st' = e' # st" "\<not> descending'"
    then show ?thesis
      unfolding * using work_left_Suc(1) [of i "entry_tree e"] by (simp add: e'_def below_left_def)
  next
    fix h s css cts
    assume "entry_tree e = Internal h s css cts" "i < length cts" "descending'" "child_summaries (cts ! i) \<noteq> []"
      "st' = \<lparr>entry_tree = cts ! i, entry_index = length (child_summaries (cts ! i)) - 1, entry_position = dim_zero D\<rparr> # e' # st"
    then show ?thesis
      unfolding * using weight_children_left [of "cts ! i"] work_left_Suc(2) [of i cts h s css]
      by (simp add: e'_def below_left_def del: work_left.simps)
  qed
qed

function backward_loop ::
  "('s, 'd) dimension \<Rightarrow> ('s \<Rightarrow> bool) \<Rightarrow> ('t, 's, 'd) stack_entry list \<Rightarrow> 'd \<Rightarrow> bool \<Rightarrow>
   (('t, 's, 'd) stack_entry list \<times> 'd) option" where
  "backward_loop D F stack pos descending =
     (case stack of
        [] \<Rightarrow> Some ([], pos)
      | e # st \<Rightarrow>
          (case backward_step D F e st descending of
             None \<Rightarrow> None
           | Some (Inr r) \<Rightarrow> Some r
           | Some (Inl (st', pos', descending')) \<Rightarrow> backward_loop D F st' pos' descending'))"
  by pat_completeness auto
termination
  by (relation "measure (\<lambda>(D, F, stack, pos, descending). back_work stack descending)")
    (auto dest: backward_step_work simp del: back_work.simps)

declare backward_loop.simps [simp del]

definition search_backward ::
  "('s, 'd) dimension \<Rightarrow> ('s \<Rightarrow> bool) \<Rightarrow> ('t, 's, 'd) cursor \<Rightarrow> ('t, 's, 'd) cursor option" where
  "search_backward D F c = do {
     let c = (if did_seek c then c else c\<lparr>did_seek := True, at_end := True\<rparr>);
     c \<leftarrow> (if at_end c then do {
            let c = c\<lparr>cursor_position := dim_zero D, at_end := tree_is_empty (cursor_tree c)\<rparr>;
            if tree_is_empty (cursor_tree c) then Some c
            else do {
              st \<leftarrow> stack_push (cursor_stack c)
                \<lparr>entry_tree = cursor_tree c, entry_index = length (child_summaries (cursor_tree c)),
                 entry_position = dim_from_summary D (node_summary (cursor_tree c))\<rparr>;
              Some (c\<lparr>cursor_stack := st\<rparr>) } }
          else Some c);
     (stack', pos') \<leftarrow> backward_loop D F (cursor_stack c) (cursor_position c) False;
     Some (c\<lparr>cursor_stack := stack', cursor_position := pos'\<rparr>) }"

definition cursor_prev :: "('s, 'd) dimension \<Rightarrow> ('t, 's, 'd) cursor \<Rightarrow> ('t, 's, 'd) cursor option" where
  "cursor_prev D c = search_backward D (\<lambda>_. True) c"

section \<open>Iterators\<close>

text \<open>
  \<open>Iterator for Cursor\<close> and \<open>Iterator for FilterCursor\<close>: a cursor that has not been moved is first
  moved to its first item.  The plain cursor is the filter cursor that accepts everything, which
  is also how the source defines its \<open>next\<close>.
\<close>

definition filter_cursor_iter_next ::
  "('s, 'd) dimension \<Rightarrow> ('s \<Rightarrow> bool) \<Rightarrow> ('t, 's, 'd) cursor \<Rightarrow> (('t, 's, 'd) cursor \<times> 't option) option" where
  "filter_cursor_iter_next D F c = do {
     c \<leftarrow> (if did_seek c then Some c else search_forward D F c);
     x \<leftarrow> cursor_item c;
     (case x of
        Some x \<Rightarrow> do { c' \<leftarrow> search_forward D F c; Some (c', Some x) }
      | None \<Rightarrow> Some (c, None)) }"

definition cursor_iter_next ::
  "('s, 'd) dimension \<Rightarrow> ('t, 's, 'd) cursor \<Rightarrow> (('t, 's, 'd) cursor \<times> 't option) option" where
  "cursor_iter_next D c = do {
     c \<leftarrow> (if did_seek c then Some c else cursor_next D c);
     x \<leftarrow> cursor_item c;
     (case x of
        Some x \<Rightarrow> do { c' \<leftarrow> cursor_next D c; Some (c', Some x) }
      | None \<Rightarrow> Some (c, None)) }"

text \<open>One iteration of the loop of \<open>Iterator for Iter\<close>, whose stack has no positions.\<close>

definition iter_step ::
  "('t, 's, unit) stack_entry \<Rightarrow> ('t, 's, unit) stack_entry list \<Rightarrow> bool \<Rightarrow>
   ((('t, 's, unit) stack_entry list \<times> bool) + (('t, 's, unit) stack_entry list \<times> 't)) option" where
  "iter_step e st descend =
     (let e = (if descend then e else e\<lparr>entry_index := entry_index e + 1\<rparr>) in
      case entry_tree e of
        Internal _ _ _ cts \<Rightarrow>
          (case list_get cts (entry_index e) of
             Some t \<Rightarrow> do {
               st' \<leftarrow> stack_push (e # st) \<lparr>entry_tree = t, entry_index = 0, entry_position = ()\<rparr>;
               Some (Inl (st', True)) }
           | None \<Rightarrow> Some (Inl (st, False)))
      | Leaf _ its _ \<Rightarrow>
          (case list_get its (entry_index e) of
             Some x \<Rightarrow> Some (Inr (e # st, x))
           | None \<Rightarrow> Some (Inl (st, False))))"

lemma iter_step_work:
  assumes "iter_step e st descend = Some (Inl (st', descend'))"
  shows "seek_work st' (\<not> descend') < seek_work (e # st) (\<not> descend)"
proof (cases "entry_tree e")
  case (Leaf s its iss)
  with assms have "st' = st \<and> \<not> descend'"
    by (cases descend) (auto simp: iter_step_def Let_def split: option.splits)
  then show ?thesis
    by (simp add: seek_work_ascending Leaf)
next
  case (Internal h s css cts)
  define i where "i = (if descend then entry_index e else Suc (entry_index e))"
  define e' where "e' = (if descend then e else e\<lparr>entry_index := entry_index e + 1\<rparr>)"
  have e': "entry_index e' = i" "entry_tree e' = entry_tree e"
    by (simp_all add: e'_def i_def)
  from assms Internal e' have "length cts \<le> i \<and> st' = st \<and> \<not> descend' \<or>
      i < length cts \<and> descend' \<and>
        st' = \<lparr>entry_tree = cts ! i, entry_index = 0, entry_position = ()\<rparr> # e' # st"
    unfolding iter_step_def e'_def [symmetric] stack_push_def
    by (auto simp: Let_def list_get_def split: if_splits)
  then show ?thesis
  proof (elim disjE conjE)
    assume "st' = st" "\<not> descend'"
    then show ?thesis by (simp add: seek_work_ascending Internal)
  next
    assume *: "i < length cts" "descend'"
      "st' = \<lparr>entry_tree = cts ! i, entry_index = 0, entry_position = ()\<rparr> # e' # st"
    have "sum_list (map weight (drop i cts)) = weight (cts ! i) + sum_list (map weight (drop (Suc i) cts))"
      using * by (simp add: Cons_nth_drop_Suc [symmetric])
    with * e' weight_children [of "cts ! i"] show ?thesis
      using Internal by (auto simp: below_right_def i_def)
  qed
qed

function iter_loop ::
  "('t, 's, unit) stack_entry list \<Rightarrow> bool \<Rightarrow> (('t, 's, unit) stack_entry list \<times> 't option) option" where
  "iter_loop stack descend =
     (case stack of
        [] \<Rightarrow> Some ([], None)
      | e # st \<Rightarrow>
          (case iter_step e st descend of
             None \<Rightarrow> None
           | Some (Inr (st', x)) \<Rightarrow> Some (st', Some x)
           | Some (Inl (st', descend')) \<Rightarrow> iter_loop st' descend'))"
  by pat_completeness auto
termination
  by (relation "measure (\<lambda>(stack, descend). seek_work stack (\<not> descend))")
    (auto dest: iter_step_work simp del: seek_work.simps)

declare iter_loop.simps [simp del]

definition iter_next ::
  "('t, 's) sum_tree \<Rightarrow> ('t, 's, unit) stack_entry list \<Rightarrow> (('t, 's, unit) stack_entry list \<times> 't option) option" where
  "iter_next t stack = do {
     (stack, descend) \<leftarrow>
       (if stack = [] then do {
          st \<leftarrow> stack_push [] \<lparr>entry_tree = t, entry_index = 0, entry_position = ()\<rparr>;
          Some (st, True) }
        else Some (stack, False));
     iter_loop stack descend }"

end
