(* ===== verification/SumTree_Seek.thy ===== *)
theory SumTree_Seek
  imports SumTree_Cursor
begin

text \<open>
  Correctness of seeking, slicing and summarising with a cursor.  The entries below the innermost
  one form a trail from the root to the current node.  The trail determines the items before and
  after the cursor; a seek moves the border between the two to the first item whose end the
  target is not past, and gives the items it crosses to the aggregate.
\<close>

section \<open>The trail of a cursor\<close>

fun node_before :: "nat \<Rightarrow> ('t, 's) sum_tree \<Rightarrow> 't list" where
  "node_before i (Leaf _ its _) = take i its"
| "node_before i (Internal _ _ _ cts) = concat (map tree_items (take i cts))"

fun node_from :: "nat \<Rightarrow> ('t, 's) sum_tree \<Rightarrow> 't list" where
  "node_from i (Leaf _ its _) = drop i its"
| "node_from i (Internal _ _ _ cts) = concat (map tree_items (drop i cts))"

fun trail_before :: "('t, 's, 'd) stack_entry list \<Rightarrow> 't list" where
  "trail_before [] = []"
| "trail_before (b # st) = trail_before st @ node_before (entry_index b) (entry_tree b)"

fun trail_after :: "('t, 's, 'd) stack_entry list \<Rightarrow> 't list" where
  "trail_after [] = []"
| "trail_after (b # st) = node_from (Suc (entry_index b)) (entry_tree b) @ trail_after st"

text \<open>\<open>trail I D t st u\<close>: the entries \<open>st\<close> lead from the root \<open>t\<close> to the node \<open>u\<close>.\<close>

fun trail ::
  "('t, 's) item_impl \<Rightarrow> ('s, 'd) dimension \<Rightarrow> ('t, 's) sum_tree \<Rightarrow> ('t, 's, 'd) stack_entry list \<Rightarrow>
   ('t, 's) sum_tree \<Rightarrow> bool" where
  "trail I D t [] u \<longleftrightarrow> u = t"
| "trail I D t (b # st) u \<longleftrightarrow>
     (case entry_tree b of Leaf _ _ _ \<Rightarrow> False
      | Internal _ _ _ cts \<Rightarrow> entry_index b < length cts \<and> u = cts ! entry_index b) \<and>
     entry_position b = pos_after I D (dim_zero D) (trail_before (b # st)) \<and>
     trail I D t st (entry_tree b)"

lemma node_split: "node_before i t @ node_from i t = tree_items t"
  by (cases t) (simp_all flip: concat_append map_append)

lemma node_from_0 [simp]: "node_from 0 t = tree_items t" "node_before 0 t = []"
  by (cases t; simp)+

lemma node_child:
  assumes "i < length cts"
  shows "node_from i (Internal h s css cts) = tree_items (cts ! i) @ node_from (Suc i) (Internal h s css cts)"
    and "node_before (Suc i) (Internal h s css cts) = node_before i (Internal h s css cts) @ tree_items (cts ! i)"
  using assms by (simp_all add: Cons_nth_drop_Suc [symmetric] take_Suc_conv_app_nth)

lemma trail_ok:
  assumes "trail I D t st u" "wf_tree I t"
  shows "wf_tree I u" and "st \<noteq> [] \<longrightarrow> \<not> tree_is_empty u"
    and "node_height u + length st = node_height t"
    and "tree_items t = trail_before st @ tree_items u @ trail_after st"
  using assms
proof (induction st arbitrary: u)
  case (Cons b st)
  {
    case 1
    then show ?case using Cons.IH(1) by (fastforce split: sum_tree.splits)
  next
    case 2
    then show ?case using Cons.IH(1) by (fastforce split: sum_tree.splits)
  next
    case 3
    then obtain h s css cts where b: "entry_tree b = Internal h s css cts" "entry_index b < length cts" "u = cts ! entry_index b"
      "trail I D t st (entry_tree b)"
      by (auto split: sum_tree.splits)
    from Cons.IH(1) [OF b(4)] Cons.IH(3) [OF b(4)] b(1) 3
    have "wf_tree I (Internal h s css cts)" "h + length st = node_height t"
      by simp_all
    moreover from this b have "Suc (node_height u) = h" by simp
    ultimately show ?case by simp
  next
    case 4
    then obtain h s css cts where b: "entry_tree b = Internal h s css cts" "entry_index b < length cts" "u = cts ! entry_index b"
      "trail I D t st (entry_tree b)"
      by (auto split: sum_tree.splits)
    have "tree_items (entry_tree b) = node_before (entry_index b) (entry_tree b) @ tree_items u @ node_from (Suc (entry_index b)) (entry_tree b)"
      using node_child(1) [OF b(2), of h s css] node_split [of "entry_index b" "entry_tree b"] b(1,3) by simp
    with Cons.IH(4) [OF b(4)] 4 show ?case by simp
  }
qed simp_all

lemma trail_before_eq:
  assumes "trail I D t st u" "wf_tree I t" "tree_items t = ys @ node_from i u @ trail_after st"
  shows "ys = trail_before st @ node_before i u"
proof -
  have "ys @ (node_from i u @ trail_after st) = (trail_before st @ node_before i u) @ (node_from i u @ trail_after st)"
    using trail_ok(4) [OF assms(1,2)] assms(3) node_split [of i u] by (metis append.assoc)
  then show ?thesis by blast
qed

section \<open>The contract of an aggregate\<close>

text \<open>
  Between leaves an aggregate stands for the list of items it was given (\<open>R\<close>); inside a leaf it
  has at most \<open>CAP\<close> items pending (\<open>Q\<close>).  No call may panic.
\<close>

locale seek_aggregator = summary_monoid I
  for I :: "('t, 's) item_impl" +
  fixes A :: "('t, 's, 'a) seek_aggregate"
    and R :: "'t list \<Rightarrow> 'a \<Rightarrow> bool"
    and Q :: "'t list \<Rightarrow> nat \<Rightarrow> 'a \<Rightarrow> bool"
  assumes begin_leaf: "R xs a \<Longrightarrow> Q xs 0 a"
    and push_item: "Q xs n a \<Longrightarrow> n < CAP \<Longrightarrow> \<exists>a'. agg_push_item A a x (item_summary I x) = Some a' \<and> Q (xs @ [x]) (Suc n) a'"
    and end_leaf: "Q xs n a \<Longrightarrow> n \<le> CAP \<Longrightarrow> \<exists>a'. agg_end_leaf A a = Some a' \<and> R xs a'"
    and push_tree: "R xs a \<Longrightarrow> wf_tree I t \<Longrightarrow> \<not> tree_is_empty t \<Longrightarrow>
      \<exists>a'. agg_push_tree A a t (node_summary t) = Some a' \<and> R (xs @ tree_items t) a'"

definition slice_R :: "('t, 's) item_impl \<Rightarrow> 't list \<Rightarrow> ('t, 's) slice_aggregate \<Rightarrow> bool" where
  "slice_R I xs a \<longleftrightarrow> wf_tree I (slice_tree a) \<and> tree_items (slice_tree a) = xs \<and>
     leaf_items a = [] \<and> leaf_item_summaries a = [] \<and> leaf_summary a = summary_zero I"

definition slice_Q :: "('t, 's) item_impl \<Rightarrow> 't list \<Rightarrow> nat \<Rightarrow> ('t, 's) slice_aggregate \<Rightarrow> bool" where
  "slice_Q I xs n a \<longleftrightarrow> wf_tree I (slice_tree a) \<and> tree_items (slice_tree a) @ leaf_items a = xs \<and>
     leaf_item_summaries a = map (item_summary I) (leaf_items a) \<and> length (leaf_items a) = n \<and>
     leaf_summary a = summary_sum I (leaf_item_summaries a)"

sublocale summary_monoid \<subseteq> slicing: seek_aggregator I "slice_aggregate_impl I" "slice_R I" "slice_Q I"
proof (unfold_locales, goal_cases)
  case (1 xs a)
  then show ?case by (simp add: slice_R_def slice_Q_def)
next
  case (2 xs n a x)
  then show ?case
    by (auto simp: slice_Q_def slice_aggregate_impl_def slice_push_item_def arr_push_def)
next
  case (3 xs n a)
  then have "wf_tree I (Leaf (leaf_summary a) (leaf_items a) (leaf_item_summaries a))"
    by (simp add: slice_Q_def)
  with append_ok 3 show ?case
    by (fastforce simp: slice_Q_def slice_R_def slice_aggregate_impl_def slice_end_leaf_def)
next
  case (4 xs a t)
  then show ?case
    using append_ok [of "slice_tree a" t]
    by (fastforce simp: slice_R_def slice_aggregate_impl_def slice_push_tree_def)
qed

sublocale summary_monoid \<subseteq> skipping: seek_aggregator I unit_aggregate "\<lambda>_ _. True" "\<lambda>_ _ _. True"
  by unfold_locales (auto simp: unit_aggregate_def)

sublocale measured \<subseteq> summing: seek_aggregator I "summary_aggregate_impl D"
  "\<lambda>xs a. a = pos_after I D (dim_zero D) xs" "\<lambda>xs n a. a = pos_after I D (dim_zero D) xs"
  by unfold_locales (auto simp: summary_aggregate_impl_def pos_after_tree)

section \<open>Abstract state of a cursor\<close>

text \<open>
  \<open>cursor_at I D c ys zs\<close>: the cursor stands between the items \<open>ys\<close> and \<open>zs\<close> of its tree, with
  the current item, if any, at the head of \<open>zs\<close>.  The stack has room for the path to any leaf.
\<close>

definition cursor_at ::
  "('t, 's) item_impl \<Rightarrow> ('s, 'd) dimension \<Rightarrow> ('t, 's, 'd) cursor \<Rightarrow> 't list \<Rightarrow> 't list \<Rightarrow> bool" where
  "cursor_at I D c ys zs \<longleftrightarrow>
     wf_tree I (cursor_tree c) \<and> node_height (cursor_tree c) < STACK_CAP \<and>
     tree_items (cursor_tree c) = ys @ zs \<and> cursor_position c = pos_after I D (dim_zero D) ys \<and>
     (case cursor_stack c of
        [] \<Rightarrow> at_end c = (zs = []) \<and> (if did_seek c then zs = [] else ys = [])
      | e # st \<Rightarrow> did_seek c \<and> \<not> at_end c \<and> zs \<noteq> [] \<and> trail I D (cursor_tree c) st (entry_tree e) \<and>
          node_is_leaf (entry_tree e) \<and> zs = node_from (entry_index e) (entry_tree e) @ trail_after st \<and>
          entry_index e < length (child_summaries (entry_tree e)))"

lemma cursor_at_new:
  "wf_tree I t \<Longrightarrow> node_height t < STACK_CAP \<Longrightarrow> cursor_at I D (cursor_new D t) [] (tree_items t)"
  by (simp add: cursor_at_def cursor_new_def)

lemma cursor_at_reset:
  "cursor_at I D c ys zs \<Longrightarrow> cursor_at I D (cursor_reset D c) [] (ys @ zs)"
  by (auto simp: cursor_at_def cursor_reset_def simp flip: tree_items_eq_Nil)

lemma cursor_at_item:
  assumes "cursor_at I D c ys zs" "did_seek c"
  shows "cursor_item c = Some (list_first zs)"
    and "cursor_item_summary c = Some (map_option (item_summary I) (list_first zs))"
proof -
  have "cursor_item c = Some (list_first zs) \<and>
    cursor_item_summary c = Some (map_option (item_summary I) (list_first zs))"
  proof (cases "cursor_stack c")
    case Nil
    with assms show ?thesis
      by (simp add: cursor_at_def cursor_item_def cursor_item_summary_def assert_did_seek_def)
  next
    case (Cons e st)
    with assms obtain s its iss where e: "entry_tree e = Leaf s its iss" "wf_tree I (Leaf s its iss)" "entry_index e < length its"
      "zs = drop (entry_index e) its @ trail_after st"
      using trail_ok(1) [of I D "cursor_tree c" st "entry_tree e"]
      by (cases "entry_tree e") (auto simp: cursor_at_def)
    then have "list_first zs = Some (its ! entry_index e)"
      by (simp add: Cons_nth_drop_Suc [symmetric])
    with Cons e assms show ?thesis
      by (auto simp: cursor_at_def cursor_item_def cursor_item_summary_def assert_did_seek_def list_get_eq_Some)
  qed
  then show "cursor_item c = Some (list_first zs)"
    "cursor_item_summary c = Some (map_option (item_summary I) (list_first zs))" by simp_all
qed

section \<open>Seeking\<close>

locale seeking = measured I D + seek_aggregator I A R Q
  for I :: "('t, 's) item_impl" and D :: "('s, 'd) dimension"
    and A :: "('t, 's, 'a) seek_aggregate" and R Q
begin

lemma seek_children_ok:
  assumes "\<forall>t \<in> set ts. wf_tree I t \<and> \<not> tree_is_empty t" and "R done agg"
  shows "\<exists>j agg'. let xs = concat (map tree_items (take j ts)); q = pos_after I D pos xs in
    j \<le> length ts \<and> R (done @ xs) agg' \<and> (xs \<noteq> [] \<longrightarrow> target_past target b q) \<and>
    (j < length ts \<longrightarrow> \<not> target_past target b (pos_after I D q (tree_items (ts ! j)))) \<and>
    seek_children D target b A i pos pos agg ts (map node_summary ts) =
      Some (i + j, q, q, agg', if j < length ts then Some (ts ! j) else None)"
  using assms
proof (induction ts arbitrary: i pos agg "done")
  case (Cons t ts)
  have t: "wf_tree I t" "\<not> tree_is_empty t"
    using Cons.prems by auto
  show ?case
  proof (cases "target_past target b (pos_after I D pos (tree_items t))")
    case True
    obtain agg1 where agg1: "agg_push_tree A agg t (node_summary t) = Some agg1" "R (done @ tree_items t) agg1"
      using push_tree [OF Cons.prems(2) t] by auto
    obtain j agg' where j: "let xs = concat (map tree_items (take j ts)); q = pos_after I D (pos_after I D pos (tree_items t)) xs in
      j \<le> length ts \<and> R ((done @ tree_items t) @ xs) agg' \<and> (xs \<noteq> [] \<longrightarrow> target_past target b q) \<and>
      (j < length ts \<longrightarrow> \<not> target_past target b (pos_after I D q (tree_items (ts ! j)))) \<and>
      seek_children D target b A (Suc i) (pos_after I D pos (tree_items t)) (pos_after I D pos (tree_items t)) agg1 ts (map node_summary ts) =
        Some (Suc i + j, q, q, agg', if j < length ts then Some (ts ! j) else None)"
      using Cons.IH [where i = "Suc i" and pos = "pos_after I D pos (tree_items t)", OF _ agg1(2)] Cons.prems(1) by auto
    have "concat (map tree_items (take j ts)) = [] \<or> target_past target b
        (pos_after I D (pos_after I D pos (tree_items t)) (concat (map tree_items (take j ts))))"
      using j by (auto simp: Let_def)
    then have "target_past target b
        (pos_after I D (pos_after I D pos (tree_items t)) (concat (map tree_items (take j ts))))"
      using True by (metis pos_after_simps(1))
    then show ?thesis
      using j agg1(1) True t
      by (intro exI [of _ "Suc j"] exI [of _ agg']) (simp add: Let_def pos_after_tree)
  next
    case False
    then show ?thesis
      using Cons.prems t
      by (intro exI [of _ 0] exI [of _ agg]) (simp add: Let_def pos_after_tree)
  qed
qed simp

lemma seek_items_ok:
  assumes "Q done n agg" and "n + length its \<le> CAP"
  shows "\<exists>j agg'. let xs = take j its; q = pos_after I D pos xs in
    j \<le> length its \<and> Q (done @ xs) (n + j) agg' \<and> (xs \<noteq> [] \<longrightarrow> target_past target b q) \<and>
    (j < length its \<longrightarrow> \<not> target_past target b (dim_add D q (item_summary I (its ! j)))) \<and>
    seek_items D target b A i pos agg its (map (item_summary I) its) = Some (i + j, q, agg', j < length its)"
  using assms
proof (induction its arbitrary: i pos agg "done" n)
  case (Cons x its)
  show ?case
  proof (cases "target_past target b (dim_add D pos (item_summary I x))")
    case True
    obtain agg1 where agg1: "agg_push_item A agg x (item_summary I x) = Some agg1" "Q (done @ [x]) (Suc n) agg1"
      using push_item [OF Cons.prems(1), of x] Cons.prems(2) by auto
    let ?p = "dim_add D pos (item_summary I x)"
    obtain j agg' where j: "let xs = take j its; q = pos_after I D ?p xs in
      j \<le> length its \<and> Q ((done @ [x]) @ xs) (Suc n + j) agg' \<and> (xs \<noteq> [] \<longrightarrow> target_past target b q) \<and>
      (j < length its \<longrightarrow> \<not> target_past target b (dim_add D q (item_summary I (its ! j)))) \<and>
      seek_items D target b A (Suc i) ?p agg1 its (map (item_summary I) its) = Some (Suc i + j, q, agg', j < length its)"
      using Cons.IH [OF agg1(2)] Cons.prems(2) by fastforce
    have "take j its = [] \<or> target_past target b (pos_after I D ?p (take j its))"
      using j by (auto simp: Let_def)
    then have "target_past target b (pos_after I D ?p (take j its))"
      using True by auto
    then show ?thesis
      using j agg1(1) True
      by (intro exI [of _ "Suc j"] exI [of _ agg']) (simp add: Let_def)
  next
    case False
    then show ?thesis
      using Cons.prems
      by (intro exI [of _ 0] exI [of _ agg]) (simp add: Let_def)
  qed
qed simp

text \<open>The result of a seek from position \<open>pos\<close> with the items \<open>rest\<close> ahead.\<close>

definition seek_result :: "('t, 's) sum_tree \<Rightarrow> ('d \<Rightarrow> ordering) \<Rightarrow> bias \<Rightarrow> 'd \<Rightarrow> 't list \<Rightarrow> 't list \<Rightarrow>
    (('t, 's, 'd) stack_entry list \<times> 'd \<times> 'a) option \<Rightarrow> bool" where
  "seek_result t target b pos done rest r \<longleftrightarrow>
     (case seek_split I D (target_past target b) pos rest of (ys, zs) \<Rightarrow>
       \<exists>st agg. r = Some (st, pos_after I D pos ys, agg) \<and> R (done @ ys) agg \<and>
         (case st of [] \<Rightarrow> zs = []
          | e # st' \<Rightarrow> trail I D t st' (entry_tree e) \<and> node_is_leaf (entry_tree e) \<and> zs \<noteq> [] \<and>
              entry_index e < length (child_summaries (entry_tree e)) \<and>
              node_from (entry_index e) (entry_tree e) @ trail_after st' = zs))"

lemma seek_result_skip:
  assumes "seek_mono I D (target_past target b) pos (xs @ ys)"
    and "xs \<noteq> [] \<longrightarrow> target_past target b (pos_after I D pos xs)"
    and "seek_result t target b (pos_after I D pos xs) (done @ xs) ys r"
  shows "seek_result t target b pos done (xs @ ys) r"
proof (cases "xs = []")
  case False
  then show ?thesis
    using assms seek_split_all [OF assms(1)] by (auto simp: seek_result_def split: prod.splits)
qed (use assms in simp)

text \<open>The state of the loop on a stack \<open>e # st\<close>: \<open>k\<close> is the index of the next entry to visit.\<close>

definition loop_ok :: "('t, 's) sum_tree \<Rightarrow> ('t, 's, 'd) stack_entry list \<Rightarrow> 'd \<Rightarrow> bool \<Rightarrow> bool" where
  "loop_ok t stack pos asc \<longleftrightarrow>
     wf_tree I t \<and> node_height t < STACK_CAP \<and>
     (case stack of [] \<Rightarrow> True
      | e # st \<Rightarrow> trail I D t st (entry_tree e) \<and>
          (let k = (if asc then Suc (entry_index e) else entry_index e) in
           k \<le> length (child_summaries (entry_tree e)) \<and>
           pos = pos_after I D (dim_zero D) (trail_before st @ node_before k (entry_tree e)) \<and>
           (node_is_leaf (entry_tree e) \<longrightarrow> \<not> asc) \<and>
           (\<not> node_is_leaf (entry_tree e) \<longrightarrow> \<not> asc \<longrightarrow> entry_position e = pos)))"

definition loop_rest :: "('t, 's, 'd) stack_entry list \<Rightarrow> bool \<Rightarrow> 't list" where
  "loop_rest stack asc =
     (case stack of [] \<Rightarrow> []
      | e # st \<Rightarrow> node_from (if asc then Suc (entry_index e) else entry_index e) (entry_tree e) @ trail_after st)"

lemma loop_pop:
  assumes "trail I D t st u" "wf_tree I t" "node_height t < STACK_CAP"
  shows "loop_ok t st (pos_after I D (dim_zero D) (trail_before st @ tree_items u)) True"
    and "loop_rest st True = trail_after st"
  using assms trail_ok(1) [of I D t "tl st" "entry_tree (hd st)"]
  by (cases st; fastforce simp: loop_ok_def loop_rest_def node_child Let_def split: sum_tree.splits
      simp del: node_before.simps node_from.simps)+

lemma seek_step_leaf:
  assumes ok: "loop_ok t (e # st) pos asc" and leaf: "entry_tree e = Leaf s its iss" and R: "R done agg"
  shows "\<exists>j agg'. let xs = take j (drop (entry_index e) its); q = pos_after I D pos xs in
    entry_index e + j \<le> length its \<and> R (done @ xs) agg' \<and> (xs \<noteq> [] \<longrightarrow> target_past target b q) \<and>
    seek_step D target b A e st pos asc agg = Some
      (if entry_index e + j < length its then Inr (e\<lparr>entry_index := entry_index e + j\<rparr> # st, q, agg')
       else Inl (st, q, True, agg')) \<and>
    (entry_index e + j < length its \<longrightarrow>
      \<not> target_past target b (dim_add D q (item_summary I (its ! (entry_index e + j)))))"
proof -
  let ?k = "entry_index e"
  have wf: "wf_tree I (Leaf s its iss)" "?k \<le> length its"
    using ok leaf trail_ok(1) [of I D t st "entry_tree e"] by (auto simp: loop_ok_def Let_def)
  obtain j agg1 where j: "let xs = take j (drop ?k its); q = pos_after I D pos xs in
    j \<le> length (drop ?k its) \<and> Q (done @ xs) (0 + j) agg1 \<and> (xs \<noteq> [] \<longrightarrow> target_past target b q) \<and>
    (j < length (drop ?k its) \<longrightarrow> \<not> target_past target b (dim_add D q (item_summary I (drop ?k its ! j)))) \<and>
    seek_items D target b A ?k pos agg (drop ?k its) (map (item_summary I) (drop ?k its)) =
      Some (?k + j, q, agg1, j < length (drop ?k its))"
    using seek_items_ok [OF begin_leaf [OF R], of "drop ?k its"] wf by fastforce
  define xs where "xs = take j (drop ?k its)"
  have "Q (done @ xs) j agg1" "j \<le> CAP"
    using j wf by (auto simp: Let_def xs_def)
  then obtain agg2 where agg2: "agg_end_leaf A agg1 = Some agg2" "R (done @ xs) agg2"
    using end_leaf by blast
  show ?thesis
    using j agg2 wf leaf
    by (intro exI [of _ j] exI [of _ agg2])
      (auto simp: Let_def xs_def [symmetric] seek_step_def drop_map assert_that_def)
qed

lemma seek_step_internal:
  assumes ok: "loop_ok t (e # st) pos asc" and int: "entry_tree e = Internal h s css cts" and R: "R done agg"
    and k: "k = (if asc then Suc (entry_index e) else entry_index e)"
  shows "\<exists>j agg'. let xs = concat (map tree_items (take j (drop k cts))); q = pos_after I D pos xs in
    k + j \<le> length cts \<and> R (done @ xs) agg' \<and> (xs \<noteq> [] \<longrightarrow> target_past target b q) \<and>
    seek_step D target b A e st pos asc agg = Some (Inl
      (if k + j < length cts
       then (\<lparr>entry_tree = cts ! (k + j), entry_index = 0, entry_position = q\<rparr> #
             e\<lparr>entry_index := k + j, entry_position := q\<rparr> # st, q, False, agg')
       else (st, q, True, agg')))"
proof -
  have u: "wf_tree I (Internal h s css cts)" "h + length st = node_height t" "node_height t < STACK_CAP"
    using ok int trail_ok(1,3) [of I D t st "entry_tree e"] by (auto simp: loop_ok_def Let_def)
  then have st: "Suc (length st) < STACK_CAP"
    using height_pos_child [OF u(1)] by simp
  have wf: "\<forall>t \<in> set (drop k cts). wf_tree I t \<and> \<not> tree_is_empty t" "css = map node_summary cts" "k \<le> length cts"
    using u(1) ok int by (auto simp: loop_ok_def Let_def k dest: in_set_dropD)
  obtain j agg' where j: "let xs = concat (map tree_items (take j (drop k cts))); q = pos_after I D pos xs in
    j \<le> length (drop k cts) \<and> R (done @ xs) agg' \<and> (xs \<noteq> [] \<longrightarrow> target_past target b q) \<and>
    (j < length (drop k cts) \<longrightarrow> \<not> target_past target b (pos_after I D q (tree_items (drop k cts ! j)))) \<and>
    seek_children D target b A k pos pos agg (drop k cts) (map node_summary (drop k cts)) =
      Some (k + j, q, q, agg', if j < length (drop k cts) then Some (drop k cts ! j) else None)"
    using seek_children_ok [OF wf(1) R] by fastforce
  define e1 where "e1 = (if asc then e\<lparr>entry_index := entry_index e + 1, entry_position := pos\<rparr> else e)"
  have e1: "entry_index e1 = k" "entry_position e1 = pos"
    using ok int by (auto simp: e1_def k loop_ok_def Let_def)
  have e2: "e1\<lparr>entry_index := x, entry_position := y\<rparr> = e\<lparr>entry_index := x, entry_position := y\<rparr>" for x y
    by (simp add: e1_def)
  show ?thesis
    using j wf(2,3) st
    unfolding seek_step_def int sum_tree.case Let_def [of "if asc then _ else _"] e1_def [symmetric] wf(2) drop_map
    by (intro exI [of _ j] exI [of _ agg']) (auto simp: Let_def e1 e2 assert_that_def stack_push_def)
qed

lemma seek_result_here:
  assumes "trail I D t st (entry_tree e)" "wf_tree I t" "entry_tree e = Leaf s its iss" "entry_index e < length its"
    and "\<not> target_past target b (dim_add D pos (item_summary I (its ! entry_index e)))" and "R done agg"
  shows "seek_result t target b pos done (drop (entry_index e) its @ trail_after st) (Some (e # st, pos, agg))"
proof -
  have "drop (entry_index e) its = its ! entry_index e # drop (Suc (entry_index e)) its"
    using assms by (simp add: Cons_nth_drop_Suc)
  then have "seek_split I D (target_past target b) pos (drop (entry_index e) its @ trail_after st) =
      ([], drop (entry_index e) its @ trail_after st)"
    using assms by (simp add: Let_def)
  then show ?thesis
    using assms trail_ok(1) [OF assms(1,2)] by (simp add: seek_result_def)
qed

text \<open>One iteration crosses some items \<open>xs\<close> and leaves the rest to the loop, or stops.\<close>

definition step_ok :: "('t, 's) sum_tree \<Rightarrow> ('d \<Rightarrow> ordering) \<Rightarrow> bias \<Rightarrow> 'd \<Rightarrow> 't list \<Rightarrow> 't list \<Rightarrow>
    ((('t, 's, 'd) stack_entry list \<times> 'd \<times> bool \<times> 'a) + (('t, 's, 'd) stack_entry list \<times> 'd \<times> 'a)) option \<Rightarrow> bool" where
  "step_ok t target b pos done rest r \<longleftrightarrow>
     (\<exists>xs q agg. q = pos_after I D pos xs \<and> R (done @ xs) agg \<and> (xs \<noteq> [] \<longrightarrow> target_past target b q) \<and>
        ((\<exists>stack asc. r = Some (Inl (stack, q, asc, agg)) \<and> loop_ok t stack q asc \<and> rest = xs @ loop_rest stack asc) \<or>
         (\<exists>stack zs. r = Some (Inr (stack, q, agg)) \<and> rest = xs @ zs \<and>
            seek_result t target b q (done @ xs) zs (Some (stack, q, agg)))))"

lemma seek_step_leaf_ok:
  assumes ok: "loop_ok t (e # st) pos asc" and Leaf: "entry_tree e = Leaf s its iss" and R: "R done agg"
  shows "step_ok t target b pos done (loop_rest (e # st) asc) (seek_step D target b A e st pos asc agg)"
proof -
  let ?i = "entry_index e"
  have trail: "trail I D t st (entry_tree e)" "wf_tree I t" "node_height t < STACK_CAP" and asc: "\<not> asc"
    and pos: "pos = pos_after I D (dim_zero D) (trail_before st @ node_before ?i (entry_tree e))"
    using ok Leaf by (auto simp: loop_ok_def Let_def)
  obtain j agg' where j: "let xs = take j (drop ?i its); q = pos_after I D pos xs in
    ?i + j \<le> length its \<and> R (done @ xs) agg' \<and> (xs \<noteq> [] \<longrightarrow> target_past target b q) \<and>
    seek_step D target b A e st pos asc agg = Some
      (if ?i + j < length its then Inr (e\<lparr>entry_index := ?i + j\<rparr> # st, q, agg')
       else Inl (st, q, True, agg')) \<and>
    (?i + j < length its \<longrightarrow> \<not> target_past target b (dim_add D q (item_summary I (its ! (?i + j)))))"
    using seek_step_leaf [OF ok Leaf R, where b = b and target = target] by blast
  define xs where "xs = take j (drop ?i its)"
  define q where "q = pos_after I D pos xs"
  note j = j [unfolded Let_def, folded xs_def, folded q_def]
  have split: "loop_rest (e # st) asc = xs @ (drop (?i + j) its @ trail_after st)"
    using asc Leaf by (simp add: loop_rest_def xs_def) (metis append.assoc append_take_drop_id drop_drop add.commute)
  show ?thesis
  proof (cases "?i + j < length its")
    case True
    then have "seek_result t target b q (done @ xs) (drop (?i + j) its @ trail_after st)
        (Some (e\<lparr>entry_index := ?i + j\<rparr> # st, q, agg'))"
      using seek_result_here [of t st "e\<lparr>entry_index := ?i + j\<rparr>" s its iss target b q "done @ xs" agg'] trail(1,2) Leaf j
      by simp
    with True j show ?thesis
      unfolding step_ok_def split using q_def by fastforce
  next
    case False
    with j have "j = length its - ?i"
      by auto
    then have "take ?i its @ xs = its"
      by (simp add: xs_def)
    then have "q = pos_after I D (dim_zero D) (trail_before st @ tree_items (entry_tree e))"
      using Leaf pos by (metis append.assoc node_before.simps(1) pos_after_simps(3) q_def tree_items.simps(1))
    with loop_pop [OF trail] have "loop_ok t st q True" "loop_rest st True = trail_after st"
      by simp_all
    with False j show ?thesis
      unfolding step_ok_def split using q_def by fastforce
  qed
qed

lemma seek_step_internal_ok:
  assumes ok: "loop_ok t (e # st) pos asc" and Internal: "entry_tree e = Internal h s css cts" and R: "R done agg"
  shows "step_ok t target b pos done (loop_rest (e # st) asc) (seek_step D target b A e st pos asc agg)"
proof -
  define k where "k = (if asc then Suc (entry_index e) else entry_index e)"
  have trail: "trail I D t st (entry_tree e)" "wf_tree I t" "node_height t < STACK_CAP"
    and pos: "pos = pos_after I D (dim_zero D) (trail_before st @ node_before k (entry_tree e))"
    using ok by (auto simp: loop_ok_def Let_def k_def)
  obtain j agg' where j: "let xs = concat (map tree_items (take j (drop k cts))); q = pos_after I D pos xs in
    k + j \<le> length cts \<and> R (done @ xs) agg' \<and> (xs \<noteq> [] \<longrightarrow> target_past target b q) \<and>
    seek_step D target b A e st pos asc agg = Some (Inl
      (if k + j < length cts
       then (\<lparr>entry_tree = cts ! (k + j), entry_index = 0, entry_position = q\<rparr> #
             e\<lparr>entry_index := k + j, entry_position := q\<rparr> # st, q, False, agg')
       else (st, q, True, agg')))"
    using seek_step_internal [OF ok Internal R k_def, where b = b and target = target] by blast
  define xs where "xs = concat (map tree_items (take j (drop k cts)))"
  define q where "q = pos_after I D pos xs"
  note j = j [unfolded Let_def, folded xs_def, folded q_def]
  have taken: "concat (map tree_items (take k cts)) @ xs = concat (map tree_items (take (k + j) cts))"
    by (simp add: xs_def take_add)
  have q: "q = pos_after I D (dim_zero D) (trail_before st @ concat (map tree_items (take (k + j) cts)))"
    unfolding taken [symmetric] using pos Internal by (simp add: q_def)
  have rest: "concat (map tree_items (drop k cts)) = xs @ concat (map tree_items (drop (k + j) cts))"
    by (simp add: xs_def flip: concat_append map_append) (metis append_take_drop_id drop_drop add.commute)
  show ?thesis
  proof (cases "k + j < length cts")
    case True
    let ?stack = "\<lparr>entry_tree = cts ! (k + j), entry_index = 0, entry_position = q\<rparr> #
      e\<lparr>entry_index := k + j, entry_position := q\<rparr> # st"
    have "loop_ok t ?stack q False \<and> loop_rest (e # st) asc = xs @ loop_rest ?stack False"
      using True trail q Internal rest node_child(1) [OF True, of h s css]
      by (simp add: loop_ok_def loop_rest_def Let_def k_def [symmetric])
    with True j q_def show ?thesis
      unfolding step_ok_def by fastforce
  next
    case False
    then have "loop_ok t st q True \<and> loop_rest (e # st) asc = xs @ loop_rest st True"
      using loop_pop [OF trail] q Internal rest j by (simp add: loop_rest_def [of "e # st"] k_def [symmetric])
    with False j q_def show ?thesis
      unfolding step_ok_def by fastforce
  qed
qed

lemma seek_loop_ok:
  assumes "loop_ok t stack pos asc" and "R done agg"
    and "seek_mono I D (target_past target b) pos (loop_rest stack asc)"
  shows "seek_result t target b pos done (loop_rest stack asc) (seek_loop D target b A stack pos asc agg)"
  using assms
proof (induction "seek_work stack asc" arbitrary: stack pos asc agg "done" rule: less_induct)
  case less
  show ?case
  proof (cases stack)
    case Nil
    with less.prems show ?thesis
      by (simp add: seek_loop.simps seek_result_def loop_rest_def)
  next
    case (Cons e st)
    have "step_ok t target b pos done (loop_rest stack asc) (seek_step D target b A e st pos asc agg)"
      unfolding Cons
      by (cases "entry_tree e")
        (rule seek_step_internal_ok seek_step_leaf_ok; use less.prems(1,2) Cons in simp)+
    then obtain xs q agg' where xs: "q = pos_after I D pos xs" "R (done @ xs) agg'" "xs \<noteq> [] \<longrightarrow> target_past target b q"
      and cont: "(\<exists>stack' asc'. seek_step D target b A e st pos asc agg = Some (Inl (stack', q, asc', agg')) \<and>
          loop_ok t stack' q asc' \<and> loop_rest stack asc = xs @ loop_rest stack' asc') \<or>
        (\<exists>stack' zs. seek_step D target b A e st pos asc agg = Some (Inr (stack', q, agg')) \<and>
          loop_rest stack asc = xs @ zs \<and> seek_result t target b q (done @ xs) zs (Some (stack', q, agg')))"
      unfolding step_ok_def by blast
    obtain zs where zs: "loop_rest stack asc = xs @ zs"
      "seek_result t target b q (done @ xs) zs (seek_loop D target b A stack pos asc agg)"
    proof (use cont in \<open>elim disjE exE conjE\<close>)
      fix stack' asc'
      assume step: "seek_step D target b A e st pos asc agg = Some (Inl (stack', q, asc', agg'))"
        and ok: "loop_ok t stack' q asc'" and rest: "loop_rest stack asc = xs @ loop_rest stack' asc'"
      have "seek_mono I D (target_past target b) q (loop_rest stack' asc')"
        using seek_mono_suffix [OF less.prems(3) [unfolded rest]] xs(1) by simp
      from less.hyps [OF _ ok xs(2) this] rest that show ?thesis
        using seek_step_work [OF step] by (simp add: Cons seek_loop.simps step del: seek_work.simps)
    next
      fix stack' zs
      assume "seek_step D target b A e st pos asc agg = Some (Inr (stack', q, agg'))"
        "loop_rest stack asc = xs @ zs" "seek_result t target b q (done @ xs) zs (Some (stack', q, agg'))"
      with that show ?thesis by (simp add: Cons seek_loop.simps)
    qed
    then show ?thesis
      using seek_result_skip [of target b pos xs zs t "done"] less.prems(3) xs by simp
  qed
qed

lemma seek_start:
  assumes at: "cursor_at I D c ys zs"
  obtains stack where "(if did_seek c then Some (cursor_stack c)
      else stack_push (cursor_stack c) \<lparr>entry_tree = cursor_tree c, entry_index = 0, entry_position = dim_zero D\<rparr>) = Some stack"
    "loop_ok (cursor_tree c) stack (cursor_position c) False" "loop_rest stack False = zs"
proof (cases "cursor_stack c")
  case Nil
  with at that show ?thesis
    by (auto simp: cursor_at_def stack_push_def STACK_CAP_def loop_ok_def loop_rest_def Let_def split: if_splits)
next
  case (Cons e st)
  then have "ys = trail_before st @ node_before (entry_index e) (entry_tree e)"
    using at trail_before_eq [of I D "cursor_tree c" st "entry_tree e"]
    by (auto simp: cursor_at_def)
  with Cons at that show ?thesis
    by (auto simp: cursor_at_def loop_ok_def loop_rest_def Let_def)
qed

lemma seek_internal_ok:
  assumes at: "cursor_at I D c ys zs" and R: "R [] agg"
    and mono: "seek_mono I D (target_past target b) (cursor_position c) zs"
    and ge: "target (cursor_position c) \<noteq> Less"
    and split: "seek_split I D (target_past target b) (cursor_position c) zs = (as, bs)"
  shows "\<exists>c' agg'. seek_internal D target b A c agg = Some (c', agg',
      target (pos_after I D (cursor_position c) (as @ (if b = Left then take 1 bs else []))) = Equal) \<and>
    cursor_at I D c' (ys @ as) bs \<and> did_seek c' \<and> cursor_tree c' = cursor_tree c \<and> R as agg'"
proof -
  obtain stack where stack: "(if did_seek c then Some (cursor_stack c)
      else stack_push (cursor_stack c) \<lparr>entry_tree = cursor_tree c, entry_index = 0, entry_position = dim_zero D\<rparr>) = Some stack"
    "loop_ok (cursor_tree c) stack (cursor_position c) False" "loop_rest stack False = zs"
    using seek_start [OF at] .
  from seek_loop_ok [OF this(2) R, unfolded stack(3), OF mono]
  obtain st' agg' where loop: "seek_loop D target b A stack (cursor_position c) False agg =
        Some (st', pos_after I D (cursor_position c) as, agg')" "R as agg'"
    and st': "case st' of [] \<Rightarrow> bs = []
      | e # st \<Rightarrow> trail I D (cursor_tree c) st (entry_tree e) \<and> node_is_leaf (entry_tree e) \<and> bs \<noteq> [] \<and>
          entry_index e < length (child_summaries (entry_tree e)) \<and> node_from (entry_index e) (entry_tree e) @ trail_after st = bs"
    using split by (auto simp: seek_result_def)
  define c' where "c' = c\<lparr>did_seek := True, cursor_stack := st', cursor_position := pos_after I D (cursor_position c) as,
    at_end := st' = []\<rparr>"
  have at': "cursor_at I D c' (ys @ as) bs"
    using at st' seek_split_append [OF split] by (cases st') (auto simp: cursor_at_def c'_def)
  from cursor_at_item(2) [OF this] have "cursor_item_summary c' = Some (map_option (item_summary I) (list_first bs))"
    by (simp add: c'_def)
  then have "seek_internal D target b A c agg = Some (c', agg',
      target (pos_after I D (cursor_position c) (as @ (if b = Left then take 1 bs else []))) = Equal)"
    unfolding seek_internal_def stack(1) using loop ge
    by (cases bs) (auto simp: assert_that_def c'_def [symmetric] Let_def)
  with at' loop(2) show ?thesis
    by (intro exI [of _ c'] exI [of _ agg']) (simp add: c'_def)
qed

end

section \<open>Seek, slice, suffix and summary\<close>

sublocale measured \<subseteq> seek_slice: seeking I D "slice_aggregate_impl I" "slice_R I" "slice_Q I"
  by unfold_locales

sublocale measured \<subseteq> seek_skip: seeking I D unit_aggregate "\<lambda>_ _. True" "\<lambda>_ _ _. True"
  by unfold_locales

context measured
begin

lemma seek_forward_ok:
  assumes "cursor_at I D c ys zs"
    and "seek_mono I D (target_past target b) (cursor_position c) zs"
    and "target (cursor_position c) \<noteq> Less"
    and "seek_split I D (target_past target b) (cursor_position c) zs = (as, bs)"
  shows "\<exists>c'. seek_forward D target b c = Some (c',
      target (pos_after I D (cursor_position c) (as @ (if b = Left then take 1 bs else []))) = Equal) \<and>
    cursor_at I D c' (ys @ as) bs \<and> did_seek c' \<and> cursor_tree c' = cursor_tree c"
  using seek_skip.seek_internal_ok [OF assms(1) TrueI assms(2-), of "()"]
  by (auto simp: seek_forward_def)

lemma seek_ok:
  assumes at: "cursor_at I D c ys zs"
    and "seek_mono I D (target_past target b) (dim_zero D) (ys @ zs)"
    and "target (dim_zero D) \<noteq> Less"
    and "seek_split I D (target_past target b) (dim_zero D) (ys @ zs) = (as, bs)"
  shows "\<exists>c'. seek D target b c = Some (c',
      target (pos_after I D (dim_zero D) (as @ (if b = Left then take 1 bs else []))) = Equal) \<and>
    cursor_at I D c' as bs \<and> did_seek c' \<and> cursor_tree c' = cursor_tree c"
  using seek_skip.seek_internal_ok [OF cursor_at_reset [OF at] TrueI, of target b as bs "()"] assms(2-)
  by (auto simp: seek_def cursor_reset_def)

lemma slice_ok:
  assumes "cursor_at I D c ys zs"
    and "seek_mono I D (target_past target b) (cursor_position c) zs"
    and "target (cursor_position c) \<noteq> Less"
    and "seek_split I D (target_past target b) (cursor_position c) zs = (as, bs)"
  shows "\<exists>c' t. slice I D target b c = Some (c', t) \<and> wf_tree I t \<and> tree_items t = as \<and>
    cursor_at I D c' (ys @ as) bs \<and> did_seek c' \<and> cursor_tree c' = cursor_tree c"
proof -
  have "slice_R I [] \<lparr>slice_tree = tree_new I, leaf_items = [], leaf_item_summaries = [], leaf_summary = summary_zero I\<rparr>"
    by (simp add: slice_R_def wf_tree_new)
  from seek_slice.seek_internal_ok [OF assms(1) this assms(2-)] show ?thesis
    by (auto simp: slice_def slice_R_def)
qed

lemma seek_split_end: "seek_split I D (target_past end_target Right) d xs = (xs, [])"
  by (induction xs arbitrary: d) (simp_all add: target_past_def end_target_def)

lemma suffix_ok:
  assumes "cursor_at I D c ys zs"
  shows "\<exists>c' t. suffix I D c = Some (c', t) \<and> wf_tree I t \<and> tree_items t = zs \<and>
    cursor_at I D c' (ys @ zs) [] \<and> did_seek c' \<and> cursor_tree c' = cursor_tree c"
  unfolding suffix_def
  by (rule slice_ok [OF assms]) (simp_all add: seek_split_end seek_mono_def target_past_def end_target_def)

end

text \<open>A cursor over one dimension that sums up another one.\<close>

locale seekable_sum = seekable I D + out: seekable I E
  for I :: "('t, 's) item_impl" and D :: "('s, 'd) dimension" and E :: "('s, 'o) dimension"

sublocale seekable_sum \<subseteq> seek_sum: seeking I D "summary_aggregate_impl E"
  "\<lambda>xs a. a = pos_after I E (dim_zero E) xs" "\<lambda>xs n a. a = pos_after I E (dim_zero E) xs"
  by unfold_locales

context seekable_sum
begin

lemma cursor_summary_ok:
  assumes "cursor_at I D c ys zs"
    and "seek_mono I D (target_past target b) (cursor_position c) zs"
    and "target (cursor_position c) \<noteq> Less"
    and "seek_split I D (target_past target b) (cursor_position c) zs = (as, bs)"
  shows "\<exists>c'. cursor_summary D E target b c = Some (c', pos_after I E (dim_zero E) as) \<and>
    cursor_at I D c' (ys @ as) bs \<and> did_seek c' \<and> cursor_tree c' = cursor_tree c"
  using seek_sum.seek_internal_ok [OF assms(1) _ assms(2-), of "dim_zero E"]
  by (auto simp: cursor_summary_def)

end

end
