(* ===== verification/SumTree_Search.thy ===== *)
theory SumTree_Search
  imports SumTree_Seek
begin

text \<open>
  Correctness of \<open>search_forward\<close>, \<open>search_backward\<close>, \<open>next\<close> and \<open>prev\<close>.  The filter is asked for
  the summaries of subtrees as well as of items; it must accept the summary of a list of items
  when it accepts one of them.  The searches then behave as scans of the list of items.
\<close>

section \<open>Filters\<close>

locale filtering = measured I D
  for I :: "('t, 's) item_impl" and D :: "('s, 'd) dimension" +
  fixes F :: "'s \<Rightarrow> bool"
  assumes filter_up: "x \<in> set xs \<Longrightarrow> F (item_summary I x) \<Longrightarrow> F (items_summary I xs)"

definition stack_at ::
  "('t, 's) item_impl \<Rightarrow> ('s, 'd) dimension \<Rightarrow> ('t, 's) sum_tree \<Rightarrow> ('t, 's, 'd) stack_entry list \<Rightarrow> 'd \<Rightarrow> 't list \<Rightarrow> bool" where
  "stack_at I D t stack pos zs \<longleftrightarrow>
     (case stack of [] \<Rightarrow> zs = [] \<and> pos = pos_after I D (dim_zero D) (tree_items t)
      | e # st \<Rightarrow> trail I D t st (entry_tree e) \<and> node_is_leaf (entry_tree e) \<and> zs \<noteq> [] \<and>
          entry_index e < length (child_summaries (entry_tree e)) \<and>
          zs = node_from (entry_index e) (entry_tree e) @ trail_after st \<and>
          pos = pos_after I D (dim_zero D) (trail_before st @ node_before (entry_index e) (entry_tree e)))"

lemma stack_at_pos:
  assumes "stack_at I D t stack pos bs" "wf_tree I t" "tree_items t = as @ bs"
  shows "pos = pos_after I D (dim_zero D) as"
  using assms trail_before_eq [of I D t "tl stack" "entry_tree (hd stack)" as]
  by (cases stack) (auto simp: stack_at_def)

lemma cursor_at_stackI:
  assumes "stack_at I D (cursor_tree c) (cursor_stack c) (cursor_position c) bs"
    and "wf_tree I (cursor_tree c)" "node_height (cursor_tree c) < STACK_CAP" "tree_items (cursor_tree c) = as @ bs"
    and "did_seek c" "at_end c = (cursor_stack c = [])"
  shows "cursor_at I D c as bs"
  using assms stack_at_pos [OF assms(1,2,4)]
  by (cases "cursor_stack c") (auto simp: cursor_at_def stack_at_def)

lemma skip_forward_eq:
  "skip_forward D F i epos pos ss =
     (let ws = takeWhile (\<lambda>s. \<not> F s) ss in (i + length ws, foldl (dim_add D) epos ws, foldl (dim_add D) pos ws))"
  by (induction ss arbitrary: i epos pos) (simp_all add: Let_def)

context filtering
begin

abbreviation rejected :: "'t \<Rightarrow> bool" where
  "rejected x \<equiv> \<not> F (item_summary I x)"

lemma filter_tree: "wf_tree I t \<Longrightarrow> \<not> F (node_summary t) \<Longrightarrow> \<forall>x \<in> set (tree_items t). rejected x"
  using filter_up wf_summary by fastforce

lemma fold_items: "foldl (dim_add D) d (map (item_summary I) xs) = pos_after I D d xs"
  by (induction xs arbitrary: d) simp_all

lemma fold_children:
  "\<forall>t \<in> set ts. wf_tree I t \<and> \<not> tree_is_empty t \<Longrightarrow>
   foldl (dim_add D) d (map node_summary ts) = pos_after I D d (concat (map tree_items ts))"
  by (induction ts arbitrary: d) (simp_all add: pos_after_tree)

lemma dropWhile_children:
  assumes "\<forall>t \<in> set ts. wf_tree I t" "\<forall>t \<in> set ts. \<not> F (node_summary t)"
  shows "dropWhile rejected (concat (map tree_items ts) @ zs) = dropWhile rejected zs"
  using assms filter_tree by (intro dropWhile_append2) auto

section \<open>Searching forward\<close>

definition fwd_ok :: "('t, 's) sum_tree \<Rightarrow> ('t, 's, 'd) stack_entry list \<Rightarrow> 'd \<Rightarrow> bool \<Rightarrow> bool" where
  "fwd_ok t stack pos descend \<longleftrightarrow>
     wf_tree I t \<and> node_height t < STACK_CAP \<and>
     (case stack of [] \<Rightarrow> \<not> descend \<and> pos = pos_after I D (dim_zero D) (tree_items t)
      | e # st \<Rightarrow> trail I D t st (entry_tree e) \<and>
          (let u = entry_tree e; k = (if descend then entry_index e else Suc (entry_index e)) in
           k \<le> length (child_summaries u) \<and>
           pos = pos_after I D (dim_zero D) (trail_before st @ node_before (if node_is_leaf u then entry_index e else k) u) \<and>
           (\<not> node_is_leaf u \<longrightarrow> descend \<longrightarrow> entry_position e = pos)))"

definition fwd_rest :: "('t, 's, 'd) stack_entry list \<Rightarrow> bool \<Rightarrow> 't list" where
  "fwd_rest stack descend =
     (case stack of [] \<Rightarrow> []
      | e # st \<Rightarrow> node_from (if descend then entry_index e else Suc (entry_index e)) (entry_tree e) @ trail_after st)"

lemma fwd_pop:
  assumes "trail I D t st u" "wf_tree I t" "node_height t < STACK_CAP"
  shows "fwd_ok t st (pos_after I D (dim_zero D) (trail_before st @ tree_items u)) False"
    and "fwd_rest st False = trail_after st"
  using assms trail_ok(1) [of I D t "tl st" "entry_tree (hd st)"]
  by (cases st; fastforce simp: fwd_ok_def fwd_rest_def node_child Let_def split: sum_tree.splits
      simp del: node_before.simps node_from.simps)+

definition fwd_step_ok where
  "fwd_step_ok t rest r \<longleftrightarrow>
     (\<exists>stack pos descend. r = Some (Inl (stack, pos, descend)) \<and> fwd_ok t stack pos descend \<and>
        dropWhile rejected rest = dropWhile rejected (fwd_rest stack descend)) \<or>
     (\<exists>stack pos. r = Some (Inr (stack, pos)) \<and> stack \<noteq> [] \<and> stack_at I D t stack pos (dropWhile rejected rest))"

lemma forward_step_leaf:
  assumes ok: "fwd_ok t (e # st) pos descend" and leaf: "entry_tree e = Leaf s its iss"
  shows "fwd_step_ok t (fwd_rest (e # st) descend) (forward_step D F e st pos descend)"
proof -
  define k where "k = (if descend then entry_index e else Suc (entry_index e))"
  define p where "p = pos_after I D (dim_zero D) (trail_before st @ take k its)"
  define ws where "ws = takeWhile rejected (drop k its)"
  define e' where "e' = (\<lambda>epos. e\<lparr>entry_index := k + length ws, entry_position := epos\<rparr>)"
  have trail: "trail I D t st (entry_tree e)" "wf_tree I t" "node_height t < STACK_CAP"
    and k: "k \<le> length its" and iss: "iss = map (item_summary I) its"
    and pos: "pos = pos_after I D (dim_zero D) (trail_before st @ take (entry_index e) its)"
    using ok leaf trail_ok(1) [of I D t st "entry_tree e"] by (auto simp: fwd_ok_def Let_def k_def)
  have tw: "takeWhile (\<lambda>s. \<not> F s) (drop k iss) = map (item_summary I) ws"
    by (simp add: iss ws_def drop_map takeWhile_map comp_def)
  have "\<exists>epos. forward_step D F e st pos descend = (if k + length ws < length its
      then Some (Inr (e' epos # st, pos_after I D p ws)) else Some (Inl (st, pos_after I D p ws, False)))"
  proof (cases descend)
    case True
    then show ?thesis
      using leaf tw pos iss unfolding forward_step_def
      by (auto simp: skip_forward_eq Let_def p_def k_def e'_def fold_items)
  next
    case False
    have "p = dim_add D pos (item_summary I (its ! entry_index e))"
      using False k by (simp add: p_def pos k_def take_Suc_conv_app_nth)
    then show ?thesis
      using False leaf tw k iss unfolding forward_step_def
      by (auto simp: skip_forward_eq Let_def k_def e'_def fold_items list_get_def)
  qed
  then obtain epos where step: "forward_step D F e st pos descend = (if k + length ws < length its
      then Some (Inr (e' epos # st, pos_after I D p ws)) else Some (Inl (st, pos_after I D p ws, False)))" ..
  have rest: "fwd_rest (e # st) descend = ws @ drop (k + length ws) its @ trail_after st"
    using leaf by (simp add: fwd_rest_def k_def [symmetric] ws_def)
      (metis append.assoc append_eq_conv_conj add.commute drop_drop takeWhile_dropWhile_id)
  have rej: "\<forall>x \<in> set ws. rejected x"
    by (auto simp: ws_def dest: set_takeWhileD)
  have before: "take k its @ ws = take (k + length ws) its"
    unfolding ws_def by (metis append_eq_conv_conj takeWhile_dropWhile_id take_add)
  have p: "pos_after I D p ws = pos_after I D (dim_zero D) (trail_before st @ take (k + length ws) its)"
    by (simp add: p_def flip: before)
  show ?thesis
  proof (cases "k + length ws < length its")
    case True
    have "\<not> rejected (its ! (k + length ws))"
      using True nth_length_takeWhile [of rejected "drop k its"] by (simp add: ws_def)
    then have "dropWhile rejected (fwd_rest (e # st) descend) = drop (k + length ws) its @ trail_after st"
      using True rej by (simp add: rest dropWhile_append2 Cons_nth_drop_Suc [symmetric])
    then show ?thesis
      using True step trail leaf p iss by (simp add: fwd_step_ok_def stack_at_def e'_def)
  next
    case False
    then have "pos_after I D p ws = pos_after I D (dim_zero D) (trail_before st @ tree_items (entry_tree e))"
      by (simp add: p leaf)
    then show ?thesis
      using False step fwd_pop [OF trail] rej rest by (fastforce simp: fwd_step_ok_def dropWhile_append2)
  qed
qed

lemma forward_step_internal:
  assumes ok: "fwd_ok t (e # st) pos descend" and int: "entry_tree e = Internal h s css cts"
  shows "fwd_step_ok t (fwd_rest (e # st) descend) (forward_step D F e st pos descend)"
proof -
  define k where "k = (if descend then entry_index e else Suc (entry_index e))"
  define ts where "ts = takeWhile (\<lambda>t. \<not> F (node_summary t)) (drop k cts)"
  define ws where "ws = concat (map tree_items ts)"
  define e' where "e' = (\<lambda>epos. e\<lparr>entry_index := k + length ts, entry_position := epos\<rparr>)"
  have trail: "trail I D t st (entry_tree e)" "wf_tree I t" "node_height t < STACK_CAP"
    and k: "k \<le> length css"
    and pos: "pos = pos_after I D (dim_zero D) (trail_before st @ node_before k (entry_tree e))"
    and epos: "descend \<Longrightarrow> entry_position e = pos"
    using ok int by (auto simp: fwd_ok_def Let_def k_def)
  have u: "wf_tree I (Internal h s css cts)" "h + length st = node_height t"
    using int trail_ok(1,3) [OF trail(1,2)] by simp_all
  then have st: "Suc (length st) < STACK_CAP" and css: "css = map node_summary cts"
    and wf: "\<forall>t \<in> set ts. wf_tree I t \<and> \<not> tree_is_empty t"
    using height_pos_child [OF u(1)] trail(3) by (auto simp: ts_def dest!: set_takeWhileD in_set_dropD)
  have tw: "takeWhile (\<lambda>s. \<not> F s) (drop k css) = map node_summary ts"
    by (simp add: css ts_def drop_map takeWhile_map comp_def)
  define q where "q = pos_after I D pos ws"
  have step: "forward_step D F e st pos descend = Some (Inl (if k + length ts < length cts
      then (\<lparr>entry_tree = cts ! (k + length ts), entry_index = 0, entry_position = q\<rparr> # e' q # st, q, True)
      else (st, q, False)))"
    using int epos tw st unfolding forward_step_def q_def ws_def fold_children [OF wf, symmetric] e'_def k_def
    by (cases descend) (simp_all add: skip_forward_eq Let_def list_get_def stack_push_def)
  have split: "drop k cts = ts @ drop (k + length ts) cts" "take k cts @ ts = take (k + length ts) cts"
    unfolding ts_def by (metis append_eq_conv_conj add.commute drop_drop takeWhile_dropWhile_id,
        metis append_eq_conv_conj takeWhile_dropWhile_id take_add)
  have rest: "fwd_rest (e # st) descend = ws @ node_from (k + length ts) (entry_tree e) @ trail_after st"
    using int by (simp add: fwd_rest_def k_def [symmetric] ws_def split(1))
  have rej: "dropWhile rejected (ws @ zs) = dropWhile rejected zs" for zs
    unfolding ws_def using wf by (intro dropWhile_children) (auto simp: ts_def dest: set_takeWhileD)
  have q: "q = pos_after I D (dim_zero D) (trail_before st @ node_before (k + length ts) (entry_tree e))"
    using pos int by (simp add: q_def ws_def flip: split(2))
  show ?thesis
  proof (cases "k + length ts < length cts")
    case True
    then show ?thesis
      using step trail q int rest rej node_child(1) [OF True, of h s css]
      by (auto simp: fwd_step_ok_def fwd_ok_def fwd_rest_def e'_def Let_def)
  next
    case False
    then have "q = pos_after I D (dim_zero D) (trail_before st @ tree_items (entry_tree e))"
      using q int by simp
    then show ?thesis
      using False step fwd_pop [OF trail] rej rest int by (fastforce simp: fwd_step_ok_def)
  qed
qed

lemma forward_loop_ok:
  assumes "fwd_ok t stack pos descend"
  shows "\<exists>stack' pos'. forward_loop D F stack pos descend = Some (stack', pos', stack' \<noteq> []) \<and>
    stack_at I D t stack' pos' (dropWhile rejected (fwd_rest stack descend))"
  using assms
proof (induction "seek_work stack (\<not> descend)" arbitrary: stack pos descend rule: less_induct)
  case less
  show ?case
  proof (cases stack)
    case Nil
    with less.prems show ?thesis
      by (simp add: forward_loop.simps stack_at_def fwd_rest_def fwd_ok_def)
  next
    case (Cons e st)
    have "fwd_step_ok t (fwd_rest stack descend) (forward_step D F e st pos descend)"
      unfolding Cons
      by (cases "entry_tree e")
        (rule forward_step_internal forward_step_leaf; use less.prems Cons in simp)+
    then consider stack' pos' descend' where
        "forward_step D F e st pos descend = Some (Inl (stack', pos', descend'))" "fwd_ok t stack' pos' descend'"
        "dropWhile rejected (fwd_rest stack descend) = dropWhile rejected (fwd_rest stack' descend')"
      | stack' pos' where "forward_step D F e st pos descend = Some (Inr (stack', pos'))" "stack' \<noteq> []"
        "stack_at I D t stack' pos' (dropWhile rejected (fwd_rest stack descend))"
      unfolding fwd_step_ok_def by blast
    then show ?thesis
    proof cases
      case 1
      then show ?thesis
        using less.hyps [OF _ 1(2)] forward_step_work [OF 1(1)]
        by (simp add: Cons forward_loop.simps del: seek_work.simps)
    next
      case 2
      then show ?thesis by (simp add: Cons forward_loop.simps)
    qed
  qed
qed

text \<open>
  The items ahead: a cursor that was not moved, or that was moved before the first item, has the
  whole tree ahead; otherwise the current item is skipped.
\<close>

lemma search_forward_ok:
  assumes at: "cursor_at I D c ys zs" and seek: "did_seek c"
  shows "\<exists>c' ws. search_forward D F c = Some c' \<and> cursor_at I D c' (ys @ ws) (dropWhile rejected (drop 1 zs)) \<and>
    did_seek c' \<and> cursor_tree c' = cursor_tree c"
proof (cases "cursor_stack c")
  case Nil
  with at seek show ?thesis
    by (intro exI [of _ c] exI [of _ "[]"])
      (simp add: search_forward_def cursor_at_def forward_loop.simps)
next
  case (Cons e st)
  have ys: "ys = trail_before st @ node_before (entry_index e) (entry_tree e)"
    using at Cons trail_before_eq [of I D "cursor_tree c" st "entry_tree e"] by (auto simp: cursor_at_def)
  obtain s its iss where leaf: "entry_tree e = Leaf s its iss" "length iss = length its" "entry_index e < length its"
    using at Cons trail_ok(1) [of I D "cursor_tree c" st "entry_tree e"]
    by (cases "entry_tree e") (auto simp: cursor_at_def)
  have ok: "fwd_ok (cursor_tree c) (cursor_stack c) (cursor_position c) False"
    using at Cons ys leaf by (auto simp: cursor_at_def fwd_ok_def Let_def)
  have rest: "fwd_rest (cursor_stack c) False = drop 1 zs"
    using at Cons leaf by (simp add: cursor_at_def fwd_rest_def)
  obtain stack' pos' where loop: "forward_loop D F (cursor_stack c) (cursor_position c) False = Some (stack', pos', stack' \<noteq> [])"
    "stack_at I D (cursor_tree c) stack' pos' (dropWhile rejected (drop 1 zs))"
    using forward_loop_ok [OF ok] rest by auto
  obtain ws where ws: "zs = ws @ dropWhile rejected (drop 1 zs)"
    using takeWhile_dropWhile_id [of rejected "drop 1 zs"] append_take_drop_id [of 1 zs] by (metis append.assoc)
  define c' where "c' = c\<lparr>cursor_stack := stack', cursor_position := pos', at_end := (if stack' \<noteq> [] then at_end c else True)\<rparr>"
  have "search_forward D F c = Some c'"
    using Cons loop(1) seek by (auto simp: search_forward_def c'_def)
  moreover have "cursor_at I D c' (ys @ ws) (dropWhile rejected (drop 1 zs))"
  proof (rule cursor_at_stackI)
    show "tree_items (cursor_tree c') = (ys @ ws) @ dropWhile rejected (drop 1 zs)"
      using at ws by (metis (no_types) append.assoc c'_def cursor.select_convs(1) cursor.surjective
          cursor.update_convs(2,3,5) cursor_at_def)
    show "stack_at I D (cursor_tree c') (cursor_stack c') (cursor_position c') (dropWhile rejected (drop 1 zs))"
      using loop(2) by (simp add: c'_def)
  qed (use at Cons seek in \<open>simp_all add: cursor_at_def c'_def\<close>)
  ultimately show ?thesis using seek by (auto simp: c'_def)
qed

lemma search_forward_fresh:
  assumes wf: "wf_tree I (cursor_tree c)" "node_height (cursor_tree c) < STACK_CAP"
    and c: "cursor_stack c = []" "cursor_position c = dim_zero D" "at_end c = tree_is_empty (cursor_tree c)"
  shows "\<exists>c' ws. search_forward D F c = Some c' \<and>
    cursor_at I D c' ws (dropWhile rejected (tree_items (cursor_tree c))) \<and> did_seek c' \<and> cursor_tree c' = cursor_tree c"
proof -
  let ?t = "cursor_tree c"
  define stack where "stack = (if at_end c then [] else [\<lparr>entry_tree = ?t, entry_index = 0, entry_position = dim_zero D\<rparr>])"
  have ok: "fwd_ok ?t stack (cursor_position c) (\<not> at_end c)" "fwd_rest stack (\<not> at_end c) = tree_items ?t"
    using wf c by (auto simp: fwd_ok_def fwd_rest_def stack_def Let_def simp flip: tree_items_eq_Nil)
  obtain stack' pos' where loop: "forward_loop D F stack (cursor_position c) (\<not> at_end c) = Some (stack', pos', stack' \<noteq> [])"
    "stack_at I D ?t stack' pos' (dropWhile rejected (tree_items ?t))"
    using forward_loop_ok [OF ok(1)] ok(2) by auto
  define ws where "ws = takeWhile rejected (tree_items ?t)"
  have ws: "tree_items ?t = ws @ dropWhile rejected (tree_items ?t)"
    by (simp add: ws_def)
  define c' where "c' = c\<lparr>cursor_stack := stack', cursor_position := pos', did_seek := True,
    at_end := (if stack' \<noteq> [] then at_end c else True)\<rparr>"
  have "stack_push [] \<lparr>entry_tree = ?t, entry_index = 0, entry_position = dim_zero D\<rparr> =
      Some [\<lparr>entry_tree = ?t, entry_index = 0, entry_position = dim_zero D\<rparr>]"
    by (simp add: stack_push_def STACK_CAP_def)
  then have "search_forward D F c = Some c'"
    using c(1) loop(1) by (cases "at_end c"; cases "stack' = []") (simp_all add: search_forward_def c'_def stack_def)
  moreover have "stack' \<noteq> [] \<Longrightarrow> \<not> at_end c"
    using loop by (auto simp: stack_def forward_loop.simps)
  then have "cursor_at I D c' ws (dropWhile rejected (tree_items ?t))"
    using wf loop(2) ws by (intro cursor_at_stackI) (simp_all add: c'_def)
  ultimately show ?thesis by (auto simp: c'_def)
qed

section \<open>Searching backward\<close>

definition back_ok :: "('t, 's) sum_tree \<Rightarrow> ('t, 's, 'd) stack_entry list \<Rightarrow> 'd \<Rightarrow> bool \<Rightarrow> bool" where
  "back_ok t stack pos descending \<longleftrightarrow>
     wf_tree I t \<and> node_height t < STACK_CAP \<and>
     (case stack of [] \<Rightarrow> pos = dim_zero D
      | e # st \<Rightarrow> trail I D t st (entry_tree e) \<and>
          (if descending then Suc (entry_index e) else entry_index e) \<le> length (child_summaries (entry_tree e)))"

definition back_rest :: "('t, 's, 'd) stack_entry list \<Rightarrow> bool \<Rightarrow> 't list" where
  "back_rest stack descending =
     (case stack of [] \<Rightarrow> []
      | e # st \<Rightarrow> trail_before st @ node_before (if descending then Suc (entry_index e) else entry_index e) (entry_tree e))"

text \<open>The outcome of a search through \<open>bs\<close> from the right: the last accepted item, or the start.\<close>

definition back_result :: "('t, 's) sum_tree \<Rightarrow> 't list \<Rightarrow> ('t, 's, 'd) stack_entry list \<Rightarrow> 'd \<Rightarrow> bool" where
  "back_result t bs stack pos \<longleftrightarrow>
     (case dropWhile rejected (rev bs) of
        [] \<Rightarrow> stack = [] \<and> pos = dim_zero D
      | x # xs \<Rightarrow> stack \<noteq> [] \<and> (\<exists>zs. tree_items t = rev xs @ zs \<and> stack_at I D t stack pos zs))"

definition back_step_ok where
  "back_step_ok t bs r \<longleftrightarrow>
     (\<exists>stack pos descending. r = Some (Inl (stack, pos, descending)) \<and> back_ok t stack pos descending \<and>
        dropWhile rejected (rev bs) = dropWhile rejected (rev (back_rest stack descending))) \<or>
     (\<exists>stack pos. r = Some (Inr (stack, pos)) \<and> back_result t bs stack pos)"

lemma back_step_okI:
  "r = Some (Inl (stack, pos, descending)) \<Longrightarrow> back_rest stack descending = bs \<Longrightarrow>
   back_ok t stack pos descending \<Longrightarrow> back_step_ok t bs r"
  unfolding back_step_ok_def by blast

lemma trail_base:
  "trail I D t st u \<Longrightarrow>
   (case st of [] \<Rightarrow> dim_zero D | b # _ \<Rightarrow> entry_position b) = pos_after I D (dim_zero D) (trail_before st)"
  by (cases st) simp_all

lemma back_rest_pop: "trail I D t st u \<Longrightarrow> back_rest st False = trail_before st"
  by (cases st) (simp_all add: back_rest_def)

lemma backward_step_pop:
  assumes ok: "back_ok t (e # st) pos descending" and "\<not> descending" "entry_index e = 0"
  shows "back_step_ok t (back_rest (e # st) descending) (backward_step D F e st descending)"
proof -
  have "back_ok t st (case st of [] \<Rightarrow> dim_zero D | b # _ \<Rightarrow> entry_position b) False"
    using ok trail_ok(1) [of I D t "tl st" "entry_tree (hd st)"]
    by (cases st) (auto simp: back_ok_def split: sum_tree.splits)
  moreover have "backward_step D F e st descending = Some (Inl (st, (case st of [] \<Rightarrow> dim_zero D | b # _ \<Rightarrow> entry_position b), False))"
    using assms by (simp add: backward_step_def Let_def)
  moreover have "back_rest (e # st) descending = back_rest st False"
    using assms back_rest_pop [of t st "entry_tree e"] by (simp add: back_ok_def back_rest_def [of "e # st"])
  ultimately show ?thesis
    unfolding back_step_ok_def by auto
qed

lemma fold_before:
  assumes "wf_tree I u"
  shows "foldl (dim_add D) d (take i (child_summaries u)) = pos_after I D d (node_before i u)"
proof (cases u)
  case (Internal h s css cts)
  with assms have "\<forall>t \<in> set (take i cts). wf_tree I t \<and> \<not> tree_is_empty t"
    by (auto dest: in_set_takeD)
  with assms Internal show ?thesis
    by (simp add: take_map fold_children)
qed (use assms in \<open>simp add: take_map fold_items\<close>)

text \<open>The iteration on the entry \<open>e\<close> moved to index \<open>i\<close>.\<close>

lemma backward_step_eq:
  assumes trail: "trail I D t st (entry_tree e)" "wf_tree I t" and move: "descending \<or> entry_index e \<noteq> 0"
    and i: "i = (if descending then entry_index e else entry_index e - 1)" "i < length (child_summaries (entry_tree e))"
    and q: "q = pos_after I D (dim_zero D) (trail_before st @ node_before i (entry_tree e))"
    and e': "e' = e\<lparr>entry_index := i, entry_position := q\<rparr>"
  shows "backward_step D F e st descending =
    (if \<not> F (child_summaries (entry_tree e) ! i) then Some (Inl (e' # st, q, False))
     else case entry_tree e of
       Internal _ _ _ cts \<Rightarrow> do {
         t \<leftarrow> list_get cts i;
         assert_that (child_summaries t \<noteq> []);
         st' \<leftarrow> stack_push (e' # st)
           \<lparr>entry_tree = t, entry_index = length (child_summaries t) - 1, entry_position = dim_zero D\<rparr>;
         Some (Inl (st', q, True)) }
     | Leaf _ _ _ \<Rightarrow> Some (Inr (e' # st, q)))"
proof -
  let ?base = "case st of [] \<Rightarrow> dim_zero D | b # _ \<Rightarrow> entry_position b"
  let ?css = "child_summaries (entry_tree e)"
  have "foldl (dim_add D) ?base (take i ?css) = q"
    unfolding trail_base [OF trail(1)] fold_before [OF trail_ok(1) [OF trail]] q by simp
  moreover have "list_get ?css i = Some (?css ! i)" "assert_that (i \<le> length ?css) = Some ()"
    using i(2) by (simp_all add: list_get_def assert_that_def)
  moreover have "(\<not> descending \<and> entry_index e = 0) = False"
    using move by blast
  ultimately show ?thesis
    unfolding backward_step_def i(1) [symmetric] Let_def
    by (cases "entry_tree e") (simp_all only: e' child_summaries.simps sum_tree.case if_False bind.bind_lunit if_not_P not_not split: if_splits, auto)
qed

lemma back_step_reject:
  assumes "trail I D t st (entry_tree e)" "wf_tree I t" "node_height t < STACK_CAP"
    and "i \<le> length (child_summaries (entry_tree e))"
    and "node_before (Suc i) (entry_tree e) = node_before i (entry_tree e) @ ws" "\<forall>x \<in> set ws. rejected x"
  shows "back_step_ok t (trail_before st @ node_before (Suc i) (entry_tree e))
    (Some (Inl (e\<lparr>entry_index := i, entry_position := q\<rparr> # st, q, False)))"
proof -
  have "dropWhile rejected (rev (trail_before st @ node_before (Suc i) (entry_tree e))) =
      dropWhile rejected (rev (back_rest (e\<lparr>entry_index := i, entry_position := q\<rparr> # st) False))"
    using assms(5) dropWhile_append2 [of "rev ws" rejected] assms(6) by (simp add: back_rest_def)
  moreover have "back_ok t (e\<lparr>entry_index := i, entry_position := q\<rparr> # st) q False"
    using assms by (simp add: back_ok_def)
  ultimately show ?thesis
    unfolding back_step_ok_def by blast
qed

lemma backward_step_internal:
  assumes trail: "trail I D t st (entry_tree e)" "wf_tree I t" "node_height t < STACK_CAP"
    and u: "entry_tree e = Internal h s css cts" and i: "i < length cts"
    and q: "q = pos_after I D (dim_zero D) (trail_before st @ node_before i (entry_tree e))"
    and e': "e' = e\<lparr>entry_index := i, entry_position := q\<rparr>"
  shows "back_step_ok t (trail_before st @ node_before (Suc i) (entry_tree e))
    (if \<not> F (child_summaries (entry_tree e) ! i) then Some (Inl (e' # st, q, False))
     else do {
       t \<leftarrow> list_get cts i;
       assert_that (child_summaries t \<noteq> []);
       st' \<leftarrow> stack_push (e' # st)
         \<lparr>entry_tree = t, entry_index = length (child_summaries t) - 1, entry_position = dim_zero D\<rparr>;
       Some (Inl (st', q, True)) })"
proof -
  have wf: "wf_tree I (Internal h s css cts)" and h: "h + length st = node_height t"
    using trail_ok(1,3) [OF trail(1,2)] u by simp_all
  have c: "wf_tree I (cts ! i)" "\<not> tree_is_empty (cts ! i)" "css ! i = node_summary (cts ! i)"
    using wf i by simp_all
  then have ne: "child_summaries (cts ! i) \<noteq> []"
    by (cases "cts ! i") auto
  show ?thesis
  proof (cases "F (css ! i)")
    case False
    with filter_tree [OF c(1)] c(3) have rej: "\<forall>x \<in> set (tree_items (cts ! i)). rejected x"
      by simp
    have "back_step_ok t (trail_before st @ node_before (Suc i) (entry_tree e)) (Some (Inl (e' # st, q, False)))"
      unfolding e' using i wf rej
      by (intro back_step_reject [OF trail, of i "tree_items (cts ! i)"]) (simp_all add: u take_Suc_conv_app_nth)
    with False u show ?thesis by simp
  next
    case True
    let ?stack = "\<lparr>entry_tree = cts ! i, entry_index = length (child_summaries (cts ! i)) - 1, entry_position = dim_zero D\<rparr> # e' # st"
    have "node_before (length (child_summaries (cts ! i))) (cts ! i) = tree_items (cts ! i)"
      using c(1) by (cases "cts ! i") simp_all
    with ne have rest: "back_rest ?stack True = trail_before st @ node_before (Suc i) (entry_tree e)"
      using u by (simp add: back_rest_def e' node_child(2) [OF i] del: node_before.simps)
    have ok: "back_ok t ?stack q True"
      using trail u i ne q by (simp add: back_ok_def e')
    have "Suc (length st) < STACK_CAP"
      using height_pos_child [OF wf] h trail(3) by simp
    then have step: "do {
        t \<leftarrow> list_get cts i;
        assert_that (child_summaries t \<noteq> []);
        st' \<leftarrow> stack_push (e' # st)
          \<lparr>entry_tree = t, entry_index = length (child_summaries t) - 1, entry_position = dim_zero D\<rparr>;
        Some (Inl (st', q, True)) } = (Some (Inl (?stack, q, True)) :: (_ + _ \<times> 'd) option)"
      using i ne by (simp add: list_get_def assert_that_def stack_push_def)
    from back_step_okI [OF step rest ok] True u show ?thesis
      by (simp only: child_summaries.simps not_True_eq_False if_False)
  qed
qed

lemma backward_step_leaf:
  assumes trail: "trail I D t st (entry_tree e)" "wf_tree I t" "node_height t < STACK_CAP"
    and u: "entry_tree e = Leaf s its iss" and i: "i < length its"
    and q: "q = pos_after I D (dim_zero D) (trail_before st @ node_before i (entry_tree e))"
    and e': "e' = e\<lparr>entry_index := i, entry_position := q\<rparr>"
  shows "back_step_ok t (trail_before st @ node_before (Suc i) (entry_tree e))
    (if \<not> F (child_summaries (entry_tree e) ! i) then Some (Inl (e' # st, q, False)) else Some (Inr (e' # st, q)))"
proof -
  have iss: "iss = map (item_summary I) its"
    using trail_ok(1) [OF trail(1,2)] u by simp
  have before: "node_before (Suc i) (entry_tree e) = node_before i (entry_tree e) @ [its ! i]"
    using u i by (simp add: take_Suc_conv_app_nth)
  show ?thesis
  proof (cases "F (item_summary I (its ! i))")
    case False
    with back_step_reject [OF trail _ before, of q] i iss show ?thesis
      by (simp add: u e')
  next
    case True
    have "tree_items t = (trail_before st @ take i its) @ (drop i its @ trail_after st)"
      using trail_ok(4) [OF trail(1,2)] u by simp
    moreover have "stack_at I D t (e' # st) q (drop i its @ trail_after st)"
      using trail u i q iss by (simp add: stack_at_def e')
    ultimately have "back_result t (trail_before st @ node_before (Suc i) (entry_tree e)) (e' # st) q"
      using True u unfolding before back_result_def by auto
    with True iss u i show ?thesis
      by (simp add: back_step_ok_def del: node_before.simps)
  qed
qed

lemma backward_loop_ok:
  assumes "back_ok t stack pos descending"
  shows "\<exists>stack' pos'. backward_loop D F stack pos descending = Some (stack', pos') \<and>
    back_result t (back_rest stack descending) stack' pos'"
  using assms
proof (induction "back_work stack descending" arbitrary: stack pos descending rule: less_induct)
  case less
  show ?case
  proof (cases stack)
    case Nil
    with less.prems show ?thesis
      by (simp add: backward_loop.simps back_result_def back_rest_def back_ok_def)
  next
    case (Cons e st)
    have "back_step_ok t (back_rest stack descending) (backward_step D F e st descending)"
    proof (cases "\<not> descending \<and> entry_index e = 0")
      case True
      with backward_step_pop less.prems Cons show ?thesis by blast
    next
      case False
      define i where "i = (if descending then entry_index e else entry_index e - 1)"
      have idx: "(if descending then Suc (entry_index e) else entry_index e) = Suc i"
        using False by (auto simp: i_def)
      have trail: "trail I D t st (entry_tree e)" "wf_tree I t" "node_height t < STACK_CAP"
        and i: "i < length (child_summaries (entry_tree e))"
        using less.prems idx by (auto simp: Cons back_ok_def)
      have rest: "back_rest stack descending = trail_before st @ node_before (Suc i) (entry_tree e)"
        unfolding Cons back_rest_def using idx by simp
      have move: "descending \<or> entry_index e \<noteq> 0"
        using False by simp
      note step = backward_step_eq [OF trail(1,2) move i_def i refl refl]
      show ?thesis
      proof (cases "entry_tree e")
        case (Internal h s css cts)
        with i trail_ok(1) [OF trail(1,2)] have "i < length cts" by simp
        from backward_step_internal [OF trail Internal this refl refl] show ?thesis
          unfolding rest step by (simp only: Internal sum_tree.case)
      next
        case (Leaf s its iss)
        with i trail_ok(1) [OF trail(1,2)] have "i < length its" by simp
        from backward_step_leaf [OF trail Leaf this refl refl] show ?thesis
          unfolding rest step by (simp only: Leaf sum_tree.case)
      qed
    qed
    then consider stack' pos' descending' where
        "backward_step D F e st descending = Some (Inl (stack', pos', descending'))" "back_ok t stack' pos' descending'"
        "dropWhile rejected (rev (back_rest stack descending)) = dropWhile rejected (rev (back_rest stack' descending'))"
      | stack' pos' where "backward_step D F e st descending = Some (Inr (stack', pos'))"
        "back_result t (back_rest stack descending) stack' pos'"
      unfolding back_step_ok_def by blast
    then show ?thesis
    proof cases
      case 1
      then show ?thesis
        using less.hyps [OF _ 1(2)] backward_step_work [OF 1(1)]
        by (simp add: Cons backward_loop.simps back_result_def del: back_work.simps)
    next
      case 2
      then show ?thesis by (simp add: Cons backward_loop.simps)
    qed
  qed
qed

text \<open>
  \<open>before_start\<close>: a search backward that finds no item leaves the cursor before the first one.
\<close>

definition before_start :: "('t, 's, 'd) cursor \<Rightarrow> bool" where
  "before_start c \<longleftrightarrow> did_seek c \<and> cursor_stack c = [] \<and> cursor_position c = dim_zero D \<and>
     at_end c = tree_is_empty (cursor_tree c)"

lemma search_backward_start:
  assumes at: "cursor_at I D c ys zs"
  obtains stack pos where
    "search_backward D F c = do {
       (stack', pos') \<leftarrow> backward_loop D F stack pos False;
       Some (c\<lparr>cursor_stack := stack', cursor_position := pos', did_seek := True, at_end := tree_is_empty (cursor_tree c)\<rparr>) }"
    "back_ok (cursor_tree c) stack pos False" "back_rest stack False = (if did_seek c then ys else ys @ zs)"
proof (cases "cursor_stack c")
  case Nil
  let ?t = "cursor_tree c"
  let ?e = "\<lparr>entry_tree = ?t, entry_index = length (child_summaries ?t), entry_position = dim_from_summary D (node_summary ?t)\<rparr>"
  have wf: "wf_tree I ?t" "node_height ?t < STACK_CAP" "tree_items ?t = ys @ zs" "did_seek c \<Longrightarrow> at_end c \<and> zs = []"
    using at Nil by (auto simp: cursor_at_def)
  have push: "stack_push [] ?e = Some [?e]"
    by (simp add: stack_push_def STACK_CAP_def)
  have all: "node_before (length (child_summaries ?t)) ?t = tree_items ?t"
    using wf(1) by (cases ?t) auto
  show ?thesis
  proof (cases "tree_is_empty ?t")
    case True
    then show ?thesis
      using that [of "[]" "dim_zero D"] Nil wf
      by (cases c; cases "did_seek c")
        (simp_all add: search_backward_def Let_def back_ok_def back_rest_def flip: tree_items_eq_Nil)
  next
    case False
    then show ?thesis
      using that [of "[?e]" "dim_zero D"] Nil wf push all
      by (cases c; cases "did_seek c") (simp_all add: search_backward_def Let_def back_ok_def back_rest_def)
  qed
next
  case (Cons e st)
  have ys: "ys = trail_before st @ node_before (entry_index e) (entry_tree e)"
    using at Cons trail_before_eq [of I D "cursor_tree c" st "entry_tree e"] by (auto simp: cursor_at_def)
  have c: "did_seek c" "\<not> at_end c" "\<not> tree_is_empty (cursor_tree c)"
    using at Cons by (auto simp: cursor_at_def simp flip: tree_items_eq_Nil)
  show ?thesis
  proof (rule that [of "cursor_stack c" "cursor_position c"])
    show "search_backward D F c = do {
       (stack', pos') \<leftarrow> backward_loop D F (cursor_stack c) (cursor_position c) False;
       Some (c\<lparr>cursor_stack := stack', cursor_position := pos', did_seek := True, at_end := tree_is_empty (cursor_tree c)\<rparr>) }"
      using c by (cases c) (simp add: search_backward_def Let_def)
  qed (use at Cons ys c in \<open>auto simp: cursor_at_def back_ok_def back_rest_def\<close>)
qed

lemma search_backward_ok:
  assumes at: "cursor_at I D c ys zs"
  shows "\<exists>c'. search_backward D F c = Some c' \<and> cursor_tree c' = cursor_tree c \<and> did_seek c' \<and>
    (case dropWhile rejected (rev (if did_seek c then ys else ys @ zs)) of
       [] \<Rightarrow> before_start c'
     | x # xs \<Rightarrow> (\<exists>ws. ys @ zs = rev xs @ ws \<and> cursor_at I D c' (rev xs) ws))"
proof -
  define bs where "bs = (if did_seek c then ys else ys @ zs)"
  obtain stack pos where start: "search_backward D F c = do {
       (stack', pos') \<leftarrow> backward_loop D F stack pos False;
       Some (c\<lparr>cursor_stack := stack', cursor_position := pos', did_seek := True, at_end := tree_is_empty (cursor_tree c)\<rparr>) }"
    "back_ok (cursor_tree c) stack pos False" "back_rest stack False = bs"
    unfolding bs_def using search_backward_start [OF at] .
  obtain stack' pos' where loop: "backward_loop D F stack pos False = Some (stack', pos')"
    and res: "back_result (cursor_tree c) bs stack' pos'"
    using backward_loop_ok [OF start(2)] start(3) by auto
  define c' where "c' = c\<lparr>cursor_stack := stack', cursor_position := pos', did_seek := True, at_end := tree_is_empty (cursor_tree c)\<rparr>"
  have wf: "wf_tree I (cursor_tree c)" "node_height (cursor_tree c) < STACK_CAP" "tree_items (cursor_tree c) = ys @ zs"
    using at by (auto simp: cursor_at_def)
  have "case dropWhile rejected (rev bs) of
       [] \<Rightarrow> before_start c'
     | x # xs \<Rightarrow> (\<exists>ws. ys @ zs = rev xs @ ws \<and> cursor_at I D c' (rev xs) ws)"
  proof (cases "dropWhile rejected (rev bs)")
    case Nil
    with res show ?thesis
      by (simp add: back_result_def before_start_def c'_def del: dropWhile_eq_Nil_conv)
  next
    case (Cons x xs)
    with res obtain ws where ws: "stack' \<noteq> []" "tree_items (cursor_tree c) = rev xs @ ws"
      "stack_at I D (cursor_tree c) stack' pos' ws"
      by (auto simp: back_result_def)
    then have "ws \<noteq> []" by (auto simp: stack_at_def split: list.splits)
    then have "\<not> tree_is_empty (cursor_tree c)"
      using ws(2) tree_items_eq_Nil [OF wf(1)] by auto
    then have "cursor_at I D c' (rev xs) ws"
      using ws wf by (intro cursor_at_stackI) (simp_all add: c'_def)
    with Cons ws wf show ?thesis by auto
  qed
  then show ?thesis
    unfolding bs_def [symmetric] using start(1) loop by (intro exI [of _ c']) (simp add: c'_def)
qed

end

end
