(* ===== verification/SumTree_Iter.thy ===== *)
theory SumTree_Iter
  imports SumTree_Search
begin

text \<open>
  Correctness of the neighbours \<open>next_item\<close> and \<open>prev_item\<close> of a cursor and of the iterators:
  iterating a filtered cursor from the start yields exactly the accepted items, in order, and
  \<open>Iter\<close> yields all items.
\<close>

section \<open>Neighbours\<close>

context measured
begin

lemma next_leaf_ok:
  assumes "trail I D t st u" "wf_tree I t"
  shows "\<exists>r. next_leaf st = Some r \<and> (case r of None \<Rightarrow> trail_after st = []
    | Some l \<Rightarrow> (\<exists>s x xs iss rest. l = Leaf s (x # xs) iss \<and> trail_after st = x # xs @ rest))"
  using assms
proof (induction st arbitrary: u)
  case (Cons b st)
  then obtain h s css cts where b: "entry_tree b = Internal h s css cts" "entry_index b < length cts"
    "trail I D t st (entry_tree b)"
    by (auto split: sum_tree.splits)
  have wf: "wf_tree I (Internal h s css cts)"
    using trail_ok(1) [OF b(3) Cons.prems(2)] b(1) by simp
  show ?case
  proof (cases "entry_index b < length cts - 1")
    case False
    then have "trail_after (b # st) = trail_after st" using b(1,2) by simp
    moreover have "next_leaf (b # st) = next_leaf st"
      using b False wf by (simp add: assert_that_def)
    ultimately show ?thesis
      using Cons.IH [OF b(3) Cons.prems(2)] by (simp only:)
  next
    case True
    let ?c = "cts ! Suc (entry_index b)"
    have i: "Suc (entry_index b) < length cts" using True by simp
    have c: "wf_tree I ?c" "\<not> tree_is_empty ?c" using wf i by simp_all
    obtain l rest where l: "leftmost_leaf ?c = Some l" "node_is_leaf l" "wf_tree I l" "\<not> tree_is_empty l"
      "tree_items ?c = tree_items l @ rest"
      using leftmost_leaf_ok [OF c(1)] c(2) by auto
    then obtain s' x xs iss where "l = Leaf s' (x # xs) iss"
      by (cases l; cases "tree_items l") auto
    moreover have "trail_after (b # st) = tree_items ?c @ node_from (Suc (Suc (entry_index b))) (entry_tree b) @ trail_after st"
      using node_child(1) [OF i, of h s css] b(1) by simp
    ultimately show ?thesis
      using True b wf l by (auto simp: assert_that_def list_get_def)
  qed
qed simp

lemma prev_leaf_ok:
  assumes "trail I D t st u" "wf_tree I t"
  shows "\<exists>r. prev_leaf st = Some r \<and> (case r of None \<Rightarrow> trail_before st = []
    | Some l \<Rightarrow> (\<exists>s xs iss rest. l = Leaf s xs iss \<and> xs \<noteq> [] \<and> trail_before st = rest @ xs))"
  using assms
proof (induction st arbitrary: u)
  case (Cons b st)
  then obtain h s css cts where b: "entry_tree b = Internal h s css cts" "entry_index b < length cts"
    "trail I D t st (entry_tree b)"
    by (auto split: sum_tree.splits)
  have wf: "wf_tree I (Internal h s css cts)"
    using trail_ok(1) [OF b(3) Cons.prems(2)] b(1) by simp
  show ?case
  proof (cases "entry_index b")
    case 0
    then have "trail_before (b # st) = trail_before st" "prev_leaf (b # st) = prev_leaf st" by simp_all
    with Cons.IH [OF b(3) Cons.prems(2)] show ?thesis by (simp only:)
  next
    case (Suc i)
    let ?c = "cts ! i"
    have i: "i < length cts" using b(2) Suc by simp
    have c: "wf_tree I ?c" "\<not> tree_is_empty ?c" using wf i by simp_all
    obtain l rest where l: "rightmost_leaf ?c = Some l" "node_is_leaf l" "wf_tree I l" "\<not> tree_is_empty l"
      "tree_items ?c = rest @ tree_items l"
      using rightmost_leaf_ok [OF c(1)] c(2) by auto
    then obtain s' xs iss where "l = Leaf s' xs iss" "xs \<noteq> []"
      by (cases l) auto
    moreover have "trail_before (b # st) = (trail_before st @ node_before i (entry_tree b)) @ tree_items ?c"
      using node_child(2) [OF i, of h s css] b(1) Suc by simp
    ultimately show ?thesis
      using Suc b i l by (simp add: list_get_def)
  qed
qed simp

lemma cursor_leaf:
  assumes "cursor_at I D c ys zs" "cursor_stack c = e # st"
  obtains s its iss where "entry_tree e = Leaf s its iss" "entry_index e < length its"
    "trail I D (cursor_tree c) st (entry_tree e)" "wf_tree I (cursor_tree c)" "did_seek c"
    "ys = trail_before st @ take (entry_index e) its" "zs = drop (entry_index e) its @ trail_after st"
proof -
  have at: "trail I D (cursor_tree c) st (entry_tree e)" "wf_tree I (cursor_tree c)" "did_seek c"
    "zs = node_from (entry_index e) (entry_tree e) @ trail_after st" "node_is_leaf (entry_tree e)"
    "entry_index e < length (child_summaries (entry_tree e))" "tree_items (cursor_tree c) = ys @ zs"
    using assms by (auto simp: cursor_at_def)
  moreover from this have "ys = trail_before st @ node_before (entry_index e) (entry_tree e)"
    using trail_before_eq [OF at(1,2)] by simp
  ultimately show ?thesis
    using that trail_ok(1) [OF at(1,2)] by (cases "entry_tree e") simp_all
qed

lemma next_item_ok:
  assumes at: "cursor_at I D c ys zs" and seek: "did_seek c"
  shows "next_item c = Some (list_first (drop 1 zs))"
proof (cases "cursor_stack c")
  case Nil
  with assms show ?thesis
    by (auto simp: cursor_at_def next_item_def assert_did_seek_def assert_that_def)
next
  case (Cons e st)
  obtain s its iss where e: "entry_tree e = Leaf s its iss" "entry_index e < length its"
    "trail I D (cursor_tree c) st (entry_tree e)" "wf_tree I (cursor_tree c)"
    "zs = drop (entry_index e) its @ trail_after st"
    by (rule cursor_leaf [OF at Cons])
  have drop1: "drop 1 zs = drop (Suc (entry_index e)) its @ trail_after st"
    using e(2,5) by (simp flip: Cons_nth_drop_Suc)
  show ?thesis
  proof (cases "entry_index e = length its - 1")
    case True
    with e(2) have "drop (Suc (entry_index e)) its = []" by simp
    moreover obtain r where "next_leaf st = Some r" "case r of None \<Rightarrow> trail_after st = []
      | Some l \<Rightarrow> (\<exists>s x xs iss rest. l = Leaf s (x # xs) iss \<and> trail_after st = x # xs @ rest)"
      using next_leaf_ok [OF e(3,4)] by blast
    ultimately show ?thesis
      using True Cons e(1,2) seek drop1
      by (cases r) (auto simp: next_item_def assert_did_seek_def assert_that_def)
  next
    case False
    with e(2) have "Suc (entry_index e) < length its" by simp
    moreover from this have "drop (Suc (entry_index e)) its = its ! Suc (entry_index e) # drop (Suc (Suc (entry_index e))) its"
      by (simp add: Cons_nth_drop_Suc)
    ultimately show ?thesis
      using False Cons e(1,2) seek drop1
      by (auto simp: next_item_def assert_did_seek_def assert_that_def list_get_def)
  qed
qed

lemma prev_item_ok:
  assumes at: "cursor_at I D c ys zs" and seek: "did_seek c"
  shows "prev_item c = Some (list_last ys)"
proof (cases "cursor_stack c")
  case Nil
  with assms show ?thesis
    by (auto simp: cursor_at_def prev_item_def assert_did_seek_def assert_that_def tree_last_ok)
next
  case (Cons e st)
  obtain s its iss where e: "entry_tree e = Leaf s its iss" "entry_index e < length its"
    "trail I D (cursor_tree c) st (entry_tree e)" "wf_tree I (cursor_tree c)"
    "ys = trail_before st @ take (entry_index e) its"
    by (rule cursor_leaf [OF at Cons])
  show ?thesis
  proof (cases "entry_index e")
    case 0
    obtain r where r: "prev_leaf st = Some r" "case r of None \<Rightarrow> trail_before st = []
      | Some l \<Rightarrow> (\<exists>s xs iss rest. l = Leaf s xs iss \<and> xs \<noteq> [] \<and> trail_before st = rest @ xs)"
      using prev_leaf_ok [OF e(3,4)] by blast
    show ?thesis
    proof (cases r)
      case None
      with 0 Cons e(5) seek r show ?thesis
        by (simp add: prev_item_def assert_did_seek_def assert_that_def)
    next
      case (Some l)
      with r(2) obtain s xs iss rest where "l = Leaf s xs iss" "xs \<noteq> []" "trail_before st = rest @ xs"
        by auto
      with 0 Cons e(5) seek r(1) Some show ?thesis
        by (simp add: prev_item_def assert_did_seek_def assert_that_def list_last_def)
    qed
  next
    case (Suc i)
    then have "take (entry_index e) its = take i its @ [its ! i]"
      using e(2) by (simp add: take_Suc_conv_app_nth)
    with Suc Cons e seek show ?thesis
      by (simp add: prev_item_def assert_did_seek_def assert_that_def list_get_def list_last_def)
  qed
qed

end

section \<open>Iterators\<close>

text \<open>The first \<open>n\<close> results of an iterator, up to its first \<open>None\<close>.\<close>

fun filter_cursor_take ::
  "('s, 'd) dimension \<Rightarrow> ('s \<Rightarrow> bool) \<Rightarrow> nat \<Rightarrow> ('t, 's, 'd) cursor \<Rightarrow> 't list option" where
  "filter_cursor_take D F 0 c = Some []"
| "filter_cursor_take D F (Suc n) c = do {
     (c', x) \<leftarrow> filter_cursor_iter_next D F c;
     (case x of
        None \<Rightarrow> Some []
      | Some x \<Rightarrow> do { xs \<leftarrow> filter_cursor_take D F n c'; Some (x # xs) }) }"

context filtering
begin

lemma filter_dropWhile: "filter (\<lambda>x. F (item_summary I x)) xs =
    (case dropWhile rejected xs of [] \<Rightarrow> [] | x # zs \<Rightarrow> x # filter (\<lambda>x. F (item_summary I x)) zs)"
  by (induction xs) simp_all

lemma filter_cursor_take_ok:
  assumes "cursor_at I D c ys zs" "did_seek c" "zs = dropWhile rejected us"
  shows "filter_cursor_take D F n c = Some (take n (filter (\<lambda>x. F (item_summary I x)) us))"
  using assms
proof (induction n arbitrary: c ys zs us)
  case (Suc n)
  have item: "cursor_item c = Some (list_first zs)"
    using cursor_at_item(1) [OF Suc.prems(1,2)] .
  show ?case
  proof (cases zs)
    case Nil
    with item Suc.prems filter_dropWhile [of us] show ?thesis
      by (simp add: filter_cursor_iter_next_def del: dropWhile_eq_Nil_conv)
  next
    case (Cons z zs')
    obtain c' ws where c': "search_forward D F c = Some c'" "cursor_at I D c' (ys @ ws) (dropWhile rejected (drop 1 zs))" "did_seek c'"
      using search_forward_ok [OF Suc.prems(1,2)] by blast
    from Suc.IH [OF c'(2,3) refl] have "filter_cursor_take D F n c' = Some (take n (filter (\<lambda>x. F (item_summary I x)) zs'))"
      using Cons by simp
    moreover have "dropWhile rejected us = z # zs'"
      using Suc.prems(3) Cons by simp
    ultimately show ?thesis
      using item c'(1) Suc.prems(2) Cons filter_dropWhile [of us] by (simp add: filter_cursor_iter_next_def)
  qed
qed simp

lemma filter_cursor_collect:
  assumes "wf_tree I t" "node_height t < STACK_CAP" "length (tree_items t) < n"
  shows "filter_cursor_take D F n (cursor_new D t) = Some (filter (\<lambda>x. F (item_summary I x)) (tree_items t))"
proof -
  let ?c = "cursor_new D t"
  obtain c' ws where c': "search_forward D F ?c = Some c'" "cursor_at I D c' ws (dropWhile rejected (tree_items t))" "did_seek c'"
    using search_forward_fresh [of ?c] assms by (auto simp: cursor_new_def)
  have "filter_cursor_take D F n ?c = filter_cursor_take D F n c'"
    using c' by (cases n) (simp_all add: filter_cursor_iter_next_def cursor_new_def)
  also have "\<dots> = Some (take n (filter (\<lambda>x. F (item_summary I x)) (tree_items t)))"
    by (rule filter_cursor_take_ok [OF c'(2,3) refl])
  finally show ?thesis
    using assms(3) length_filter_le [of "\<lambda>x. F (item_summary I x)" "tree_items t"] by simp
qed

end

sublocale measured \<subseteq> unfiltered: filtering I D "\<lambda>_. True"
  by unfold_locales simp

lemma cursor_iter_next_eq: "cursor_iter_next D c = filter_cursor_iter_next D (\<lambda>_. True) c"
  unfolding cursor_iter_next_def filter_cursor_iter_next_def cursor_next_def ..

context measured
begin

lemma cursor_next_ok:
  assumes "cursor_at I D c ys zs" "did_seek c"
  shows "\<exists>c'. cursor_next D c = Some c' \<and> did_seek c' \<and> cursor_tree c' = cursor_tree c \<and>
    cursor_at I D c' (ys @ take 1 zs) (drop 1 zs)"
proof -
  obtain c' ws where c': "search_forward D (\<lambda>_. True) c = Some c'" "did_seek c'" "cursor_tree c' = cursor_tree c"
    "cursor_at I D c' (ys @ ws) (dropWhile (\<lambda>_. False) (drop 1 zs))"
    using unfiltered.search_forward_ok [OF assms] by auto
  have drop: "dropWhile (\<lambda>_. False) (drop 1 zs) = drop 1 zs" by (cases "drop 1 zs") simp_all
  have "(ys @ ws) @ drop 1 zs = ys @ zs"
    using c'(3,4) assms(1) unfolding drop by (simp add: cursor_at_def)
  then have "ys @ ws @ drop 1 zs = ys @ take 1 zs @ drop 1 zs"
    by (metis append.assoc append_take_drop_id)
  then have "ws = take 1 zs" by blast
  with c' drop show ?thesis by (simp add: cursor_next_def)
qed

lemma cursor_next_fresh:
  assumes "wf_tree I t" "node_height t < STACK_CAP"
  shows "\<exists>c'. cursor_next D (cursor_new D t) = Some c' \<and> did_seek c' \<and> cursor_tree c' = t \<and> cursor_at I D c' [] (tree_items t)"
proof -
  obtain c' ws where c': "search_forward D (\<lambda>_. True) (cursor_new D t) = Some c'" "did_seek c'" "cursor_tree c' = t"
    "cursor_at I D c' ws (dropWhile (\<lambda>_. False) (tree_items t))"
    using unfiltered.search_forward_fresh [of "cursor_new D t"] assms by (auto simp: cursor_new_def)
  have drop: "dropWhile (\<lambda>_. False) (tree_items t) = tree_items t" by (cases "tree_items t") simp_all
  with c'(3,4) have "ws = []" by (simp add: cursor_at_def)
  with c' drop show ?thesis by (simp add: cursor_next_def)
qed

lemma cursor_prev_ok:
  assumes "cursor_at I D c ys zs" "did_seek c"
  shows "\<exists>c'. cursor_prev D c = Some c' \<and> did_seek c' \<and> cursor_tree c' = cursor_tree c \<and>
    cursor_item c' = Some (list_last ys) \<and> (ys \<noteq> [] \<longrightarrow> cursor_at I D c' (butlast ys) (last ys # zs))"
proof -
  obtain c' where c': "search_backward D (\<lambda>_. True) c = Some c'" "did_seek c'" "cursor_tree c' = cursor_tree c"
    and res: "case rev ys of [] \<Rightarrow> unfiltered.before_start c'
      | x # xs \<Rightarrow> (\<exists>ws. ys @ zs = rev xs @ ws \<and> cursor_at I D c' (rev xs) ws)"
    using unfiltered.search_backward_ok [OF assms(1)] assms(2) by (cases ys rule: rev_cases) auto
  show ?thesis
  proof (cases ys rule: rev_cases)
    case Nil
    with c' res show ?thesis
      by (simp add: cursor_prev_def unfiltered.before_start_def cursor_item_def assert_did_seek_def assert_that_def)
  next
    case (snoc xs x)
    with res have "cursor_at I D c' xs (x # zs)" by auto
    with c' snoc cursor_at_item(1) [OF this c'(2)] show ?thesis
      by (simp add: cursor_prev_def list_last_def)
  qed
qed

end

section \<open>Iter\<close>

text \<open>
  The stack of \<open>Iter\<close> carries no positions, so its trail is a trail for the unit dimension.  The
  iterator needs no laws of summaries; \<open>I\<close> only says which trees are well-formed.
\<close>

fun iter_take :: "('t, 's) sum_tree \<Rightarrow> nat \<Rightarrow> ('t, 's, unit) stack_entry list \<Rightarrow> 't list option" where
  "iter_take t 0 stack = Some []"
| "iter_take t (Suc n) stack = do {
     (stack', x) \<leftarrow> iter_next t stack;
     (case x of
        None \<Rightarrow> Some []
      | Some x \<Rightarrow> do { xs \<leftarrow> iter_take t n stack'; Some (x # xs) }) }"

definition iter_ok ::
  "('t, 's) item_impl \<Rightarrow> ('t, 's) sum_tree \<Rightarrow> ('t, 's, unit) stack_entry list \<Rightarrow> bool" where
  "iter_ok I t stack \<longleftrightarrow> wf_tree I t \<and> node_height t < STACK_CAP \<and>
     (case stack of [] \<Rightarrow> True | e # st \<Rightarrow> trail I unit_dimension t st (entry_tree e))"

definition iter_rest :: "('t, 's, unit) stack_entry list \<Rightarrow> bool \<Rightarrow> 't list" where
  "iter_rest stack descend =
     (case stack of [] \<Rightarrow> []
      | e # st \<Rightarrow> node_from (if descend then entry_index e else Suc (entry_index e)) (entry_tree e) @ trail_after st)"

definition iter_step_ok where
  "iter_step_ok I t rest r \<longleftrightarrow>
     (\<exists>stack descend. r = Some (Inl (stack, descend)) \<and> iter_ok I t stack \<and> iter_rest stack descend = rest) \<or>
     (\<exists>stack x. r = Some (Inr (stack, x)) \<and> stack \<noteq> [] \<and> iter_ok I t stack \<and> x # iter_rest stack False = rest)"

lemma iter_pop: "iter_ok I t (e # st) \<Longrightarrow> iter_ok I t st \<and> iter_rest st False = trail_after st"
  by (cases st) (auto simp: iter_ok_def iter_rest_def)

lemma iter_step_correct:
  assumes ok: "iter_ok I t (e # st)"
  shows "iter_step_ok I t (iter_rest (e # st) descend) (iter_step e st descend)"
proof -
  define i where "i = (if descend then entry_index e else Suc (entry_index e))"
  define e' where "e' = (if descend then e else e\<lparr>entry_index := entry_index e + 1\<rparr>)"
  have e': "entry_index e' = i" "entry_tree e' = entry_tree e"
    by (simp_all add: e'_def i_def)
  have trail: "trail I unit_dimension t st (entry_tree e)" "wf_tree I t" "node_height t < STACK_CAP"
    using ok by (auto simp: iter_ok_def)
  have rest: "iter_rest (e # st) descend = node_from i (entry_tree e) @ trail_after st"
    by (simp add: iter_rest_def i_def)
  note pop = iter_pop [OF ok]
  show ?thesis
  proof (cases "entry_tree e")
    case (Leaf s its iss)
    show ?thesis
    proof (cases "i < length its")
      case True
      then have "iter_step e st descend = Some (Inr (e' # st, its ! i))"
        unfolding iter_step_def e'_def [symmetric] by (simp add: Let_def e' Leaf list_get_def)
      then show ?thesis
        unfolding rest using True trail by (simp add: iter_step_ok_def iter_ok_def iter_rest_def e' Leaf Cons_nth_drop_Suc)
    next
      case False
      then have "iter_step e st descend = Some (Inl (st, False))"
        unfolding iter_step_def e'_def [symmetric] by (simp add: Let_def e' Leaf list_get_def)
      then show ?thesis
        unfolding rest using False pop by (auto simp: iter_step_ok_def Leaf)
    qed
  next
    case (Internal h s css cts)
    have "wf_tree I (Internal h s css cts)" "h + length st = node_height t"
      using trail_ok(1,3) [OF trail(1,2)] Internal by simp_all
    then have st: "Suc (length st) < STACK_CAP"
      using height_pos_child trail(3) by fastforce
    show ?thesis
    proof (cases "i < length cts")
      case True
      then have "iter_step e st descend =
          Some (Inl (\<lparr>entry_tree = cts ! i, entry_index = 0, entry_position = ()\<rparr> # e' # st, True))"
        unfolding iter_step_def e'_def [symmetric] using st
        by (simp add: Let_def e' Internal list_get_def stack_push_def)
      then show ?thesis
        unfolding rest using True trail node_child(1) [OF True, of h s css]
        by (auto simp: iter_step_ok_def iter_ok_def iter_rest_def e' Internal)
    next
      case False
      then have "iter_step e st descend = Some (Inl (st, False))"
        unfolding iter_step_def e'_def [symmetric] by (simp add: Let_def e' Internal list_get_def)
      then show ?thesis
        unfolding rest using False pop by (auto simp: iter_step_ok_def Internal)
    qed
  qed
qed

lemma iter_loop_ok:
  assumes "iter_ok I t stack"
  shows "case iter_rest stack descend of
      [] \<Rightarrow> iter_loop stack descend = Some ([], None)
    | x # xs \<Rightarrow> (\<exists>stack'. iter_loop stack descend = Some (stack', Some x) \<and> stack' \<noteq> [] \<and>
        iter_ok I t stack' \<and> iter_rest stack' False = xs)"
  using assms
proof (induction "seek_work stack (\<not> descend)" arbitrary: stack descend rule: less_induct)
  case less
  show ?case
  proof (cases stack)
    case Nil
    then show ?thesis by (simp add: iter_loop.simps iter_rest_def)
  next
    case (Cons e st)
    consider stack' descend' where "iter_step e st descend = Some (Inl (stack', descend'))"
        "iter_ok I t stack'" "iter_rest stack' descend' = iter_rest stack descend"
      | stack' x where "iter_step e st descend = Some (Inr (stack', x))" "stack' \<noteq> []" "iter_ok I t stack'"
        "x # iter_rest stack' False = iter_rest stack descend"
      using iter_step_correct [OF less.prems [unfolded Cons], of descend] unfolding iter_step_ok_def Cons by blast
    then show ?thesis
    proof cases
      case 1
      then have "iter_loop stack descend = iter_loop stack' descend'"
        by (simp add: Cons iter_loop.simps)
      with less.hyps [OF _ 1(2), of descend'] iter_step_work [OF 1(1)] 1(3) Cons show ?thesis
        by (simp del: seek_work.simps split: list.splits)
    next
      case 2
      from 2(4) [symmetric] 2(1-3) show ?thesis by (simp add: Cons iter_loop.simps)
    qed
  qed
qed

lemma iter_take_ok:
  assumes "iter_ok I t stack" "stack \<noteq> []" "length (iter_rest stack False) < n"
  shows "iter_take t n stack = Some (iter_rest stack False)"
  using assms
proof (induction n arbitrary: stack)
  case (Suc n)
  have next_eq: "iter_next t stack = iter_loop stack False"
    using Suc.prems(2) by (simp add: iter_next_def)
  show ?case
  proof (cases "iter_rest stack False")
    case Nil
    with iter_loop_ok [OF Suc.prems(1), of False] show ?thesis by (simp add: next_eq)
  next
    case (Cons x xs)
    with iter_loop_ok [OF Suc.prems(1), of False] obtain stack' where "iter_loop stack False = Some (stack', Some x)"
      "stack' \<noteq> []" "iter_ok I t stack'" "iter_rest stack' False = xs"
      by auto
    with Suc.IH [of stack'] Suc.prems(3) Cons show ?thesis by (simp add: next_eq)
  qed
qed simp

lemma iter_collect:
  assumes "wf_tree I t" "node_height t < STACK_CAP" "length (tree_items t) < n"
  shows "iter_take t n [] = Some (tree_items t)"
proof -
  let ?stack = "[\<lparr>entry_tree = t, entry_index = 0, entry_position = ()\<rparr>]"
  have ok: "iter_ok I t ?stack" "iter_rest ?stack True = tree_items t"
    using assms by (simp_all add: iter_ok_def iter_rest_def)
  have next_eq: "iter_next t [] = iter_loop ?stack True"
    by (simp add: iter_next_def stack_push_def STACK_CAP_def)
  obtain m where n: "n = Suc m" using assms(3) by (cases n) auto
  show ?thesis
  proof (cases "tree_items t")
    case Nil
    with iter_loop_ok [OF ok(1), of True] ok(2) n show ?thesis by (simp add: next_eq)
  next
    case (Cons x xs)
    with iter_loop_ok [OF ok(1), of True] ok(2) obtain stack' where "iter_loop ?stack True = Some (stack', Some x)"
      "stack' \<noteq> []" "iter_ok I t stack'" "iter_rest stack' False = xs"
      by auto
    with iter_take_ok [of I t stack' m] assms(3) n Cons show ?thesis by (simp add: next_eq)
  qed
qed

end
