(* ===== verification/SumTree_Keyed.thy ===== *)
theory SumTree_Keyed
  imports SumTree_Iter
begin

text \<open>
  The operations of \<open>impl SumTree<T>\<close> for \<open>T: KeyedItem\<close> in \<open>crates/sum_tree/src/sum_tree.rs\<close>:
  insertion, removal, batched edits and lookup in a tree whose items are ordered by key.
\<close>

section \<open>Keyed items\<close>

record ('t, 's, 'k) keyed_impl =
  keyed_item :: "('t, 's) item_impl"
  item_key :: "'t \<Rightarrow> 'k"
  key_dim :: "('s, 'k) dimension"

datatype ('t, 'k) edit = Insert 't | Remove 'k

fun edit_key :: "('t, 's, 'k) keyed_impl \<Rightarrow> ('t, 'k) edit \<Rightarrow> 'k" where
  "edit_key K (Insert x) = item_key K x"
| "edit_key K (Remove k) = k"

text \<open>
  \<open>skip_key\<close>: if the item at the cursor has the key, it is taken out and the cursor moves on.
\<close>

definition skip_key ::
  "('t, 's, 'k) keyed_impl \<Rightarrow> 'k \<Rightarrow> ('t, 's, 'k) cursor \<Rightarrow> (('t, 's, 'k) cursor \<times> 't option) option" where
  "skip_key K k c = do {
     x \<leftarrow> cursor_item c;
     (case x of
        Some x \<Rightarrow> if item_key K x = k then do { c' \<leftarrow> cursor_next (key_dim K) c; Some (c', Some x) } else Some (c, None)
      | None \<Rightarrow> Some (c, None)) }"

definition insert_or_replace ::
  "('t, 's, 'k::linorder) keyed_impl \<Rightarrow> ('t, 's) sum_tree \<Rightarrow> 't \<Rightarrow> (('t, 's) sum_tree \<times> 't option) option" where
  "insert_or_replace K t item = do {
     let I = keyed_item K; let D = key_dim K;
     (c, new_tree) \<leftarrow> slice I D (ord_target (item_key K item)) Left (cursor_new D t);
     (c, replaced) \<leftarrow> skip_key K (item_key K item) c;
     new_tree \<leftarrow> tree_push I new_tree item;
     (c, rest) \<leftarrow> suffix I D c;
     new_tree \<leftarrow> tree_append I new_tree rest;
     Some (new_tree, replaced) }"

definition tree_remove ::
  "('t, 's, 'k::linorder) keyed_impl \<Rightarrow> ('t, 's) sum_tree \<Rightarrow> 'k \<Rightarrow> (('t, 's) sum_tree \<times> 't option) option" where
  "tree_remove K t key = do {
     let I = keyed_item K; let D = key_dim K;
     (c, new_tree) \<leftarrow> slice I D (ord_target key) Left (cursor_new D t);
     (c, removed) \<leftarrow> skip_key K key c;
     (c, rest) \<leftarrow> suffix I D c;
     new_tree \<leftarrow> tree_append I new_tree rest;
     Some (new_tree, removed) }"

text \<open>
  \<open>edit\<close> sorts the edits by key (\<open>sort_unstable_by_key\<close>; for edits with distinct keys every
  sort gives the same list) and merges them with the items.  New items are buffered until an old
  item has to precede them.  The loop body returns the cursor, the new tree, the buffer and the
  removed items.
\<close>

definition edit_step ::
  "('t, 's, 'k::linorder) keyed_impl \<Rightarrow> ('t, 'k) edit \<Rightarrow> ('t, 's, 'k) cursor \<Rightarrow> ('t, 's) sum_tree \<Rightarrow> 't list \<Rightarrow> 't list \<Rightarrow>
   (('t, 's, 'k) cursor \<times> ('t, 's) sum_tree \<times> 't list \<times> 't list) option" where
  "edit_step K edit c new_tree buffered_items removed = do {
     let I = keyed_item K; let D = key_dim K;
     let new_key = edit_key K edit;
     old_item \<leftarrow> cursor_item c;
     (c, new_tree, buffered_items) \<leftarrow>
       (if (case old_item of Some x \<Rightarrow> item_key K x < new_key | None \<Rightarrow> False) then do {
          new_tree \<leftarrow> tree_extend I new_tree buffered_items;
          (c, sl) \<leftarrow> slice I D (ord_target new_key) Left c;
          new_tree \<leftarrow> tree_append I new_tree sl;
          Some (c, new_tree, []) }
        else Some (c, new_tree, buffered_items));
     (c, old) \<leftarrow> skip_key K new_key c;
     let removed = (case old of Some x \<Rightarrow> removed @ [x] | None \<Rightarrow> removed);
     Some (c, new_tree,
       (case edit of Insert item \<Rightarrow> buffered_items @ [item] | Remove _ \<Rightarrow> buffered_items), removed) }"

fun edit_loop ::
  "('t, 's, 'k::linorder) keyed_impl \<Rightarrow> ('t, 'k) edit list \<Rightarrow> ('t, 's, 'k) cursor \<Rightarrow> ('t, 's) sum_tree \<Rightarrow> 't list \<Rightarrow> 't list \<Rightarrow>
   (('t, 's, 'k) cursor \<times> ('t, 's) sum_tree \<times> 't list \<times> 't list) option" where
  "edit_loop K [] c new_tree buffered_items removed = Some (c, new_tree, buffered_items, removed)"
| "edit_loop K (edit # edits) c new_tree buffered_items removed = do {
     (c, new_tree, buffered_items, removed) \<leftarrow> edit_step K edit c new_tree buffered_items removed;
     edit_loop K edits c new_tree buffered_items removed }"

definition tree_edit ::
  "('t, 's, 'k::linorder) keyed_impl \<Rightarrow> ('t, 's) sum_tree \<Rightarrow> ('t, 'k) edit list \<Rightarrow> (('t, 's) sum_tree \<times> 't list) option" where
  "tree_edit K t edits =
     (if edits = [] then Some (t, [])
      else do {
        let I = keyed_item K; let D = key_dim K;
        let edits = sort_key (edit_key K) edits;
        (c, _) \<leftarrow> seek D (ord_target (dim_zero D)) Left (cursor_new D t);
        (c, new_tree, buffered_items, removed) \<leftarrow> edit_loop K edits c (tree_new I) [] [];
        new_tree \<leftarrow> tree_extend I new_tree buffered_items;
        (c, rest) \<leftarrow> suffix I D c;
        new_tree \<leftarrow> tree_append I new_tree rest;
        Some (new_tree, removed) })"

definition tree_get :: "('t, 's, 'k::linorder) keyed_impl \<Rightarrow> ('t, 's) sum_tree \<Rightarrow> 'k \<Rightarrow> 't option" where
  "tree_get K t key = (case find_exact (key_dim K) (ord_target key) Left t of (_, _, item) \<Rightarrow> item)"

section \<open>Reference: lists ordered by key\<close>

abbreviation key_sorted :: "('t, 's, 'k::linorder) keyed_impl \<Rightarrow> 't list \<Rightarrow> bool" where
  "key_sorted K xs \<equiv> sorted_wrt (\<lambda>x y. item_key K x < item_key K y) xs"

definition list_lookup :: "('t, 's, 'k) keyed_impl \<Rightarrow> 't list \<Rightarrow> 'k \<Rightarrow> 't option" where
  "list_lookup K xs k = List.find (\<lambda>x. item_key K x = k) xs"

fun edit_items :: "('t, 'k) edit \<Rightarrow> 't list" where
  "edit_items (Insert x) = [x]"
| "edit_items (Remove _) = []"

fun merge_edits :: "('t, 's, 'k::linorder) keyed_impl \<Rightarrow> ('t, 'k) edit list \<Rightarrow> 't list \<Rightarrow> 't list" where
  "merge_edits K [] xs = xs"
| "merge_edits K (e # es) xs =
     takeWhile (\<lambda>x. item_key K x < edit_key K e) xs @ edit_items e @
     merge_edits K es (dropWhile (\<lambda>x. item_key K x \<le> edit_key K e) xs)"

lemma key_sorted_split:
  assumes "key_sorted K xs"
  shows "takeWhile (\<lambda>x. item_key K x < k) xs = filter (\<lambda>x. item_key K x < k) xs"
    and "dropWhile (\<lambda>x. item_key K x < k) xs = filter (\<lambda>x. k \<le> item_key K x) xs"
    and "dropWhile (\<lambda>x. item_key K x \<le> k) xs = filter (\<lambda>x. k < item_key K x) xs"
  using assms
proof (induction xs)
  case (Cons x xs)
  {
    case 1
    then show ?case using Cons by (auto simp: empty_filter_conv dest: less_trans)
  next
    case 2
    then show ?case using Cons by (force intro: filter_True [symmetric])
  next
    case 3
    then show ?case using Cons by (force intro: filter_True [symmetric])
  }
qed simp_all

lemma key_sorted_filter: "key_sorted K xs \<Longrightarrow> key_sorted K (filter P xs)"
  by (rule sorted_wrt_filter)

lemma list_lookup_Some:
  "key_sorted K xs \<Longrightarrow> list_lookup K xs k = Some x \<longleftrightarrow> x \<in> set xs \<and> item_key K x = k"
  by (induction xs) (auto simp: list_lookup_def)

lemma set_edit_items: "set (edit_items e) = {x. e = Insert x}"
  by (cases e) auto

lemma dropWhile_nothing [simp]: "dropWhile (\<lambda>x. False) xs = xs"
  by (cases xs) simp_all

lemma merge_edits_set:
  assumes "key_sorted K xs" "sorted_wrt (\<lambda>e f. edit_key K e < edit_key K f) es"
  shows "set (merge_edits K es xs) =
    {x \<in> set xs. item_key K x \<notin> edit_key K ` set es} \<union> {x. Insert x \<in> set es}"
  using assms
proof (induction es arbitrary: xs)
  case (Cons e es)
  let ?k = "edit_key K e"
  have IH: "set (merge_edits K es (filter (\<lambda>x. ?k < item_key K x) xs)) =
    {x \<in> set (filter (\<lambda>x. ?k < item_key K x) xs). item_key K x \<notin> edit_key K ` set es} \<union> {x. Insert x \<in> set es}"
    using Cons by (intro Cons.IH key_sorted_filter) auto
  have step: "set (merge_edits K (e # es) xs) = {x \<in> set xs. item_key K x < ?k} \<union> {x. e = Insert x} \<union>
      {x \<in> set xs. ?k < item_key K x \<and> item_key K x \<notin> edit_key K ` set es} \<union> {x. Insert x \<in> set es}"
    using Cons.prems(1) IH by (auto simp: key_sorted_split set_edit_items)
  have "item_key K x \<notin> edit_key K ` set es" if "item_key K x < ?k" for x
    using Cons.prems(2) that by fastforce
  then show ?case
    unfolding step by fastforce
qed simp

lemma key_sorted_around:
  assumes "key_sorted K xs" "key_sorted K ys" "key_sorted K zs"
    and "\<forall>x \<in> set xs. item_key K x < k" "\<forall>y \<in> set ys. item_key K y = k" "\<forall>z \<in> set zs. k < item_key K z"
  shows "key_sorted K (xs @ ys @ zs)"
  using assms by (auto simp: sorted_wrt_append intro: less_trans)

lemma merge_edits_sorted:
  assumes "key_sorted K xs" "sorted_wrt (\<lambda>e f. edit_key K e < edit_key K f) es"
  shows "key_sorted K (merge_edits K es xs)"
  using assms
proof (induction es arbitrary: xs)
  case (Cons e es)
  let ?k = "edit_key K e"
  let ?rest = "merge_edits K es (filter (\<lambda>x. ?k < item_key K x) xs)"
  have rest: "key_sorted K ?rest"
    using Cons.prems by (intro Cons.IH key_sorted_filter) simp_all
  have above: "\<forall>x \<in> set ?rest. ?k < item_key K x"
  proof
    fix x assume "x \<in> set ?rest"
    then have "x \<in> set xs \<and> ?k < item_key K x \<or> Insert x \<in> set es"
      using merge_edits_set [OF key_sorted_filter [OF Cons.prems(1), of "\<lambda>x. ?k < item_key K x"], of es] Cons.prems(2)
      by auto
    moreover have "\<forall>f \<in> set es. ?k < edit_key K f"
      using Cons.prems(2) by simp
    ultimately show "?k < item_key K x"
      by (metis edit_key.simps(1))
  qed
  have "key_sorted K (edit_items e)" "\<forall>x \<in> set (edit_items e). item_key K x = ?k"
    by (cases e; simp)+
  then show ?case
    unfolding merge_edits.simps key_sorted_split [OF Cons.prems(1)]
    by (intro key_sorted_around [OF key_sorted_filter [OF Cons.prems(1)] _ rest _ _ above]) simp_all
qed simp

section \<open>Correctness\<close>

text \<open>
  A key type must be the dimension of the last key: adding the summary of an item to a position
  that is not above its key moves the position to the key, and \<open>zero\<close> is below every key.
\<close>

locale keyed = seekable "keyed_item K" "key_dim K"
  for K :: "('t, 's, 'k::linorder) keyed_impl" +
  assumes dim_key: "d \<le> item_key K x \<Longrightarrow> dim_add (key_dim K) d (item_summary (keyed_item K) x) = item_key K x"
    and zero_least: "dim_zero (key_dim K) \<le> k"
begin

abbreviation "I \<equiv> keyed_item K"
abbreviation "D \<equiv> key_dim K"

abbreviation sorted_from :: "'k \<Rightarrow> 't list \<Rightarrow> bool" where
  "sorted_from d xs \<equiv> key_sorted K xs \<and> (\<forall>x \<in> set xs. d \<le> item_key K x)"

lemma sorted_from_Cons: "sorted_from d (x # xs) \<Longrightarrow> d \<le> item_key K x \<and> sorted_from (item_key K x) xs"
  by (auto simp: less_imp_le)

lemma seek_split_key:
  assumes "sorted_from d xs"
  shows "seek_split I D P d xs = (takeWhile (\<lambda>x. P (item_key K x)) xs, dropWhile (\<lambda>x. P (item_key K x)) xs)"
  using assms
proof (induction xs arbitrary: d)
  case (Cons x xs)
  from Cons.IH [of "item_key K x"] sorted_from_Cons [OF Cons.prems] show ?case
    by (simp add: dim_key Let_def)
qed simp

lemma pos_after_key:
  assumes "sorted_from d xs"
  shows "pos_after I D d xs = (if xs = [] then d else item_key K (last xs))"
  using assms
proof (induction xs arbitrary: d)
  case (Cons x xs)
  from Cons.IH [of "item_key K x"] sorted_from_Cons [OF Cons.prems] show ?case
    by (simp add: dim_key)
qed simp

lemma sorted_from_after:
  assumes "cursor_at I D c ys zs" "key_sorted K (ys @ zs)"
  shows "sorted_from (cursor_position c) zs"
proof -
  have "key_sorted K ys" "key_sorted K zs" "\<forall>y \<in> set ys. \<forall>z \<in> set zs. item_key K y < item_key K z"
    using assms(2) by (auto simp: sorted_wrt_append)
  with assms(1) pos_after_key [where d = "dim_zero D" and xs = ys] zero_least show ?thesis
    by (auto simp: cursor_at_def less_imp_le)
qed

lemma past_left: "target_past (ord_target k) Left p \<longleftrightarrow> p < k"
  by (auto simp: target_past_def ord_target_def cmp_def)

lemma past_right: "target_past (ord_target k) Right p \<longleftrightarrow> p \<le> k"
  by (auto simp: target_past_def ord_target_def cmp_def)

lemma key_mono:
  assumes sorted: "sorted_from d xs" and down: "\<And>p q. p \<le> q \<Longrightarrow> P q \<Longrightarrow> P p"
  shows "seek_mono I D P d xs"
  unfolding seek_mono_def
proof (intro allI impI)
  fix ys zs us vs
  assume *: "xs = ys @ zs" "ys \<noteq> []" "zs = us @ vs" "P (pos_after I D d (ys @ us))"
  have le: "item_key K (last ys) \<le> item_key K (last (ys @ us))"
    using sorted * by (cases "us = []") (auto simp: sorted_wrt_append less_imp_le)
  have "sorted_from d ys" "sorted_from d (ys @ us)"
    using sorted * by (auto simp: sorted_wrt_append)
  with * le down show "P (pos_after I D d ys)"
    using pos_after_key [where d = d and xs = ys] pos_after_key [where d = d and xs = "ys @ us"] by simp
qed

lemma key_seek_mono:
  assumes "sorted_from d xs"
  shows "seek_mono I D (target_past (ord_target k) b) d xs"
  by (rule key_mono [OF assms]) (cases b; auto simp: past_left past_right)

lemma slice_key:
  assumes at: "cursor_at I D c ys zs" and sorted: "key_sorted K (ys @ zs)" and pos: "cursor_position c \<le> k"
  shows "\<exists>c' t. slice I D (ord_target k) Left c = Some (c', t) \<and> wf_tree I t \<and>
    tree_items t = takeWhile (\<lambda>x. item_key K x < k) zs \<and> did_seek c' \<and> cursor_tree c' = cursor_tree c \<and>
    cursor_at I D c' (ys @ takeWhile (\<lambda>x. item_key K x < k) zs) (dropWhile (\<lambda>x. item_key K x < k) zs)"
proof -
  have ge: "ord_target k (cursor_position c) \<noteq> Less"
    using pos by (auto simp: ord_target_def cmp_def)
  note after = sorted_from_after [OF at sorted]
  from slice_ok [OF at key_seek_mono [OF after] ge seek_split_key [where P = "target_past (ord_target k) Left", OF after]]
  show ?thesis by (auto simp: past_left)
qed

lemma skip_key_ok:
  assumes at: "cursor_at I D c ys zs" "did_seek c" and sorted: "key_sorted K zs" and ge: "\<forall>z \<in> set zs. k \<le> item_key K z"
  shows "\<exists>c'. skip_key K k c = Some (c', list_lookup K zs k) \<and> did_seek c' \<and> cursor_tree c' = cursor_tree c \<and>
    cursor_at I D c' (ys @ takeWhile (\<lambda>x. item_key K x \<le> k) zs) (dropWhile (\<lambda>x. item_key K x \<le> k) zs)"
proof (cases "zs \<noteq> [] \<and> item_key K (hd zs) = k")
  case True
  then obtain z zs' where zs: "zs = z # zs'" "item_key K z = k" by (cases zs) auto
  have drop: "dropWhile (\<lambda>x. item_key K x \<le> k) zs = zs'" "takeWhile (\<lambda>x. item_key K x \<le> k) zs = [z]"
    using sorted zs by (cases zs'; auto)+
  obtain c' ws where c': "search_forward D (\<lambda>_. True) c = Some c'" "did_seek c'" "cursor_tree c' = cursor_tree c"
    "cursor_at I D c' (ys @ ws) zs'"
    using unfiltered.search_forward_ok [OF at] zs by auto
  have "(ys @ ws) @ zs' = ys @ z # zs'"
    using c' at(1) zs by (auto simp: cursor_at_def)
  then have "ws = [z]" by simp
  with c' show ?thesis
    unfolding drop using zs cursor_at_item(1) [OF at] by (auto simp: skip_key_def cursor_next_def list_lookup_def)
next
  case False
  have "list_lookup K zs k = None"
    using False sorted ge by (cases zs) (auto simp: list_lookup_def find_None_iff)
  moreover have "dropWhile (\<lambda>x. item_key K x \<le> k) zs = zs" "takeWhile (\<lambda>x. item_key K x \<le> k) zs = []"
    using False ge by (cases zs; auto)+
  ultimately show ?thesis
    using False at cursor_at_item(1) [OF at]
    by (intro exI [of _ c]) (cases zs; auto simp: skip_key_def)
qed

lemma skip_after_slice:
  assumes "key_sorted K xs"
  shows "dropWhile (\<lambda>x. item_key K x \<le> k) (dropWhile (\<lambda>x. item_key K x < k) xs) = dropWhile (\<lambda>x. item_key K x \<le> k) xs"
    and "list_lookup K (dropWhile (\<lambda>x. item_key K x < k) xs) k = list_lookup K xs k"
    and "key_sorted K (dropWhile (\<lambda>x. item_key K x < k) xs)"
    and "\<forall>x \<in> set (dropWhile (\<lambda>x. item_key K x < k) xs). k \<le> item_key K x"
proof -
  show "dropWhile (\<lambda>x. item_key K x \<le> k) (dropWhile (\<lambda>x. item_key K x < k) xs) = dropWhile (\<lambda>x. item_key K x \<le> k) xs"
    by (induction xs) auto
  show "list_lookup K (dropWhile (\<lambda>x. item_key K x < k) xs) k = list_lookup K xs k"
    by (induction xs) (auto simp: list_lookup_def)
  show "key_sorted K (dropWhile (\<lambda>x. item_key K x < k) xs)"
    "\<forall>x \<in> set (dropWhile (\<lambda>x. item_key K x < k) xs). k \<le> item_key K x"
    using assms by (auto simp: key_sorted_split key_sorted_filter)
qed

lemma slice_and_skip:
  assumes wf: "wf_tree I t" "node_height t < STACK_CAP" and sorted: "key_sorted K (tree_items t)"
  obtains c u c' ys where "slice I D (ord_target k) Left (cursor_new D t) = Some (c, u)" "wf_tree I u"
    "tree_items u = takeWhile (\<lambda>x. item_key K x < k) (tree_items t)"
    "skip_key K k c = Some (c', list_lookup K (tree_items t) k)"
    "cursor_at I D c' ys (dropWhile (\<lambda>x. item_key K x \<le> k) (tree_items t))"
proof -
  let ?lt = "\<lambda>x. item_key K x < k"
  obtain c u where c: "slice I D (ord_target k) Left (cursor_new D t) = Some (c, u)" "wf_tree I u"
    "tree_items u = takeWhile ?lt (tree_items t)" "did_seek c"
    "cursor_at I D c (takeWhile ?lt (tree_items t)) (dropWhile ?lt (tree_items t))"
    using slice_key [OF cursor_at_new [OF wf], of k] sorted zero_least by (auto simp: cursor_new_def)
  from skip_key_ok [OF c(5,4) skip_after_slice(3,4) [OF sorted]] that [OF c(1-3)] show ?thesis
    unfolding skip_after_slice(1,2) [OF sorted] by blast
qed

lemma insert_or_replace_ok:
  assumes "wf_tree I t" "node_height t < STACK_CAP" "key_sorted K (tree_items t)"
  shows "\<exists>r. insert_or_replace K t x = Some (r, list_lookup K (tree_items t) (item_key K x)) \<and> wf_tree I r \<and>
    tree_items r = merge_edits K [Insert x] (tree_items t)"
proof -
  let ?k = "item_key K x"
  obtain c u c' ys where s: "slice I D (ord_target ?k) Left (cursor_new D t) = Some (c, u)" "wf_tree I u"
    "tree_items u = takeWhile (\<lambda>x. item_key K x < ?k) (tree_items t)"
    "skip_key K ?k c = Some (c', list_lookup K (tree_items t) ?k)"
    "cursor_at I D c' ys (dropWhile (\<lambda>x. item_key K x \<le> ?k) (tree_items t))"
    using slice_and_skip [OF assms] .
  obtain v where v: "tree_push I u x = Some v" "wf_tree I v" "tree_items v = tree_items u @ [x]"
    using push_ok [OF s(2)] by blast
  obtain c'' w where w: "suffix I D c' = Some (c'', w)" "wf_tree I w"
    "tree_items w = dropWhile (\<lambda>x. item_key K x \<le> ?k) (tree_items t)"
    using suffix_ok [OF s(5)] by blast
  obtain r where "tree_append I v w = Some r" "wf_tree I r" "tree_items r = tree_items v @ tree_items w"
    using append_ok [OF v(2) w(2)] by blast
  with s v w show ?thesis
    by (simp add: insert_or_replace_def Let_def)
qed

lemma tree_remove_ok:
  assumes "wf_tree I t" "node_height t < STACK_CAP" "key_sorted K (tree_items t)"
  shows "\<exists>r. tree_remove K t k = Some (r, list_lookup K (tree_items t) k) \<and> wf_tree I r \<and>
    tree_items r = merge_edits K [Remove k] (tree_items t)"
proof -
  obtain c u c' ys where s: "slice I D (ord_target k) Left (cursor_new D t) = Some (c, u)" "wf_tree I u"
    "tree_items u = takeWhile (\<lambda>x. item_key K x < k) (tree_items t)"
    "skip_key K k c = Some (c', list_lookup K (tree_items t) k)"
    "cursor_at I D c' ys (dropWhile (\<lambda>x. item_key K x \<le> k) (tree_items t))"
    using slice_and_skip [OF assms] .
  obtain c'' w where w: "suffix I D c' = Some (c'', w)" "wf_tree I w"
    "tree_items w = dropWhile (\<lambda>x. item_key K x \<le> k) (tree_items t)"
    using suffix_ok [OF s(5)] by blast
  obtain r where "tree_append I u w = Some r" "wf_tree I r" "tree_items r = tree_items u @ tree_items w"
    using append_ok [OF s(2) w(2)] by blast
  with s w show ?thesis
    by (simp add: tree_remove_def Let_def)
qed

lemma tree_get_ok:
  assumes "wf_tree I t" "key_sorted K (tree_items t)"
  shows "tree_get K t k = list_lookup K (tree_items t) k"
proof -
  have "scan_exact I D (ord_target k) d xs = list_lookup K xs k" if "sorted_from d xs" for d xs
    using that
  proof (induction xs arbitrary: d)
    case (Cons x xs)
    from Cons.IH [of "item_key K x"] sorted_from_Cons [OF Cons.prems] Cons.prems show ?case
      by (auto simp: scan_exact_Cons dim_key Let_def ord_target_def cmp_def list_lookup_def find_None_iff2)
  qed (simp add: scan_exact_def list_lookup_def)
  moreover have "sorted_from (dim_zero D) (tree_items t)"
    using assms(2) by (simp add: zero_least)
  moreover note find_exact_ok [OF assms(1) key_seek_mono key_seek_mono, of k]
  ultimately show ?thesis by (simp add: tree_get_def split_beta)
qed

lemma edit_step_ok:
  assumes at: "cursor_at I D c ys zs" "did_seek c" and all: "key_sorted K (ys @ zs)" and wf: "wf_tree I u"
    and below: "\<forall>y \<in> set ys. item_key K y \<le> edit_key K e"
  shows "\<exists>c' u' buf'. edit_step K e c u buf removed =
      Some (c', u', buf', removed @ filter (\<lambda>x. item_key K x = edit_key K e) zs) \<and>
    wf_tree I u' \<and> tree_items u' @ buf' =
      tree_items u @ buf @ takeWhile (\<lambda>x. item_key K x < edit_key K e) zs @ edit_items e \<and> did_seek c' \<and>
    cursor_at I D c' (ys @ takeWhile (\<lambda>x. item_key K x \<le> edit_key K e) zs) (dropWhile (\<lambda>x. item_key K x \<le> edit_key K e) zs)"
proof -
  define k where "k = edit_key K e"
  have sorted: "key_sorted K zs" using all by (simp add: sorted_wrt_append)
  let ?lt = "\<lambda>x. item_key K x < k"
  have "\<exists>c1 u1 buf1. (if (case list_first zs of Some x \<Rightarrow> item_key K x < k | None \<Rightarrow> False) then do {
          new_tree \<leftarrow> tree_extend I u buf;
          (c, sl) \<leftarrow> slice I D (ord_target k) Left c;
          new_tree \<leftarrow> tree_append I new_tree sl;
          Some (c, new_tree, []) }
        else Some (c, u, buf)) = Some (c1, u1, buf1) \<and> wf_tree I u1 \<and>
      tree_items u1 @ buf1 = tree_items u @ buf @ takeWhile ?lt zs \<and> did_seek c1 \<and>
      cursor_at I D c1 (ys @ takeWhile ?lt zs) (dropWhile ?lt zs)"
  proof (cases "zs \<noteq> [] \<and> item_key K (hd zs) < k")
    case True
    have pos: "cursor_position c \<le> k"
      using at(1) below zero_least all pos_after_key [where d = "dim_zero D" and xs = ys]
      by (auto simp: cursor_at_def k_def sorted_wrt_append)
    obtain c1 sl where s: "slice I D (ord_target k) Left c = Some (c1, sl)" "wf_tree I sl" "tree_items sl = takeWhile ?lt zs"
      "did_seek c1" "cursor_at I D c1 (ys @ takeWhile ?lt zs) (dropWhile ?lt zs)"
      using slice_key [OF at(1) all pos] by blast
    obtain u1 where u1: "tree_extend I u buf = Some u1" "wf_tree I u1" "tree_items u1 = tree_items u @ buf"
      using tree_extend_ok [OF wf] by blast
    obtain u2 where "tree_append I u1 sl = Some u2" "wf_tree I u2" "tree_items u2 = tree_items u1 @ tree_items sl"
      using append_ok [OF u1(2) s(2)] by blast
    with True s u1 show ?thesis by (cases zs) auto
  next
    case False
    with at wf show ?thesis by (cases zs) auto
  qed
  then obtain c1 u1 buf1 where first: "(if (case list_first zs of Some x \<Rightarrow> item_key K x < k | None \<Rightarrow> False) then do {
          new_tree \<leftarrow> tree_extend I u buf;
          (c, sl) \<leftarrow> slice I D (ord_target k) Left c;
          new_tree \<leftarrow> tree_append I new_tree sl;
          Some (c, new_tree, []) }
        else Some (c, u, buf)) = Some (c1, u1, buf1)" "wf_tree I u1"
      "tree_items u1 @ buf1 = tree_items u @ buf @ takeWhile ?lt zs" "did_seek c1"
      "cursor_at I D c1 (ys @ takeWhile ?lt zs) (dropWhile ?lt zs)"
    by blast
  obtain c2 where skip: "skip_key K k c1 = Some (c2, list_lookup K zs k)" "did_seek c2"
      "cursor_at I D c2 ((ys @ takeWhile ?lt zs) @ takeWhile (\<lambda>x. item_key K x \<le> k) (dropWhile ?lt zs))
        (dropWhile (\<lambda>x. item_key K x \<le> k) zs)"
    using skip_key_ok [OF first(5,4) skip_after_slice(3,4) [OF sorted]] unfolding skip_after_slice(1,2) [OF sorted] by blast
  have le: "takeWhile ?lt zs @ takeWhile (\<lambda>x. item_key K x \<le> k) (dropWhile ?lt zs) = takeWhile (\<lambda>x. item_key K x \<le> k) zs"
    by (induction zs) auto
  have lookup: "filter (\<lambda>x. item_key K x = k) zs = (case list_lookup K zs k of None \<Rightarrow> [] | Some x \<Rightarrow> [x])"
    using sorted
  proof (induction zs)
    case (Cons z zs)
    have "filter (\<lambda>x. item_key K x = k) zs = []" if "item_key K z = k"
      using that Cons.prems by (auto simp: filter_empty_conv)
    with Cons show ?case by (simp add: list_lookup_def)
  qed (simp add: list_lookup_def)
  show ?thesis
    using first(1,2) skip(1,2) skip(3) [unfolded append.assoc le]
    unfolding edit_step_def Let_def k_def [symmetric] lookup
    by (cases e; cases "list_lookup K zs k") (auto simp: cursor_at_item(1) [OF at] first(3))
qed

lemma edit_loop_ok:
  assumes "cursor_at I D c ys zs" "did_seek c" "key_sorted K (ys @ zs)" "wf_tree I u"
    and "\<forall>y \<in> set ys. \<forall>e \<in> set es. item_key K y < edit_key K e"
    and "sorted_wrt (\<lambda>e f. edit_key K e < edit_key K f) es"
  shows "\<exists>c' u' buf' ys' zs'. edit_loop K es c u buf removed =
      Some (c', u', buf', removed @ filter (\<lambda>x. item_key K x \<in> edit_key K ` set es) zs) \<and>
    wf_tree I u' \<and> tree_items u' @ buf' @ zs' = tree_items u @ buf @ merge_edits K es zs \<and> cursor_at I D c' ys' zs'"
  using assms
proof (induction es arbitrary: c ys zs u buf removed)
  case Nil
  then show ?case by auto
next
  case (Cons e es)
  let ?k = "edit_key K e"
  let ?zs = "dropWhile (\<lambda>x. item_key K x \<le> ?k) zs"
  let ?ys = "ys @ takeWhile (\<lambda>x. item_key K x \<le> ?k) zs"
  obtain c1 u1 buf1 where step: "edit_step K e c u buf removed =
      Some (c1, u1, buf1, removed @ filter (\<lambda>x. item_key K x = ?k) zs)" "wf_tree I u1"
    "tree_items u1 @ buf1 = tree_items u @ buf @ takeWhile (\<lambda>x. item_key K x < ?k) zs @ edit_items e" "did_seek c1"
    "cursor_at I D c1 ?ys ?zs"
    using edit_step_ok [OF Cons.prems(1-4), of e buf removed] Cons.prems(5) by (auto simp: less_imp_le)
  have above: "\<forall>f \<in> set es. ?k < edit_key K f"
    using Cons.prems(6) by simp
  have below: "\<forall>y \<in> set ?ys. \<forall>f \<in> set es. item_key K y < edit_key K f"
    using Cons.prems(5) above by (auto dest!: set_takeWhileD)
  have sorted: "key_sorted K (?ys @ ?zs)" "sorted_wrt (\<lambda>e f. edit_key K e < edit_key K f) es"
    using Cons.prems(3,6) by simp_all
  have zs: "key_sorted K zs" using Cons.prems(3) by (simp add: sorted_wrt_append)
  obtain c' u' buf' ys' zs' where rest: "edit_loop K es c1 u1 buf1 (removed @ filter (\<lambda>x. item_key K x = ?k) zs) =
      Some (c', u', buf', (removed @ filter (\<lambda>x. item_key K x = ?k) zs) @ filter (\<lambda>x. item_key K x \<in> edit_key K ` set es) ?zs)"
    "wf_tree I u'" "tree_items u' @ buf' @ zs' = tree_items u1 @ buf1 @ merge_edits K es ?zs" "cursor_at I D c' ys' zs'"
    using Cons.IH [OF step(5,4) sorted(1) step(2) below sorted(2)] by blast
  have "filter (\<lambda>x. item_key K x = ?k) zs @ filter (\<lambda>x. item_key K x \<in> edit_key K ` set es) ?zs =
      filter (\<lambda>x. item_key K x \<in> edit_key K ` set (e # es)) zs"
    using zs above
  proof (induction zs)
    case (Cons z zs)
    have "filter (\<lambda>x. item_key K x = ?k) zs = []" "dropWhile (\<lambda>x. item_key K x \<le> ?k) zs = zs" if "?k < item_key K z"
      using that Cons.prems by (auto simp: filter_empty_conv) (cases zs; force)
    with Cons show ?case by (cases "item_key K z" "?k" rule: linorder_cases) auto
  qed simp
  with rest step(1,3) show ?case
    by (simp del: set_simps) (metis append.assoc)
qed

lemma sort_edits:
  assumes "distinct (map (edit_key K) es)"
  shows "sorted_wrt (\<lambda>e f. edit_key K e < edit_key K f) (sort_key (edit_key K) es)"
proof -
  have "sorted (map (edit_key K) (sort_key (edit_key K) es))" "distinct (map (edit_key K) (sort_key (edit_key K) es))"
    using assms by (simp_all add: distinct_map inj_on_def)
  then have "sorted_wrt (<) (map (edit_key K) (sort_key (edit_key K) es))"
    by (simp add: strict_sorted_iff)
  then show ?thesis by (simp add: sorted_wrt_map)
qed

lemma tree_edit_ok:
  assumes wf: "wf_tree I t" "node_height t < STACK_CAP" and sorted: "key_sorted K (tree_items t)"
    and distinct: "distinct (map (edit_key K) es)"
  shows "\<exists>r. tree_edit K t es = Some (r, filter (\<lambda>x. item_key K x \<in> edit_key K ` set es) (tree_items t)) \<and>
    wf_tree I r \<and> tree_items r = merge_edits K (sort_key (edit_key K) es) (tree_items t)"
proof (cases "es = []")
  case True
  with wf show ?thesis by (simp add: tree_edit_def)
next
  case False
  let ?es = "sort_key (edit_key K) es"
  let ?zero = "dim_zero D"
  have stay: "takeWhile (\<lambda>x. target_past (ord_target ?zero) Left (item_key K x)) (tree_items t) = []"
    "dropWhile (\<lambda>x. target_past (ord_target ?zero) Left (item_key K x)) (tree_items t) = tree_items t"
    using zero_least by (cases "tree_items t"; auto simp: past_left not_less)+
  have "sorted_from ?zero ([] @ tree_items t)" "ord_target ?zero ?zero \<noteq> Less"
    using sorted by (simp_all add: ord_target_def cmp_def zero_least)
  with seek_ok [OF cursor_at_new [OF wf] key_seek_mono _ seek_split_key, of ?zero Left] stay
  obtain c b where c: "seek D (ord_target ?zero) Left (cursor_new D t) = Some (c, b)"
    "did_seek c" "cursor_at I D c [] (tree_items t)"
    by auto
  obtain c' u buf ys zs where loop: "edit_loop K ?es c (tree_new I) [] [] =
      Some (c', u, buf, filter (\<lambda>x. item_key K x \<in> edit_key K ` set es) (tree_items t))" "wf_tree I u"
    "tree_items u @ buf @ zs = merge_edits K ?es (tree_items t)" "cursor_at I D c' ys zs"
    using edit_loop_ok [OF c(3,2) _ wf_tree_new(1) _ sort_edits [OF distinct], of "[]" "[]"] sorted by (auto simp: wf_tree_new)
  obtain u1 where u1: "tree_extend I u buf = Some u1" "wf_tree I u1" "tree_items u1 = tree_items u @ buf"
    using tree_extend_ok [OF loop(2)] by blast
  obtain c'' w where w: "suffix I D c' = Some (c'', w)" "wf_tree I w" "tree_items w = zs"
    using suffix_ok [OF loop(4)] by blast
  obtain r where "tree_append I u1 w = Some r" "wf_tree I r" "tree_items r = tree_items u1 @ tree_items w"
    using append_ok [OF u1(2) w(2)] by blast
  with False c loop u1 w show ?thesis
    by (simp add: tree_edit_def Let_def)
qed

end

end
