(* ===== verification/TreeMap.thy ===== *)
theory TreeMap
  imports SumTree_Keyed "HOL-Library.Option_ord"
begin

text \<open>
  \<open>TreeMap\<close> and \<open>TreeSet\<close> of \<open>crates/sum_tree/src/tree_map.rs\<close>: ordered maps over a sum tree
  whose summaries are the last key of a subtree.  \<open>MapKey\<close> and \<open>MapKeyRef\<close> are options of keys,
  with \<open>None\<close> below every key.  Each operation is shown to implement the corresponding operation
  on the partial function from keys to values.
\<close>

section \<open>Definitions\<close>

record ('k, 'v) map_entry =
  me_key :: 'k
  me_value :: 'v

type_synonym ('k, 'v) tree_map = "(('k, 'v) map_entry, 'k option) sum_tree"

definition map_entry_key :: "('k, 'v) map_entry \<Rightarrow> 'k option" where
  "map_entry_key e = Some (me_key e)"

definition map_entry_impl :: "(('k, 'v) map_entry, 'k option) item_impl" where
  "map_entry_impl = \<lparr>item_summary = map_entry_key, summary_zero = None, add_summary = (\<lambda>_ s. s)\<rparr>"

definition map_key_ref :: "('k option, 'k option) dimension" where
  "map_key_ref = \<lparr>dim_zero = None, dim_add = (\<lambda>_ s. s)\<rparr>"

definition map_keyed :: "(('k, 'v) map_entry, 'k option, 'k option) keyed_impl" where
  "map_keyed = \<lparr>keyed_item = map_entry_impl, item_key = map_entry_key,
     key_dim = summary_dimension (map_entry_impl :: (('k, 'v) map_entry, 'k option) item_impl)\<rparr>"

text \<open>\<open>SeekTarget\<close> of a \<open>MapKeyRef\<close>, and of a \<open>MapSeekTarget\<close>.\<close>

definition map_key_target :: "'k::linorder \<Rightarrow> 'k option \<Rightarrow> ordering" where
  "map_key_target k d = cmp (Some k) d"

fun map_seek_target_adaptor :: "('k \<Rightarrow> ordering) \<Rightarrow> 'k option \<Rightarrow> ordering" where
  "map_seek_target_adaptor cmp_cursor (Some k) = cmp_cursor k"
| "map_seek_target_adaptor cmp_cursor None = Greater"

definition map_default :: "('k, 'v) tree_map" where
  "map_default = tree_new map_entry_impl"

definition from_ordered_entries :: "('k \<times> 'v) list \<Rightarrow> ('k, 'v) tree_map option" where
  "from_ordered_entries entries =
     from_iter map_entry_impl (map (\<lambda>(k, v). \<lparr>me_key = k, me_value = v\<rparr>) entries)"

definition map_is_empty :: "('k, 'v) tree_map \<Rightarrow> bool" where
  "map_is_empty m = tree_is_empty m"

definition map_get :: "('k::linorder, 'v) tree_map \<Rightarrow> 'k \<Rightarrow> 'v option" where
  "map_get m key =
     (case find map_key_ref (map_key_target key) Left m of
        (_, _, Some item) \<Rightarrow> if Some key = map_entry_key item then Some (me_value item) else None
      | (_, _, None) \<Rightarrow> None)"

definition contains_key :: "('k::linorder, 'v) tree_map \<Rightarrow> 'k \<Rightarrow> bool" where
  "contains_key m key = (map_get m key \<noteq> None)"

definition map_insert :: "('k::linorder, 'v) tree_map \<Rightarrow> 'k \<Rightarrow> 'v \<Rightarrow> ('k, 'v) tree_map option" where
  "map_insert m key value = do {
     (m', _) \<leftarrow> insert_or_replace map_keyed m \<lparr>me_key = key, me_value = value\<rparr>;
     Some m' }"

definition map_insert_or_replace ::
  "('k::linorder, 'v) tree_map \<Rightarrow> 'k \<Rightarrow> 'v \<Rightarrow> (('k, 'v) tree_map \<times> 'v option) option" where
  "map_insert_or_replace m key value = do {
     (m', old) \<leftarrow> insert_or_replace map_keyed m \<lparr>me_key = key, me_value = value\<rparr>;
     Some (m', map_option me_value old) }"

definition map_extend :: "('k::linorder, 'v) tree_map \<Rightarrow> ('k \<times> 'v) list \<Rightarrow> ('k, 'v) tree_map option" where
  "map_extend m entries = do {
     (m', _) \<leftarrow> tree_edit map_keyed m (map (\<lambda>(k, v). Insert \<lparr>me_key = k, me_value = v\<rparr>) entries);
     Some m' }"

definition map_clear :: "('k, 'v) tree_map \<Rightarrow> ('k, 'v) tree_map" where
  "map_clear m = map_default"

definition map_remove :: "('k::linorder, 'v) tree_map \<Rightarrow> 'k \<Rightarrow> (('k, 'v) tree_map \<times> 'v option) option" where
  "map_remove m key = do {
     (c, new_tree) \<leftarrow> slice map_entry_impl map_key_ref (map_key_target key) Left (cursor_new map_key_ref m);
     e \<leftarrow> cursor_end map_key_ref c;
     (c, removed) \<leftarrow>
       (if map_key_target key e = Equal then do {
          item \<leftarrow> cursor_item c;
          item \<leftarrow> item;
          c \<leftarrow> cursor_next map_key_ref c;
          Some (c, Some (me_value item)) }
        else Some (c, None));
     (c, rest) \<leftarrow> suffix map_entry_impl map_key_ref c;
     new_tree \<leftarrow> tree_append map_entry_impl new_tree rest;
     Some (new_tree, removed) }"

definition remove_range ::
  "('k::linorder, 'v) tree_map \<Rightarrow> ('k \<Rightarrow> ordering) \<Rightarrow> ('k \<Rightarrow> ordering) \<Rightarrow> ('k, 'v) tree_map option" where
  "remove_range m start finish = do {
     (c, new_tree) \<leftarrow> slice map_entry_impl map_key_ref (map_seek_target_adaptor start) Left (cursor_new map_key_ref m);
     (c, _) \<leftarrow> seek map_key_ref (map_seek_target_adaptor finish) Left c;
     (c, rest) \<leftarrow> suffix map_entry_impl map_key_ref c;
     tree_append map_entry_impl new_tree rest }"

definition closest :: "('k::linorder, 'v) tree_map \<Rightarrow> 'k \<Rightarrow> ('k \<times> 'v) option option" where
  "closest m key = do {
     (c, _) \<leftarrow> seek map_key_ref (map_key_target key) Right (cursor_new map_key_ref m);
     c \<leftarrow> cursor_prev map_key_ref c;
     item \<leftarrow> cursor_item c;
     Some (map_option (\<lambda>e. (me_key e, me_value e)) item) }"

text \<open>The first \<open>n\<close> entries of the iterators; \<open>n\<close> above the number of entries exhausts them.\<close>

fun cursor_take :: "('s, 'd) dimension \<Rightarrow> nat \<Rightarrow> ('t, 's, 'd) cursor \<Rightarrow> 't list option" where
  "cursor_take D 0 c = Some []"
| "cursor_take D (Suc n) c = do {
     (c', x) \<leftarrow> cursor_iter_next D c;
     (case x of
        None \<Rightarrow> Some []
      | Some x \<Rightarrow> do { xs \<leftarrow> cursor_take D n c'; Some (x # xs) }) }"

definition iter_from :: "('k::linorder, 'v) tree_map \<Rightarrow> 'k \<Rightarrow> nat \<Rightarrow> ('k \<times> 'v) list option" where
  "iter_from m start n = do {
     (c, _) \<leftarrow> seek map_key_ref (map_key_target start) Left (cursor_new map_key_ref m);
     es \<leftarrow> cursor_take map_key_ref n c;
     Some (map (\<lambda>e. (me_key e, me_value e)) es) }"

definition map_iter :: "('k, 'v) tree_map \<Rightarrow> nat \<Rightarrow> ('k \<times> 'v) list option" where
  "map_iter m n = do { es \<leftarrow> iter_take m n []; Some (map (\<lambda>e. (me_key e, me_value e)) es) }"

definition map_values :: "('k, 'v) tree_map \<Rightarrow> nat \<Rightarrow> 'v list option" where
  "map_values m n = do { es \<leftarrow> iter_take m n []; Some (map me_value es) }"

definition map_update ::
  "('k::linorder, 'v) tree_map \<Rightarrow> 'k \<Rightarrow> ('v \<Rightarrow> 'v \<times> 'r) \<Rightarrow> (('k, 'v) tree_map \<times> 'r option) option" where
  "map_update m key f = do {
     (c, new_tree) \<leftarrow> slice map_entry_impl map_key_ref (map_key_target key) Left (cursor_new map_key_ref m);
     e \<leftarrow> cursor_end map_key_ref c;
     (c, new_tree, result) \<leftarrow>
       (if map_key_target key e = Equal then do {
          item \<leftarrow> cursor_item c;
          updated \<leftarrow> item;
          let (v, r) = f (me_value updated);
          new_tree \<leftarrow> tree_push map_entry_impl new_tree (updated\<lparr>me_value := v\<rparr>);
          c \<leftarrow> cursor_next map_key_ref c;
          Some (c, new_tree, Some r) }
        else Some (c, new_tree, None));
     (c, rest) \<leftarrow> suffix map_entry_impl map_key_ref c;
     new_tree \<leftarrow> tree_append map_entry_impl new_tree rest;
     Some (new_tree, result) }"

text \<open>The loop of \<open>retain\<close> with fuel; the number of entries plus one is enough.\<close>

fun retain_loop ::
  "('k \<Rightarrow> 'v \<Rightarrow> bool) \<Rightarrow> nat \<Rightarrow> (('k, 'v) map_entry, 'k option, 'k option) cursor \<Rightarrow> ('k, 'v) tree_map \<Rightarrow> ('k, 'v) tree_map option" where
  "retain_loop predicate 0 c new_map = None"
| "retain_loop predicate (Suc n) c new_map = do {
     item \<leftarrow> cursor_item c;
     (case item of
        None \<Rightarrow> Some new_map
      | Some item \<Rightarrow> do {
          new_map \<leftarrow> (if predicate (me_key item) (me_value item) then tree_push map_entry_impl new_map item
                     else Some new_map);
          c \<leftarrow> cursor_next map_key_ref c;
          retain_loop predicate n c new_map }) }"

definition retain :: "('k, 'v) tree_map \<Rightarrow> ('k \<Rightarrow> 'v \<Rightarrow> bool) \<Rightarrow> ('k, 'v) tree_map option" where
  "retain m predicate = do {
     c \<leftarrow> cursor_next map_key_ref (cursor_new map_key_ref m);
     retain_loop predicate (Suc (length (tree_items m))) c map_default }"

definition map_first :: "('k, 'v) tree_map \<Rightarrow> ('k \<times> 'v) option option" where
  "map_first m = do { e \<leftarrow> tree_first m; Some (map_option (\<lambda>e. (me_key e, me_value e)) e) }"

definition map_last :: "('k, 'v) tree_map \<Rightarrow> ('k \<times> 'v) option option" where
  "map_last m = do { e \<leftarrow> tree_last m; Some (map_option (\<lambda>e. (me_key e, me_value e)) e) }"

definition insert_tree :: "('k::linorder, 'v) tree_map \<Rightarrow> ('k, 'v) tree_map \<Rightarrow> ('k, 'v) tree_map option" where
  "insert_tree m other = do {
     es \<leftarrow> map_iter other (Suc (length (tree_items other)));
     (m', _) \<leftarrow> tree_edit map_keyed m (map (\<lambda>(k, v). Insert \<lparr>me_key = k, me_value = v\<rparr>) es);
     Some m' }"

section \<open>Sets\<close>

type_synonym 'k tree_set = "('k, unit) tree_map"

definition set_from_ordered_entries :: "'k list \<Rightarrow> 'k tree_set option" where
  "set_from_ordered_entries entries = from_ordered_entries (map (\<lambda>k. (k, ())) entries)"

definition set_is_empty :: "'k tree_set \<Rightarrow> bool" where
  "set_is_empty s = map_is_empty s"

definition set_insert :: "'k::linorder tree_set \<Rightarrow> 'k \<Rightarrow> 'k tree_set option" where
  "set_insert s key = map_insert s key ()"

definition set_remove :: "'k::linorder tree_set \<Rightarrow> 'k \<Rightarrow> ('k tree_set \<times> bool) option" where
  "set_remove s key = do { (s', r) \<leftarrow> map_remove s key; Some (s', r \<noteq> None) }"

definition set_extend :: "'k::linorder tree_set \<Rightarrow> 'k list \<Rightarrow> 'k tree_set option" where
  "set_extend s keys = map_extend s (map (\<lambda>k. (k, ())) keys)"

definition set_contains :: "'k::linorder tree_set \<Rightarrow> 'k \<Rightarrow> bool" where
  "set_contains s key = (map_get s key \<noteq> None)"

definition set_iter :: "'k tree_set \<Rightarrow> nat \<Rightarrow> 'k list option" where
  "set_iter s n = do { es \<leftarrow> map_iter s n; Some (map fst es) }"

definition set_iter_from :: "'k::linorder tree_set \<Rightarrow> 'k \<Rightarrow> nat \<Rightarrow> 'k list option" where
  "set_iter_from s key n = do { es \<leftarrow> iter_from s key n; Some (map fst es) }"

section \<open>Interpretation and abstraction\<close>

declare dropWhile_eq_Nil_conv [simp del]

lemma map_keyed_simps [simp]:
  "keyed_item map_keyed = map_entry_impl" "item_key map_keyed = map_entry_key" "key_dim map_keyed = map_key_ref"
  "map_key_target = (\<lambda>k. ord_target (Some k))"
  by (simp_all add: map_keyed_def map_key_ref_def summary_dimension_def map_entry_impl_def
      map_key_target_def ord_target_def fun_eq_iff)

interpretation map_tree: keyed "map_keyed :: (('k::linorder, 'v) map_entry, 'k option, 'k option) keyed_impl"
  by unfold_locales (simp_all add: map_entry_impl_def map_key_ref_def)

lemma map_split:
  "seek_split map_entry_impl map_key_ref P d xs =
   (takeWhile (\<lambda>x. P (map_entry_key x)) xs, dropWhile (\<lambda>x. P (map_entry_key x)) xs)"
  by (induction xs arbitrary: d) (simp_all add: map_entry_impl_def map_key_ref_def Let_def)

lemma map_pos: "pos_after map_entry_impl map_key_ref d xs = (if xs = [] then d else map_entry_key (last xs))"
  by (induction xs arbitrary: d) (simp_all add: map_entry_impl_def map_key_ref_def)

lemmas map_slice_ok = map_tree.slice_ok [unfolded map_keyed_simps(1-3)]
  and map_seek_ok = map_tree.seek_ok [unfolded map_keyed_simps(1-3)]
  and map_suffix_ok = map_tree.suffix_ok [unfolded map_keyed_simps(1-3)]
  and map_next_ok = map_tree.cursor_next_ok [unfolded map_keyed_simps(1-3)]
  and map_prev_ok = map_tree.cursor_prev_ok [unfolded map_keyed_simps(1-3)]
  and map_push_ok = map_tree.push_ok [unfolded map_keyed_simps(1-3)]
  and map_append_ok = map_tree.append_ok [unfolded map_keyed_simps(1-3)]

definition map_ok :: "('k::linorder, 'v) tree_map \<Rightarrow> bool" where
  "map_ok m \<longleftrightarrow> wf_tree map_entry_impl m \<and> key_sorted map_keyed (tree_items m)"

definition map_abs :: "('k, 'v) tree_map \<Rightarrow> 'k \<rightharpoonup> 'v" where
  "map_abs m = map_of (map (\<lambda>e. (me_key e, me_value e)) (tree_items m))"

lemma map_abs_lookup:
  assumes "map_ok m"
  shows "map_abs m k = map_option me_value (list_lookup map_keyed (tree_items m) (Some k))"
proof -
  have "map_of (map (\<lambda>e. (me_key e, me_value e)) xs) k = map_option me_value (List.find (\<lambda>x. map_entry_key x = Some k) xs)"
    for xs :: "('a, 'b) map_entry list"
    by (induction xs) (auto simp: map_entry_key_def)
  then show ?thesis by (simp add: map_abs_def list_lookup_def)
qed

lemma map_ok_keys: "map_ok m \<Longrightarrow> sorted_wrt (<) (map me_key (tree_items m))"
  by (simp add: map_ok_def sorted_wrt_map map_entry_key_def)

lemma map_abs_Some:
  assumes "map_ok m"
  shows "map_abs m k = Some v \<longleftrightarrow> \<lparr>me_key = k, me_value = v\<rparr> \<in> set (tree_items m)"
proof -
  have "distinct (map me_key (tree_items m))"
    using map_ok_keys [OF assms] strict_sorted_iff by blast
  then have "map_abs m k = Some v \<longleftrightarrow> (k, v) \<in> (\<lambda>e. (me_key e, me_value e)) ` set (tree_items m)"
    by (simp add: map_abs_def comp_def)
  also have "\<dots> \<longleftrightarrow> \<lparr>me_key = k, me_value = v\<rparr> \<in> set (tree_items m)"
    by (auto simp: image_iff intro: bexI [of _ "\<lparr>me_key = k, me_value = v\<rparr>"]) (metis map_entry.surjective old.unit.exhaust)
  finally show ?thesis .
qed

text \<open>A map is determined by the set of its entries, so set equations of the merge give the map.\<close>

lemma map_absI:
  assumes "map_ok m" "\<And>k v. \<lparr>me_key = k, me_value = v\<rparr> \<in> set (tree_items m) \<longleftrightarrow> f k = Some v"
  shows "map_abs m = f"
proof
  fix k
  show "map_abs m k = f k"
  proof (cases "f k")
    case None
    then show ?thesis using map_abs_Some [OF assms(1), of k] assms(2) [of k] by (cases "map_abs m k") auto
  next
    case (Some v)
    then show ?thesis using map_abs_Some [OF assms(1), of k v] assms(2) [of k v] by simp
  qed
qed

lemma merge_map_ok:
  assumes "map_ok m" "wf_tree map_entry_impl r" "tree_items r = merge_edits map_keyed es (tree_items m)"
    and "sorted_wrt (\<lambda>e f. edit_key map_keyed e < edit_key map_keyed f) es"
  shows "map_ok r"
  using assms merge_edits_sorted [of map_keyed "tree_items m" es] by (simp add: map_ok_def)

section \<open>Lookup\<close>

lemma map_get_correct:
  fixes m :: "('k::linorder, 'v) tree_map"
  assumes "map_ok m"
  shows "map_get m k = map_abs m k"
proof -
  note wf = assms [unfolded map_ok_def]
  let ?P = "target_past (ord_target (Some k)) Left"
  have mono: "seek_mono map_entry_impl map_key_ref ?P None (tree_items m)"
    using map_tree.key_seek_mono [of "tree_items m" None] wf by simp
  have split: "seek_split map_entry_impl map_key_ref ?P None (tree_items m) =
      (takeWhile (\<lambda>x. map_entry_key x < Some k) (tree_items m), dropWhile (\<lambda>x. map_entry_key x < Some k) (tree_items m))"
    by (simp add: map_split map_tree.past_left)
  have "map_get m k = (case dropWhile (\<lambda>x. map_entry_key x < Some k) (tree_items m) of
      [] \<Rightarrow> None | e # _ \<Rightarrow> if map_entry_key e = Some k then Some (me_value e) else None)"
    using map_tree.find_ok [of m "ord_target (Some k)" Left] wf mono split
    by (cases "dropWhile (\<lambda>x. map_entry_key x < Some k) (tree_items m)")
      (simp_all add: map_get_def scan_result_def map_key_ref_def eq_commute [of "Some k"])
  also have "\<dots> = map_option me_value (list_lookup map_keyed (tree_items m) (Some k))"
  proof -
    have "key_sorted map_keyed xs \<Longrightarrow> (case dropWhile (\<lambda>x. map_entry_key x < Some k) xs of
      [] \<Rightarrow> None | e # _ \<Rightarrow> if map_entry_key e = Some k then Some (me_value e) else None) =
      map_option me_value (list_lookup map_keyed xs (Some k))" for xs :: "('k, 'v) map_entry list"
      by (induction xs) (auto simp: list_lookup_def find_None_iff find_None_iff2)
    with wf show ?thesis by simp
  qed
  finally show ?thesis using map_abs_lookup [OF assms] by simp
qed

lemma contains_key_correct: "map_ok m \<Longrightarrow> contains_key m k \<longleftrightarrow> k \<in> dom (map_abs m)"
  by (auto simp: contains_key_def map_get_correct)

section \<open>Updates\<close>

lemma map_insert_correct:
  assumes "map_ok m" "node_height m < STACK_CAP"
  shows "\<exists>r. map_insert_or_replace m k v = Some (r, map_abs m k) \<and> map_insert m k v = Some r \<and>
    map_ok r \<and> map_abs r = (map_abs m)(k \<mapsto> v)"
proof -
  let ?e = "\<lparr>me_key = k, me_value = v\<rparr>"
  obtain r where r: "insert_or_replace map_keyed m ?e = Some (r, list_lookup map_keyed (tree_items m) (Some k))"
    "wf_tree map_entry_impl r" "tree_items r = merge_edits map_keyed [Insert ?e] (tree_items m)"
    using map_tree.insert_or_replace_ok [of m ?e] assms by (auto simp: map_ok_def map_entry_key_def)
  have ok: "map_ok r"
    by (rule merge_map_ok [OF assms(1) r(2,3)]) simp
  have "set (tree_items r) = {x \<in> set (tree_items m). map_entry_key x \<noteq> Some k} \<union> {?e}"
    using merge_edits_set [of map_keyed "tree_items m" "[Insert ?e]"] assms(1) r(3)
    by (auto simp: map_ok_def map_entry_key_def)
  then have "map_abs r = (map_abs m)(k \<mapsto> v)"
    using map_abs_Some [OF assms(1)] by (intro map_absI [OF ok]) (auto simp: map_entry_key_def)
  with ok r map_abs_lookup [OF assms(1)] show ?thesis
    by (simp add: map_insert_or_replace_def map_insert_def)
qed

lemma map_edit_correct:
  fixes m :: "('k::linorder, 'v) tree_map"
  assumes "map_ok m" "node_height m < STACK_CAP" "distinct (map fst kvs)"
  shows "\<exists>r. map_extend m kvs = Some r \<and> map_ok r \<and> map_abs r = map_abs m ++ map_of kvs"
proof -
  let ?es = "map (\<lambda>(k, v). Insert \<lparr>me_key = k, me_value = v\<rparr>) kvs :: (('k, 'v) map_entry, 'k option) edit list"
  let ?key = "edit_key map_keyed"
  have keys: "map ?key ?es = map (Some \<circ> fst) kvs"
    by (auto simp: map_entry_key_def)
  have distinct: "distinct (map ?key ?es)"
    unfolding keys using assms(3) by (simp add: distinct_map comp_inj_on)
  obtain r old where r: "tree_edit map_keyed m ?es = Some (r, old)" "wf_tree map_entry_impl r"
    "tree_items r = merge_edits map_keyed (sort_key ?key ?es) (tree_items m)"
    using map_tree.tree_edit_ok [of m ?es] distinct assms by (auto simp: map_ok_def)
  note sorted = map_tree.sort_edits [OF distinct]
  have ok: "map_ok r"
    by (rule merge_map_ok [OF assms(1) r(2,3) sorted])
  have keys': "?key ` set ?es = Some ` fst ` set kvs"
    using arg_cong [OF keys, of set] by (simp add: image_comp)
  have ins: "Insert x \<in> set ?es \<longleftrightarrow> (me_key x, me_value x) \<in> set kvs" for x
    by (cases x) force
  have "set (tree_items r) = {x \<in> set (tree_items m). map_entry_key x \<notin> ?key ` set ?es} \<union> {x. Insert x \<in> set ?es}"
    using merge_edits_set [OF _ sorted, of "tree_items m"] assms(1) r(3) by (simp add: map_ok_def)
  then have "set (tree_items r) = {x \<in> set (tree_items m). me_key x \<notin> fst ` set kvs} \<union> {x. (me_key x, me_value x) \<in> set kvs}"
    unfolding keys' ins by (simp add: map_entry_key_def inj_image_mem_iff)
  then have "map_abs r = map_abs m ++ map_of kvs"
    using map_abs_Some [OF assms(1)] assms(3)
    by (intro map_absI [OF ok])
      (auto simp: map_add_Some_iff map_of_eq_None_iff)
  with ok r show ?thesis by (auto simp: map_extend_def)
qed

text \<open>
  The seek common to \<open>remove\<close> and \<open>update\<close>: the new tree holds the smaller entries, and the
  position after the current entry is the key exactly when the key is bound.
\<close>

lemma map_slice:
  fixes m :: "('k::linorder, 'v) tree_map"
  assumes "map_ok m" "node_height m < STACK_CAP"
  obtains c u where
    "slice map_entry_impl map_key_ref (map_key_target k) Left (cursor_new map_key_ref m) = Some (c, u)"
    "wf_tree map_entry_impl u" "tree_items u = takeWhile (\<lambda>x. map_entry_key x < Some k) (tree_items m)"
    "did_seek c"
    "cursor_at map_entry_impl map_key_ref c (tree_items u) (dropWhile (\<lambda>x. map_entry_key x < Some k) (tree_items m))"
    "\<exists>e. cursor_end map_key_ref c = Some e \<and>
      (map_key_target k e = Equal \<longleftrightarrow> list_lookup map_keyed (tree_items m) (Some k) \<noteq> None)"
proof -
  have wf: "wf_tree map_entry_impl m" and sorted: "key_sorted map_keyed (tree_items m)"
    using assms(1) by (auto simp: map_ok_def)
  let ?lt = "\<lambda>x. map_entry_key x < Some k"
  let ?zs = "dropWhile ?lt (tree_items m)"
  obtain c u where c: "slice map_entry_impl map_key_ref (ord_target (Some k)) Left (cursor_new map_key_ref m) = Some (c, u)"
    "wf_tree map_entry_impl u" "tree_items u = takeWhile ?lt (tree_items m)" "did_seek c"
    "cursor_at map_entry_impl map_key_ref c (takeWhile ?lt (tree_items m)) ?zs"
    using map_tree.slice_key [of "cursor_new map_key_ref m" "[]" "tree_items m" "Some k"] cursor_at_new [of map_entry_impl m map_key_ref]
      wf sorted assms(2) by (auto simp: cursor_new_def map_key_ref_def)
  have ge: "\<forall>x \<in> set ?zs. Some k \<le> map_entry_key x"
    using map_tree.skip_after_slice(4) [OF sorted, of "Some k"] by simp
  have lookup: "list_lookup map_keyed ?zs (Some k) = list_lookup map_keyed (tree_items m) (Some k)"
    using map_tree.skip_after_slice(2) [OF sorted, of "Some k"] by simp
  have pos: "cursor_position c = (if takeWhile ?lt (tree_items m) = [] then None else map_entry_key (last (takeWhile ?lt (tree_items m))))"
    using c(5) by (auto simp: cursor_at_def map_pos) (simp add: map_key_ref_def)
  have less: "cursor_position c < Some k"
    unfolding pos using last_in_set set_takeWhileD by fastforce
  show ?thesis
  proof (rule that [of c u])
    show "\<exists>e. cursor_end map_key_ref c = Some e \<and>
      (map_key_target k e = Equal \<longleftrightarrow> list_lookup map_keyed (tree_items m) (Some k) \<noteq> None)"
    proof (cases ?zs)
      case Nil
      with lookup have "list_lookup map_keyed (tree_items m) (Some k) = None"
        by (simp add: list_lookup_def)
      then show ?thesis
        using Nil cursor_at_item(2) [OF c(5,4)] less
        by (simp add: cursor_end_def cursor_start_def ord_target_def cmp_def)
    next
      case (Cons z zs)
      have zs: "\<forall>x \<in> set zs. map_entry_key z < map_entry_key x"
        using map_tree.skip_after_slice(3) [OF sorted, of "Some k"] Cons by simp
      have "list_lookup map_keyed (tree_items m) (Some k) \<noteq> None \<longleftrightarrow> map_entry_key z = Some k"
        using ge zs unfolding lookup [symmetric] Cons
        by (cases "map_entry_key z = Some k") (auto simp: list_lookup_def find_None_iff find_Some_iff)
      then show ?thesis
        using Cons cursor_at_item(2) [OF c(5,4)]
        by (auto simp: cursor_end_def map_key_ref_def map_entry_impl_def ord_target_def cmp_def)
    qed
  qed (use c in simp_all)
qed

lemma map_skip:
  fixes m :: "('k::linorder, 'v) tree_map"
  assumes ok: "map_ok m"
    and at: "did_seek c" "cursor_at map_entry_impl map_key_ref c ys (dropWhile (\<lambda>x. map_entry_key x < Some k) (tree_items m))"
    and found: "list_lookup map_keyed (tree_items m) (Some k) = Some x"
  shows "\<exists>c' ys. cursor_item c = Some (Some x) \<and> cursor_next map_key_ref c = Some c' \<and>
    cursor_at map_entry_impl map_key_ref c' ys (dropWhile (\<lambda>x. map_entry_key x \<le> Some k) (tree_items m))"
proof -
  have sorted: "key_sorted map_keyed (tree_items m)"
    using ok by (auto simp: map_ok_def)
  obtain c' where "skip_key map_keyed (Some k) c = Some (c', Some x)"
    "cursor_at map_entry_impl map_key_ref c' (ys @ takeWhile (\<lambda>x. map_entry_key x \<le> Some k) (dropWhile (\<lambda>x. map_entry_key x < Some k) (tree_items m)))
      (dropWhile (\<lambda>x. map_entry_key x \<le> Some k) (tree_items m))"
    using map_tree.skip_key_ok [of c ys "dropWhile (\<lambda>x. map_entry_key x < Some k) (tree_items m)" "Some k"] at found
      map_tree.skip_after_slice [OF sorted, of "Some k"] by auto
  then show ?thesis
    by (auto simp: skip_key_def split: option.splits if_splits)
qed

lemma map_remove_correct:
  fixes m :: "('k::linorder, 'v) tree_map"
  assumes ok: "map_ok m" "node_height m < STACK_CAP"
  shows "\<exists>r. map_remove m k = Some (r, map_abs m k) \<and> map_ok r \<and> map_abs r = (map_abs m)(k := None)"
proof -
  let ?ge = "dropWhile (\<lambda>x. map_entry_key x < Some k) (tree_items m)"
  let ?gt = "dropWhile (\<lambda>x. map_entry_key x \<le> Some k) (tree_items m)"
  obtain c u where c: "slice map_entry_impl map_key_ref (map_key_target k) Left (cursor_new map_key_ref m) = Some (c, u)"
    "wf_tree map_entry_impl u" "tree_items u = takeWhile (\<lambda>x. map_entry_key x < Some k) (tree_items m)"
    "did_seek c" "cursor_at map_entry_impl map_key_ref c (tree_items u) ?ge"
    "\<exists>e. cursor_end map_key_ref c = Some e \<and>
      (map_key_target k e = Equal \<longleftrightarrow> list_lookup map_keyed (tree_items m) (Some k) \<noteq> None)"
    using map_slice [OF ok] .
  have gt: "?gt = ?ge" if "list_lookup map_keyed (tree_items m) (Some k) = None"
    using that ok(1) key_sorted_split(2,3) [of map_keyed "tree_items m" "Some k"]
    by (auto simp: list_lookup_def find_None_iff map_ok_def intro!: filter_cong)
  obtain e where e: "cursor_end map_key_ref c = Some e"
    "map_key_target k e = Equal \<longleftrightarrow> list_lookup map_keyed (tree_items m) (Some k) \<noteq> None"
    using c(6) by blast
  obtain c' ys where c': "(if map_key_target k e = Equal then do {
          item \<leftarrow> cursor_item c;
          item \<leftarrow> item;
          c \<leftarrow> cursor_next map_key_ref c;
          Some (c, Some (me_value item)) }
        else Some (c, None)) = Some (c', map_abs m k)" "cursor_at map_entry_impl map_key_ref c' ys ?gt"
  proof (cases "list_lookup map_keyed (tree_items m) (Some k)")
    case None
    with that [of c "tree_items u"] c(5) e(2) gt map_abs_lookup [OF ok(1), of k] show ?thesis by simp
  next
    case (Some x)
    with that e(2) map_skip [OF ok(1) c(4,5) Some] map_abs_lookup [OF ok(1), of k] show ?thesis by auto
  qed
  obtain c'' w where w: "suffix map_entry_impl map_key_ref c' = Some (c'', w)" "wf_tree map_entry_impl w" "tree_items w = ?gt"
    using map_tree.suffix_ok [of c' ys ?gt] c'(2) by auto
  obtain r where r: "tree_append map_entry_impl u w = Some r" "wf_tree map_entry_impl r" "tree_items r = tree_items u @ tree_items w"
    using map_tree.append_ok [of u w] c(2) w(2) by auto
  have merge: "tree_items r = merge_edits map_keyed [Remove (Some k)] (tree_items m)"
    using r(3) c(3) w(3) by simp
  have ok': "map_ok r"
    by (rule merge_map_ok [OF ok(1) r(2) merge]) simp
  have "set (tree_items r) = {x \<in> set (tree_items m). map_entry_key x \<noteq> Some k}"
    using merge_edits_set [of map_keyed "tree_items m" "[Remove (Some k)]"] ok(1) merge by (auto simp: map_ok_def)
  then have "map_abs r = (map_abs m)(k := None)"
    using map_abs_Some [OF ok(1)] by (intro map_absI [OF ok']) (auto simp: map_entry_key_def)
  with ok' c(1) e(1) c'(1) w(1) r(1) show ?thesis
    by (simp add: map_remove_def)
qed

lemma map_update_correct:
  fixes m :: "('k::linorder, 'v) tree_map"
  assumes ok: "map_ok m" "node_height m < STACK_CAP"
  shows "\<exists>r. map_update m k f = Some (r, map_option (snd \<circ> f) (map_abs m k)) \<and> map_ok r \<and>
    map_abs r = (map_abs m)(k := map_option (fst \<circ> f) (map_abs m k))"
proof -
  let ?lt = "takeWhile (\<lambda>x. map_entry_key x < Some k) (tree_items m)"
  let ?ge = "dropWhile (\<lambda>x. map_entry_key x < Some k) (tree_items m)"
  let ?gt = "dropWhile (\<lambda>x. map_entry_key x \<le> Some k) (tree_items m)"
  let ?found = "list_lookup map_keyed (tree_items m) (Some k)"
  obtain c u where c: "slice map_entry_impl map_key_ref (map_key_target k) Left (cursor_new map_key_ref m) = Some (c, u)"
    "wf_tree map_entry_impl u" "tree_items u = ?lt"
    "did_seek c" "cursor_at map_entry_impl map_key_ref c (tree_items u) ?ge"
    "\<exists>e. cursor_end map_key_ref c = Some e \<and> (map_key_target k e = Equal \<longleftrightarrow> ?found \<noteq> None)"
    using map_slice [OF ok] .
  obtain e where e: "cursor_end map_key_ref c = Some e" "map_key_target k e = Equal \<longleftrightarrow> ?found \<noteq> None"
    using c(6) by blast
  note abs = map_abs_lookup [OF ok(1), of k]
  show ?thesis
  proof (cases ?found)
    case None
    obtain c' w where w: "suffix map_entry_impl map_key_ref c = Some (c', w)" "wf_tree map_entry_impl w" "tree_items w = ?ge"
      using map_tree.suffix_ok [of c "tree_items u" ?ge] c(5) by auto
    obtain r where r: "tree_append map_entry_impl u w = Some r" "wf_tree map_entry_impl r" "tree_items r = tree_items u @ tree_items w"
      using map_tree.append_ok [of u w] c(2) w(2) by auto
    have "tree_items r = tree_items m" using r(3) c(3) w(3) by simp
    then have "map_ok r" "map_abs r = map_abs m" using ok(1) r(2) by (simp_all add: map_ok_def map_abs_def)
    moreover have "(map_abs m)(k := None) = map_abs m" using None abs by (simp add: fun_upd_idem)
    ultimately show ?thesis using None abs c(1) e w(1) r(1) by (simp add: map_update_def)
  next
    case (Some x)
    have x: "x \<in> set (tree_items m)" "me_key x = k"
      using Some list_lookup_Some [of map_keyed "tree_items m" "Some k" x] ok(1) by (auto simp: map_ok_def map_entry_key_def)
    obtain v s where v: "f (me_value x) = (v, s)" by fastforce
    define y where "y = x\<lparr>me_value := v\<rparr>"
    obtain c' ys where c': "cursor_item c = Some (Some x)" "cursor_next map_key_ref c = Some c'"
      "cursor_at map_entry_impl map_key_ref c' ys ?gt"
      using map_skip [OF ok(1) c(4,5) Some] by blast
    obtain u' where u': "tree_push map_entry_impl u y = Some u'" "wf_tree map_entry_impl u'" "tree_items u' = tree_items u @ [y]"
      using map_tree.push_ok [of u y] c(2) by auto
    obtain c'' w where w: "suffix map_entry_impl map_key_ref c' = Some (c'', w)" "wf_tree map_entry_impl w" "tree_items w = ?gt"
      using map_tree.suffix_ok [of c' ys ?gt] c'(3) by auto
    obtain r where r: "tree_append map_entry_impl u' w = Some r" "wf_tree map_entry_impl r" "tree_items r = tree_items u' @ tree_items w"
      using map_tree.append_ok [of u' w] u'(2) w(2) by auto
    have y: "map_entry_key y = Some k" "\<lparr>me_key = k', me_value = v'\<rparr> = y \<longleftrightarrow> k' = k \<and> v' = v" for k' v'
      using x(2) by (cases x; auto simp: y_def map_entry_key_def)+
    have merge: "tree_items r = merge_edits map_keyed [Insert y] (tree_items m)"
      using r(3) u'(3) c(3) w(3) y(1) by simp
    have ok': "map_ok r"
      by (rule merge_map_ok [OF ok(1) r(2) merge]) simp
    have "set (tree_items r) = {x \<in> set (tree_items m). map_entry_key x \<noteq> Some k} \<union> {y}"
      using merge_edits_set [of map_keyed "tree_items m" "[Insert y]"] ok(1) merge y(1) by (auto simp: map_ok_def)
    then have "map_abs r = (map_abs m)(k := Some v)"
      using map_abs_Some [OF ok(1)] y(2) by (intro map_absI [OF ok']) (auto simp: map_entry_key_def)
    with ok' Some abs c(1) e c'(1,2) u'(1) w(1) r(1) v show ?thesis
      by (simp add: map_update_def y_def)
  qed
qed

section \<open>Ranges, neighbours and iteration\<close>

text \<open>A seek target of keys is monotone: a key below one that the target is past is passed too.\<close>

definition target_mono :: "('k::linorder \<Rightarrow> ordering) \<Rightarrow> bool" where
  "target_mono f \<longleftrightarrow> (\<forall>k k'. k \<le> k' \<longrightarrow> f k' = Greater \<longrightarrow> f k = Greater)"

lemma target_monoD: "target_mono f \<Longrightarrow> k < k' \<Longrightarrow> f k \<noteq> Greater \<Longrightarrow> f k' \<noteq> Greater"
  unfolding target_mono_def using less_imp_le by blast

lemma adaptor_past:
  "target_past (map_seek_target_adaptor f) Left (map_entry_key x) \<longleftrightarrow> f (me_key x) = Greater"
  by (simp add: target_past_def map_entry_key_def)

lemma adaptor_mono:
  fixes m :: "('k::linorder, 'v) tree_map"
  assumes "target_mono f" "map_ok m"
  shows "seek_mono map_entry_impl map_key_ref (target_past (map_seek_target_adaptor f) Left) None (tree_items m)"
proof -
  have "target_past (map_seek_target_adaptor f) Left p"
    if "p \<le> q" "target_past (map_seek_target_adaptor f) Left q" for p q
    using that assms(1) by (cases p; cases q) (auto simp: target_past_def target_mono_def)
  then show ?thesis
    using map_tree.key_mono [of "tree_items m" None "target_past (map_seek_target_adaptor f) Left"] assms(2)
    by (simp add: map_ok_def)
qed

lemma adaptor_split:
  "seek_split map_entry_impl map_key_ref (target_past (map_seek_target_adaptor f) Left) d xs =
   (takeWhile (\<lambda>x. f (me_key x) = Greater) xs, dropWhile (\<lambda>x. f (me_key x) = Greater) xs)"
  for xs :: "('k::linorder, 'v) map_entry list"
  by (simp add: map_split adaptor_past)

lemma remove_range_correct:
  fixes m :: "('k::linorder, 'v) tree_map"
  assumes ok: "map_ok m" "node_height m < STACK_CAP" and mono: "target_mono start" "target_mono finish"
    and order: "\<forall>k. start k = Greater \<longrightarrow> finish k = Greater"
  shows "\<exists>r. remove_range m start finish = Some r \<and> map_ok r \<and>
    map_abs r = (\<lambda>k. if start k \<noteq> Greater \<and> finish k = Greater then None else map_abs m k)"
proof -
  have wf: "wf_tree map_entry_impl m" and sorted: "key_sorted map_keyed (tree_items m)"
    using ok by (auto simp: map_ok_def)
  let ?s = "\<lambda>x. start (me_key x) = Greater"
  let ?f = "\<lambda>x. finish (me_key x) = Greater"
  have at: "cursor_at map_entry_impl map_key_ref (cursor_new map_key_ref m) [] (tree_items m)"
    using cursor_at_new [OF wf ok(2)] .
  have past: "map_seek_target_adaptor f None \<noteq> Less" for f :: "'k \<Rightarrow> ordering"
    by simp
  have zero: "cursor_position (cursor_new map_key_ref m) = None" "dim_zero map_key_ref = (None :: 'k option)"
    by (simp_all add: cursor_new_def map_key_ref_def)
  obtain c u where c: "slice map_entry_impl map_key_ref (map_seek_target_adaptor start) Left (cursor_new map_key_ref m) = Some (c, u)"
    "wf_tree map_entry_impl u" "tree_items u = takeWhile ?s (tree_items m)"
    "cursor_at map_entry_impl map_key_ref c ([] @ takeWhile ?s (tree_items m)) (dropWhile ?s (tree_items m))"
    using map_slice_ok [OF at, unfolded zero, OF adaptor_mono [OF mono(1) ok(1)] past adaptor_split] by blast
  have all: "([] @ takeWhile ?s (tree_items m)) @ dropWhile ?s (tree_items m) = tree_items m"
    by simp
  obtain c' b where c': "seek map_key_ref (map_seek_target_adaptor finish) Left c = Some (c', b)"
    "cursor_at map_entry_impl map_key_ref c' (takeWhile ?f (tree_items m)) (dropWhile ?f (tree_items m))"
    using map_seek_ok [OF c(4), unfolded all zero, OF adaptor_mono [OF mono(2) ok(1)] past adaptor_split] by blast
  obtain c'' w where w: "suffix map_entry_impl map_key_ref c' = Some (c'', w)" "wf_tree map_entry_impl w"
    "tree_items w = dropWhile ?f (tree_items m)"
    using map_suffix_ok [OF c'(2)] by blast
  obtain r where r: "tree_append map_entry_impl u w = Some r" "wf_tree map_entry_impl r" "tree_items r = tree_items u @ tree_items w"
    using map_append_ok [OF c(2) w(2)] by blast
  have split: "takeWhile ?s xs @ dropWhile ?f xs = filter (\<lambda>x. ?s x \<or> \<not> ?f x) xs"
    if "key_sorted map_keyed xs" for xs :: "('k, 'v) map_entry list"
    using that
  proof (induction xs)
    case (Cons x xs)
    have later: "\<not> ?s x \<Longrightarrow> \<forall>y \<in> set xs. \<not> ?s y" "\<not> ?f x \<Longrightarrow> \<forall>y \<in> set xs. \<not> ?f y"
      using Cons.prems target_monoD [OF mono(1)] target_monoD [OF mono(2)] by (auto simp: map_entry_key_def)
    show ?case
    proof (cases "?s x")
      case True
      with order Cons show ?thesis by simp
    next
      case False
      with later(1) have "takeWhile ?s xs = []" by (cases xs) auto
      with False later Cons show ?thesis by (cases "?f x") auto
    qed
  qed simp
  have items: "tree_items r = filter (\<lambda>x. ?s x \<or> \<not> ?f x) (tree_items m)"
    using split [OF sorted] r(3) c(3) w(3) by simp
  have ok': "map_ok r"
    using r(2) items key_sorted_filter [OF sorted] by (simp add: map_ok_def)
  have "map_abs r = (\<lambda>k. if start k \<noteq> Greater \<and> finish k = Greater then None else map_abs m k)"
    using map_abs_Some [OF ok(1)] by (intro map_absI [OF ok']) (auto simp: items)
  with ok' c(1) c'(1) w(1) r(1) show ?thesis by (simp add: remove_range_def)
qed

text \<open>Seeking a key with either bias, from a new cursor.\<close>

lemma map_seek:
  fixes m :: "('k::linorder, 'v) tree_map"
  assumes ok: "map_ok m" "node_height m < STACK_CAP"
  obtains c f where "seek map_key_ref (map_key_target k) b (cursor_new map_key_ref m) = Some (c, f)" "did_seek c"
    "cursor_at map_entry_impl map_key_ref c
      (filter (\<lambda>x. target_past (ord_target k) b (me_key x)) (tree_items m))
      (filter (\<lambda>x. \<not> target_past (ord_target k) b (me_key x)) (tree_items m))"
proof -
  have wf: "wf_tree map_entry_impl m" and sorted: "key_sorted map_keyed (tree_items m)"
    using ok by (auto simp: map_ok_def)
  let ?P = "target_past (ord_target (Some k)) b"
  have past: "?P (map_entry_key x) \<longleftrightarrow> target_past (ord_target k) b (me_key x)" for x :: "('k, 'v) map_entry"
    by (simp add: target_past_def ord_target_def cmp_def map_entry_key_def)
  have down: "target_past (ord_target k) b p" if "p < q" "target_past (ord_target k) b q" for p q
    using that by (cases b) (auto simp: target_past_def ord_target_def cmp_def split: if_splits)
  have split: "takeWhile (\<lambda>x. target_past (ord_target k) b (me_key x)) xs = filter (\<lambda>x. target_past (ord_target k) b (me_key x)) xs \<and>
      dropWhile (\<lambda>x. target_past (ord_target k) b (me_key x)) xs = filter (\<lambda>x. \<not> target_past (ord_target k) b (me_key x)) xs"
    if "key_sorted map_keyed xs" for xs :: "('k, 'v) map_entry list"
    using that
  proof (induction xs)
    case (Cons x xs)
    then have "\<forall>y \<in> set xs. \<not> target_past (ord_target k) b (me_key y)" if "\<not> target_past (ord_target k) b (me_key x)"
      using that down by (auto simp: map_entry_key_def)
    with Cons show ?case by (auto simp: empty_filter_conv intro: filter_True [symmetric])
  qed simp
  have "seek_split map_entry_impl map_key_ref ?P None ([] @ tree_items m) =
      (filter (\<lambda>x. target_past (ord_target k) b (me_key x)) (tree_items m),
       filter (\<lambda>x. \<not> target_past (ord_target k) b (me_key x)) (tree_items m))"
    using split [OF sorted] by (simp add: map_split past)
  moreover have "seek_mono map_entry_impl map_key_ref ?P None ([] @ tree_items m)"
    using map_tree.key_seek_mono [of "tree_items m" None] sorted by simp
  moreover have "dim_zero map_key_ref = (None :: 'k option)" "ord_target (Some k) None \<noteq> Less"
    by (simp_all add: map_key_ref_def ord_target_def cmp_def)
  ultimately show ?thesis
    using map_seek_ok [OF cursor_at_new [OF wf ok(2)], of "ord_target (Some k)" b] that by auto
qed

lemma map_abs_dom: "dom (map_abs m) = me_key ` set (tree_items m)"
  by (simp add: map_abs_def dom_map_of_conv_image_fst image_image)

lemma closest_correct:
  fixes m :: "('k::linorder, 'v) tree_map"
  assumes ok: "map_ok m" "node_height m < STACK_CAP"
  shows "\<exists>r. closest m key = Some r \<and> (case r of
      None \<Rightarrow> \<forall>k \<in> dom (map_abs m). key < k
    | Some (k, v) \<Rightarrow> map_abs m k = Some v \<and> k \<le> key \<and> (\<forall>k' \<in> dom (map_abs m). k' \<le> key \<longrightarrow> k' \<le> k))"
proof -
  let ?ys = "filter (\<lambda>x. me_key x \<le> key) (tree_items m)"
  have "target_past (ord_target key) Right p \<longleftrightarrow> p \<le> key" for p
    by (auto simp: target_past_def ord_target_def cmp_def)
  then obtain c f where c: "seek map_key_ref (map_key_target key) Right (cursor_new map_key_ref m) = Some (c, f)" "did_seek c"
    "cursor_at map_entry_impl map_key_ref c ?ys (filter (\<lambda>x. \<not> me_key x \<le> key) (tree_items m))"
    using map_seek [OF ok, of key Right] by auto
  obtain c' where c': "cursor_prev map_key_ref c = Some c'" "cursor_item c' = Some (list_last ?ys)"
    using map_prev_ok [OF c(3,2)] by blast
  have closest: "closest m key = Some (map_option (\<lambda>e. (me_key e, me_value e)) (list_last ?ys))"
    using c(1) c' by (simp add: closest_def)
  show ?thesis
  proof (cases "?ys = []")
    case True
    then have "\<forall>k \<in> dom (map_abs m). key < k"
      by (auto simp: map_abs_dom filter_empty_conv)
    with True closest show ?thesis by (simp add: list_last_def)
  next
    case False
    define e where "e = last ?ys"
    have e: "e \<in> set (tree_items m)" "me_key e \<le> key"
      using last_in_set [OF False] by (auto simp: e_def)
    have sorted: "sorted_wrt (\<lambda>x y. me_key x < me_key y) ?ys"
      using ok(1) by (simp add: map_ok_def map_entry_key_def sorted_wrt_filter)
    have "me_key x \<le> me_key e" if "x \<in> set ?ys" for x
      using that False sorted unfolding e_def
      by (cases ?ys rule: rev_cases) (auto simp: sorted_wrt_append less_imp_le)
    moreover have "map_abs m (me_key e) = Some (me_value e)"
      using map_abs_Some [OF ok(1)] e(1) by (cases e) simp
    ultimately show ?thesis
      using closest False e by (auto simp: list_last_def e_def [symmetric] map_abs_dom)
  qed
qed

lemma cursor_take_eq: "cursor_take D n c = filter_cursor_take D (\<lambda>_. True) n c"
  by (induction n arbitrary: c) (simp_all add: cursor_iter_next_eq split_beta cong: option.case_cong)

lemma iter_from_correct:
  fixes m :: "('k::linorder, 'v) tree_map"
  assumes ok: "map_ok m" "node_height m < STACK_CAP" and n: "length (tree_items m) < n"
  shows "iter_from m start n = Some (filter (\<lambda>(k, v). start \<le> k) (map (\<lambda>e. (me_key e, me_value e)) (tree_items m)))"
proof -
  have "target_past (ord_target start) Left p \<longleftrightarrow> \<not> start \<le> p" for p
    by (auto simp: target_past_def ord_target_def cmp_def)
  then obtain c f where c: "seek map_key_ref (map_key_target start) Left (cursor_new map_key_ref m) = Some (c, f)" "did_seek c"
    "cursor_at map_entry_impl map_key_ref c (filter (\<lambda>x. \<not> start \<le> me_key x) (tree_items m)) (filter (\<lambda>x. start \<le> me_key x) (tree_items m))"
    using map_seek [OF ok, of start Left] by auto
  have "cursor_take map_key_ref n c = Some (take n (filter (\<lambda>x. start \<le> me_key x) (tree_items m)))"
    using map_tree.unfiltered.filter_cursor_take_ok [of c _ "filter (\<lambda>x. start \<le> me_key x) (tree_items m)" _ n] c(2,3)
    by (simp add: cursor_take_eq)
  moreover have "length (filter (\<lambda>x. start \<le> me_key x) (tree_items m)) \<le> n"
    using n length_filter_le [of "\<lambda>x. start \<le> me_key x" "tree_items m"] by linarith
  ultimately show ?thesis
    using c(1) by (simp add: iter_from_def filter_map comp_def)
qed

lemma map_iter_correct:
  assumes "map_ok m" "node_height m < STACK_CAP" "length (tree_items m) < n"
  shows "map_iter m n = Some (map (\<lambda>e. (me_key e, me_value e)) (tree_items m))"
  using iter_collect [of map_entry_impl m n] assms by (simp add: map_iter_def map_ok_def)

lemma insert_tree_correct:
  fixes m :: "('k::linorder, 'v) tree_map"
  assumes "map_ok m" "node_height m < STACK_CAP" "map_ok other" "node_height other < STACK_CAP"
  shows "\<exists>r. insert_tree m other = Some r \<and> map_ok r \<and> map_abs r = map_abs m ++ map_abs other"
proof -
  let ?kvs = "map (\<lambda>e. (me_key e, me_value e)) (tree_items other)"
  have iter: "map_iter other (Suc (length (tree_items other))) = Some ?kvs"
    by (rule map_iter_correct [OF assms(3,4)]) simp
  have "distinct (map fst ?kvs)"
    using map_ok_keys [OF assms(3)] strict_sorted_iff by (auto simp: comp_def)
  then obtain r where "map_extend m ?kvs = Some r" "map_ok r" "map_abs r = map_abs m ++ map_of ?kvs"
    using map_edit_correct [OF assms(1,2)] by blast
  with iter show ?thesis
    by (auto simp: insert_tree_def map_extend_def map_abs_def)
qed

lemma retain_loop_ok:
  fixes c :: "(('k::linorder, 'v) map_entry, 'k option, 'k option) cursor"
  assumes "cursor_at map_entry_impl map_key_ref c ys zs" "did_seek c" "length zs < n" "wf_tree map_entry_impl u"
  shows "\<exists>r. retain_loop P n c u = Some r \<and> wf_tree map_entry_impl r \<and>
    tree_items r = tree_items u @ filter (\<lambda>e. P (me_key e) (me_value e)) zs"
  using assms
proof (induction n arbitrary: c ys zs u)
  case (Suc n)
  have item: "cursor_item c = Some (list_first zs)"
    using cursor_at_item(1) [OF Suc.prems(1,2)] .
  show ?case
  proof (cases zs)
    case Nil
    with item Suc.prems(4) show ?thesis by simp
  next
    case (Cons z zs')
    obtain c' where c': "cursor_next map_key_ref c = Some c'" "did_seek c'"
      "cursor_at map_entry_impl map_key_ref c' (ys @ take 1 zs) (drop 1 zs)"
      using map_next_ok [OF Suc.prems(1,2)] by blast
    obtain u' where u': "(if P (me_key z) (me_value z) then tree_push map_entry_impl u z else Some u) = Some u'"
      "wf_tree map_entry_impl u'" "tree_items u' = tree_items u @ (if P (me_key z) (me_value z) then [z] else [])"
      using map_push_ok [OF Suc.prems(4), of z] Suc.prems(4) by (cases "P (me_key z) (me_value z)") auto
    obtain r where "retain_loop P n c' u' = Some r" "wf_tree map_entry_impl r"
      "tree_items r = tree_items u' @ filter (\<lambda>e. P (me_key e) (me_value e)) zs'"
      using Suc.IH [OF c'(3,2) _ u'(2)] Suc.prems(3) Cons by auto
    with item Cons c'(1) u' show ?thesis by auto
  qed
qed simp

lemma retain_correct:
  fixes m :: "('k::linorder, 'v) tree_map"
  assumes ok: "map_ok m" "node_height m < STACK_CAP"
  shows "\<exists>r. retain m P = Some r \<and> map_ok r \<and>
    map_abs r = (\<lambda>k. case map_abs m k of Some v \<Rightarrow> if P k v then Some v else None | None \<Rightarrow> None)"
proof -
  have wf: "wf_tree map_entry_impl m" and sorted: "key_sorted map_keyed (tree_items m)"
    using ok by (auto simp: map_ok_def)
  obtain c ys where c: "cursor_next map_key_ref (cursor_new map_key_ref m) = Some c" "did_seek c"
    "cursor_at map_entry_impl map_key_ref c ys (tree_items m)"
    using map_tree.unfiltered.search_forward_fresh [of "cursor_new map_key_ref m"] wf ok(2)
    by (auto simp: cursor_next_def cursor_new_def map_key_ref_def)
  have "wf_tree map_entry_impl (map_default :: ('k, 'v) tree_map)" "tree_items (map_default :: ('k, 'v) tree_map) = []"
    using map_tree.wf_tree_new by (simp_all add: map_default_def)
  then obtain r where r: "retain m P = Some r" "wf_tree map_entry_impl r"
    "tree_items r = filter (\<lambda>e. P (me_key e) (me_value e)) (tree_items m)"
    using retain_loop_ok [OF c(3,2), of "Suc (length (tree_items m))" map_default P] c(1) by (auto simp: retain_def)
  have ok': "map_ok r"
    using r key_sorted_filter [OF sorted] by (simp add: map_ok_def)
  then have "map_abs r = (\<lambda>k. case map_abs m k of Some v \<Rightarrow> if P k v then Some v else None | None \<Rightarrow> None)"
    by (intro map_absI) (auto simp: r(3) map_abs_Some [OF ok(1), symmetric] split: option.splits if_splits)
  with r(1) ok' show ?thesis by blast
qed

lemma iter_from_spec:
  fixes m :: "('k::linorder, 'v) tree_map"
  assumes ok: "map_ok m" "node_height m < STACK_CAP" "length (tree_items m) < n"
  shows "\<exists>kvs. iter_from m start n = Some kvs \<and> sorted_wrt (<) (map fst kvs) \<and>
    map_of kvs = (\<lambda>k. if start \<le> k then map_abs m k else None)"
proof -
  let ?kvs = "map (\<lambda>e. (me_key e, me_value e)) (tree_items m)"
  have "map_of (filter (\<lambda>(k, v). start \<le> k) kvs) = (\<lambda>k. if start \<le> k then map_of kvs k else None)" for kvs :: "('k \<times> 'v) list"
    by (induction kvs) (auto simp: fun_eq_iff)
  moreover have "sorted_wrt (<) (map fst ?kvs)" using map_ok_keys [OF ok(1)] by (simp add: comp_def)
  then have "sorted_wrt (<) (map fst (filter (\<lambda>(k, v). start \<le> k) ?kvs))"
    by (simp only: sorted_wrt_map sorted_wrt_filter)
  ultimately show ?thesis
    using iter_from_correct [OF ok] by (simp add: map_abs_def cong: if_cong)
qed

end
