(* ===== verification/Locator.thy ===== *)
theory Locator
  imports SumTree_Find "HOL-Library.List_Lexorder"
begin

text \<open>
  \<open>crates/text/src/locator.rs\<close>: identifiers of positions in an ordered collection.  Locators are
  vectors of \<open>u64\<close> in lexicographic order; \<open>between\<close> makes a new one strictly between two others.
\<close>

type_synonym locator = "u64 list"

definition locator_min :: locator where
  "locator_min = [0]"

definition locator_max :: locator where
  "locator_max = [- 1]"

definition locator_default :: locator where
  "locator_default = locator_min"

definition locator_len :: "locator \<Rightarrow> nat" where
  "locator_len l = length l"

definition locator_is_empty :: "locator \<Rightarrow> bool" where
  "locator_is_empty l \<longleftrightarrow> locator_len l = 0"

text \<open>\<open>assign\<close> resizes and then copies the other locator over the whole vector.\<close>

definition locator_assign :: "locator \<Rightarrow> locator \<Rightarrow> locator" where
  "locator_assign l other =
     (let resized = take (length other) l @ replicate (length other - length l) 0
      in other @ drop (length other) resized)"

text \<open>The two locators are continued with the least and the greatest digit.\<close>

definition next_digit :: "u64 \<Rightarrow> u64 list \<Rightarrow> u64" where
  "next_digit d ds = (case ds of [] \<Rightarrow> d | x # _ \<Rightarrow> x)"

definition middle_digit :: "u64 \<Rightarrow> u64 \<Rightarrow> u64" where
  "middle_digit lhs rhs = lhs + drop_bit 48 (saturating_sub rhs lhs)"

lemma middle_digit_max: "0 < middle_digit 0 (- 1)"
  by code_simp

function between_loop :: "u64 list \<Rightarrow> u64 list \<Rightarrow> u64 list" where
  "between_loop lhs rhs =
     (let l = next_digit 0 lhs;
          mid = middle_digit l (next_digit (- 1) rhs)
      in if l < mid then [mid] else mid # between_loop (tl lhs) (tl rhs))"
  by pat_completeness auto
termination
proof (relation "measure (\<lambda>(lhs, rhs). length lhs + length rhs)", simp, goal_cases)
  case (1 lhs rhs l mid)
  have "lhs \<noteq> [] \<or> rhs \<noteq> []"
    using 1 middle_digit_max by (auto simp: next_digit_def)
  then show ?case by (cases lhs; cases rhs) auto
qed

declare between_loop.simps [simp del]

definition between :: "locator \<Rightarrow> locator \<Rightarrow> locator" where
  "between lhs rhs = between_loop lhs rhs"

definition locator_impl :: "(locator, locator) item_impl" where
  "locator_impl = \<lparr>item_summary = id, summary_zero = locator_default, add_summary = locator_assign\<rparr>"

section \<open>Digits\<close>

lemma middle_digit_unat:
  assumes "l \<le> r"
  shows "unat (middle_digit l r) = unat l + (unat r - unat l) div 2 ^ 48"
proof -
  have le: "unat l \<le> unat r" using assms by (simp add: word_le_nat_alt)
  have "unat l + (unat r - unat l) div 2 ^ 48 \<le> unat r"
    using le div_le_dividend [of "unat r - unat l" "2 ^ 48"] by linarith
  then have "unat l + (unat r - unat l) div 2 ^ 48 < 2 ^ LENGTH(64)"
    using unsigned_less [of r, where 'a = nat] by simp
  then show ?thesis
    unfolding middle_digit_def
    by (subst unat_add_lem [THEN iffD1]) (simp_all add: drop_bit_eq_div unat_div unat_saturating_sub)
qed

lemma middle_digit_ge: "r \<le> l \<Longrightarrow> middle_digit l r = l"
  by (auto simp: middle_digit_def saturating_sub_def)

lemma middle_digit_less:
  assumes "l < r"
  shows "middle_digit l r < r" "l \<le> middle_digit l r"
proof -
  have "(unat r - unat l) div 2 ^ 48 < unat r - unat l"
    using assms by (simp add: word_less_nat_alt)
  with middle_digit_unat [of l r] assms show "middle_digit l r < r" "l \<le> middle_digit l r"
    by (auto simp: word_less_nat_alt word_le_nat_alt less_imp_le)
qed

lemma middle_digit_not_above:
  assumes "\<not> l < middle_digit l r"
  shows "middle_digit l r = l"
proof (cases "l < r")
  case True
  with middle_digit_less(2) assms show ?thesis by (metis not_less_iff_gr_or_eq not_le)
qed (simp add: middle_digit_ge not_less)

section \<open>Between\<close>

lemma between_loop_above: "lhs < between_loop lhs rhs"
proof (induction lhs rhs rule: between_loop.induct)
  case (1 lhs rhs)
  let ?l = "next_digit 0 lhs"
  let ?mid = "middle_digit ?l (next_digit (- 1) rhs)"
  show ?case
  proof (cases "?l < ?mid")
    case True
    then show ?thesis
      by (subst between_loop.simps) (cases lhs; simp add: Let_def next_digit_def)
  next
    case False
    with 1 [OF refl refl False] middle_digit_not_above [OF False] show ?thesis
      by (subst between_loop.simps) (cases lhs; simp add: Let_def next_digit_def)
  qed
qed

lemma between_loop_below:
  assumes "lhs < rhs" "last rhs \<noteq> 0"
  shows "between_loop lhs rhs < rhs"
  using assms
proof (induction lhs rhs rule: between_loop.induct)
  case (1 lhs rhs)
  then obtain r rhs' where rhs: "rhs = r # rhs'" by (cases rhs) auto
  let ?l = "next_digit 0 lhs"
  let ?mid = "middle_digit ?l r"
  have r: "next_digit (- 1) rhs = r" by (simp add: rhs next_digit_def)
  have le: "?l \<le> r"
    using 1(2) by (cases lhs) (auto simp: rhs next_digit_def less_imp_le)
  show ?case
  proof (cases "?l < r")
    case True
    then show ?thesis
      using middle_digit_less(1) [OF True] by (subst between_loop.simps) (simp add: r Let_def, simp add: rhs)
  next
    case False
    with le have l: "?l = r" by simp
    then have mid: "?mid = r" by (simp add: middle_digit_ge)
    have tl: "tl lhs < rhs'" "rhs' \<noteq> []"
      using 1(2,3) l by (cases lhs; cases rhs'; auto simp: rhs next_digit_def)+
    have stop: "\<not> ?l < middle_digit ?l (next_digit (- 1) rhs)"
      using l mid r by simp
    from 1(1) [OF refl refl stop] have "between_loop (tl lhs) rhs' < rhs'"
      using tl 1(3) by (simp add: rhs)
    then show ?thesis
      using l mid by (subst between_loop.simps) (simp add: r, simp add: rhs)
  qed
qed

lemma between_loop_last: "between_loop lhs rhs \<noteq> [] \<and> last (between_loop lhs rhs) \<noteq> 0"
proof (induction lhs rhs rule: between_loop.induct)
  case (1 lhs rhs)
  then show ?case
    by (auto simp: between_loop.simps [of lhs rhs] Let_def)
qed

lemma between_loop_length: "length (between_loop lhs rhs) \<le> Suc (max (length lhs) (length rhs))"
proof (induction lhs rhs rule: between_loop.induct)
  case (1 lhs rhs)
  show ?case
  proof (cases "lhs = [] \<and> rhs = []")
    case True
    then show ?thesis
      using middle_digit_max by (subst between_loop.simps) (simp add: next_digit_def)
  next
    case False
    then have "Suc (max (length (tl lhs)) (length (tl rhs))) \<le> max (length lhs) (length rhs)"
      by (cases lhs; cases rhs) auto
    with 1 [OF refl refl] show ?thesis
      by (subst between_loop.simps) (force simp: Let_def)
  qed
qed

section \<open>Locators as summaries\<close>

lemma locator_assign_eq [simp]: "locator_assign l other = other"
  by (simp add: locator_assign_def)

interpretation locator_sum: summary_monoid locator_impl
  by unfold_locales (simp_all add: locator_impl_def)

interpretation locator_seek: seekable locator_impl "summary_dimension locator_impl"
  by unfold_locales (simp_all add: locator_impl_def summary_dimension_def)

end
