(* ===== verification/Clock.thy ===== *)
theory Clock
  imports Prelude
begin

text \<open>
  The logical clocks of \<open>crates/clock/src/clock.rs\<close>: replica identifiers, Lamport timestamps and
  version vectors (\<open>Global\<close>).  A version vector is a vector of sequence numbers indexed by
  replica, with missing entries read as 0.  Machine integers keep their width; additions wrap as
  they do in release builds.
\<close>

unbundle bit_operations_syntax

section \<open>Replicas and timestamps\<close>

type_synonym replica_id = u16
type_synonym seq = u32

definition LOCAL :: replica_id where "LOCAL = 0"
definition REMOTE_SERVER :: replica_id where "REMOTE_SERVER = 1"
definition AGENT :: replica_id where "AGENT = 2"
definition LOCAL_BRANCH :: replica_id where "LOCAL_BRANCH = 3"
definition FIRST_COLLAB_ID :: replica_id where "FIRST_COLLAB_ID = 8"

definition is_remote :: "replica_id \<Rightarrow> bool" where
  "is_remote r \<longleftrightarrow> r = REMOTE_SERVER \<or> FIRST_COLLAB_ID \<le> r"

datatype lamport = Lamport (lamport_value: seq) (lamport_replica: replica_id)

definition lamport_cmp :: "lamport \<Rightarrow> lamport \<Rightarrow> ordering" where
  "lamport_cmp a b =
     then_with (cmp (lamport_value a) (lamport_value b)) (cmp (lamport_replica a) (lamport_replica b))"

declare lamport_cmp_def [simp]

instantiation lamport :: linorder
begin

definition less_lamport :: "lamport \<Rightarrow> lamport \<Rightarrow> bool" where
  "a < b \<longleftrightarrow> lamport_cmp a b = Less"

definition less_eq_lamport :: "lamport \<Rightarrow> lamport \<Rightarrow> bool" where
  "a \<le> b \<longleftrightarrow> lamport_cmp a b \<noteq> Greater"

instance
proof
  fix a b c :: lamport
  show "a < b \<longleftrightarrow> a \<le> b \<and> \<not> b \<le> a" "a \<le> a" "a \<le> b \<or> b \<le> a"
    by (auto simp: less_lamport_def less_eq_lamport_def cmp_def split: if_splits)
  show "a \<le> b \<Longrightarrow> b \<le> c \<Longrightarrow> a \<le> c"
    by (auto simp: less_eq_lamport_def cmp_def split: if_splits)
  show "a \<le> b \<Longrightarrow> b \<le> a \<Longrightarrow> a = b"
    by (cases a; cases b) (auto simp: less_eq_lamport_def cmp_def split: if_splits)
qed

end

definition lamport_MIN :: lamport where "lamport_MIN = Lamport 0 0"
definition lamport_MAX :: lamport where "lamport_MAX = Lamport (- 1) (- 1)"

definition lamport_new :: "replica_id \<Rightarrow> lamport" where
  "lamport_new r = Lamport 1 r"

definition as_u64 :: "lamport \<Rightarrow> u64" where
  "as_u64 t = push_bit 32 (ucast (lamport_value t)) OR ucast (lamport_replica t)"

text \<open>\<open>tick\<close> returns the current timestamp and advances the clock.\<close>

definition tick :: "lamport \<Rightarrow> lamport \<times> lamport" where
  "tick t = (Lamport (lamport_value t + 1) (lamport_replica t), t)"

definition lamport_observe :: "lamport \<Rightarrow> lamport \<Rightarrow> lamport" where
  "lamport_observe t ts = Lamport (max (lamport_value t) (lamport_value ts) + 1) (lamport_replica t)"

section \<open>Version vectors\<close>

type_synonym global = "seq list"

definition global_new :: global where
  "global_new = []"

definition global_get :: "global \<Rightarrow> replica_id \<Rightarrow> seq" where
  "global_get g r = (case list_get g (unat r) of Some v \<Rightarrow> v | None \<Rightarrow> 0)"

definition resize :: "nat \<Rightarrow> seq list \<Rightarrow> seq list" where
  "resize n xs = take n xs @ replicate (n - length xs) 0"

definition global_observe :: "global \<Rightarrow> lamport \<Rightarrow> global" where
  "global_observe g ts =
     (if 0 < lamport_value ts then
        let new_len = unat (lamport_replica ts) + 1;
            g = (if length g < new_len then resize new_len g else g)
        in g[unat (lamport_replica ts) := max (g ! unat (lamport_replica ts)) (lamport_value ts)]
      else g)"

definition global_join :: "global \<Rightarrow> global \<Rightarrow> global" where
  "global_join g other =
     (let g = (if length g < length other then resize (length other) g else g)
      in map2 max (take (length other) g) other @ drop (length other) g)"

definition meet_entry :: "seq \<Rightarrow> seq \<Rightarrow> seq" where
  "meet_entry left right = (if left = 0 then right else if right = 0 then left else min left right)"

text \<open>\<open>meet_len\<close> is the value of \<open>new_len\<close> after the loop over the processed entries.\<close>

definition meet_len :: "seq list \<Rightarrow> nat" where
  "meet_len xs = foldl (\<lambda>new_len (ix, v). if v \<noteq> 0 then ix + 1 else new_len) 0 (enumerate 0 xs)"

definition global_meet :: "global \<Rightarrow> global \<Rightarrow> global" where
  "global_meet g other =
     (let g = (if length g < length other then resize (length other) g else g);
          processed = map2 meet_entry (take (length other) g) other;
          g' = processed @ drop (length other) g
      in if length other = length g then take (meet_len processed) g' else g')"

definition global_observed :: "global \<Rightarrow> lamport \<Rightarrow> bool" where
  "global_observed g ts \<longleftrightarrow> lamport_value ts \<le> global_get g (lamport_replica ts)"

definition global_iter :: "global \<Rightarrow> lamport list" where
  "global_iter g = map (\<lambda>(ix, v). Lamport v (of_nat ix)) (enumerate 0 g)"

definition observed_any :: "global \<Rightarrow> global \<Rightarrow> bool" where
  "observed_any g other \<longleftrightarrow>
     list_ex (\<lambda>(l, r). 0 < lamport_value r \<and> lamport_value r \<le> lamport_value l) (zip (global_iter g) (global_iter other))"

definition observed_all :: "global \<Rightarrow> global \<Rightarrow> bool" where
  "observed_all g other \<longleftrightarrow>
     (if length g < length other then False
      else list_all (\<lambda>(l, r). lamport_value r \<le> lamport_value l) (zip (global_iter g) (global_iter other)))"

definition changed_since :: "global \<Rightarrow> global \<Rightarrow> bool" where
  "changed_since g other \<longleftrightarrow> length other < length g \<or> list_ex (\<lambda>(l, r). r < l) (zip g other)"

text \<open>\<open>max_by_key\<close> keeps the last of several maximal elements.\<close>

definition most_recent :: "global \<Rightarrow> lamport option" where
  "most_recent g = fold (\<lambda>t best. case best of None \<Rightarrow> Some t
     | Some b \<Rightarrow> if lamport_value b \<le> lamport_value t then Some t else Some b) (global_iter g) None"

definition global_from_iter :: "lamport list \<Rightarrow> global" where
  "global_from_iter locals = foldl global_observe global_new locals"

section \<open>Timestamps\<close>

lemma lamport_less_iff:
  "a < b \<longleftrightarrow> lamport_value a < lamport_value b \<or> lamport_value a = lamport_value b \<and> lamport_replica a < lamport_replica b"
  for a b :: lamport
  by (auto simp: less_lamport_def cmp_def )

lemma lamport_MIN_least [simp]: "lamport_MIN \<le> t"
  by (cases t) (auto simp: lamport_MIN_def less_eq_lamport_def cmp_def word_greater_zero_iff split: if_splits)

lemma unat_eq_iff: "unat a = unat b \<longleftrightarrow> a = b" for a b :: "'a::len word"
  by (simp add: word_unat_eq_iff)

lemma unat_ucast_up: "LENGTH('a) \<le> LENGTH('b) \<Longrightarrow> unat (ucast (x :: 'a::len word) :: 'b::len word) = unat x"
  by (simp add: unsigned_ucast_eq take_bit_nat_eq_self_iff less_le_trans [OF unsigned_less])

lemma unat_as_u64: "unat (as_u64 t) = unat (lamport_value t) * 2 ^ 32 + unat (lamport_replica t)"
proof -
  have "push_bit 32 (ucast (lamport_value t)) AND (ucast (lamport_replica t) :: u64) = 0"
    by (rule bit_word_eqI) (auto simp: bit_simps dest: bit_imp_le_length)
  then have "as_u64 t = push_bit 32 (ucast (lamport_value t)) + ucast (lamport_replica t)"
    by (simp add: as_u64_def disjunctive_add_eq_or)
  moreover have "unat (push_bit 32 (ucast (lamport_value t)) :: u64) = unat (lamport_value t) * 2 ^ 32"
    using unsigned_less [of "lamport_value t", where 'a = nat]
    by (simp add: push_bit_eq_mult unat_word_ariths unat_ucast_up)
  moreover have "unat (ucast (lamport_replica t) :: u64) = unat (lamport_replica t)"
    by (simp add: unat_ucast_up)
  ultimately show ?thesis
    using unsigned_less [of "lamport_value t", where 'a = nat] unsigned_less [of "lamport_replica t", where 'a = nat]
    by (simp add: unat_word_ariths)
qed

lemma as_u64_less_iff: "as_u64 a < as_u64 b \<longleftrightarrow> a < b"
  using unsigned_less [of "lamport_replica a", where 'a = nat] unsigned_less [of "lamport_replica b", where 'a = nat]
  by (auto simp: word_less_nat_alt unat_as_u64 lamport_less_iff word_unat_eq_iff)

lemma word_less_Suc: "x \<noteq> - 1 \<Longrightarrow> x < x + 1" for x :: "'a::len word"
proof -
  assume "x \<noteq> - 1"
  then have "x + 1 \<noteq> 0"
    by (metis add.commute add_minus_cancel minus_add_cancel add.right_neutral)
  then have "unat (x + 1) = Suc (unat x)"
    using unatSuc [of x] by (simp add: add.commute)
  then show "x < x + 1" by (simp add: word_less_nat_alt)
qed

lemma tick_less:
  assumes "lamport_value t \<noteq> - 1"
  shows "t < fst (tick t)"
proof -
  have "lamport_value t < lamport_value t + 1"
    by (rule word_less_Suc [OF assms])
  then show ?thesis by (simp add: tick_def lamport_less_iff)
qed

section \<open>Version vectors\<close>

text \<open>Version vectors are canonical: the last entry is not 0.\<close>

definition global_ok :: "global \<Rightarrow> bool" where
  "global_ok g \<longleftrightarrow> length g \<le> 2 ^ 16 \<and> (g = [] \<or> last g \<noteq> 0)"

lemma global_get_nth: "global_get g r = (if unat r < length g then g ! unat r else 0)"
  by (simp add: global_get_def list_get_def)

lemma global_ok_last: "global_ok g \<Longrightarrow> g \<noteq> [] \<Longrightarrow> g ! (length g - 1) \<noteq> 0"
  by (simp add: global_ok_def last_conv_nth)

lemma global_ok_eqI:
  assumes "global_ok g" "global_ok h" "\<And>r. global_get g r = global_get h r"
  shows "g = h"
proof -
  have nth: "(if i < length g then g ! i else 0) = (if i < length h then h ! i else 0)" if "i < 2 ^ 16" for i
    using assms(3) [of "of_nat i"] that by (auto simp: global_get_nth of_nat_inverse split: if_splits)
  have "length g = length h"
  proof (rule ccontr)
    assume "length g \<noteq> length h"
    then show False
    proof (cases "length g < length h")
      case True
      then have "length h - 1 < 2 ^ 16" "length h - 1 < length h" "\<not> length h - 1 < length g"
        using assms(2) by (auto simp: global_ok_def)
      from nth [OF this(1)] this(2,3) have "h ! (length h - 1) = 0" by simp
      with True global_ok_last [OF assms(2)] show False by fastforce
    next
      case False
      with \<open>length g \<noteq> length h\<close> have less: "length h < length g" by simp
      then have "length g - 1 < 2 ^ 16" "length g - 1 < length g" "\<not> length g - 1 < length h"
        using assms(1) by (auto simp: global_ok_def)
      from nth [OF this(1)] this(2,3) have "g ! (length g - 1) = 0" by simp
      with less global_ok_last [OF assms(1)] show False by fastforce
    qed
  qed
  moreover have "g ! i = h ! i" if "i < length g" for i
    using nth [of i] that \<open>length g = length h\<close> assms(1) by (auto simp: global_ok_def split: if_splits)
  ultimately show ?thesis by (rule nth_equalityI)
qed

lemma nth_resize: "i < n \<Longrightarrow> resize n g ! i = (if i < length g then g ! i else 0)"
  by (auto simp: resize_def nth_append)

lemma length_resize [simp]: "length (resize n g) = n"
  by (simp add: resize_def)

lemma global_get_resize: "length g \<le> n \<Longrightarrow> global_get (resize n g) r = global_get g r"
  by (simp add: global_get_nth nth_resize)

lemma get_observe:
  "global_get (global_observe g ts) r =
     (if r = lamport_replica ts then max (global_get g r) (lamport_value ts) else global_get g r)"
  by (cases "lamport_value ts = 0")
    (auto simp: global_observe_def Let_def global_get_nth nth_resize nth_list_update unat_eq_iff word_neq_0_conv [symmetric]
      simp del: word_neq_0_conv split: if_splits)

lemma ok_observe:
  assumes "global_ok g"
  shows "global_ok (global_observe g ts)"
proof (cases "0 < lamport_value ts")
  case True
  let ?i = "unat (lamport_replica ts)"
  have i: "?i < 2 ^ 16" using unsigned_less [of "lamport_replica ts", where 'a = nat] by simp
  have m: "max v (lamport_value ts) \<noteq> 0" for v
    using True by (metis max_less_iff_conj not_less_iff_gr_or_eq max.strict_coboundedI2)
  show ?thesis
  proof (cases "length g < ?i + 1")
    case True
    with \<open>0 < lamport_value ts\<close> m i show ?thesis
      by (simp add: global_observe_def Let_def global_ok_def last_conv_nth length_0_conv [symmetric] del: length_0_conv)
  next
    case False
    with \<open>0 < lamport_value ts\<close> m assms show ?thesis
      by (auto simp: global_observe_def Let_def global_ok_def last_list_update split: if_splits)
  qed
qed (use assms in \<open>simp add: global_observe_def\<close>)

lemma nth_join:
  assumes "i < max (length g) (length other)"
  shows "global_join g other ! i =
    max (if i < length g then g ! i else 0) (if i < length other then other ! i else 0)"
  using assms by (auto simp: global_join_def Let_def nth_append nth_resize min_def max_def)

lemma length_join [simp]: "length (global_join g other) = max (length g) (length other)"
  by (simp add: global_join_def Let_def)

lemma get_join: "global_get (global_join g other) r = max (global_get g r) (global_get other r)"
  by (auto simp: global_get_nth nth_join)

lemma ok_join:
  assumes "global_ok g" "global_ok other"
  shows "global_ok (global_join g other)"
proof (cases "global_join g other = []")
  case False
  let ?n = "max (length g) (length other)"
  have n: "?n \<noteq> 0" using False by (metis length_join length_0_conv)
  have "last (global_join g other) = global_join g other ! (?n - 1)"
    using False by (simp add: last_conv_nth)
  also have "\<dots> \<noteq> 0"
  proof (cases "length g < length other")
    case True
    then show ?thesis
      using n global_ok_last [OF assms(2)] by (auto simp: nth_join max_def)
  next
    case False
    then show ?thesis
      using n global_ok_last [OF assms(1)] by (auto simp: nth_join max_def)
  qed
  finally show ?thesis using assms by (simp add: global_ok_def)
qed (simp add: global_ok_def)

lemma zip_all: "list_all (\<lambda>(l, r). P l r) (zip xs ys) \<longleftrightarrow> (\<forall>i. i < length xs \<longrightarrow> i < length ys \<longrightarrow> P (xs ! i) (ys ! i))"
  by (auto simp: list_all_iff in_set_zip)

lemma zip_ex: "list_ex (\<lambda>(l, r). P l r) (zip xs ys) \<longleftrightarrow> (\<exists>i < length xs. i < length ys \<and> P (xs ! i) (ys ! i))"
  by (force simp: list_ex_iff in_set_zip)

lemma length_global_iter [simp]: "length (global_iter g) = length g"
  by (simp add: global_iter_def)

lemma nth_global_iter [simp]: "i < length g \<Longrightarrow> lamport_value (global_iter g ! i) = g ! i"
  by (simp add: global_iter_def nth_enumerate_eq)

lemma observed_all_iff:
  assumes "global_ok other"
  shows "observed_all g other \<longleftrightarrow> (\<forall>r. global_get other r \<le> global_get g r)"
proof -
  have zip: "(\<forall>r. global_get other r \<le> global_get g r) \<longleftrightarrow>
      (\<forall>i < length other. other ! i \<le> (if i < length g then g ! i else 0))"
  proof
    assume all: "\<forall>r. global_get other r \<le> global_get g r"
    show "\<forall>i < length other. other ! i \<le> (if i < length g then g ! i else 0)"
    proof (intro allI impI)
      fix i assume "i < length other"
      then have "unat (of_nat i :: replica_id) = i"
        using assms by (simp add: global_ok_def of_nat_inverse)
      with all [rule_format, of "of_nat i"] \<open>i < length other\<close> show "other ! i \<le> (if i < length g then g ! i else 0)"
        by (auto simp: global_get_nth split: if_splits)
    qed
  qed (auto simp: global_get_nth)
  show ?thesis
  proof (cases "length g < length other")
    case True
    then have "other \<noteq> []" by auto
    with True have "other ! (length other - 1) \<noteq> 0" "length other - 1 < length other" "\<not> length other - 1 < length g"
      using global_ok_last [OF assms] by auto
    then have "\<not> (\<forall>i < length other. other ! i \<le> (if i < length g then g ! i else 0))"
      by auto
    with True show ?thesis unfolding zip by (simp add: observed_all_def)
  next
    case False
    then show ?thesis
      unfolding zip by (auto simp: observed_all_def zip_all)
  qed
qed

text \<open>For canonical vectors \<open>changed_since\<close> is the negation of \<open>observed_all\<close>.\<close>

lemma changed_since_iff:
  assumes "global_ok g"
  shows "changed_since g other \<longleftrightarrow> \<not> observed_all other g"
proof (cases "length other < length g")
  case False
  then show ?thesis
    by (auto simp: changed_since_def observed_all_def zip_all zip_ex not_le)
qed (simp add: changed_since_def observed_all_def)

lemma observed_any_iff:
  assumes "length g \<le> 2 ^ 16"
  shows "observed_any g other \<longleftrightarrow> (\<exists>r. 0 < global_get other r \<and> global_get other r \<le> global_get g r)"
proof
  assume "observed_any g other"
  then obtain i where i: "i < length g" "i < length other" "0 < other ! i" "other ! i \<le> g ! i"
    by (auto simp: observed_any_def zip_ex)
  then have "unat (of_nat i :: replica_id) = i"
    using assms by (simp add: of_nat_inverse)
  with i show "\<exists>r. 0 < global_get other r \<and> global_get other r \<le> global_get g r"
    by (intro exI [of _ "of_nat i"]) (simp add: global_get_nth)
next
  assume "\<exists>r. 0 < global_get other r \<and> global_get other r \<le> global_get g r"
  then obtain r where r: "0 < global_get other r" "global_get other r \<le> global_get g r" by blast
  then have "0 < global_get g r" by (rule less_le_trans)
  with r have "unat r < length other" "unat r < length g" "0 < other ! unat r" "other ! unat r \<le> g ! unat r"
    by (simp_all add: global_get_nth split: if_splits)
  then show "observed_any g other"
    by (auto simp: observed_any_def zip_ex intro!: exI [of _ "unat r"])
qed

lemma meet_len_snoc:
  "meet_len (xs @ [x]) = (if x \<noteq> 0 then Suc (length xs) else meet_len xs)"
  by (simp add: meet_len_def enumerate_append_eq)

lemma meet_len_props:
  "meet_len xs \<le> length xs" "meet_len xs \<le> i \<Longrightarrow> i < length xs \<Longrightarrow> xs ! i = 0"
  "meet_len xs \<noteq> 0 \<Longrightarrow> xs ! (meet_len xs - 1) \<noteq> 0"
proof -
  have "meet_len xs \<le> length xs \<and> (\<forall>i. meet_len xs \<le> i \<longrightarrow> i < length xs \<longrightarrow> xs ! i = 0) \<and>
    (meet_len xs \<noteq> 0 \<longrightarrow> xs ! (meet_len xs - 1) \<noteq> 0)"
    by (induction xs rule: rev_induct) (auto simp: meet_len_snoc nth_append meet_len_def [of "[]"] less_Suc_eq)
  then show "meet_len xs \<le> length xs" "meet_len xs \<le> i \<Longrightarrow> i < length xs \<Longrightarrow> xs ! i = 0"
    "meet_len xs \<noteq> 0 \<Longrightarrow> xs ! (meet_len xs - 1) \<noteq> 0" by blast+
qed

lemma get_meet: "global_get (global_meet g other) r = meet_entry (global_get g r) (global_get other r)"
proof -
  define g1 where "g1 = (if length g < length other then resize (length other) g else g)"
  define ps where "ps = map2 meet_entry (take (length other) g1) other"
  have len: "length other \<le> length g1" "length ps = length other"
    by (auto simp: g1_def ps_def)
  have get: "global_get g r = global_get g1 r" by (simp add: g1_def global_get_resize)
  have nth: "(ps @ drop (length other) g1) ! i = meet_entry (g1 ! i) (if i < length other then other ! i else 0)"
    if "i < length g1" for i
    using that len by (auto simp: ps_def nth_append meet_entry_def)
  have meet: "global_meet g other = (if length other = length g1 then take (meet_len ps) ps else ps @ drop (length other) g1)"
    unfolding global_meet_def Let_def g1_def [symmetric] ps_def [symmetric] using meet_len_props(1) [of ps] by simp
  have zero: "meet_entry 0 0 = 0" by (simp add: meet_entry_def)
  show ?thesis
  proof (cases "length other = length g1")
    case True
    show ?thesis
      unfolding get meet using True nth [of "unat r"] len meet_len_props(1) [of ps] meet_len_props(2) [of ps "unat r"] zero
      by (auto simp: global_get_nth) 
  next
    case False
    then show ?thesis
      unfolding get meet using nth [of "unat r"] len zero by (auto simp: global_get_nth)
  qed
qed

lemma most_recent_ok:
  "case most_recent g of None \<Rightarrow> g = []
   | Some t \<Rightarrow> t \<in> set (global_iter g) \<and> (\<forall>u \<in> set (global_iter g). lamport_value u \<le> lamport_value t)"
proof -
  let ?f = "\<lambda>t best. case best of None \<Rightarrow> Some t
     | Some b \<Rightarrow> if lamport_value b \<le> lamport_value t then Some t else Some b"
  have "case fold ?f ts None of None \<Rightarrow> ts = []
      | Some t \<Rightarrow> t \<in> set ts \<and> (\<forall>u \<in> set ts. lamport_value u \<le> lamport_value t)" for ts
    by (induction ts rule: rev_induct) (auto split: option.splits)
  from this [of "global_iter g"] show ?thesis
    unfolding most_recent_def by (simp add: global_iter_def enumerate_eq_zip split: option.splits)
qed

text \<open>A version vector is determined by the timestamps it observes.\<close>

lemma observed_le: "(\<forall>t. global_observed h t \<longrightarrow> global_observed g t) \<longleftrightarrow> (\<forall>r. global_get h r \<le> global_get g r)"
proof
  assume obs: "\<forall>t. global_observed h t \<longrightarrow> global_observed g t"
  show "\<forall>r. global_get h r \<le> global_get g r"
  proof
    fix r show "global_get h r \<le> global_get g r"
      using obs [rule_format, of "Lamport (global_get h r) r"] by (simp add: global_observed_def)
  qed
qed (auto simp: global_observed_def intro: order_trans)

lemma observed_all_observed:
  "global_ok h \<Longrightarrow> observed_all g h \<longleftrightarrow> (\<forall>t. global_observed h t \<longrightarrow> global_observed g t)"
  by (simp add: observed_all_iff observed_le)

lemma observed_eqI:
  assumes "global_ok g" "global_ok h"
  shows "(\<forall>t. global_observed g t \<longleftrightarrow> global_observed h t) \<longrightarrow> g = h"
  using observed_le [of g h] observed_le [of h g] by (auto intro!: global_ok_eqI [OF assms] order_antisym)

end
