(* ===== verification/Undo_Map.thy ===== *)
theory Undo_Map
  imports SumTree_Keyed Clock "HOL-Library.Product_Lexorder"
begin

text \<open>
  \<open>crates/text/src/undo_map.rs\<close>: how often each edit was undone.  The entries are keyed by the edit
  and the undo operation, in lexicographic order; the undo count of an edit is the greatest count
  any undo operation recorded for it.  A hash map of the source is an association list with
  distinct keys here; no result depends on its order.
\<close>

section \<open>Definitions\<close>

record undo_operation =
  undo_timestamp :: lamport
  undo_version :: global
  undo_counts :: "(lamport \<times> u32) list"

type_synonym undo_map_key = "lamport \<times> lamport"

record undo_map_entry =
  ume_key :: undo_map_key
  ume_count :: u32

type_synonym undo_map = "(undo_map_entry, undo_map_key) sum_tree"

definition undo_key_zero :: undo_map_key where
  "undo_key_zero = (lamport_MIN, lamport_MIN)"

definition undo_entry_impl :: "(undo_map_entry, undo_map_key) item_impl" where
  "undo_entry_impl = \<lparr>item_summary = ume_key, summary_zero = undo_key_zero, add_summary = max\<rparr>"

definition undo_keyed :: "(undo_map_entry, undo_map_key, undo_map_key) keyed_impl" where
  "undo_keyed = \<lparr>keyed_item = undo_entry_impl, item_key = ume_key, key_dim = summary_dimension undo_entry_impl\<rparr>"

definition undo_map_default :: undo_map where
  "undo_map_default = tree_new undo_entry_impl"

definition undo_map_insert :: "undo_map \<Rightarrow> undo_operation \<Rightarrow> undo_map option" where
  "undo_map_insert m undo = do {
     (m', _) \<leftarrow> tree_edit undo_keyed m
       (map (\<lambda>(edit_id, count). Insert \<lparr>ume_key = (edit_id, undo_timestamp undo), ume_count = count\<rparr>) (undo_counts undo));
     Some m' }"

text \<open>
  The loop over the cursor, common to \<open>undo_count\<close> and \<open>was_undone\<close>; \<open>seen\<close> selects the undo
  operations to count.  The fuel is the number of entries plus one.
\<close>

fun undo_loop ::
  "lamport \<Rightarrow> (lamport \<Rightarrow> bool) \<Rightarrow> nat \<Rightarrow> (undo_map_entry, undo_map_key, undo_map_key) cursor \<Rightarrow> u32 \<Rightarrow> u32 option" where
  "undo_loop edit_id seen 0 c undo_count = None"
| "undo_loop edit_id seen (Suc n) c undo_count = do {
     (c', entry) \<leftarrow> cursor_iter_next (key_dim undo_keyed) c;
     (case entry of
        None \<Rightarrow> Some undo_count
      | Some entry \<Rightarrow>
          if fst (ume_key entry) \<noteq> edit_id then Some undo_count
          else undo_loop edit_id seen n c'
            (if seen (snd (ume_key entry)) then max undo_count (ume_count entry) else undo_count)) }"

definition undo_scan :: "undo_map \<Rightarrow> lamport \<Rightarrow> (lamport \<Rightarrow> bool) \<Rightarrow> u32 option" where
  "undo_scan m edit_id seen = do {
     (c, _) \<leftarrow> seek (key_dim undo_keyed) (ord_target (edit_id, lamport_MIN)) Left (cursor_new (key_dim undo_keyed) m);
     undo_loop edit_id seen (Suc (length (tree_items m))) c 0 }"

definition undo_count :: "undo_map \<Rightarrow> lamport \<Rightarrow> u32 option" where
  "undo_count m edit_id = undo_scan m edit_id (\<lambda>_. True)"

definition is_undone :: "undo_map \<Rightarrow> lamport \<Rightarrow> bool option" where
  "is_undone m edit_id = do { n \<leftarrow> undo_count m edit_id; Some (n mod 2 = 1) }"

definition was_undone :: "undo_map \<Rightarrow> lamport \<Rightarrow> global \<Rightarrow> bool option" where
  "was_undone m edit_id version = do {
     n \<leftarrow> undo_scan m edit_id (global_observed version);
     Some (n mod 2 = 1) }"

section \<open>Interpretation and abstraction\<close>

lemma undo_key_zero_least [simp]: "undo_key_zero \<le> k"
  by (simp add: undo_key_zero_def less_eq_prod_def)

lemma undo_keyed_simps [simp]:
  "keyed_item undo_keyed = undo_entry_impl" "item_key undo_keyed = ume_key"
  "key_dim undo_keyed = \<lparr>dim_zero = undo_key_zero, dim_add = max\<rparr>"
  by (simp_all add: undo_keyed_def summary_dimension_def undo_entry_impl_def)

interpretation undo_tree: keyed undo_keyed
  by unfold_locales (auto simp: undo_entry_impl_def max_def)

definition undo_map_ok :: "undo_map \<Rightarrow> bool" where
  "undo_map_ok m \<longleftrightarrow> wf_tree undo_entry_impl m \<and> key_sorted undo_keyed (tree_items m)"

definition undo_map_abs :: "undo_map \<Rightarrow> lamport \<Rightarrow> lamport \<Rightarrow> u32 option" where
  "undo_map_abs m edit_id undo_id = map_option ume_count (list_lookup undo_keyed (tree_items m) (edit_id, undo_id))"

lemma undo_map_abs_Some:
  assumes "undo_map_ok m"
  shows "undo_map_abs m e u = Some n \<longleftrightarrow> \<lparr>ume_key = (e, u), ume_count = n\<rparr> \<in> set (tree_items m)"
proof -
  have "undo_map_abs m e u = Some n \<longleftrightarrow> (\<exists>x. list_lookup undo_keyed (tree_items m) (e, u) = Some x \<and> ume_count x = n)"
    by (auto simp: undo_map_abs_def)
  also have "\<dots> \<longleftrightarrow> (\<exists>x \<in> set (tree_items m). ume_key x = (e, u) \<and> ume_count x = n)"
    using list_lookup_Some [of undo_keyed "tree_items m"] assms by (auto simp: undo_map_ok_def)
  also have "\<dots> \<longleftrightarrow> \<lparr>ume_key = (e, u), ume_count = n\<rparr> \<in> set (tree_items m)"
    by (metis undo_map_entry.select_convs(1,2) undo_map_entry.surjective old.unit.exhaust)
  finally show ?thesis .
qed

section \<open>Inserting an undo operation\<close>

lemma undo_map_insert_correct:
  assumes ok: "undo_map_ok m" "node_height m < STACK_CAP" and distinct: "distinct (map fst (undo_counts undo))"
  shows "\<exists>r. undo_map_insert m undo = Some r \<and> undo_map_ok r \<and>
    (\<forall>e u. undo_map_abs r e u =
      (if u = undo_timestamp undo then
         (case map_of (undo_counts undo) e of Some n \<Rightarrow> Some n | None \<Rightarrow> undo_map_abs m e u)
       else undo_map_abs m e u))"
proof -
  let ?t = "undo_timestamp undo"
  let ?es = "map (\<lambda>(e, n). Insert \<lparr>ume_key = (e, ?t), ume_count = n\<rparr>) (undo_counts undo) :: (undo_map_entry, undo_map_key) edit list"
  let ?key = "edit_key undo_keyed"
  have keys: "map ?key ?es = map ((\<lambda>e. (e, ?t)) \<circ> fst) (undo_counts undo)"
    by auto
  have dist: "distinct (map ?key ?es)"
    unfolding keys using distinct by (simp add: distinct_map) (auto simp: inj_on_def)
  obtain r old where r: "tree_edit undo_keyed m ?es = Some (r, old)" "wf_tree undo_entry_impl r"
    "tree_items r = merge_edits undo_keyed (sort_key ?key ?es) (tree_items m)"
    using undo_tree.tree_edit_ok [of m ?es] dist ok by (auto simp: undo_map_ok_def)
  note sorted = undo_tree.sort_edits [OF dist]
  have ok': "undo_map_ok r"
    using merge_edits_sorted [OF _ sorted] ok(1) r by (simp add: undo_map_ok_def)
  have keys': "?key ` set ?es = (\<lambda>e. (e, ?t)) ` fst ` set (undo_counts undo)"
    using arg_cong [OF keys, of set] by (simp add: image_comp)
  have ins: "Insert \<lparr>ume_key = (e, u), ume_count = n\<rparr> \<in> set ?es \<longleftrightarrow> u = ?t \<and> (e, n) \<in> set (undo_counts undo)" for e u n
    by force
  have entries: "set (tree_items r) = {x \<in> set (tree_items m). ume_key x \<notin> ?key ` set ?es} \<union> {x. Insert x \<in> set ?es}"
    using merge_edits_set [OF _ sorted, of "tree_items m"] ok(1) r(3) by (simp add: undo_map_ok_def)
  have Some_iff: "undo_map_abs r e u = Some n \<longleftrightarrow>
      (undo_map_abs m e u = Some n \<and> \<not> (u = ?t \<and> e \<in> fst ` set (undo_counts undo))) \<or> u = ?t \<and> map_of (undo_counts undo) e = Some n"
    for e u n
  proof -
    have "(e, u) \<in> (\<lambda>e. (e, ?t)) ` fst ` set (undo_counts undo) \<longleftrightarrow> u = ?t \<and> e \<in> fst ` set (undo_counts undo)"
      by blast
    then show ?thesis
      unfolding undo_map_abs_Some [OF ok'] undo_map_abs_Some [OF ok(1)] entries keys'
      unfolding Un_iff mem_Collect_eq ins map_of_eq_Some_iff [OF distinct] undo_map_entry.select_convs by blast
  qed
  have "undo_map_abs r e u = (if u = ?t then
         (case map_of (undo_counts undo) e of Some n \<Rightarrow> Some n | None \<Rightarrow> undo_map_abs m e u)
       else undo_map_abs m e u)" for e u
  proof (cases "u = ?t")
    case False
    with Some_iff [of e u] show ?thesis by (intro option_eqI) simp
  next
    case True
    have "e \<in> fst ` set (undo_counts undo) \<longleftrightarrow> map_of (undo_counts undo) e \<noteq> None"
      by (simp add: map_of_eq_None_iff)
    with True Some_iff [of e u] show ?thesis
      by (intro option_eqI) (auto split: option.splits)
  qed
  with r(1) ok' show ?thesis by (auto simp: undo_map_insert_def)
qed

section \<open>Undo counts\<close>

text \<open>The greatest count that a set of undo operations recorded for an edit.\<close>

definition max_count :: "undo_map_entry list \<Rightarrow> lamport \<Rightarrow> (lamport \<Rightarrow> bool) \<Rightarrow> u32" where
  "max_count xs edit_id seen =
     foldl max 0 (map ume_count (filter (\<lambda>x. fst (ume_key x) = edit_id \<and> seen (snd (ume_key x))) xs))"

lemma undo_loop_ok:
  assumes "cursor_at undo_entry_impl (key_dim undo_keyed) c ys zs" "did_seek c" "length zs < n"
    and "sorted_wrt (\<lambda>x y. ume_key x < ume_key y) zs" "\<forall>z \<in> set zs. edit_id \<le> fst (ume_key z)"
  shows "undo_loop edit_id seen n c acc = Some
    (foldl max acc (map ume_count (filter (\<lambda>x. fst (ume_key x) = edit_id \<and> seen (snd (ume_key x))) zs)))"
  using assms
proof (induction n arbitrary: c ys zs acc)
  case (Suc n)
  let ?D = "key_dim undo_keyed"
  let ?sel = "\<lambda>x. fst (ume_key x) = edit_id \<and> seen (snd (ume_key x))"
  have item: "cursor_item c = Some (list_first zs)"
    using cursor_at_item(1) [OF Suc.prems(1,2)] .
  obtain c' where c': "cursor_next ?D c = Some c'" "did_seek c'" "cursor_at undo_entry_impl ?D c' (ys @ take 1 zs) (drop 1 zs)"
    using undo_tree.cursor_next_ok [of c ys zs] Suc.prems(1,2) by auto
  show ?case
  proof (cases zs)
    case Nil
    with item Suc.prems(2) show ?thesis by (simp add: cursor_iter_next_def del: undo_keyed_simps)
  next
    case (Cons z zs')
    have step: "cursor_iter_next ?D c = Some (c', Some z)"
      using item c'(1) Suc.prems(2) Cons by (simp add: cursor_iter_next_def del: undo_keyed_simps)
    show ?thesis
    proof (cases "fst (ume_key z) = edit_id")
      case True
      let ?acc = "if seen (snd (ume_key z)) then max acc (ume_count z) else acc"
      have "undo_loop edit_id seen n c' ?acc = Some (foldl max ?acc (map ume_count (filter ?sel zs')))"
        using Suc.IH [OF c'(3,2)] Suc.prems Cons by simp
      with True step Cons show ?thesis by (simp del: undo_keyed_simps)
    next
      case False
      then have "edit_id < fst (ume_key z)" using Suc.prems(5) Cons by (simp add: order.not_eq_order_implies_strict)
      then have "\<forall>x \<in> set zs'. edit_id < fst (ume_key x)"
        using Suc.prems(4) Cons by (auto simp: less_prod_def dest: less_le_trans order.strict_trans)
      then have "filter ?sel zs = []" using False Cons by (auto simp: filter_empty_conv)
      with False step show ?thesis by (simp del: undo_keyed_simps)
    qed
  qed
qed simp

lemma undo_scan_correct:
  assumes ok: "undo_map_ok m" "node_height m < STACK_CAP"
  shows "undo_scan m edit_id seen = Some (max_count (tree_items m) edit_id seen)"
proof -
  let ?D = "key_dim undo_keyed"
  let ?k = "(edit_id, lamport_MIN)"
  have wf: "wf_tree undo_entry_impl m" and sorted: "key_sorted undo_keyed (tree_items m)"
    using ok by (auto simp: undo_map_ok_def)
  have past: "ume_key x < ?k \<longleftrightarrow> fst (ume_key x) < edit_id" for x
    using leD [OF lamport_MIN_least [of "snd (ume_key x)"]] by (cases "ume_key x") (auto simp: less_prod_def)
  have split: "seek_split undo_entry_impl ?D (target_past (ord_target ?k) Left) (dim_zero ?D) ([] @ tree_items m) =
      (filter (\<lambda>x. fst (ume_key x) < edit_id) (tree_items m), filter (\<lambda>x. edit_id \<le> fst (ume_key x)) (tree_items m))"
    using undo_tree.seek_split_key [of "tree_items m" undo_key_zero "target_past (ord_target ?k) Left"] sorted
      key_sorted_split(1,2) [OF sorted, of ?k]
    by (simp add: undo_tree.past_left past not_less [symmetric] leD [OF undo_key_zero_least])
  have mono: "seek_mono undo_entry_impl ?D (target_past (ord_target ?k) Left) (dim_zero ?D) ([] @ tree_items m)"
    using undo_tree.key_seek_mono [of "tree_items m" undo_key_zero] sorted by simp
  have ge: "ord_target ?k (dim_zero ?D) \<noteq> Less"
    using leD [OF undo_key_zero_least [of ?k]] by (auto simp: ord_target_def cmp_def)
  obtain c f where c: "seek ?D (ord_target ?k) Left (cursor_new ?D m) = Some (c, f)" "did_seek c"
    "cursor_at undo_entry_impl ?D c (filter (\<lambda>x. fst (ume_key x) < edit_id) (tree_items m)) (filter (\<lambda>x. edit_id \<le> fst (ume_key x)) (tree_items m))"
    using undo_tree.seek_ok [unfolded undo_keyed_simps(1), OF cursor_at_new [OF wf ok(2)] mono ge split] by blast
  have len: "length (filter (\<lambda>x. edit_id \<le> fst (ume_key x)) (tree_items m)) < Suc (length (tree_items m))"
    using length_filter_le [of "\<lambda>x. edit_id \<le> fst (ume_key x)" "tree_items m"] by linarith
  have "filter (\<lambda>x. fst (ume_key x) = edit_id \<and> seen (snd (ume_key x))) (filter (\<lambda>x. edit_id \<le> fst (ume_key x)) (tree_items m)) =
      filter (\<lambda>x. fst (ume_key x) = edit_id \<and> seen (snd (ume_key x))) (tree_items m)"
    unfolding filter_filter by (rule filter_cong) auto
  moreover have "undo_loop edit_id seen (Suc (length (tree_items m))) c 0 = Some (foldl max 0 (map ume_count
      (filter (\<lambda>x. fst (ume_key x) = edit_id \<and> seen (snd (ume_key x))) (filter (\<lambda>x. edit_id \<le> fst (ume_key x)) (tree_items m)))))"
    by (rule undo_loop_ok [OF c(3,2) len]) (use sorted in \<open>simp_all add: sorted_wrt_filter\<close>)
  ultimately show ?thesis
    unfolding undo_scan_def c(1) max_count_def by simp
qed

lemma word_odd_mod: "(n :: u32) mod 2 = 1 \<longleftrightarrow> odd (unat n)"
proof -
  have "odd n \<longleftrightarrow> odd (unat n)" by transfer (simp add: even_nat_iff even_take_bit_eq)
  then show ?thesis by (simp add: odd_iff_mod_2_eq_one)
qed

end
