(* ===== verification/Patch.thy ===== *)
theory Patch
  imports Prelude
begin

text \<open>
  \<open>crates/text/src/patch.rs\<close> and \<open>crates/text/src/subscription.rs\<close>.  A patch is a list of edits,
  each replacing an old range by a new range of offsets.  Offsets are natural numbers; a
  subtraction that would underflow is a panic (\<open>None\<close>).  The meaning of a patch is a relation
  between an old and a new text, and composition of patches is shown to implement composition of
  these relations.
\<close>

section \<open>Definitions\<close>

record pedit =
  old_start :: nat
  old_end :: nat
  new_start :: nat
  new_end :: nat

type_synonym patch = "pedit list"

definition mk_edit :: "nat \<Rightarrow> nat \<Rightarrow> nat \<Rightarrow> nat \<Rightarrow> pedit" where
  "mk_edit os oe ns ne = \<lparr>old_start = os, old_end = oe, new_start = ns, new_end = ne\<rparr>"

definition edit_is_empty :: "pedit \<Rightarrow> bool" where
  "edit_is_empty e \<longleftrightarrow> old_start e = old_end e \<and> new_start e = new_end e"

definition sub :: "nat \<Rightarrow> nat \<Rightarrow> nat option" where
  "sub a b = (if b \<le> a then Some (a - b) else None)"

definition old_len :: "pedit \<Rightarrow> nat option" where
  "old_len e = sub (old_end e) (old_start e)"

definition new_len :: "pedit \<Rightarrow> nat option" where
  "new_len e = sub (new_end e) (new_start e)"

definition patch_empty :: patch where
  "patch_empty = []"

text \<open>The order that \<open>Patch::new\<close> asserts in debug builds.\<close>

fun edits_separated :: "pedit list \<Rightarrow> bool" where
  "edits_separated (e # f # es) \<longleftrightarrow>
     old_end e < old_start f \<and> new_end e < new_start f \<and> edits_separated (f # es)"
| "edits_separated _ \<longleftrightarrow> True"

definition patch_new :: "pedit list \<Rightarrow> patch option" where
  "patch_new edits = (if edits_separated edits then Some edits else None)"

definition invert_edit :: "pedit \<Rightarrow> pedit" where
  "invert_edit e = mk_edit (new_start e) (new_end e) (old_start e) (old_end e)"

definition patch_invert :: "patch \<Rightarrow> patch" where
  "patch_invert p = map invert_edit p"

definition patch_clear :: "patch \<Rightarrow> patch" where
  "patch_clear p = []"

definition patch_is_empty :: "patch \<Rightarrow> bool" where
  "patch_is_empty p \<longleftrightarrow> p = []"

definition push_maybe_empty :: "patch \<Rightarrow> pedit \<Rightarrow> patch" where
  "push_maybe_empty p e =
     (case list_last p of
        Some l \<Rightarrow>
          if old_start e \<le> old_end l then butlast p @ [l\<lparr>old_end := old_end e, new_end := new_end e\<rparr>]
          else p @ [e]
      | None \<Rightarrow> p @ [e])"

definition patch_push :: "patch \<Rightarrow> pedit \<Rightarrow> patch" where
  "patch_push p e = (if edit_is_empty e then p else push_maybe_empty p e)"

text \<open>
  The three cases of the loop of \<open>compose\<close>.  Each returns the new start offsets in the old and in
  the new text, the extended patch, and the edits it puts back at the head of the two iterators.
\<close>

definition compose_old :: "pedit \<Rightarrow> nat \<Rightarrow> nat \<Rightarrow> patch \<Rightarrow> (nat \<times> nat \<times> patch) option" where
  "compose_old old_edit ostart nstart composed = do {
     catchup \<leftarrow> sub (old_start old_edit) ostart;
     ol \<leftarrow> old_len old_edit;
     nl \<leftarrow> new_len old_edit;
     let ostart = ostart + catchup; let nstart = nstart + catchup;
     let oend = ostart + ol; let nend = nstart + nl;
     Some (oend, nend, patch_push composed (mk_edit ostart oend nstart nend)) }"

definition compose_new :: "pedit \<Rightarrow> nat \<Rightarrow> nat \<Rightarrow> patch \<Rightarrow> (nat \<times> nat \<times> patch) option" where
  "compose_new new_edit ostart nstart composed = do {
     catchup \<leftarrow> sub (new_start new_edit) nstart;
     ol \<leftarrow> old_len new_edit;
     nl \<leftarrow> new_len new_edit;
     let ostart = ostart + catchup; let nstart = nstart + catchup;
     let oend = ostart + ol; let nend = nstart + nl;
     Some (oend, nend, patch_push composed (mk_edit ostart oend nstart nend)) }"

definition compose_align ::
  "pedit \<Rightarrow> pedit \<Rightarrow> nat \<Rightarrow> nat \<Rightarrow> patch \<Rightarrow> (pedit \<times> pedit \<times> nat \<times> nat \<times> patch) option" where
  "compose_align old_edit new_edit ostart nstart composed =
     (if new_start old_edit < old_start new_edit then do {
        catchup \<leftarrow> sub (old_start old_edit) ostart;
        let ostart = ostart + catchup; let nstart = nstart + catchup;
        overshoot \<leftarrow> sub (old_start new_edit) (new_start old_edit);
        let oend = min (ostart + overshoot) (old_end old_edit);
        let nend = nstart + overshoot;
        Some (old_edit\<lparr>old_start := oend, new_start := new_start old_edit + overshoot\<rparr>, new_edit, oend, nend,
              patch_push composed (mk_edit ostart oend nstart nend)) }
      else do {
        catchup \<leftarrow> sub (new_start new_edit) nstart;
        let ostart = ostart + catchup; let nstart = nstart + catchup;
        overshoot \<leftarrow> sub (new_start old_edit) (old_start new_edit);
        let oend = ostart + overshoot;
        let nend = min (nstart + overshoot) (new_end new_edit);
        Some (old_edit, new_edit\<lparr>old_start := old_start new_edit + overshoot, new_start := nend\<rparr>, oend, nend,
              patch_push composed (mk_edit ostart oend nstart nend)) })"

text \<open>After alignment the edit that ends first is consumed (\<open>True\<close>: the new edit).\<close>

definition compose_overlap ::
  "pedit \<Rightarrow> pedit \<Rightarrow> nat \<Rightarrow> nat \<Rightarrow> patch \<Rightarrow> (bool \<times> pedit \<times> nat \<times> nat \<times> patch) option" where
  "compose_overlap old_edit new_edit ostart nstart composed =
     (if old_end new_edit < new_end old_edit then do {
        ol \<leftarrow> old_len old_edit; nol \<leftarrow> old_len new_edit; nl \<leftarrow> new_len new_edit;
        let oend = ostart + min ol nol;
        let nend = nstart + nl;
        Some (True, old_edit\<lparr>old_start := oend, new_start := old_end new_edit\<rparr>, oend, nend,
              patch_push composed (mk_edit ostart oend nstart nend)) }
      else do {
        ol \<leftarrow> old_len old_edit; onl \<leftarrow> new_len old_edit; nl \<leftarrow> new_len new_edit;
        let oend = ostart + ol;
        let nend = nstart + min onl nl;
        Some (False, new_edit\<lparr>old_start := new_end old_edit, new_start := nend\<rparr>, oend, nend,
              patch_push composed (mk_edit ostart oend nstart nend)) })"

function compose_loop :: "patch \<Rightarrow> patch \<Rightarrow> nat \<Rightarrow> nat \<Rightarrow> patch \<Rightarrow> patch option" where
  "compose_loop olds news ostart nstart composed =
     (case (olds, news) of
        ([], []) \<Rightarrow> Some composed
      | (oe # oes, []) \<Rightarrow> do {
          (ostart, nstart, composed) \<leftarrow> compose_old oe ostart nstart composed;
          compose_loop oes [] ostart nstart composed }
      | ([], ne # nes) \<Rightarrow> do {
          (ostart, nstart, composed) \<leftarrow> compose_new ne ostart nstart composed;
          compose_loop [] nes ostart nstart composed }
      | (oe # oes, ne # nes) \<Rightarrow>
          if new_end oe < old_start ne then do {
            (ostart, nstart, composed) \<leftarrow> compose_old oe ostart nstart composed;
            compose_loop oes (ne # nes) ostart nstart composed }
          else if old_end ne < new_start oe then do {
            (ostart, nstart, composed) \<leftarrow> compose_new ne ostart nstart composed;
            compose_loop (oe # oes) nes ostart nstart composed }
          else do {
            (oe, ne, ostart, nstart, composed) \<leftarrow> compose_align oe ne ostart nstart composed;
            (consumed_new, e, ostart, nstart, composed) \<leftarrow> compose_overlap oe ne ostart nstart composed;
            if consumed_new then compose_loop (e # oes) nes ostart nstart composed
            else compose_loop oes (e # nes) ostart nstart composed })"
  by pat_completeness auto
termination
  by (relation "measure (\<lambda>(olds, news, _). length olds + length news)") auto

declare compose_loop.simps [simp del]

definition patch_compose :: "patch \<Rightarrow> pedit list \<Rightarrow> patch option" where
  "patch_compose p new_edits = compose_loop p new_edits 0 0 []"

text \<open>\<open>binary_search_by\<close> on strictly increasing starts: \<open>Inl\<close> is \<open>Ok\<close>, \<open>Inr\<close> is \<open>Err\<close>.\<close>

definition search_start :: "patch \<Rightarrow> nat \<Rightarrow> nat + nat" where
  "search_start p old =
     (let ix = length (takeWhile (\<lambda>e. old_start e < old) p)
      in if ix < length p \<and> old_start (p ! ix) = old then Inl ix else Inr ix)"

definition old_to_new :: "patch \<Rightarrow> nat \<Rightarrow> nat" where
  "old_to_new p old =
     (case (case search_start p old of Inl ix \<Rightarrow> Some ix | Inr ix \<Rightarrow> if ix = 0 then None else Some (ix - 1)) of
        None \<Rightarrow> old
      | Some ix \<Rightarrow>
          (case list_get p ix of
             Some e \<Rightarrow> if old_end e \<le> old then new_end e + (old - old_end e) else new_start e
           | None \<Rightarrow> old))"

definition edit_for_old_position :: "patch \<Rightarrow> nat \<Rightarrow> pedit" where
  "edit_for_old_position p old =
     (case (case search_start p old of Inl ix \<Rightarrow> Some ix | Inr ix \<Rightarrow> if ix = 0 then None else Some (ix - 1)) of
        None \<Rightarrow> mk_edit old old old old
      | Some ix \<Rightarrow>
          (case list_get p ix of
             Some e \<Rightarrow>
               if old_end e < old then
                 let translated = new_end e + (old - old_end e) in mk_edit old old translated translated
               else e
           | None \<Rightarrow> mk_edit old old old old))"

section \<open>Meaning of a patch\<close>

definition seg :: "'a list \<Rightarrow> nat \<Rightarrow> nat \<Rightarrow> 'a list" where
  "seg xs i j = take (j - i) (drop i xs)"

text \<open>
  \<open>patched es i j xs ys\<close>: from the offsets \<open>i\<close> and \<open>j\<close> on, the edits \<open>es\<close> turn \<open>xs\<close> into \<open>ys\<close>:
  the texts agree outside the ranges of the edits.
\<close>

fun patched :: "patch \<Rightarrow> nat \<Rightarrow> nat \<Rightarrow> 'a list \<Rightarrow> 'a list \<Rightarrow> bool" where
  "patched [] i j xs ys \<longleftrightarrow> i \<le> length xs \<and> j \<le> length ys \<and> drop i xs = drop j ys"
| "patched (e # es) i j xs ys \<longleftrightarrow>
     i \<le> old_start e \<and> j \<le> new_start e \<and> old_start e - i = new_start e - j \<and>
     seg xs i (old_start e) = seg ys j (new_start e) \<and>
     old_start e \<le> old_end e \<and> new_start e \<le> new_end e \<and> patched es (old_end e) (new_end e) xs ys"

text \<open>The edits in reverse order explain the texts up to the offsets \<open>i\<close> and \<open>j\<close>.\<close>

fun patched_upto :: "patch \<Rightarrow> nat \<Rightarrow> nat \<Rightarrow> 'a list \<Rightarrow> 'a list \<Rightarrow> bool" where
  "patched_upto [] i j xs ys \<longleftrightarrow> i = j \<and> take i xs = take j ys"
| "patched_upto (e # es) i j xs ys \<longleftrightarrow>
     old_end e \<le> i \<and> new_end e \<le> j \<and> i - old_end e = j - new_end e \<and>
     seg xs (old_end e) i = seg ys (new_end e) j \<and>
     old_start e \<le> old_end e \<and> new_start e \<le> new_end e \<and> patched_upto es (old_start e) (new_start e) xs ys"

lemma seg_append: "seg xs i (i + m + n) = seg xs i (i + m) @ seg xs (i + m) (i + m + n)"
  by (simp add: seg_def take_add add.assoc add.commute)

lemma seg_take: "m \<le> n \<Longrightarrow> seg xs i (i + m) = take m (seg xs i (i + n))"
  by (simp add: seg_def min_absorb1)

lemma take_seg: "take i xs @ seg xs i (i + m) = take (i + m) xs"
  by (simp add: seg_def take_add)

lemma seg_drop: "i + m \<le> length xs \<Longrightarrow> seg xs i (i + m) @ drop (i + m) xs = drop i xs"
  by (simp add: seg_def) (metis add.commute append_take_drop_id drop_drop)

lemma patched_bounds: "patched es i j xs ys \<Longrightarrow> i \<le> length xs \<and> j \<le> length ys"
  by (induction es arbitrary: i j) fastforce+

text \<open>Moving forward over text that the patch leaves unchanged.\<close>

lemma patched_step:
  assumes "patched es i j xs ys" "case es of [] \<Rightarrow> i + m \<le> length xs | e # _ \<Rightarrow> i + m \<le> old_start e"
  shows "patched es (i + m) (j + m) xs ys" "seg xs i (i + m) = seg ys j (j + m)"
proof -
  have "patched es (i + m) (j + m) xs ys \<and> seg xs i (i + m) = seg ys j (j + m)"
  proof (cases es)
    case Nil
    with assms have d: "drop i xs = drop j ys" "i + m \<le> length xs" by simp_all
    then have "length xs - i = length ys - j" by (metis length_drop)
    moreover have "drop (i + m) xs = drop (j + m) ys"
      using d by (metis add.commute drop_drop)
    ultimately show ?thesis
      using Nil assms d by (auto simp: seg_def)
  next
    case (Cons e es')
    define n where "n = old_start e - i - m"
    have e: "old_start e = i + m + n" "new_start e = j + m + n" "seg xs i (old_start e) = seg ys j (new_start e)"
      using assms Cons by (auto simp: n_def)
    then have "seg xs i (i + (m + n)) = seg ys j (j + (m + n))" by (simp add: add.assoc)
    then have "seg xs i (i + m) = seg ys j (j + m)"
      using seg_take [of m "m + n"] by (metis le_add1)
    moreover have "seg xs (i + m) (i + m + n) = seg ys (j + m) (j + m + n)"
      using \<open>seg xs i (i + (m + n)) = seg ys j (j + (m + n))\<close> unfolding seg_def
      by simp (metis add.commute drop_drop drop_take add_diff_cancel_right')
    ultimately show ?thesis
      using assms(1) Cons e by simp
  qed
  then show "patched es (i + m) (j + m) xs ys" "seg xs i (i + m) = seg ys j (j + m)" by simp_all
qed

text \<open>The same with the bound given in the new text.\<close>

lemma patched_step_new:
  assumes "patched es i j xs ys" "case es of [] \<Rightarrow> j + m \<le> length ys | e # _ \<Rightarrow> j + m \<le> new_start e"
  shows "patched es (i + m) (j + m) xs ys" "seg xs i (i + m) = seg ys j (j + m)"
proof -
  have "case es of [] \<Rightarrow> i + m \<le> length xs | e # _ \<Rightarrow> i + m \<le> old_start e"
  proof (cases es)
    case Nil
    with assms have "length xs - i = length ys - j" "i \<le> length xs" "j + m \<le> length ys"
      by (auto dest: arg_cong [of _ _ length])
    with Nil show ?thesis by simp
  next
    case (Cons e es')
    then have "i \<le> old_start e" "j \<le> new_start e" "old_start e - i = new_start e - j" "j + m \<le> new_start e"
      using assms by simp_all
    then have "i + m \<le> old_start e" by linarith
    with Cons show ?thesis by simp
  qed
  from patched_step [OF assms(1) this] show "patched es (i + m) (j + m) xs ys" "seg xs i (i + m) = seg ys j (j + m)" .
qed

text \<open>Extending an explained prefix by unchanged text and by an edit.\<close>

lemma upto_step:
  assumes "patched_upto es i j xs ys" "seg xs i (i + m) = seg ys j (j + m)"
  shows "patched_upto es (i + m) (j + m) xs ys"
proof (cases es)
  case Nil
  with assms show ?thesis using take_seg [of i xs m] take_seg [of j ys m] by auto
next
  case (Cons e es')
  then obtain n where n: "i = old_end e + n" "j = new_end e + n"
    using assms(1) by (metis le_add_diff_inverse patched_upto.simps(2))
  with Cons assms show ?thesis
    using seg_append [of xs "old_end e" n m] seg_append [of ys "new_end e" n m] by simp
qed

lemma upto_push:
  assumes "patched_upto (rev p) i j xs ys" "i \<le> i'" "j \<le> j'"
  shows "patched_upto (rev (patch_push p (mk_edit i i' j j'))) i' j' xs ys"
proof (cases "i = i' \<and> j = j'")
  case True
  with assms show ?thesis by (simp add: patch_push_def edit_is_empty_def mk_edit_def)
next
  case False
  show ?thesis
  proof (cases p rule: rev_cases)
    case Nil
    with False assms show ?thesis
      by (auto simp: patch_push_def edit_is_empty_def mk_edit_def push_maybe_empty_def seg_def)
  next
    case (snoc q l)
    with assms have l: "old_end l \<le> i" "new_end l \<le> j" "i - old_end l = j - new_end l" "old_start l \<le> old_end l"
      "new_start l \<le> new_end l" "patched_upto (rev q) (old_start l) (new_start l) xs ys"
      by simp_all
    show ?thesis
    proof (cases "i \<le> old_end l")
      case True
      with l have "old_end l = i" "new_end l = j" by simp_all
      with False snoc l assms(2,3) show ?thesis
        by (simp add: patch_push_def edit_is_empty_def mk_edit_def push_maybe_empty_def list_last_def seg_def)
    next
      case False
      with \<open>\<not> (i = i' \<and> j = j')\<close> snoc assms show ?thesis
        by (auto simp: patch_push_def edit_is_empty_def mk_edit_def push_maybe_empty_def list_last_def seg_def)
    qed
  qed
qed

lemma upto_patched:
  assumes "patched_upto rs i j xs ys" "patched fs i j xs ys"
  shows "patched (rev rs @ fs) 0 0 xs ys"
  using assms
proof (induction rs arbitrary: i j fs)
  case Nil
  have to_start: "patched fs 0 0 xs ys" if "patched fs i i xs ys" "take i xs = take i ys"
  proof (cases fs)
    case Nil
    with that show ?thesis by simp (metis append_take_drop_id)
  next
    case (Cons e fs')
    define m where "m = old_start e - i"
    have "old_start e = 0 + i + m" "new_start e = 0 + i + m"
      using that(1) Cons by (auto simp: m_def)
    with that Cons show ?thesis
      using seg_append [of xs 0 i m] seg_append [of ys 0 i m] by (simp add: seg_def)
  qed
  from Nil to_start show ?case by auto
next
  case (Cons e rs)
  obtain n where n: "i = old_end e + n" "j = new_end e + n"
    using Cons.prems(1) by (metis le_add_diff_inverse patched_upto.simps(2))
  have gap: "seg xs (old_end e) (old_end e + n) = seg ys (new_end e) (new_end e + n)"
    using Cons.prems(1) n by simp
  have "patched fs (old_end e) (new_end e) xs ys"
  proof (cases fs)
    case Nil
    with Cons.prems(2) n gap show ?thesis
      using seg_drop [of "old_end e" n xs] seg_drop [of "new_end e" n ys] by simp
  next
    case (Cons f fs')
    define m where "m = old_start f - i"
    have m: "old_start f = old_end e + n + m" "new_start f = new_end e + n + m"
      using \<open>patched fs i j xs ys\<close> n Cons by (auto simp: m_def)
    with Cons \<open>patched fs i j xs ys\<close> n gap show ?thesis
      using seg_append [of xs "old_end e" n m] seg_append [of ys "new_end e" n m] by simp
  qed
  then have "patched (e # fs) (old_start e) (new_start e) xs ys"
    using Cons.prems(1) by (simp add: seg_def)
  from Cons.IH [OF _ this] Cons.prems(1) show ?case by simp
qed

section \<open>Composition\<close>

text \<open>
  The state of the loop: the remaining old edits lead from \<open>xs\<close> to \<open>ys\<close>, the remaining new ones
  from \<open>ys\<close> to \<open>zs\<close>, both from the same offset \<open>b\<close> of \<open>ys\<close>, and the composed patch explains \<open>zs\<close>
  in terms of \<open>xs\<close> up to here.
\<close>

definition compose_inv :: "patch \<Rightarrow> patch \<Rightarrow> nat \<Rightarrow> nat \<Rightarrow> nat \<Rightarrow> patch \<Rightarrow> 'a list \<Rightarrow> 'a list \<Rightarrow> 'a list \<Rightarrow> bool" where
  "compose_inv olds news a b c composed xs ys zs \<longleftrightarrow>
     patched olds a b xs ys \<and> patched news b c ys zs \<and> patched_upto (rev composed) a c xs zs"

lemma patched_ConsE:
  assumes "patched (e # es) i j xs ys"
  obtains m where "old_start e = i + m" "new_start e = j + m" "seg xs i (i + m) = seg ys j (j + m)"
    "old_start e \<le> old_end e" "new_start e \<le> new_end e" "patched es (old_end e) (new_end e) xs ys"
proof -
  have "old_start e = i + (old_start e - i)" "new_start e = j + (old_start e - i)" using assms by auto
  then show thesis using that [of "old_start e - i"] assms by auto
qed

lemma compose_catchup:
  assumes "patched_upto (rev p) a c xs zs" "seg xs a (a + m) = seg ys b (b + m)" "seg ys b (b + m) = seg zs c (c + m)"
    and "a + m \<le> a'" "c + m \<le> c'"
  shows "patched_upto (rev (patch_push p (mk_edit (a + m) a' (c + m) c'))) a' c' xs zs"
  using upto_push [OF upto_step [OF assms(1)] assms(4,5)] assms(2,3) by simp

lemma compose_old_ok:
  assumes inv: "compose_inv (e # olds) news a b c composed xs ys zs"
    and before: "case news of [] \<Rightarrow> True | n # _ \<Rightarrow> new_end e < old_start n"
  shows "\<exists>a' c' composed'. compose_old e a c composed = Some (a', c', composed') \<and>
    compose_inv olds news a' (new_end e) c' composed' xs ys zs"
proof -
  define k where "k = new_end e - new_start e"
  have "patched (e # olds) a b xs ys" using inv by (simp add: compose_inv_def)
  then obtain m where e0: "old_start e = a + m" "new_start e = b + m" "old_start e \<le> old_end e" "new_start e \<le> new_end e"
    "seg xs a (a + m) = seg ys b (b + m)" "patched olds (old_end e) (new_end e) xs ys"
    by (rule patched_ConsE)
  then have "new_end e = b + (m + k)" by (simp add: k_def)
  note e = e0(1,2) this e0(3,5,6)
  have limit: "case news of [] \<Rightarrow> b + (m + k) \<le> length ys | n # _ \<Rightarrow> b + (m + k) \<le> old_start n"
    using before patched_bounds [OF e(6)] e(3) by (auto split: list.splits)
  have news: "patched news (b + (m + k)) (c + (m + k)) ys zs" "seg ys b (b + m) = seg zs c (c + m)"
    using patched_step [OF _ limit] patched_step [of news b c ys zs m] inv limit
    by (auto simp: compose_inv_def split: list.splits)
  have "compose_old e a c composed = Some (old_end e, c + (m + k),
      patch_push composed (mk_edit (a + m) (old_end e) (c + m) (c + (m + k))))"
    using e(1-4) by (simp add: compose_old_def sub_def old_len_def new_len_def Let_def add.assoc)
  moreover have "patched_upto (rev (patch_push composed (mk_edit (a + m) (old_end e) (c + m) (c + (m + k))))) (old_end e) (c + (m + k)) xs zs"
    using inv e news by (intro compose_catchup) (auto simp: compose_inv_def)
  ultimately show ?thesis
    using e news by (simp add: compose_inv_def)
qed

lemma compose_new_ok:
  assumes inv: "compose_inv olds (e # news) a b c composed xs ys zs"
    and before: "case olds of [] \<Rightarrow> True | f # _ \<Rightarrow> old_end e < new_start f"
  shows "\<exists>a' c' composed'. compose_new e a c composed = Some (a', c', composed') \<and>
    compose_inv olds news a' (old_end e) c' composed' xs ys zs"
proof -
  define k where "k = old_end e - old_start e"
  have "patched (e # news) b c ys zs" using inv by (simp add: compose_inv_def)
  then obtain m where e0: "new_start e = c + m" "old_start e = b + m" "old_start e \<le> old_end e" "new_start e \<le> new_end e"
    "seg ys b (b + m) = seg zs c (c + m)" "patched news (old_end e) (new_end e) ys zs"
    by (rule patched_ConsE)
  then have "old_end e = b + (m + k)" by (simp add: k_def)
  note e = e0(1,2) this e0(4,5,6)
  have limit: "case olds of [] \<Rightarrow> b + (m + k) \<le> length ys | f # _ \<Rightarrow> b + (m + k) \<le> new_start f"
    using before patched_bounds [OF e(6)] e(3) by (auto split: list.splits)
  have olds: "patched olds (a + (m + k)) (b + (m + k)) xs ys" "seg xs a (a + m) = seg ys b (b + m)"
    using patched_step_new [OF _ limit] patched_step_new [of olds a b xs ys m] inv limit
    by (auto simp: compose_inv_def split: list.splits)
  have "compose_new e a c composed = Some (a + (m + k), new_end e,
      patch_push composed (mk_edit (a + m) (a + (m + k)) (c + m) (new_end e)))"
    using e(1-4) by (simp add: compose_new_def sub_def old_len_def new_len_def Let_def add.assoc)
  moreover have "patched_upto (rev (patch_push composed (mk_edit (a + m) (a + (m + k)) (c + m) (new_end e)))) (a + (m + k)) (new_end e) xs zs"
    using inv e olds by (intro compose_catchup) (auto simp: compose_inv_def)
  ultimately show ?thesis
    using e olds by (simp add: compose_inv_def)
qed

lemma compose_align_ok:
  assumes inv: "compose_inv (f # olds) (e # news) a b c composed xs ys zs"
    and meet: "old_start e \<le> new_end f" "new_start f \<le> old_end e"
  shows "\<exists>f' e' a' b' c' composed'. compose_align f e a c composed = Some (f', e', a', c', composed') \<and>
    compose_inv (f' # olds) (e' # news) a' b' c' composed' xs ys zs \<and>
    old_start f' = a' \<and> new_start f' = b' \<and> old_start e' = b' \<and> new_start e' = c'"
proof (cases "new_start f < old_start e")
  case True
  define v where "v = old_start e - new_start f"
  have "patched (f # olds) a b xs ys" using inv by (simp add: compose_inv_def)
  then obtain m where f0: "old_start f = a + m" "new_start f = b + m" "old_start f \<le> old_end f"
    "seg xs a (a + m) = seg ys b (b + m)" by (rule patched_ConsE)
  let ?a' = "min (a + m + v) (old_end f)"
  have "old_start e = b + m + v" "new_start e = c + m + v"
    using inv True f0 by (auto simp: compose_inv_def v_def)
  note f = f0(1,2) this f0(3,4)
  have "seg ys b (b + m) = seg zs c (c + m)"
    using patched_step(2) [of "e # news" b c ys zs m] inv f by (auto simp: compose_inv_def)
  then have "patched_upto (rev (patch_push composed (mk_edit (a + m) ?a' (c + m) (c + m + v)))) ?a' (c + m + v) xs zs"
    using inv f by (intro compose_catchup) (auto simp: compose_inv_def)
  moreover have "patched ((f\<lparr>old_start := ?a', new_start := b + m + v\<rparr>) # olds) ?a' (b + m + v) xs ys"
    "patched (e # news) (b + m + v) (c + m + v) ys zs"
    using inv f meet by (auto simp: compose_inv_def seg_def)
  moreover have "compose_align f e a c composed = Some (f\<lparr>old_start := ?a', new_start := b + m + v\<rparr>, e, ?a', c + m + v,
      patch_push composed (mk_edit (a + m) ?a' (c + m) (c + m + v)))"
    using True f by (simp add: compose_align_def sub_def Let_def)
  ultimately show ?thesis
    using f by (simp add: compose_inv_def)
next
  case False
  define v where "v = new_start f - old_start e"
  have "patched (e # news) b c ys zs" using inv by (simp add: compose_inv_def)
  then obtain m where e0: "new_start e = c + m" "old_start e = b + m" "new_start e \<le> new_end e"
    "seg ys b (b + m) = seg zs c (c + m)" by (rule patched_ConsE)
  let ?c' = "min (c + m + v) (new_end e)"
  have "new_start f = b + m + v" "old_start f = a + m + v"
    using inv False e0 by (auto simp: compose_inv_def v_def)
  note e = e0(1,2) this e0(3,4)
  have "seg xs a (a + m) = seg ys b (b + m)"
    using patched_step(2) [of "f # olds" a b xs ys m] inv e by (auto simp: compose_inv_def)
  then have "patched_upto (rev (patch_push composed (mk_edit (a + m) (a + m + v) (c + m) ?c'))) (a + m + v) ?c' xs zs"
    using inv e by (intro compose_catchup) (auto simp: compose_inv_def)
  moreover have "patched ((e\<lparr>old_start := b + m + v, new_start := ?c'\<rparr>) # news) (b + m + v) ?c' ys zs"
    "patched (f # olds) (a + m + v) (b + m + v) xs ys"
    using inv e meet by (auto simp: compose_inv_def seg_def)
  moreover have "compose_align f e a c composed = Some (f, e\<lparr>old_start := b + m + v, new_start := ?c'\<rparr>, a + m + v, ?c',
      patch_push composed (mk_edit (a + m) (a + m + v) (c + m) ?c'))"
    using False e by (simp add: compose_align_def sub_def Let_def)
  ultimately show ?thesis
    using e by (simp add: compose_inv_def)
qed

lemma compose_overlap_ok:
  assumes inv: "compose_inv (f # olds) (e # news) a b c composed xs ys zs"
    and start: "old_start f = a" "new_start f = b" "old_start e = b" "new_start e = c"
  shows "\<exists>consumed g a' b' c' composed'. compose_overlap f e a c composed = Some (consumed, g, a', c', composed') \<and>
    compose_inv (if consumed then g # olds else olds) (if consumed then news else g # news) a' b' c' composed' xs ys zs"
proof (cases "old_end e < new_end f")
  case True
  let ?a' = "a + min (old_end f - a) (old_end e - b)"
  have le: "a \<le> old_end f" "b \<le> old_end e" "c \<le> new_end e" "patched news (old_end e) (new_end e) ys zs"
    using inv start by (auto simp: compose_inv_def)
  have "patched_upto (rev (patch_push composed (mk_edit a ?a' c (new_end e)))) ?a' (new_end e) xs zs"
    using inv le by (intro upto_push) (auto simp: compose_inv_def)
  moreover have "patched ((f\<lparr>old_start := ?a', new_start := old_end e\<rparr>) # olds) ?a' (old_end e) xs ys"
    using inv start True by (auto simp: compose_inv_def seg_def)
  moreover have "compose_overlap f e a c composed = Some (True, f\<lparr>old_start := ?a', new_start := old_end e\<rparr>, ?a', new_end e,
      patch_push composed (mk_edit a ?a' c (new_end e)))"
    using True start le by (simp add: compose_overlap_def old_len_def new_len_def sub_def Let_def)
  ultimately have "compose_overlap f e a c composed = Some (True, f\<lparr>old_start := ?a', new_start := old_end e\<rparr>, ?a', new_end e,
      patch_push composed (mk_edit a ?a' c (new_end e))) \<and>
    compose_inv (if True then (f\<lparr>old_start := ?a', new_start := old_end e\<rparr>) # olds else olds)
      (if True then news else (f\<lparr>old_start := ?a', new_start := old_end e\<rparr>) # news) ?a' (old_end e) (new_end e)
      (patch_push composed (mk_edit a ?a' c (new_end e))) xs ys zs"
    using le(4) unfolding compose_inv_def if_True if_False by blast
  then show ?thesis by - (rule exI, rule exI, rule exI, rule exI, rule exI, rule exI, assumption)
next
  case False
  let ?c' = "c + min (new_end f - b) (new_end e - c)"
  have le: "a \<le> old_end f" "b \<le> new_end f" "c \<le> new_end e" "patched olds (old_end f) (new_end f) xs ys"
    using inv start by (auto simp: compose_inv_def)
  have "patched_upto (rev (patch_push composed (mk_edit a (old_end f) c ?c'))) (old_end f) ?c' xs zs"
    using inv le by (intro upto_push) (auto simp: compose_inv_def)
  moreover have "patched ((e\<lparr>old_start := new_end f, new_start := ?c'\<rparr>) # news) (new_end f) ?c' ys zs"
    using inv start False by (auto simp: compose_inv_def seg_def)
  moreover have "compose_overlap f e a c composed = Some (False, e\<lparr>old_start := new_end f, new_start := ?c'\<rparr>, old_end f, ?c',
      patch_push composed (mk_edit a (old_end f) c ?c'))"
    using False start le by (simp add: compose_overlap_def old_len_def new_len_def sub_def Let_def)
  ultimately have "compose_overlap f e a c composed = Some (False, e\<lparr>old_start := new_end f, new_start := ?c'\<rparr>, old_end f, ?c',
      patch_push composed (mk_edit a (old_end f) c ?c')) \<and>
    compose_inv (if False then (e\<lparr>old_start := new_end f, new_start := ?c'\<rparr>) # olds else olds)
      (if False then news else (e\<lparr>old_start := new_end f, new_start := ?c'\<rparr>) # news) (old_end f) (new_end f) ?c'
      (patch_push composed (mk_edit a (old_end f) c ?c')) xs ys zs"
    using le(4) unfolding compose_inv_def if_True if_False by blast
  then show ?thesis by - (rule exI, rule exI, rule exI, rule exI, rule exI, rule exI, assumption)
qed

lemma compose_loop_ok:
  assumes "compose_inv olds news a b c composed xs ys zs"
  shows "\<exists>r. compose_loop olds news a c composed = Some r \<and> patched r 0 0 xs zs"
  using assms
proof (induction "length olds + length news" arbitrary: olds news a b c composed rule: less_induct)
  case less
  consider "olds = []" "news = []" | f os where "olds = f # os" "case news of [] \<Rightarrow> True | n # _ \<Rightarrow> new_end f < old_start n"
    | e ns where "news = e # ns" "case olds of [] \<Rightarrow> True | f # _ \<Rightarrow> \<not> new_end f < old_start e \<and> old_end e < new_start f"
    | f os e ns where "olds = f # os" "news = e # ns" "old_start e \<le> new_end f" "new_start f \<le> old_end e"
  proof (cases olds; cases news)
    fix f os e ns assume "olds = f # os" "news = e # ns"
    then show thesis using that by (cases "new_end f < old_start e"; cases "old_end e < new_start f") auto
  qed (use that in auto)
  then show ?case
  proof cases
    case 1
    with less.prems upto_patched [of "rev composed" a c xs zs "[]"] patched_bounds show ?thesis
      by (auto simp: compose_inv_def compose_loop.simps)
  next
    case 2
    obtain a' c' composed' where step: "compose_old f a c composed = Some (a', c', composed')"
      "compose_inv os news a' (new_end f) c' composed' xs ys zs"
      using compose_old_ok less.prems 2 by blast
    then have "compose_loop olds news a c composed = compose_loop os news a' c' composed'"
      using 2 by (cases news) (simp_all add: compose_loop.simps [of "f # os"])
    with less.hyps [OF _ step(2)] 2 show ?thesis by simp
  next
    case 3
    have "case olds of [] \<Rightarrow> True | f # _ \<Rightarrow> old_end e < new_start f"
      using 3(2) by (cases olds) simp_all
    then obtain a' c' composed' where step: "compose_new e a c composed = Some (a', c', composed')"
      "compose_inv olds ns a' (old_end e) c' composed' xs ys zs"
      using compose_new_ok less.prems 3(1) by blast
    then have "compose_loop olds news a c composed = compose_loop olds ns a' c' composed'"
      using 3 by (cases olds) (simp_all add: compose_loop.simps [of _ "e # ns"])
    with less.hyps [OF _ step(2)] 3 show ?thesis by simp
  next
    case 4
    obtain f' e' a' b' c' composed' where al: "compose_align f e a c composed = Some (f', e', a', c', composed')"
      "compose_inv (f' # os) (e' # ns) a' b' c' composed' xs ys zs"
      "old_start f' = a'" "new_start f' = b'" "old_start e' = b'" "new_start e' = c'"
      using compose_align_ok [OF less.prems [unfolded 4(1,2)] 4(3,4)] by blast
    obtain consumed g a2 b2 c2 composed2 where ov: "compose_overlap f' e' a' c' composed' = Some (consumed, g, a2, c2, composed2)"
      "compose_inv (if consumed then g # os else os) (if consumed then ns else g # ns) a2 b2 c2 composed2 xs ys zs"
      using compose_overlap_ok [OF al(2-)] by blast
    have "compose_loop olds news a c composed =
        compose_loop (if consumed then g # os else os) (if consumed then ns else g # ns) a2 c2 composed2"
      using 4 al(1) ov(1) by (simp add: compose_loop.simps [of "f # os"])
    with less.hyps [OF _ ov(2)] 4 show ?thesis by (cases consumed) simp_all
  qed
qed

theorem patch_compose_ok:
  assumes "patched p 0 0 xs ys" "patched q 0 0 ys zs"
  shows "\<exists>r. patch_compose p q = Some r \<and> patched r 0 0 xs zs"
  unfolding patch_compose_def using assms by (intro compose_loop_ok) (simp add: compose_inv_def)

text \<open>The edits of a composition are never adjacent in the old text, and in order in the new one.\<close>

fun old_separated :: "patch \<Rightarrow> bool" where
  "old_separated (e # f # es) \<longleftrightarrow> old_end e < old_start f \<and> old_separated (f # es)"
| "old_separated _ \<longleftrightarrow> True"

lemma old_separated_append:
  "old_separated (xs @ [l]) \<Longrightarrow> old_end l < old_start e \<Longrightarrow> old_separated (xs @ [l, e])"
  by (induction xs rule: old_separated.induct) simp_all

lemma old_separated_extend:
  "old_separated (xs @ [l]) \<Longrightarrow> old_start l' = old_start l \<Longrightarrow> old_separated (xs @ [l'])"
  by (induction xs rule: old_separated.induct) simp_all

lemma old_separated_push: "old_separated p \<Longrightarrow> old_separated (patch_push p e)"
proof (cases p rule: rev_cases)
  case (snoc ls l)
  then show "old_separated p \<Longrightarrow> ?thesis"
    by (auto simp: patch_push_def push_maybe_empty_def list_last_def not_le
        intro: old_separated_append old_separated_extend)
qed (simp add: patch_push_def push_maybe_empty_def list_last_def)

text \<open>Inverting a patch swaps the two texts.\<close>

lemma patched_invert: "patched p i j xs ys \<Longrightarrow> patched (patch_invert p) j i ys xs"
  by (induction p arbitrary: i j) (simp_all add: patch_invert_def invert_edit_def mk_edit_def)

lemma patch_invert_invert: "patch_invert (patch_invert p) = p"
  by (induction p) (simp_all add: patch_invert_def invert_edit_def mk_edit_def)

lemma compose_step_separated:
  "compose_old e a c p = Some (a', c', p') \<Longrightarrow> old_separated p \<Longrightarrow> old_separated p'"
  "compose_new e a c p = Some (a', c', p') \<Longrightarrow> old_separated p \<Longrightarrow> old_separated p'"
  "compose_align f e a c p = Some (f', e', a', c', p') \<Longrightarrow> old_separated p \<Longrightarrow> old_separated p'"
  "compose_overlap f e a c p = Some (b, g, a', c', p') \<Longrightarrow> old_separated p \<Longrightarrow> old_separated p'"
  by (auto simp: compose_old_def compose_new_def compose_align_def compose_overlap_def Let_def bind_eq_Some
      intro: old_separated_push split: if_splits)

lemma compose_loop_separated:
  "compose_loop olds news a c p = Some r \<Longrightarrow> old_separated p \<Longrightarrow> old_separated r"
proof (induction "length olds + length news" arbitrary: olds news a c p rule: less_induct)
  case less
  note sep = compose_step_separated [OF _ less.prems(2)]
  show ?case
  proof (cases olds)
    case Nil
    show ?thesis
    proof (cases news)
      case Nil
      with \<open>olds = []\<close> less.prems show ?thesis by (simp add: compose_loop.simps)
    next
      case (Cons n ns)
      with \<open>olds = []\<close> less.prems(1) obtain a' c' p'
        where "compose_new n a c p = Some (a', c', p')" "compose_loop [] ns a' c' p' = Some r"
        by (auto simp: compose_loop.simps [of "[]" "n # ns"])
      then show ?thesis using less.hyps [of "[]" ns] sep(2) Cons \<open>olds = []\<close> by auto
    qed
  next
    case o: (Cons f os)
    show ?thesis
    proof (cases news)
      case Nil
      with o less.prems(1) obtain a' c' p'
        where "compose_old f a c p = Some (a', c', p')" "compose_loop os [] a' c' p' = Some r"
        by (auto simp: compose_loop.simps [of "f # os"])
      then show ?thesis using less.hyps [of os "[]"] sep(1) Nil o by auto
    next
      case n: (Cons e ns)
      show ?thesis
      proof (cases "new_end f < old_start e \<or> old_end e < new_start f")
        case True
        with o n less.prems(1) obtain a' c' p'
          where "compose_old f a c p = Some (a', c', p') \<and> compose_loop os news a' c' p' = Some r \<or>
            compose_new e a c p = Some (a', c', p') \<and> compose_loop olds ns a' c' p' = Some r"
          by (auto simp: compose_loop.simps [of "f # os" "e # ns"] split: if_splits)
        then show ?thesis using less.hyps [of os news] less.hyps [of olds ns] sep(1,2) o n by auto
      next
        case False
        with o n less.prems(1) obtain f' e' a' c' p' b g a2 c2 p2
          where "compose_align f e a c p = Some (f', e', a', c', p')"
            "compose_overlap f' e' a' c' p' = Some (b, g, a2, c2, p2)"
            and r: "compose_loop (if b then g # os else os) (if b then ns else g # ns) a2 c2 p2 = Some r"
          by (auto simp: compose_loop.simps [of "f # os"] split: if_splits)
        then have "old_separated p2" using sep(3) compose_step_separated(4) by blast
        with o n show ?thesis by (intro less.hyps [OF _ r]) auto
      qed
    qed
  qed
qed

lemma patched_separated: "patched p i j xs ys \<Longrightarrow> old_separated p \<Longrightarrow> edits_separated p"
proof (induction p arbitrary: i j)
  case (Cons e p)
  have "edits_separated p"
    using Cons.IH [of "old_end e" "new_end e"] Cons.prems by (cases p) simp_all
  with Cons.prems show ?case by (cases p) auto
qed simp

lemma separated_old: "edits_separated p \<Longrightarrow> old_separated p"
  by (induction p rule: edits_separated.induct) simp_all

section \<open>Translation of positions\<close>

text \<open>The edit the binary search selects is the last one that starts at or before the position.\<close>

definition edit_before :: "patch \<Rightarrow> nat \<Rightarrow> pedit option" where
  "edit_before p old = list_last (takeWhile (\<lambda>e. old_start e \<le> old) p)"

lemma separated_starts:
  "patched (e # p) i j xs ys \<Longrightarrow> old_separated (e # p) \<Longrightarrow> f \<in> set p \<Longrightarrow> old_start e < old_start f"
proof (induction p arbitrary: e i j)
  case (Cons g p)
  then have g: "old_start e < old_start g" "patched (g # p) (old_end e) (new_end e) xs ys" "old_separated (g # p)"
    by auto
  show ?case
    using Cons.prems(3) Cons.IH [OF g(2,3)] g(1) by (cases "f = g") auto
qed simp

lemma search_start_selects:
  assumes "patched p i j xs ys" "old_separated p"
  shows "(case search_start p old of Inl ix \<Rightarrow> list_get p ix | Inr ix \<Rightarrow> if ix = 0 then None else list_get p (ix - 1)) =
    edit_before p old"
  using assms
proof (induction p arbitrary: i j)
  case (Cons e p)
  have sep: "old_separated p" using Cons.prems(2) by (cases p) simp_all
  have later: "\<And>f. f \<in> set p \<Longrightarrow> old_start e < old_start f" using separated_starts Cons.prems by blast
  consider "old < old_start e" | "old = old_start e" | "old_start e < old" by linarith
  then show ?case
  proof cases
    case 2
    then have "takeWhile (\<lambda>f. old_start f \<le> old) p = []" using later by (cases p) fastforce+
    with 2 show ?thesis by (simp add: search_start_def edit_before_def list_get_def list_last_def)
  next
    case 3
    let ?k = "length (takeWhile (\<lambda>f. old_start f < old) p)"
    have ih: "(case search_start p old of Inl ix \<Rightarrow> list_get p ix | Inr ix \<Rightarrow> if ix = 0 then None else list_get p (ix - 1)) =
      edit_before p old" using Cons.IH [OF _ sep] Cons.prems(1) by auto
    have "edit_before (e # p) old = (case edit_before p old of None \<Rightarrow> Some e | Some f \<Rightarrow> Some f)"
      using 3 by (simp add: edit_before_def list_last_def)
    moreover have "?k \<le> length p" by (rule length_takeWhile_le)
    ultimately show ?thesis
      unfolding ih [symmetric] using 3 by (cases ?k) (auto simp: search_start_def list_get_def Let_def dest: sym [of "Suc _"])
  qed (simp add: search_start_def edit_before_def list_last_def)
qed (simp add: search_start_def edit_before_def list_last_def)

text \<open>The meaning of a translation, following the edits in order.\<close>

fun translate :: "patch \<Rightarrow> nat \<Rightarrow> nat \<Rightarrow> nat \<Rightarrow> nat" where
  "translate [] i j old = j + (old - i)"
| "translate (e # es) i j old =
     (if old < old_start e then j + (old - i)
      else if old < old_end e then new_start e
      else translate es (old_end e) (new_end e) old)"

definition old_to_new_from :: "patch \<Rightarrow> nat \<Rightarrow> nat \<Rightarrow> nat \<Rightarrow> nat" where
  "old_to_new_from p i j old =
     (case edit_before p old of
        None \<Rightarrow> j + (old - i)
      | Some e \<Rightarrow> if old_end e \<le> old then new_end e + (old - old_end e) else new_start e)"

lemma old_to_new_eq:
  assumes "patched p 0 0 xs ys" "old_separated p"
  shows "old_to_new p old = old_to_new_from p 0 0 old"
  unfolding old_to_new_from_def search_start_selects [OF assms, symmetric] old_to_new_def
  by (auto simp: list_get_def split: sum.splits)

lemma old_to_new_translate:
  assumes "patched p i j xs ys" "old_separated p"
  shows "old_to_new_from p i j old = translate p i j old"
  using assms
proof (induction p arbitrary: i j)
  case (Cons e p)
  have sep: "old_separated p" using Cons.prems(2) by (cases p) simp_all
  have ih: "old_to_new_from p (old_end e) (new_end e) old = translate p (old_end e) (new_end e) old"
    using Cons.IH [OF _ sep] Cons.prems(1) by simp
  have none: "old < old_end e \<Longrightarrow> edit_before p old = None"
    using Cons.prems(2) by (cases p) (auto simp: edit_before_def list_last_def)
  have "old_start e \<le> old \<Longrightarrow> edit_before (e # p) old = (case edit_before p old of None \<Rightarrow> Some e | Some f \<Rightarrow> Some f)"
    by (simp add: edit_before_def list_last_def)
  then show ?case
    using ih none Cons.prems(1)
    by (auto simp: old_to_new_from_def edit_before_def [of "e # p"] list_last_def not_less split: option.splits)
qed (simp add: old_to_new_from_def edit_before_def list_last_def)

text \<open>The translation is monotone, stays in the new text, and leads an untouched character to itself.\<close>

lemma translate_ge: "patched p i j xs ys \<Longrightarrow> i \<le> old \<Longrightarrow> j \<le> translate p i j old"
proof (induction p arbitrary: i j)
  case (Cons e p)
  then have "new_end e \<le> translate p (old_end e) (new_end e) old" if "old_end e \<le> old" using that by simp
  with Cons.prems show ?case by auto
qed simp

lemma translate_le:
  "patched p i j xs ys \<Longrightarrow> i \<le> old \<Longrightarrow> old \<le> length xs \<Longrightarrow> translate p i j old \<le> length ys"
proof (induction p arbitrary: i j)
  case Nil
  then have "length xs - i = length ys - j" by (metis length_drop patched.simps(1))
  moreover have "i \<le> old" "old \<le> length xs" "j \<le> length ys" using Nil by simp_all
  ultimately show ?case by simp
next
  case (Cons e p)
  have "new_end e \<le> length ys" using patched_bounds Cons.prems(1) by fastforce
  with Cons.prems Cons.IH [of "old_end e" "new_end e"] show ?case by auto
qed

lemma translate_mono:
  "patched p i j xs ys \<Longrightarrow> i \<le> a \<Longrightarrow> a \<le> b \<Longrightarrow> translate p i j a \<le> translate p i j b"
proof (induction p arbitrary: i j)
  case (Cons e p)
  have rest: "patched p (old_end e) (new_end e) xs ys" using Cons.prems(1) by simp
  have "new_end e \<le> translate p (old_end e) (new_end e) b" if "old_end e \<le> b"
    using translate_ge [OF rest that] .
  moreover have "translate p (old_end e) (new_end e) a \<le> translate p (old_end e) (new_end e) b" if "old_end e \<le> a"
    using Cons.IH [OF rest that Cons.prems(3)] .
  ultimately show ?case using Cons.prems by auto
qed simp

definition untouched :: "patch \<Rightarrow> nat \<Rightarrow> bool" where
  "untouched p old \<longleftrightarrow> (\<forall>e \<in> set p. old < old_start e \<or> old_end e \<le> old)"

lemma seg_nth: "seg xs i (i + m) = seg ys j (j + m) \<Longrightarrow> k < m \<Longrightarrow> i + m \<le> length xs \<Longrightarrow> j + m \<le> length ys \<Longrightarrow>
  xs ! (i + k) = ys ! (j + k)"
  by (drule arg_cong [of _ _ "\<lambda>l. l ! k"]) (simp add: seg_def)

lemma translate_nth:
  "patched p i j xs ys \<Longrightarrow> untouched p old \<Longrightarrow> i \<le> old \<Longrightarrow> old < length xs \<Longrightarrow>
   translate p i j old < length ys \<and> ys ! translate p i j old = xs ! old"
proof (induction p arbitrary: i j)
  case Nil
  then have d: "drop i xs = drop j ys" "length xs - i = length ys - j" by (simp, metis length_drop patched.simps(1))
  have le: "i \<le> old" "old < length xs" "j \<le> length ys" using Nil by simp_all
  have "drop i xs ! (old - i) = drop j ys ! (old - i)" using d(1) by simp
  then have "ys ! (j + (old - i)) = xs ! old" using le by simp
  with d(2) le show ?case by simp
next
  case (Cons e p)
  obtain m where e: "old_start e = i + m" "new_start e = j + m" "seg xs i (i + m) = seg ys j (j + m)"
    "old_start e \<le> old_end e" "new_start e \<le> new_end e" "patched p (old_end e) (new_end e) xs ys"
    using Cons.prems(1) by (rule patched_ConsE)
  have "i + m \<le> length xs" "j + m \<le> length ys" using patched_bounds [OF e(6)] e by simp_all
  then have "xs ! (i + (old - i)) = ys ! (j + (old - i))" if "old < i + m"
    using seg_nth [OF e(3), of "old - i"] that Cons.prems(3) by simp
  moreover have "untouched p old" "old < old_start e \<or> old_end e \<le> old"
    using Cons.prems(2) by (simp_all add: untouched_def)
  ultimately show ?case
    using Cons.IH [OF e(6)] Cons.prems(3,4) \<open>j + m \<le> length ys\<close> e(1,2,4) by auto
qed

lemmas old_to_new_spec = old_to_new_eq [THEN trans, OF _ _ old_to_new_translate]

lemma edit_for_old_position_ok:
  assumes "patched p 0 0 xs ys" "old_separated p"
  shows "edit_for_old_position p old =
    (case edit_before p old of
       Some e \<Rightarrow> if old \<le> old_end e then e else mk_edit old old (old_to_new p old) (old_to_new p old)
     | None \<Rightarrow> mk_edit old old (old_to_new p old) (old_to_new p old))"
  unfolding old_to_new_eq [OF assms] old_to_new_from_def
  unfolding search_start_selects [OF assms, symmetric] edit_for_old_position_def
  by (auto simp: list_get_def Let_def split: sum.splits)

end
