(* ===== verification/Subscription.thy ===== *)
theory Subscription
  imports Patch
begin

text \<open>
  \<open>crates/text/src/subscription.rs\<close>.  A topic keeps weak references to the patches of its
  subscriptions; the patches live as long as their subscription.  The reference-counted cells are an
  explicit store from cell numbers to patches: a dropped subscription is a cell that is no longer
  in the store.  The history of a topic is a step relation with the text as ghost state, and what a
  subscription accumulates is shown to describe all changes of the text since it was last consumed.
\<close>

section \<open>Definitions\<close>

record topic =
  subscriptions :: "nat list"
  cells :: "nat \<rightharpoonup> patch"
  next_cell :: nat

definition topic_default :: topic where
  "topic_default = \<lparr>subscriptions = [], cells = Map.empty, next_cell = 0\<rparr>"

definition subscribe :: "topic \<Rightarrow> nat \<times> topic" where
  "subscribe t =
     (next_cell t,
      t\<lparr>subscriptions := subscriptions t @ [next_cell t], cells := (cells t)(next_cell t \<mapsto> patch_empty),
        next_cell := next_cell t + 1\<rparr>)"

fun publish_retain :: "nat list \<Rightarrow> (nat \<rightharpoonup> patch) \<Rightarrow> pedit list \<Rightarrow> (nat list \<times> (nat \<rightharpoonup> patch)) option" where
  "publish_retain [] cs edits = Some ([], cs)"
| "publish_retain (s # ss) cs edits =
     (case cs s of
        Some p \<Rightarrow> do {
          p' \<leftarrow> patch_compose p edits;
          (ss', cs') \<leftarrow> publish_retain ss (cs(s \<mapsto> p')) edits;
          Some (s # ss', cs') }
      | None \<Rightarrow> publish_retain ss cs edits)"

definition publish :: "topic \<Rightarrow> pedit list \<Rightarrow> topic option" where
  "publish t edits = do {
     (ss, cs) \<leftarrow> publish_retain (subscriptions t) (cells t) edits;
     Some (t\<lparr>subscriptions := ss, cells := cs\<rparr>) }"

text \<open>\<open>consume\<close> is called on a live subscription; the store has no cell for any other number.\<close>

definition consume :: "topic \<Rightarrow> nat \<Rightarrow> (patch \<times> topic) option" where
  "consume t s =
     (case cells t s of Some p \<Rightarrow> Some (p, t\<lparr>cells := (cells t)(s \<mapsto> patch_empty)\<rparr>) | None \<Rightarrow> None)"

definition drop_subscription :: "topic \<Rightarrow> nat \<Rightarrow> topic" where
  "drop_subscription t s = t\<lparr>cells := (cells t)(s := None)\<rparr>"

section \<open>Histories of a topic\<close>

text \<open>
  \<open>topic_reach t xs base\<close>: the topic \<open>t\<close> is reached when the text is \<open>xs\<close>, and subscription \<open>s\<close> was
  created or last consumed when the text was \<open>base s\<close>.
\<close>

inductive topic_reach :: "topic \<Rightarrow> 'a list \<Rightarrow> (nat \<Rightarrow> 'a list) \<Rightarrow> bool" where
  start: "topic_reach topic_default xs base"
| subscribe: "topic_reach t xs base \<Longrightarrow> subscribe t = (s, t') \<Longrightarrow> topic_reach t' xs (base(s := xs))"
| publish: "topic_reach t xs base \<Longrightarrow> patched edits 0 0 xs ys \<Longrightarrow> publish t edits = Some t' \<Longrightarrow> topic_reach t' ys base"
| consume: "topic_reach t xs base \<Longrightarrow> consume t s = Some (p, t') \<Longrightarrow> topic_reach t' xs (base(s := xs))"
| drop: "topic_reach t xs base \<Longrightarrow> topic_reach (drop_subscription t s) xs base"

definition topic_inv :: "topic \<Rightarrow> 'a list \<Rightarrow> (nat \<Rightarrow> 'a list) \<Rightarrow> bool" where
  "topic_inv t xs base \<longleftrightarrow>
     distinct (subscriptions t) \<and> (\<forall>s \<in> set (subscriptions t). s < next_cell t) \<and>
     dom (cells t) \<subseteq> set (subscriptions t) \<and>
     (\<forall>s p. cells t s = Some p \<longrightarrow> patched p 0 0 (base s) xs \<and> edits_separated p)"

lemma patched_empty: "patched patch_empty 0 0 xs xs" "edits_separated patch_empty"
  by (simp_all add: patch_empty_def)

lemma compose_separated:
  assumes "patched p 0 0 xs ys" "patched q 0 0 ys zs"
  shows "\<exists>r. patch_compose p q = Some r \<and> patched r 0 0 xs zs \<and> edits_separated r"
proof -
  obtain r where r: "patch_compose p q = Some r" "patched r 0 0 xs zs"
    using patch_compose_ok [OF assms] by blast
  then have "old_separated r"
    unfolding patch_compose_def by (auto dest: compose_loop_separated)
  with r patched_separated show ?thesis by blast
qed

text \<open>Publishing keeps exactly the live subscriptions and composes each of their patches once.\<close>

lemma publish_retain_ok:
  assumes "distinct ss" "\<And>s p. s \<in> set ss \<Longrightarrow> cs s = Some p \<Longrightarrow> \<exists>r. patch_compose p edits = Some r"
  shows "\<exists>cs'. publish_retain ss cs edits = Some (filter (\<lambda>s. cs s \<noteq> None) ss, cs') \<and>
    (\<forall>s. cs' s = (if s \<in> set ss then Option.bind (cs s) (\<lambda>p. patch_compose p edits) else cs s))"
  using assms
proof (induction ss arbitrary: cs)
  case (Cons s ss)
  show ?case
  proof (cases "cs s")
    case None
    obtain cs' where "publish_retain ss cs edits = Some (filter (\<lambda>x. cs x \<noteq> None) ss, cs')"
      "\<And>x. cs' x = (if x \<in> set ss then Option.bind (cs x) (\<lambda>p. patch_compose p edits) else cs x)"
      using Cons.IH [of cs] Cons.prems by auto
    with None show ?thesis by auto
  next
    case (Some p)
    then obtain r where r: "patch_compose p edits = Some r" using Cons.prems by auto
    have "\<exists>q. patch_compose p' edits = Some q" if "s' \<in> set ss" "(cs(s \<mapsto> r)) s' = Some p'" for s' p'
      using that Cons.prems by (auto split: if_splits)
    moreover have "distinct ss" using Cons.prems(1) by simp
    ultimately obtain cs' where
      "publish_retain ss (cs(s \<mapsto> r)) edits = Some (filter (\<lambda>x. (cs(s \<mapsto> r)) x \<noteq> None) ss, cs')"
      "\<And>x. cs' x = (if x \<in> set ss then Option.bind ((cs(s \<mapsto> r)) x) (\<lambda>p. patch_compose p edits) else (cs(s \<mapsto> r)) x)"
      using Cons.IH [of "cs(s \<mapsto> r)"] by metis
    moreover have "filter (\<lambda>x. (cs(s \<mapsto> r)) x \<noteq> None) ss = filter (\<lambda>x. cs x \<noteq> None) ss"
      using Cons.prems(1) by (intro filter_cong) auto
    ultimately show ?thesis using Some r Cons.prems(1) by auto
  qed
qed simp

lemma publish_ok:
  assumes inv: "topic_inv t xs base" and edits: "patched edits 0 0 xs ys"
  shows "\<exists>t'. publish t edits = Some t' \<and> topic_inv t' ys base \<and>
    set (subscriptions t') = dom (cells t) \<and> dom (cells t') = dom (cells t)"
proof -
  have comp: "\<exists>r. patch_compose p edits = Some r \<and> patched r 0 0 (base s) ys \<and> edits_separated r"
    if "cells t s = Some p" for s p
    using compose_separated [OF _ edits] inv that unfolding topic_inv_def by blast
  have dist: "distinct (subscriptions t)" using inv by (simp add: topic_inv_def)
  obtain cs where cs: "publish_retain (subscriptions t) (cells t) edits = Some (filter (\<lambda>s. cells t s \<noteq> None) (subscriptions t), cs)"
    "\<And>s. cs s = (if s \<in> set (subscriptions t) then Option.bind (cells t s) (\<lambda>p. patch_compose p edits) else cells t s)"
    using publish_retain_ok [OF dist, of "cells t" edits] comp by metis
  have "dom (cells t) \<subseteq> set (subscriptions t)" using inv by (simp add: topic_inv_def)
  then have eq: "cs s = Option.bind (cells t s) (\<lambda>p. patch_compose p edits)" for s
    using cs(2) by (cases "cells t s") auto
  then have dom: "dom cs = dom (cells t)" using comp by (fastforce simp: dom_def)
  have "patched p 0 0 (base s) ys \<and> edits_separated p" if "cs s = Some p" for s p
    using that comp unfolding eq by (auto dest: comp)
  with inv dom cs(1) show ?thesis
    by (auto simp: publish_def topic_inv_def)
qed

lemma topic_reach_inv: "topic_reach t xs base \<Longrightarrow> topic_inv t xs base"
proof (induction rule: topic_reach.induct)
  case (publish t xs base edits ys t')
  then show ?case using publish_ok by fastforce
next
  case (subscribe t xs base s t')
  then show ?case
    using patched_empty by (fastforce simp: topic_inv_def subscribe_def less_Suc_eq split: if_splits)
next
  case (consume t xs base s p t')
  then show ?case
    using patched_empty by (fastforce simp: topic_inv_def consume_def split: option.splits if_splits)
qed (auto simp: topic_inv_def topic_default_def drop_subscription_def)

end
