(* ===== verification/History.thy ===== *)
theory History
  imports TreeMap Undo_Map "HOL-Library.Multiset"
begin

text \<open>
  The undo history of a buffer, \<open>struct History\<close> of \<open>crates/text/src/text.rs\<close>, with transactions and
  the operations a buffer exchanges.  Stacks are lists with the top at the end.  An \<open>Instant\<close> and a
  \<open>Duration\<close> are numbers of nanoseconds; subtracting instants saturates at zero.  Every method
  returns \<open>None\<close> where an assertion of the source fails or an \<open>unwrap\<close> panics.
\<close>

section \<open>Definitions\<close>

type_synonym full_offset = nat
type_synonym instant = nat
type_synonym duration = nat
type_synonym transaction_id = lamport

record edit_operation =
  op_timestamp :: lamport
  op_version :: global
  op_ranges :: "(full_offset \<times> full_offset) list"
  op_new_text :: "u8 list list"

datatype operation = EditOp edit_operation | UndoOp undo_operation

fun operation_timestamp :: "operation \<Rightarrow> lamport" where
  "operation_timestamp (EditOp op) = op_timestamp op"
| "operation_timestamp (UndoOp op) = undo_timestamp op"

record transaction =
  tr_id :: transaction_id
  edit_ids :: "lamport list"
  tr_start :: global

record history_entry =
  transaction_of :: transaction
  first_edit_at :: instant
  last_edit_at :: instant
  suppress_grouping :: bool

record 'r history =
  base_text :: 'r
  operations :: "(lamport, operation) tree_map"
  undo_stack :: "history_entry list"
  redo_stack :: "history_entry list"
  transaction_depth :: nat
  group_interval :: duration

definition merge_in :: "transaction \<Rightarrow> transaction \<Rightarrow> transaction" where
  "merge_in t other = t\<lparr>edit_ids := edit_ids t @ edit_ids other\<rparr>"

definition entry_id :: "history_entry \<Rightarrow> transaction_id" where
  "entry_id e = tr_id (transaction_of e)"

definition new_entry :: "transaction \<Rightarrow> instant \<Rightarrow> history_entry" where
  "new_entry t now = \<lparr>transaction_of = t, first_edit_at = now, last_edit_at = now, suppress_grouping = False\<rparr>"

definition history_new :: "'r \<Rightarrow> 'r history" where
  "history_new text =
     \<lparr>base_text = text, operations = map_default, undo_stack = [], redo_stack = [],
      transaction_depth = 0, group_interval = 300000000\<rparr>"

definition history_push :: "'r history \<Rightarrow> operation \<Rightarrow> 'r history option" where
  "history_push h op = do {
     ops \<leftarrow> map_insert (operations h) (operation_timestamp op) op;
     Some (h\<lparr>operations := ops\<rparr>) }"

definition start_transaction ::
  "'r history \<Rightarrow> global \<Rightarrow> instant \<Rightarrow> lamport \<Rightarrow> 'r history \<times> lamport \<times> transaction_id option" where
  "start_transaction h start now clock =
     (let h = h\<lparr>transaction_depth := transaction_depth h + 1\<rparr>
      in if transaction_depth h = 1 then
           let (clock, tid) = tick clock;
               entry = new_entry \<lparr>tr_id = tid, edit_ids = [], tr_start = start\<rparr> now
           in (h\<lparr>undo_stack := undo_stack h @ [entry]\<rparr>, clock, Some tid)
         else (h, clock, None))"

definition end_transaction :: "'r history \<Rightarrow> instant \<Rightarrow> ('r history \<times> history_entry option) option" where
  "end_transaction h now = do {
     assert_that (transaction_depth h \<noteq> 0);
     let h = h\<lparr>transaction_depth := transaction_depth h - 1\<rparr>;
     if transaction_depth h = 0 then do {
       entry \<leftarrow> list_last (undo_stack h);
       if edit_ids (transaction_of entry) = [] then Some (h\<lparr>undo_stack := butlast (undo_stack h)\<rparr>, None)
       else
         let entry = entry\<lparr>last_edit_at := now\<rparr>
         in Some (h\<lparr>redo_stack := [], undo_stack := set_last (undo_stack h) entry\<rparr>, Some entry) }
     else Some (h, None) }"

text \<open>The loop of \<open>group\<close> over the entries before \<open>entry\<close>, from the back.\<close>

fun group_count :: "duration \<Rightarrow> history_entry \<Rightarrow> history_entry list \<Rightarrow> nat" where
  "group_count interval entry [] = 0"
| "group_count interval entry (prev_entry # entries) =
     (if \<not> suppress_grouping prev_entry \<and> first_edit_at entry - last_edit_at prev_entry < interval
      then Suc (group_count interval prev_entry entries) else 0)"

definition group_trailing :: "'r history \<Rightarrow> nat \<Rightarrow> ('r history \<times> transaction_id option) option" where
  "group_trailing h n = do {
     assert_that (n \<le> length (undo_stack h));
     let new_len = length (undo_stack h) - n;
     let entries_to_keep = take new_len (undo_stack h);
     let entries_to_merge = drop new_len (undo_stack h);
     let stack =
       (case list_last entries_to_keep of
          None \<Rightarrow> entries_to_keep
        | Some last_entry \<Rightarrow>
            let merged = edit_ids (transaction_of last_entry) @ concat (map (\<lambda>e. edit_ids (transaction_of e)) entries_to_merge);
                last_entry = last_entry\<lparr>transaction_of := (transaction_of last_entry)\<lparr>edit_ids := merged\<rparr>\<rparr>;
                last_entry = (case list_last entries_to_merge of
                    Some entry \<Rightarrow> last_entry\<lparr>last_edit_at := last_edit_at entry\<rparr>
                  | None \<Rightarrow> last_entry)
            in set_last entries_to_keep last_entry);
     Some (h\<lparr>undo_stack := stack\<rparr>, map_option entry_id (list_last stack)) }"

definition group :: "'r history \<Rightarrow> ('r history \<times> transaction_id option) option" where
  "group h = group_trailing h
     (case rev (undo_stack h) of [] \<Rightarrow> 0 | entry # entries \<Rightarrow> group_count (group_interval h) entry entries)"

fun group_until_loop :: "'r history \<Rightarrow> transaction_id \<Rightarrow> nat \<Rightarrow> history_entry list \<Rightarrow> 'r history option" where
  "group_until_loop h tid n [] = Some h"
| "group_until_loop h tid n (entry # entries) =
     (if entry_id entry = tid then do { (h, _) \<leftarrow> group_trailing h n; Some h }
      else if suppress_grouping entry then Some h
      else group_until_loop h tid (n + 1) entries)"

definition group_until :: "'r history \<Rightarrow> transaction_id \<Rightarrow> 'r history option" where
  "group_until h tid = group_until_loop h tid 0 (rev (undo_stack h))"

definition finalize_last_transaction :: "'r history \<Rightarrow> 'r history \<times> transaction option" where
  "finalize_last_transaction h =
     (case list_last (undo_stack h) of
        None \<Rightarrow> (h, None)
      | Some entry \<Rightarrow>
          (h\<lparr>undo_stack := set_last (undo_stack h) (entry\<lparr>suppress_grouping := True\<rparr>)\<rparr>, Some (transaction_of entry)))"

definition push_transaction :: "'r history \<Rightarrow> transaction \<Rightarrow> instant \<Rightarrow> 'r history option" where
  "push_transaction h t now = do {
     assert_that (transaction_depth h = 0);
     Some (h\<lparr>undo_stack := undo_stack h @ [new_entry t now]\<rparr>) }"

definition push_empty_transaction ::
  "'r history \<Rightarrow> global \<Rightarrow> instant \<Rightarrow> lamport \<Rightarrow> ('r history \<times> lamport \<times> transaction_id) option" where
  "push_empty_transaction h start now clock = do {
     assert_that (transaction_depth h = 0);
     let (clock, tid) = tick clock;
     Some (h\<lparr>undo_stack := undo_stack h @ [new_entry \<lparr>tr_id = tid, edit_ids = [], tr_start = start\<rparr> now]\<rparr>, clock, tid) }"

definition push_undo :: "'r history \<Rightarrow> lamport \<Rightarrow> 'r history option" where
  "push_undo h op_id = do {
     assert_that (transaction_depth h \<noteq> 0);
     (case map_get (operations h) op_id of
        Some (EditOp _) \<Rightarrow> do {
          entry \<leftarrow> list_last (undo_stack h);
          let t = transaction_of entry;
          Some (h\<lparr>undo_stack := set_last (undo_stack h) (entry\<lparr>transaction_of := t\<lparr>edit_ids := edit_ids t @ [op_id]\<rparr>\<rparr>)\<rparr>) }
      | _ \<Rightarrow> Some h) }"

definition pop_undo :: "'r history \<Rightarrow> ('r history \<times> history_entry option) option" where
  "pop_undo h = do {
     assert_that (transaction_depth h = 0);
     (case list_last (undo_stack h) of
        Some entry \<Rightarrow>
          Some (h\<lparr>undo_stack := butlast (undo_stack h), redo_stack := redo_stack h @ [entry]\<rparr>, Some entry)
      | None \<Rightarrow> Some (h, None)) }"

definition pop_redo :: "'r history \<Rightarrow> ('r history \<times> history_entry option) option" where
  "pop_redo h = do {
     assert_that (transaction_depth h = 0);
     (case list_last (redo_stack h) of
        Some entry \<Rightarrow>
          Some (h\<lparr>redo_stack := butlast (redo_stack h), undo_stack := undo_stack h @ [entry]\<rparr>, Some entry)
      | None \<Rightarrow> Some (h, None)) }"

text \<open>\<open>iter().rposition\<close>: the last index at which the predicate holds.\<close>

fun rposition :: "('a \<Rightarrow> bool) \<Rightarrow> 'a list \<Rightarrow> nat option" where
  "rposition P [] = None"
| "rposition P (x # xs) =
     (case rposition P xs of Some i \<Rightarrow> Some (Suc i) | None \<Rightarrow> if P x then Some 0 else None)"

definition remove_at :: "nat \<Rightarrow> 'a list \<Rightarrow> 'a list" where
  "remove_at i xs = take i xs @ drop (Suc i) xs"

definition remove_from_undo :: "'r history \<Rightarrow> transaction_id \<Rightarrow> ('r history \<times> history_entry option) option" where
  "remove_from_undo h tid = do {
     assert_that (transaction_depth h = 0);
     (case rposition (\<lambda>e. entry_id e = tid) (undo_stack h) of
        None \<Rightarrow> Some (h, None)
      | Some ix \<Rightarrow>
          let entry = undo_stack h ! ix
          in Some (h\<lparr>undo_stack := remove_at ix (undo_stack h), redo_stack := redo_stack h @ [entry]\<rparr>, Some entry)) }"

definition remove_from_undo_until :: "'r history \<Rightarrow> transaction_id \<Rightarrow> ('r history \<times> history_entry list) option" where
  "remove_from_undo_until h tid = do {
     assert_that (transaction_depth h = 0);
     let redo_stack_start_len = length (redo_stack h);
     let h = (case rposition (\<lambda>e. entry_id e = tid) (undo_stack h) of
         Some ix \<Rightarrow> h\<lparr>redo_stack := redo_stack h @ rev (drop ix (undo_stack h)), undo_stack := take ix (undo_stack h)\<rparr>
       | None \<Rightarrow> h);
     Some (h, drop redo_stack_start_len (redo_stack h)) }"

definition remove_from_redo :: "'r history \<Rightarrow> transaction_id \<Rightarrow> ('r history \<times> history_entry list) option" where
  "remove_from_redo h tid = do {
     assert_that (transaction_depth h = 0);
     let undo_stack_start_len = length (undo_stack h);
     let h = (case rposition (\<lambda>e. entry_id e = tid) (redo_stack h) of
         Some ix \<Rightarrow> h\<lparr>undo_stack := undo_stack h @ rev (drop ix (redo_stack h)), redo_stack := take ix (redo_stack h)\<rparr>
       | None \<Rightarrow> h);
     Some (h, drop undo_stack_start_len (undo_stack h)) }"

definition forget :: "'r history \<Rightarrow> transaction_id \<Rightarrow> ('r history \<times> transaction option) option" where
  "forget h tid = do {
     assert_that (transaction_depth h = 0);
     Some (case rposition (\<lambda>e. entry_id e = tid) (undo_stack h) of
        Some ix \<Rightarrow> (h\<lparr>undo_stack := remove_at ix (undo_stack h)\<rparr>, Some (transaction_of (undo_stack h ! ix)))
      | None \<Rightarrow>
          (case rposition (\<lambda>e. entry_id e = tid) (redo_stack h) of
             Some ix \<Rightarrow> (h\<lparr>redo_stack := remove_at ix (redo_stack h)\<rparr>, Some (transaction_of (redo_stack h ! ix)))
           | None \<Rightarrow> (h, None))) }"

definition rfind :: "('a \<Rightarrow> bool) \<Rightarrow> 'a list \<Rightarrow> 'a option" where
  "rfind P xs = List.find P (rev xs)"

definition history_transaction :: "'r history \<Rightarrow> transaction_id \<Rightarrow> transaction option" where
  "history_transaction h tid =
     map_option transaction_of
       (case rfind (\<lambda>e. entry_id e = tid) (undo_stack h) of
          Some e \<Rightarrow> Some e
        | None \<Rightarrow> rfind (\<lambda>e. entry_id e = tid) (redo_stack h))"

text \<open>
  \<open>transaction_mut\<close> followed by an assignment through the reference: \<open>f\<close> is applied to the
  transaction in place.
\<close>

definition map_entry_at :: "(transaction \<Rightarrow> transaction) \<Rightarrow> nat \<Rightarrow> history_entry list \<Rightarrow> history_entry list" where
  "map_entry_at f ix es = es[ix := (es ! ix)\<lparr>transaction_of := f (transaction_of (es ! ix))\<rparr>]"

definition transaction_mut :: "'r history \<Rightarrow> transaction_id \<Rightarrow> (transaction \<Rightarrow> transaction) \<Rightarrow> 'r history option" where
  "transaction_mut h tid f =
     (case rposition (\<lambda>e. entry_id e = tid) (undo_stack h) of
        Some ix \<Rightarrow> Some (h\<lparr>undo_stack := map_entry_at f ix (undo_stack h)\<rparr>)
      | None \<Rightarrow>
          (case rposition (\<lambda>e. entry_id e = tid) (redo_stack h) of
             Some ix \<Rightarrow> Some (h\<lparr>redo_stack := map_entry_at f ix (redo_stack h)\<rparr>)
           | None \<Rightarrow> None))"

definition merge_transactions :: "'r history \<Rightarrow> transaction_id \<Rightarrow> transaction_id \<Rightarrow> 'r history option" where
  "merge_transactions h t destination = do {
     (h, forgotten) \<leftarrow> forget h t;
     Some (case forgotten of
        None \<Rightarrow> h
      | Some f \<Rightarrow>
          (case transaction_mut h destination (\<lambda>d. d\<lparr>edit_ids := edit_ids d @ edit_ids f\<rparr>) of
             Some h' \<Rightarrow> h'
           | None \<Rightarrow> h)) }"

section \<open>Lists and positions\<close>

lemma rposition_None: "rposition P xs = None \<longleftrightarrow> (\<forall>x \<in> set xs. \<not> P x)"
  by (induction xs) (auto split: option.splits)

lemma rposition_Some:
  "rposition P xs = Some i \<Longrightarrow> i < length xs \<and> P (xs ! i) \<and> (\<forall>j. i < j \<and> j < length xs \<longrightarrow> \<not> P (xs ! j))"
proof (induction xs arbitrary: i)
  case (Cons x xs)
  show ?case
  proof (cases "rposition P xs")
    case None
    then have "\<forall>j < length xs. \<not> P (xs ! j)" by (simp add: rposition_None)
    with None Cons.prems show ?thesis by (auto simp: nth_Cons' split: if_splits)
  next
    case (Some k)
    then have k: "k < length xs" "P (xs ! k)" "\<And>j. k < j \<Longrightarrow> j < length xs \<Longrightarrow> \<not> P (xs ! j)"
      using Cons.IH by auto
    have "\<not> P ((x # xs) ! j)" if "Suc k < j" "j < length (x # xs)" for j
      using k(3) [of "j - 1"] that by (cases j) auto
    with k Some Cons.prems show ?thesis by auto
  qed
qed simp

lemma rposition_distinct:
  assumes "distinct (map f xs)" "i < length xs"
  shows "rposition (\<lambda>x. f x = f (xs ! i)) xs = Some i"
proof -
  obtain j where j: "rposition (\<lambda>x. f x = f (xs ! i)) xs = Some j"
    using assms(2) rposition_None [of "\<lambda>x. f x = f (xs ! i)" xs] nth_mem by (cases "rposition (\<lambda>x. f x = f (xs ! i)) xs") auto
  then have "j < length xs" "f (xs ! j) = f (xs ! i)" using rposition_Some by fastforce+
  with assms have "j = i" by (simp add: distinct_conv_nth) metis
  with j show ?thesis by simp
qed

lemma remove_at_mset: "i < length xs \<Longrightarrow> mset (remove_at i xs) + {#xs ! i#} = mset xs"
  by (simp add: remove_at_def) (metis id_take_nth_drop mset.simps(2) mset_append union_mset_add_mset_right)

section \<open>Grouping\<close>

definition stack_edits :: "history_entry list \<Rightarrow> lamport list" where
  "stack_edits es = concat (map (\<lambda>e. edit_ids (transaction_of e)) es)"

lemma stack_edits_simps [simp]:
  "stack_edits [] = []" "stack_edits (e # es) = edit_ids (transaction_of e) @ stack_edits es"
  "stack_edits (es @ fs) = stack_edits es @ stack_edits fs"
  by (simp_all add: stack_edits_def)

text \<open>
  Merging the last \<open>n\<close> entries into the one before them loses no edit and keeps their order; the
  merged entry keeps the identity of the earliest and the end time of the latest.
\<close>

lemma group_trailing_ok:
  assumes "undo_stack h = keep @ e # merge"
  shows "\<exists>e'. group_trailing h (length merge) = Some (h\<lparr>undo_stack := keep @ [e']\<rparr>, Some (entry_id e)) \<and>
    entry_id e' = entry_id e \<and> edit_ids (transaction_of e') = stack_edits (e # merge) \<and>
    tr_start (transaction_of e') = tr_start (transaction_of e) \<and>
    first_edit_at e' = first_edit_at e \<and> last_edit_at e' = last_edit_at (last (e # merge)) \<and>
    suppress_grouping e' = suppress_grouping e"
proof -
  have "take (length (undo_stack h) - length merge) (undo_stack h) = keep @ [e]"
    "drop (length (undo_stack h) - length merge) (undo_stack h) = merge"
    using assms by simp_all
  moreover define e' where "e' = e\<lparr>transaction_of := (transaction_of e)\<lparr>edit_ids := stack_edits (e # merge)\<rparr>,
    last_edit_at := last_edit_at (last (e # merge))\<rparr>"
  ultimately have "group_trailing h (length merge) = Some (h\<lparr>undo_stack := keep @ [e']\<rparr>, Some (entry_id e))"
    using assms by (cases "merge = []")
      (simp_all add: group_trailing_def Let_def stack_edits_def entry_id_def list_last_def set_last_def)
  then show ?thesis by (auto simp: e'_def entry_id_def)
qed

lemma group_count_le: "group_count i e es \<le> length es"
  by (induction es arbitrary: e) auto

text \<open>\<open>group\<close> merges the longest run of entries at the end that follow each other within the interval.\<close>

fun close_run :: "duration \<Rightarrow> history_entry list \<Rightarrow> bool" where
  "close_run i (e # f # es) \<longleftrightarrow>
     \<not> suppress_grouping e \<and> first_edit_at f - last_edit_at e < i \<and> close_run i (f # es)"
| "close_run i _ \<longleftrightarrow> True"

lemma close_run_snoc:
  "close_run i (es @ [e, f]) \<longleftrightarrow>
   close_run i (es @ [e]) \<and> \<not> suppress_grouping e \<and> first_edit_at f - last_edit_at e < i"
  by (induction i es rule: close_run.induct) auto

lemma close_run_Cons:
  "close_run i (e # es) \<longleftrightarrow>
   (case es of [] \<Rightarrow> True | f # _ \<Rightarrow> \<not> suppress_grouping e \<and> first_edit_at f - last_edit_at e < i) \<and> close_run i es"
  by (cases es) auto

lemma group_count_run:
  "group_count i e es = n \<Longrightarrow> close_run i (rev (take n es) @ [e]) \<and> (n < length es \<longrightarrow> \<not> close_run i (rev (take (Suc n) es) @ [e]))"
proof (induction es arbitrary: e n)
  case (Cons p es)
  show ?case
  proof (cases "\<not> suppress_grouping p \<and> first_edit_at e - last_edit_at p < i")
    case True
    with Cons.prems obtain m where m: "n = Suc m" "group_count i p es = m" by auto
    from Cons.IH [OF m(2)] True m show ?thesis by (simp add: close_run_snoc)
  next
    case False
    with Cons.prems have "n = 0" by (auto split: if_splits)
    with False show ?thesis by (cases es) auto
  qed
qed simp

lemma group_ok:
  assumes "undo_stack h \<noteq> []"
  shows "\<exists>keep e merge e'. undo_stack h = keep @ e # merge \<and>
    group h = Some (h\<lparr>undo_stack := keep @ [e']\<rparr>, Some (entry_id e)) \<and>
    entry_id e' = entry_id e \<and> edit_ids (transaction_of e') = stack_edits (e # merge) \<and>
    close_run (group_interval h) (e # merge) \<and>
    (keep \<noteq> [] \<longrightarrow> \<not> close_run (group_interval h) (last keep # e # merge))"
proof -
  obtain l es where l: "undo_stack h = es @ [l]" using assms by (cases "undo_stack h" rule: rev_cases) auto
  define n where "n = group_count (group_interval h) l (rev es)"
  have n: "n \<le> length es" using group_count_le [of _ l "rev es"] by (simp add: n_def)
  let ?run = "drop (length es - n) es @ [l]"
  obtain e merge where run: "?run = e # merge" by (cases ?run) auto
  let ?keep = "take (length es - n) es"
  have stack: "undo_stack h = ?keep @ e # merge" using l run by (metis append.assoc append_take_drop_id)
  have "Suc (length merge) = Suc n" using arg_cong [OF run, of length] n by simp
  then have g: "group h = group_trailing h (length merge)" using l by (simp add: group_def n_def)
  have rt: "rev (take n (rev es)) @ [l] = e # merge" using run by (simp add: rev_take)
  have "\<not> close_run (group_interval h) (last ?keep # e # merge)" if "?keep \<noteq> []"
  proof -
    have "n < length es" using that by simp
    then have "rev (take (Suc n) (rev es)) @ [l] = drop (length es - Suc n) es @ [l]" by (simp add: rev_take)
    also have "\<dots> = es ! (length es - Suc n) # e # merge"
      using run \<open>n < length es\<close> by (metis Cons_nth_drop_Suc Suc_diff_Suc append_Cons diff_less length_greater_0_conv less_nat_zero_code list.size(3) not_less zero_less_Suc)
    also have "es ! (length es - Suc n) = last ?keep"
      using \<open>n < length es\<close> that by (simp add: last_conv_nth)
    finally show ?thesis
      using group_count_run [of "group_interval h" l "rev es" n] \<open>n < length es\<close> by (simp add: n_def)
  qed
  moreover have "close_run (group_interval h) (e # merge)"
    using group_count_run [of "group_interval h" l "rev es" n] rt by (simp add: n_def)
  ultimately show ?thesis
    using group_trailing_ok [OF stack] stack g by metis
qed

lemma group_until_loop_ok:
  assumes "undo_stack h = rev es @ later" "\<forall>e \<in> set later. entry_id e \<noteq> tid \<and> \<not> suppress_grouping e"
  shows "group_until_loop h tid (length later) es = Some h \<or>
    (\<exists>keep e merge e'. undo_stack h = keep @ e # merge \<and> entry_id e = tid \<and> entry_id e' = tid \<and>
       (\<forall>m \<in> set merge. entry_id m \<noteq> tid \<and> \<not> suppress_grouping m) \<and>
       edit_ids (transaction_of e') = stack_edits (e # merge) \<and>
       group_until_loop h tid (length later) es = Some (h\<lparr>undo_stack := keep @ [e']\<rparr>))"
  using assms
proof (induction es arbitrary: later)
  case (Cons e es)
  show ?case
  proof (cases "entry_id e = tid")
    case True
    have stack: "undo_stack h = rev es @ e # later" using Cons.prems(1) by simp
    obtain e' where e': "group_trailing h (length later) = Some (h\<lparr>undo_stack := rev es @ [e']\<rparr>, Some (entry_id e))"
      "entry_id e' = entry_id e" "edit_ids (transaction_of e') = stack_edits (e # later)"
      using group_trailing_ok [OF stack] by blast
    have "group_until_loop h tid (length later) (e # es) = Some (h\<lparr>undo_stack := rev es @ [e']\<rparr>)"
      using True e'(1) by simp
    with stack True Cons.prems(2) e'(2,3) show ?thesis by blast
  next
    case False
    with Cons.IH [of "e # later"] Cons.prems show ?thesis by (cases "suppress_grouping e") auto
  qed
qed simp

lemma group_until_ok:
  "group_until h tid = Some h \<or>
    (\<exists>keep e merge e'. undo_stack h = keep @ e # merge \<and> entry_id e = tid \<and> entry_id e' = tid \<and>
       (\<forall>m \<in> set merge. entry_id m \<noteq> tid \<and> \<not> suppress_grouping m) \<and>
       edit_ids (transaction_of e') = stack_edits (e # merge) \<and>
       group_until h tid = Some (h\<lparr>undo_stack := keep @ [e']\<rparr>))"
  using group_until_loop_ok [of h "rev (undo_stack h)" "[]" tid] by (simp add: group_until_def)

section \<open>The life of a history\<close>

text \<open>
  Every call that changes a history, as a step on the history, the Lamport clock and the identities of
  the transactions that callers have handed to \<open>push_transaction\<close>, which takes any transaction.
  Starting a transaction needs a clock that has not reached its last value.
\<close>

type_synonym 'r history_state = "'r history \<times> lamport \<times> transaction_id multiset"

inductive history_step :: "'r history_state \<Rightarrow> 'r history_state \<Rightarrow> bool" where
  start: "lamport_value clock \<noteq> - 1 \<Longrightarrow> start_transaction h version now clock = (h', clock', tid) \<Longrightarrow>
    history_step (h, clock, P) (h', clock', P)"
| push_empty: "lamport_value clock \<noteq> - 1 \<Longrightarrow> push_empty_transaction h version now clock = Some (h', clock', tid) \<Longrightarrow>
    history_step (h, clock, P) (h', clock', P)"
| push: "push_transaction h tr now = Some h' \<Longrightarrow> history_step (h, clock, P) (h', clock, add_mset (tr_id tr) P)"
| close: "end_transaction h now = Some (h', entry) \<Longrightarrow> history_step (h, clock, P) (h', clock, P)"
| push_edit: "push_undo h op_id = Some h' \<Longrightarrow> history_step (h, clock, P) (h', clock, P)"
| push_op: "history_push h op = Some h' \<Longrightarrow> history_step (h, clock, P) (h', clock, P)"
| group: "group h = Some (h', tid) \<Longrightarrow> history_step (h, clock, P) (h', clock, P)"
| group_until: "group_until h t = Some h' \<Longrightarrow> history_step (h, clock, P) (h', clock, P)"
| set_interval: "history_step (h, clock, P) (h\<lparr>group_interval := d\<rparr>, clock, P)"
| finalize: "finalize_last_transaction h = (h', t) \<Longrightarrow> history_step (h, clock, P) (h', clock, P)"
| undo: "pop_undo h = Some (h', entry) \<Longrightarrow> history_step (h, clock, P) (h', clock, P)"
| redo: "pop_redo h = Some (h', entry) \<Longrightarrow> history_step (h, clock, P) (h', clock, P)"
| undo_one: "remove_from_undo h t = Some (h', entry) \<Longrightarrow> history_step (h, clock, P) (h', clock, P)"
| undo_until: "remove_from_undo_until h t = Some (h', es) \<Longrightarrow> history_step (h, clock, P) (h', clock, P)"
| redo_until: "remove_from_redo h t = Some (h', es) \<Longrightarrow> history_step (h, clock, P) (h', clock, P)"
| forget: "forget h t = Some (h', tr) \<Longrightarrow> history_step (h, clock, P) (h', clock, P)"
| merge: "merge_transactions h t t' = Some h' \<Longrightarrow> history_step (h, clock, P) (h', clock, P)"
| observe: "lamport_value (lamport_observe clock ts) > lamport_value clock \<Longrightarrow>
    history_step (h, clock, P) (h, lamport_observe clock ts, P)"

definition history_ids :: "'r history \<Rightarrow> transaction_id multiset" where
  "history_ids h = image_mset entry_id (mset (undo_stack h) + mset (redo_stack h))"

text \<open>How often an identity may be on the stacks: once if the clock has issued it, and once more for every time it was pushed.\<close>

definition id_bound :: "lamport \<Rightarrow> transaction_id multiset \<Rightarrow> transaction_id \<Rightarrow> nat" where
  "id_bound clock P t = count P t + (if lamport_value t < lamport_value clock then 1 else 0)"

text \<open>The bound holds for every identity, and an open transaction is on top of the undo stack.\<close>

definition history_ok :: "'r history_state \<Rightarrow> bool" where
  "history_ok s \<longleftrightarrow>
     (case s of (h, clock, P) \<Rightarrow>
        (\<forall>t. count (history_ids h) t \<le> id_bound clock P t) \<and> (transaction_depth h \<noteq> 0 \<longrightarrow> undo_stack h \<noteq> []))"

lemma history_ok_weaken:
  assumes "history_ok (h, clock, P)" "history_ids h' \<subseteq># history_ids h" "lamport_value clock \<le> lamport_value clock'"
    and "transaction_depth h' \<noteq> 0 \<Longrightarrow> undo_stack h' \<noteq> []"
  shows "history_ok (h', clock', P)"
proof -
  have "count (history_ids h') t \<le> id_bound clock' P t" for t
  proof -
    have "count (history_ids h') t \<le> count (history_ids h) t" by (rule mset_subset_eq_count [OF assms(2)])
    also have "\<dots> \<le> id_bound clock P t" using assms(1) by (simp add: history_ok_def)
    also have "\<dots> \<le> id_bound clock' P t" using assms(3) by (auto simp: id_bound_def)
    finally show ?thesis .
  qed
  with assms(4) show ?thesis by (simp add: history_ok_def)
qed

lemma tick_above: "lamport_value clock \<noteq> - 1 \<Longrightarrow> lamport_value clock < lamport_value (fst (tick clock))"
  using tick_less [of clock] by (simp add: tick_def lamport_less_iff)

lemma history_ids_simps [simp]:
  "history_ids (h\<lparr>undo_stack := us\<rparr>) = image_mset entry_id (mset us) + image_mset entry_id (mset (redo_stack h))"
  "history_ids (h\<lparr>redo_stack := rs\<rparr>) = image_mset entry_id (mset (undo_stack h)) + image_mset entry_id (mset rs)"
  "history_ids (h\<lparr>operations := ops\<rparr>) = history_ids h"
  "history_ids (h\<lparr>transaction_depth := d\<rparr>) = history_ids h"
  "history_ids (h\<lparr>group_interval := i\<rparr>) = history_ids h"
  by (simp_all add: history_ids_def)

text \<open>A new identity is one the clock has not issued; a pushed one counts as pushed.\<close>

lemma history_ok_new:
  assumes "history_ok (h, clock, P)" "lamport_value clock \<noteq> - 1" "history_ids h' = add_mset clock (history_ids h)"
    and "undo_stack h' \<noteq> []"
  shows "history_ok (h', fst (tick clock), P)"
proof -
  have old: "count (history_ids h) t \<le> id_bound clock P t" for t using assms(1) by (simp add: history_ok_def)
  have "count (history_ids h') t \<le> id_bound (fst (tick clock)) P t" for t
    using old [of t] tick_above [OF assms(2)] by (auto simp: id_bound_def assms(3) dest: less_trans split: if_splits)
  with assms(4) show ?thesis by (simp add: history_ok_def)
qed

lemma history_ok_push:
  assumes "history_ok (h, clock, P)" "push_transaction h tr now = Some h'"
  shows "history_ok (h', clock, add_mset (tr_id tr) P)"
proof -
  have ids: "history_ids h' = add_mset (tr_id tr) (history_ids h)" "transaction_depth h' = 0"
    using assms(2) by (auto simp: push_transaction_def history_ids_def new_entry_def entry_id_def)
  have "count (history_ids h) t \<le> id_bound clock P t" for t using assms(1) by (simp add: history_ok_def)
  then have "count (history_ids h') t \<le> id_bound clock (add_mset (tr_id tr) P) t" for t by (auto simp: ids(1) id_bound_def)
  with ids(2) show ?thesis by (simp add: history_ok_def)
qed

lemma drop_take_ids [simp]: "image_mset f (mset (drop n xs)) + image_mset f (mset (take n xs)) = image_mset f (mset xs)"
  by (metis add.commute append_take_drop_id image_mset_union mset_append)

lemma take_drop_ids [simp]: "image_mset f (mset (take n xs)) + image_mset f (mset (drop n xs)) = image_mset f (mset xs)"
  by (metis append_take_drop_id image_mset_union mset_append)

lemma remove_at_ids: "i < length xs \<Longrightarrow> add_mset (f (xs ! i)) (image_mset f (mset (remove_at i xs))) = image_mset f (mset xs)"
  using arg_cong [OF remove_at_mset, of i xs "image_mset f"] by simp

lemma history_ids_forget:
  assumes "forget h t = Some (h', r)"
  shows "history_ids h' \<subseteq># history_ids h" "transaction_depth h = 0" "transaction_depth h' = 0"
    "r = None \<longrightarrow> h' = h"
proof -
  have "image_mset entry_id (mset (remove_at i es)) \<subseteq># image_mset entry_id (mset es)"
    if "rposition (\<lambda>e. entry_id e = t) es = Some i" for i es
    using rposition_Some [OF that] by (metis remove_at_ids mset_subset_eq_add_mset_cancel subset_mset.order_refl mset_subset_eq_add_right add_mset_add_single mset_subset_eq_add_left)
  then show "history_ids h' \<subseteq># history_ids h" "transaction_depth h = 0" "transaction_depth h' = 0" "r = None \<longrightarrow> h' = h"
    using assms by (auto simp: forget_def history_ids_def split: option.splits)
qed

lemma map_entry_at_ids:
  assumes "ix < length es" "\<And>t. tr_id (f t) = tr_id t"
  shows "map entry_id (map_entry_at f ix es) = map entry_id es"
  using assms by (simp add: map_entry_at_def map_update entry_id_def list_update_same_conv)

lemma transaction_mut_ids:
  assumes "transaction_mut h t f = Some h'" "\<And>t. tr_id (f t) = tr_id t"
  shows "history_ids h' = history_ids h" "transaction_depth h' = transaction_depth h" "undo_stack h' = [] \<longleftrightarrow> undo_stack h = []"
proof -
  have "image_mset entry_id (mset (map_entry_at f ix es)) = image_mset entry_id (mset es)" if "ix < length es" for ix es
    using map_entry_at_ids [OF that assms(2)] by (metis mset_map)
  then show "history_ids h' = history_ids h" "transaction_depth h' = transaction_depth h" "undo_stack h' = [] \<longleftrightarrow> undo_stack h = []"
    using assms(1) by (auto simp: transaction_mut_def history_ids_def map_entry_at_def dest: rposition_Some split: option.splits)
qed

text \<open>Steps that move or drop entries.\<close>

lemma history_step_ids:
  assumes "history_step (h, clock, P) (h', clock', P')"
  shows "(\<exists>tr now. push_transaction h tr now = Some h' \<and> clock' = clock \<and> P' = add_mset (tr_id tr) P) \<or>
    (history_ids h' \<subseteq># history_ids h \<and> lamport_value clock \<le> lamport_value clock' \<and> P' = P) \<or>
    (history_ids h' = add_mset clock (history_ids h) \<and> clock' = fst (tick clock) \<and> undo_stack h' \<noteq> [] \<and>
     lamport_value clock \<noteq> - 1 \<and> P' = P)"
  using assms
proof cases
  case (start version now tid)
  then show ?thesis
    by (auto simp: start_transaction_def Let_def tick_def new_entry_def entry_id_def history_ids_def split: if_splits)
next
  case (push_empty version now tid)
  then show ?thesis
    by (auto simp: push_empty_transaction_def Let_def tick_def new_entry_def entry_id_def history_ids_def)
next
  case (close now entry)
  obtain es e where "undo_stack h = es @ [e] \<or> undo_stack h = []" by (cases "undo_stack h" rule: rev_cases) auto
  with close show ?thesis
    by (auto simp: end_transaction_def Let_def history_ids_def entry_id_def split: if_splits)
next
  case (push_edit op_id)
  obtain es e where "undo_stack h = es @ [e] \<or> undo_stack h = []" by (cases "undo_stack h" rule: rev_cases) auto
  with push_edit show ?thesis
    by (auto simp: push_undo_def Let_def history_ids_def entry_id_def split: option.splits operation.splits)
next
  case (push_op op)
  then show ?thesis by (auto simp: history_push_def)
next
  case (group tid)
  show ?thesis
  proof (cases "undo_stack h = []")
    case True
    with group show ?thesis by (auto simp: group_def group_trailing_def Let_def history_ids_def)
  next
    case False
    from group_ok [OF this] group show ?thesis by (auto simp: history_ids_def)
  qed
next
  case (group_until t)
  with group_until_ok [of h t] show ?thesis by (auto simp: history_ids_def)
next
  case (finalize t)
  obtain es e where "undo_stack h = es @ [e] \<or> undo_stack h = []" by (cases "undo_stack h" rule: rev_cases) auto
  with finalize show ?thesis by (auto simp: finalize_last_transaction_def history_ids_def entry_id_def)
next
  case (undo entry)
  obtain es e where "undo_stack h = es @ [e] \<or> undo_stack h = []" by (cases "undo_stack h" rule: rev_cases) auto
  with undo show ?thesis by (auto simp: pop_undo_def history_ids_def)
next
  case (redo entry)
  obtain es e where "redo_stack h = es @ [e] \<or> redo_stack h = []" by (cases "redo_stack h" rule: rev_cases) auto
  with redo show ?thesis by (auto simp: pop_redo_def history_ids_def)
next
  case (undo_one t entry)
  then show ?thesis
    by (auto simp: remove_from_undo_def Let_def history_ids_def remove_at_ids [symmetric] dest: rposition_Some split: option.splits)
next
  case (undo_until t es)
  then show ?thesis
    by (auto simp: remove_from_undo_until_def Let_def history_ids_def add.assoc [symmetric] split: option.splits)
next
  case (redo_until t es)
  then show ?thesis
    by (auto simp: remove_from_redo_def Let_def history_ids_def add.assoc split: option.splits)
next
  case (forget t tr)
  with history_ids_forget show ?thesis by blast
next
  case (merge t t')
  then obtain h1 r where f: "forget h t = Some (h1, r)" by (auto simp: merge_transactions_def)
  then have "history_ids h' = history_ids h1"
    using merge transaction_mut_ids(1) [of h1 t' "\<lambda>d. d\<lparr>edit_ids := edit_ids d @ _\<rparr>"]
    by (auto simp: merge_transactions_def split: option.splits)
  with history_ids_forget(1) [OF f] merge show ?thesis by simp
qed auto

lemma history_step_open:
  assumes "history_step (h, clock, P) (h', clock', P')" "transaction_depth h \<noteq> 0 \<longrightarrow> undo_stack h \<noteq> []"
  shows "transaction_depth h' \<noteq> 0 \<longrightarrow> undo_stack h' \<noteq> []"
  using assms
proof cases
  case (group tid)
  show ?thesis
  proof (cases "undo_stack h = []")
    case True
    with group assms(2) show ?thesis by (auto simp: group_def group_trailing_def Let_def)
  next
    case False
    from group_ok [OF this] group show ?thesis by auto
  qed
next
  case (group_until t)
  with group_until_ok [of h t] assms(2) show ?thesis by auto
next
  case (forget t tr)
  from history_ids_forget(3) [OF forget(3)] show ?thesis by simp
next
  case (merge t t')
  then obtain h1 r where f: "forget h t = Some (h1, r)" by (auto simp: merge_transactions_def)
  then have "transaction_depth h' = transaction_depth h1"
    using merge transaction_mut_ids(2) [of h1 t' "\<lambda>d. d\<lparr>edit_ids := edit_ids d @ _\<rparr>"]
    by (auto simp: merge_transactions_def split: option.splits)
  with history_ids_forget(3) [OF f] show ?thesis by simp
qed (use assms(2) in \<open>auto simp: start_transaction_def push_empty_transaction_def push_transaction_def end_transaction_def push_undo_def history_push_def
    finalize_last_transaction_def pop_undo_def pop_redo_def remove_from_undo_def remove_from_undo_until_def remove_from_redo_def
    set_last_def Let_def split: if_splits option.splits operation.splits prod.splits\<close>)

theorem history_ok_step:
  assumes "history_ok s" "history_step s s'"
  shows "history_ok s'"
proof -
  obtain h clock P h' clock' P' where s: "s = (h, clock, P)" "s' = (h', clock', P')" by (cases s; cases s') auto
  have ok: "history_ok (h, clock, P)" and step: "history_step (h, clock, P) (h', clock', P')" using assms s by simp_all
  have "transaction_depth h \<noteq> 0 \<longrightarrow> undo_stack h \<noteq> []" using ok by (simp add: history_ok_def)
  from history_step_open [OF step this] have depth: "transaction_depth h' \<noteq> 0 \<Longrightarrow> undo_stack h' \<noteq> []" by blast
  from history_step_ids [OF step] show ?thesis
    unfolding s
  proof (elim disjE exE conjE, goal_cases)
    case (1 tr now)
    with history_ok_push [OF ok] show ?case by simp
  next
    case 2
    with history_ok_weaken [OF ok _ _ depth] show ?case by simp
  next
    case 3
    with history_ok_new [OF ok] show ?case by simp
  qed
qed

lemma history_ok_new_state: "history_ok (history_new r, clock, {#})"
  by (simp add: history_ok_def history_new_def history_ids_def)

lemma history_ok_reachable: "history_step\<^sup>*\<^sup>* s s' \<Longrightarrow> history_ok s \<Longrightarrow> history_ok s'"
  by (induction rule: rtranclp_induct) (auto intro: history_ok_step)

section \<open>Undo and redo\<close>

text \<open>Popping an entry and pushing it back restores the history.\<close>

lemma pop_undo_redo:
  assumes "transaction_depth h = 0" "undo_stack h \<noteq> []"
  shows "\<exists>h'. pop_undo h = Some (h', Some (last (undo_stack h))) \<and> pop_redo h' = Some (h, Some (last (undo_stack h)))"
  using assms by (cases "undo_stack h" rule: rev_cases) (simp_all add: pop_undo_def pop_redo_def)

text \<open>
  Undoing back to a transaction yields its entries, latest first, and redoing up to the entry that
  was on top restores the history.
\<close>

lemma undo_redo_until:
  assumes "transaction_depth h = 0" "undo_stack h = keep @ e # later" "distinct (map entry_id (undo_stack h @ redo_stack h))"
  shows "\<exists>h'. remove_from_undo_until h (entry_id e) = Some (h', rev (e # later)) \<and> undo_stack h' = keep \<and>
    redo_stack h' = redo_stack h @ rev (e # later) \<and>
    remove_from_redo h' (entry_id (last (undo_stack h))) = Some (h, e # later)"
proof -
  let ?h' = "h\<lparr>redo_stack := redo_stack h @ rev (e # later), undo_stack := keep\<rparr>"
  have "rposition (\<lambda>x. entry_id x = entry_id (undo_stack h ! length keep)) (undo_stack h) = Some (length keep)"
    using assms(2,3) by (intro rposition_distinct) auto
  then have pos: "rposition (\<lambda>x. entry_id x = entry_id e) (undo_stack h) = Some (length keep)"
    using assms(2) by (simp add: nth_append)
  have until: "remove_from_undo_until h (entry_id e) = Some (?h', rev (e # later))"
    using assms(1,2) pos by (simp add: remove_from_undo_until_def)
  let ?r = "redo_stack h @ rev (e # later)"
  have nth: "?r ! length (redo_stack h) = last (undo_stack h)"
    using assms(2) by (cases later rule: rev_cases) (simp_all add: nth_append)
  have "rposition (\<lambda>x. entry_id x = entry_id (?r ! length (redo_stack h))) ?r = Some (length (redo_stack h))"
    using assms(2,3) by (intro rposition_distinct) (auto simp: distinct_map)
  then have "remove_from_redo ?h' (entry_id (last (undo_stack h))) = Some (h, e # later)"
    unfolding nth using assms(1,2) by (simp add: remove_from_redo_def)
  with until show ?thesis by auto
qed

text \<open>A transaction that recorded no edit leaves no trace on the undo stack.\<close>

lemma empty_transaction_discarded:
  assumes "transaction_depth h = 0" "start_transaction h version now clock = (h1, clock', tid)"
  shows "\<exists>h2. end_transaction h1 later = Some (h2, None) \<and> h2 = h"
  using assms by (auto simp: start_transaction_def end_transaction_def Let_def tick_def new_entry_def split: if_splits)

text \<open>
  A transaction around one edit: the edit is recorded under a fresh identity, the redo stack is
  dropped and no panic occurs.
\<close>

lemma edit_transaction:
  assumes "transaction_depth h = 0" "map_ok (operations h)" "node_height (operations h) < STACK_CAP"
    and "start_transaction h version now clock = (h1, clock', tid)"
  shows "\<exists>h2 h3 h4 entry. history_push h1 (EditOp op) = Some h2 \<and> push_undo h2 (op_timestamp op) = Some h3 \<and>
    end_transaction h3 later = Some (h4, Some entry) \<and>
    undo_stack h4 = undo_stack h @ [entry] \<and> redo_stack h4 = [] \<and> transaction_depth h4 = 0 \<and>
    entry_id entry = clock \<and> edit_ids (transaction_of entry) = [op_timestamp op] \<and>
    map_ok (operations h4) \<and> map_abs (operations h4) = (map_abs (operations h))(op_timestamp op \<mapsto> EditOp op)"
proof -
  define entry0 where "entry0 = new_entry \<lparr>tr_id = clock, edit_ids = [], tr_start = version\<rparr> now"
  have h1: "h1 = h\<lparr>transaction_depth := 1, undo_stack := undo_stack h @ [entry0]\<rparr>"
    using assms(1,4) by (auto simp: start_transaction_def Let_def tick_def entry0_def)
  obtain ops where ops: "map_insert (operations h) (op_timestamp op) (EditOp op) = Some ops" "map_ok ops"
    "map_abs ops = (map_abs (operations h))(op_timestamp op \<mapsto> EditOp op)"
    using map_insert_correct [OF assms(2,3)] by blast
  have "map_get ops (op_timestamp op) = Some (EditOp op)"
    using map_get_correct [OF ops(2)] ops(3) by simp
  with ops assms(1) show ?thesis
    by (simp add: h1 history_push_def push_undo_def end_transaction_def entry0_def new_entry_def entry_id_def Let_def)
qed

end
