(* ===== verification/Operation_Queue.thy ===== *)
theory Operation_Queue
  imports SumTree_Iter SumTree_Keyed Clock
begin

text \<open>
  \<open>crates/text/src/operation_queue.rs\<close>: operations that wait for their dependencies, kept in a sum
  tree in the order of their Lamport timestamps.  The timestamp of an operation is the argument
  \<open>stamp\<close> (the trait \<open>Operation\<close>).

  The source asserts in \<open>add_summary\<close> that the key of a summary is below the key of the one added.  A
  summary here records in \<open>os_panicked\<close> that the assertion failed while it was computed; every sum of it
  keeps the mark, and \<open>queue_insert\<close> returns \<open>None\<close> when the summary of its result has it.  The mark is
  set in two more cases, which make addition associative: when the key is not below the first key of the
  part added (\<open>os_first\<close>, which the source does not store), and for an operation stamped
  \<open>Lamport::MIN\<close>, where the source panics once its summary is added to zero.  So the model returns only
  where no assertion of \<open>add_summary\<close> fails.  The assertion of the dimension, that a position is not
  above the key it moves to, holds in every tree without the mark (\<open>operation_key_assertion\<close>).
\<close>

section \<open>Definitions\<close>

record operation_summary =
  os_key :: lamport
  os_len :: nat
  os_first :: lamport
  os_panicked :: bool

definition operation_summary_zero :: operation_summary where
  "operation_summary_zero = \<lparr>os_key = lamport_MIN, os_len = 0, os_first = lamport_MIN, os_panicked = False\<rparr>"

definition operation_summary_add :: "operation_summary \<Rightarrow> operation_summary \<Rightarrow> operation_summary" where
  "operation_summary_add s other =
     \<lparr>os_key = os_key other, os_len = os_len s + os_len other,
      os_first = (if os_len s = 0 then os_first other else os_first s),
      os_panicked = (os_panicked s \<or> os_panicked other \<or> \<not> os_key s < os_key other \<or> \<not> os_key s < os_first other)\<rparr>"

definition operation_item :: "('op \<Rightarrow> lamport) \<Rightarrow> ('op, operation_summary) item_impl" where
  "operation_item stamp =
     \<lparr>item_summary = (\<lambda>op. \<lparr>os_key = stamp op, os_len = 1, os_first = stamp op, os_panicked = (stamp op = lamport_MIN)\<rparr>),
      summary_zero = operation_summary_zero, add_summary = operation_summary_add\<rparr>"

definition operation_key :: "(operation_summary, lamport) dimension" where
  "operation_key = \<lparr>dim_zero = lamport_MIN, dim_add = (\<lambda>d s. os_key s)\<rparr>"

definition operation_key_assert :: "lamport \<Rightarrow> operation_summary \<Rightarrow> bool" where
  "operation_key_assert d s \<longleftrightarrow> d \<le> os_key s"

definition operation_keyed :: "('op \<Rightarrow> lamport) \<Rightarrow> ('op, operation_summary, lamport) keyed_impl" where
  "operation_keyed stamp = \<lparr>keyed_item = operation_item stamp, item_key = stamp, key_dim = operation_key\<rparr>"

type_synonym 'op operation_queue = "('op, operation_summary) sum_tree"

definition queue_new :: "('op \<Rightarrow> lamport) \<Rightarrow> 'op operation_queue" where
  "queue_new stamp = tree_new (operation_item stamp)"

definition queue_len :: "'op operation_queue \<Rightarrow> nat" where
  "queue_len q = os_len (node_summary q)"

definition queue_is_empty :: "'op operation_queue \<Rightarrow> bool" where
  "queue_is_empty q \<longleftrightarrow> queue_len q = 0"

text \<open>\<open>dedup_by_key\<close> keeps the first of several consecutive elements with the same key.\<close>

fun dedup_by_key :: "('a \<Rightarrow> 'k) \<Rightarrow> 'a list \<Rightarrow> 'a list" where
  "dedup_by_key f (x # y # xs) =
     (if f x = f y then dedup_by_key f (x # xs) else x # dedup_by_key f (y # xs))"
| "dedup_by_key f xs = xs"

definition queue_insert :: "('op \<Rightarrow> lamport) \<Rightarrow> 'op operation_queue \<Rightarrow> 'op list \<Rightarrow> 'op operation_queue option" where
  "queue_insert stamp q ops = do {
     let ops = dedup_by_key stamp (sort_key stamp ops);
     (q', _) \<leftarrow> tree_edit (operation_keyed stamp) q (map Insert ops);
     assert_that (\<not> os_panicked (node_summary q'));
     Some q' }"

definition queue_drain :: "('op \<Rightarrow> lamport) \<Rightarrow> 'op operation_queue \<Rightarrow> 'op operation_queue \<times> 'op operation_queue" where
  "queue_drain stamp q = (queue_new stamp, q)"

definition queue_iter :: "'op operation_queue \<Rightarrow> nat \<Rightarrow> 'op list option" where
  "queue_iter q n = iter_take q n []"

section \<open>Deduplication\<close>

lemma dedup_set_keys: "f ` set (dedup_by_key f xs) = f ` set xs"
  by (induction f xs rule: dedup_by_key.induct) auto

lemma dedup_subset: "set (dedup_by_key f xs) \<subseteq> set xs"
  by (induction f xs rule: dedup_by_key.induct) auto

lemma dedup_hd: "xs \<noteq> [] \<Longrightarrow> dedup_by_key f xs \<noteq> [] \<and> hd (dedup_by_key f xs) = hd xs"
  by (induction f xs rule: dedup_by_key.induct) auto

lemma dedup_strict:
  "sorted (map f xs) \<Longrightarrow> sorted_wrt (<) (map f (dedup_by_key f xs))" for f :: "'a \<Rightarrow> 'k::linorder"
proof (induction f xs rule: dedup_by_key.induct)
  case (1 f x y xs)
  show ?case
  proof (cases "f x = f y")
    case True
    with 1 show ?thesis by auto
  next
    case False
    have "f x < f z" if "z \<in> set (y # xs)" for z
      using 1(3) that False by fastforce
    moreover have "f ` set (dedup_by_key f (y # xs)) = f ` set (y # xs)" by (rule dedup_set_keys)
    ultimately have "\<forall>k \<in> set (map f (dedup_by_key f (y # xs))). f x < k" by auto
    with False 1 show ?thesis by simp
  qed
qed simp_all

section \<open>Interpretation\<close>

lemma operation_keyed_simps [simp]:
  "keyed_item (operation_keyed stamp) = operation_item stamp" "item_key (operation_keyed stamp) = stamp"
  "key_dim (operation_keyed stamp) = operation_key"
  by (simp_all add: operation_keyed_def)

lemma operation_item_sel [simp]:
  "item_summary (operation_item stamp) op = \<lparr>os_key = stamp op, os_len = 1, os_first = stamp op, os_panicked = (stamp op = lamport_MIN)\<rparr>"
  "summary_zero (operation_item stamp) = operation_summary_zero" "add_summary (operation_item stamp) = operation_summary_add"
  by (simp_all add: operation_item_def)

lemma operation_summary_add_sel [simp]:
  "os_key (operation_summary_add s t) = os_key t" "os_len (operation_summary_add s t) = os_len s + os_len t"
  "os_first (operation_summary_add s t) = (if os_len s = 0 then os_first t else os_first s)"
  "os_panicked (operation_summary_add s t) \<longleftrightarrow> os_panicked s \<or> os_panicked t \<or> \<not> os_key s < os_key t \<or> \<not> os_key s < os_first t"
  by (simp_all add: operation_summary_add_def)

text \<open>A sum without the mark has its first key above \<open>Lamport::MIN\<close> and not above its last.\<close>

lemma operation_summaries:
  "s \<in> summaries (operation_item stamp) \<Longrightarrow>
    0 < os_len s \<and> (\<not> os_panicked s \<longrightarrow> lamport_MIN < os_first s \<and> os_first s \<le> os_key s)"
proof (induction rule: summaries.induct)
  case (item_summary x)
  then show ?case using lamport_MIN_least [of "stamp x"] by (simp add: order_less_le)
next
  case (add_summary a b)
  show ?case
  proof (intro conjI impI)
    assume "\<not> os_panicked (item_impl.add_summary (operation_item stamp) a b)"
    then have "\<not> os_panicked a" "os_key a < os_key b" by simp_all
    with add_summary.IH(1) show "os_first (item_impl.add_summary (operation_item stamp) a b) \<le> os_key (item_impl.add_summary (operation_item stamp) a b)"
      "lamport_MIN < os_first (item_impl.add_summary (operation_item stamp) a b)"
      by (simp_all, meson le_less_trans less_imp_le)
  qed (use add_summary.IH in simp)
qed

lemma operation_summary_add_assoc:
  assumes "a \<in> summaries (operation_item stamp)" "b \<in> summaries (operation_item stamp)" "c \<in> summaries (operation_item stamp)"
  shows "operation_summary_add (operation_summary_add a b) c = operation_summary_add a (operation_summary_add b c)"
proof -
  note len = assms [THEN operation_summaries]
  have pos: "os_len a \<noteq> 0" "os_len b \<noteq> 0" using len(1,2) [THEN conjunct1] by simp_all
  have below: "os_key a < os_first b \<Longrightarrow> \<not> os_panicked b \<Longrightarrow> os_key a < os_key b" using len(2) less_le_trans [of "os_key a" "os_first b" "os_key b"] by blast
  have trans: "os_key a < os_key b \<Longrightarrow> os_key b < os_key c \<Longrightarrow> os_key a < os_key c" by (rule less_trans)
  have flag: "(os_panicked a \<or> os_panicked b \<or> \<not> os_key a < os_key b \<or> \<not> os_key a < os_first b) \<or> os_panicked c \<or>
        \<not> os_key b < os_key c \<or> \<not> os_key b < os_first c \<longleftrightarrow>
      os_panicked a \<or> (os_panicked b \<or> os_panicked c \<or> \<not> os_key b < os_key c \<or> \<not> os_key b < os_first c) \<or>
        \<not> os_key a < os_key c \<or> \<not> os_key a < os_first b"
    using below trans by blast
  have first: "os_len a + os_len b \<noteq> 0" using pos by simp
  show ?thesis
    by (simp only: operation_summary_add_def operation_summary.simps flag if_not_P [OF pos(1)] if_not_P [OF pos(2)] if_not_P [OF first] add.assoc)
qed

lemma operation_summary_zero_left:
  assumes "a \<in> summaries (operation_item stamp)"
  shows "operation_summary_add operation_summary_zero a = a"
  using operation_summaries [OF assms]
  by (intro operation_summary.equality) (auto simp: operation_summary_zero_def dest: less_le_trans)

interpretation queue_tree: keyed "operation_keyed stamp" for stamp :: "'op \<Rightarrow> lamport"
  by unfold_locales
    (simp_all add: operation_summary_add_assoc operation_summary_zero_left, simp_all add: operation_key_def operation_summary_zero_def)

definition queue_ok :: "('op \<Rightarrow> lamport) \<Rightarrow> 'op operation_queue \<Rightarrow> bool" where
  "queue_ok stamp q \<longleftrightarrow> wf_tree (operation_item stamp) q \<and> key_sorted (operation_keyed stamp) (tree_items q) \<and>
     (\<forall>op \<in> set (tree_items q). lamport_MIN < stamp op)"

lemma queue_new_ok: "queue_ok stamp (queue_new stamp)" "tree_items (queue_new stamp) = []"
  by (simp_all add: queue_ok_def queue_new_def tree_new_def)

lemma operation_items_summary:
  "os_key (items_summary (operation_item stamp) xs) = last (lamport_MIN # map stamp xs)"
  "os_len (items_summary (operation_item stamp) xs) = length xs"
  by (induction xs rule: rev_induct) (simp_all add: operation_summary_zero_def)

text \<open>The mark is absent exactly when the timestamps increase from above \<open>Lamport::MIN\<close>.\<close>

lemma sorted_wrt_last:
  "ks \<noteq> [] \<Longrightarrow> sorted_wrt (<) (ks @ [k]) \<longleftrightarrow> sorted_wrt (<) ks \<and> last ks < k" for k :: "'k::order"
  by (cases ks rule: rev_cases) (auto simp: sorted_wrt_append dest: less_trans)

lemma operation_items_panicked:
  "os_panicked (items_summary (operation_item stamp) xs) \<longleftrightarrow> \<not> sorted_wrt (<) (lamport_MIN # map stamp xs)"
proof (induction xs rule: rev_induct)
  case (snoc x xs)
  let ?ks = "lamport_MIN # map stamp xs"
  have "sorted_wrt (<) (lamport_MIN # map stamp (xs @ [x])) \<longleftrightarrow> sorted_wrt (<) ?ks \<and> last ?ks < stamp x"
    using sorted_wrt_last [of ?ks "stamp x"] by simp
  moreover have "os_panicked (items_summary (operation_item stamp) (xs @ [x])) \<longleftrightarrow>
      os_panicked (items_summary (operation_item stamp) xs) \<or> stamp x = lamport_MIN \<or> \<not> last ?ks < stamp x"
    by (simp add: operation_items_summary(1) [symmetric] del: last.simps)
  moreover have "last ?ks < stamp x \<Longrightarrow> stamp x \<noteq> lamport_MIN" by (metis lamport_MIN_least leD)
  ultimately show ?case
    using snoc by blast
qed (simp add: operation_summary_zero_def)

lemma queue_len_ok: "wf_tree (operation_item stamp) q \<Longrightarrow> queue_len q = length (tree_items q)"
  using queue_tree.wf_summary [of stamp q] by (simp add: queue_len_def operation_items_summary)

lemma queue_ok_unmarked: "queue_ok stamp q \<Longrightarrow> \<not> os_panicked (node_summary q)"
  using queue_tree.wf_summary [of stamp q] by (simp add: queue_ok_def operation_items_panicked sorted_wrt_map)

text \<open>In a tree without the mark a position never exceeds the key of a part that follows it.\<close>

lemma operation_key_assertion:
  assumes "wf_tree (operation_item stamp) q" "\<not> os_panicked (node_summary q)" "tree_items q = xs @ ys @ zs" "ys \<noteq> []"
  shows "operation_key_assert (pos_after (operation_item stamp) operation_key lamport_MIN xs) (items_summary (operation_item stamp) ys)"
proof -
  have "sorted_wrt (<) (lamport_MIN # map stamp (xs @ ys @ zs))"
    using assms(1-3) queue_tree.wf_summary [of stamp q] operation_items_panicked [of stamp "tree_items q"] by simp
  moreover have "pos_after (operation_item stamp) operation_key lamport_MIN xs = last (lamport_MIN # map stamp xs)"
    by (induction xs rule: rev_induct) (simp_all add: operation_key_def pos_after_def)
  moreover have "last (map stamp ys) \<in> set (map stamp ys)" using assms(4) by (intro last_in_set) simp
  ultimately show ?thesis
    using assms(4) last_in_set [of xs] by (auto simp: operation_key_assert_def operation_items_summary sorted_wrt_append last_map intro: less_imp_le)
qed

lemma sort_insert_edits:
  assumes "sorted_wrt (<) (map stamp ops)"
  shows "sort_key (edit_key (operation_keyed stamp)) (map Insert ops) = map Insert ops"
  using assms by (intro sort_key_id_if_sorted) (simp add: comp_def strict_sorted_imp_sorted)

text \<open>The list of the operations of a queue after inserting: the new operations replace those with the same timestamp.\<close>

definition queued :: "('op \<Rightarrow> lamport) \<Rightarrow> 'op list \<Rightarrow> 'op list \<Rightarrow> 'op list" where
  "queued stamp ops q = sort_key stamp (filter (\<lambda>x. stamp x \<notin> stamp ` set ops) q @ dedup_by_key stamp (sort_key stamp ops))"

lemma strict_keys_unique:
  fixes f :: "'a \<Rightarrow> 'k::linorder"
  assumes "sorted_wrt (<) (map f xs)" "sorted_wrt (<) (map f ys)" "set xs = set ys"
  shows "xs = ys"
proof -
  have "map f xs = map f ys" using strict_sorted_equal [OF assms(2,1)] assms(3) by simp
  moreover have "inj_on f (set xs \<union> set ys)" using assms(1,3) by (simp add: strict_sorted_iff distinct_map)
  ultimately show ?thesis by (simp add: inj_on_map_eq_map)
qed

lemma queued_props:
  assumes "sorted_wrt (<) (map stamp q)"
  shows "sorted_wrt (<) (map stamp (queued stamp ops q))"
    and "set (queued stamp ops q) = {x \<in> set q. stamp x \<notin> stamp ` set ops} \<union> set (dedup_by_key stamp (sort_key stamp ops))"
proof -
  let ?new = "dedup_by_key stamp (sort_key stamp ops)" and ?old = "filter (\<lambda>x. stamp x \<notin> stamp ` set ops) q"
  have new: "distinct (map stamp ?new)" by (rule strict_sorted_iff [THEN iffD1, THEN conjunct2, OF dedup_strict]) simp
  have keys: "stamp ` set ?new = stamp ` set ops" by (simp add: dedup_set_keys)
  have old: "distinct (map stamp ?old)"
    by (rule distinct_map_filter [OF strict_sorted_iff [THEN iffD1, THEN conjunct2, OF assms]])
  have "set (map stamp ?old) \<inter> set (map stamp ?new) = {}" using keys by auto
  with new old have "distinct (map stamp (?old @ ?new))" by (simp only: map_append distinct_append)
  then have "distinct (map stamp (queued stamp ops q))"
    unfolding queued_def distinct_map set_sort distinct_sort .
  moreover have "sorted (map stamp (queued stamp ops q))" unfolding queued_def by (rule sorted_sort_key)
  ultimately show "sorted_wrt (<) (map stamp (queued stamp ops q))" by (simp only: strict_sorted_iff)
  show "set (queued stamp ops q) = {x \<in> set q. stamp x \<notin> stamp ` set ops} \<union> set ?new"
    unfolding queued_def set_sort set_append set_filter ..
qed

lemma queued_sorted:
  assumes "sorted_wrt (<) (map stamp xs)"
  shows "queued stamp xs [] = xs" "queued stamp [] xs = xs"
proof -
  have "sort_key stamp xs = xs" using assms by (simp add: strict_sorted_imp_sorted sort_key_id_if_sorted)
  moreover have "dedup_by_key stamp xs = xs" if "sorted_wrt (<) (map stamp xs)" for xs
    using that by (induction stamp xs rule: dedup_by_key.induct) auto
  ultimately show "queued stamp xs [] = xs" "queued stamp [] xs = xs" using assms by (simp_all add: queued_def)
qed

text \<open>
  Inserting keeps the queue sorted by timestamp without repetition: the new operations replace
  those with the same timestamp and the others stay.
\<close>

lemma queue_insert_ok:
  assumes "queue_ok stamp q" "node_height q < STACK_CAP" "\<forall>op \<in> set ops. lamport_MIN < stamp op"
  shows "\<exists>q'. queue_insert stamp q ops = Some q' \<and> queue_ok stamp q' \<and>
    stamp ` set (tree_items q') = stamp ` set (tree_items q) \<union> stamp ` set ops \<and>
    set (tree_items q') \<subseteq> set (tree_items q) \<union> set ops \<and>
    {op \<in> set (tree_items q). stamp op \<notin> stamp ` set ops} \<subseteq> set (tree_items q') \<and>
    (\<forall>op \<in> set (tree_items q'). stamp op \<in> stamp ` set ops \<longrightarrow> op \<in> set ops) \<and> tree_items q' = queued stamp ops (tree_items q)"
proof -
  let ?new = "dedup_by_key stamp (sort_key stamp ops)"
  let ?es = "map Insert ?new :: ('a, lamport) edit list"
  have strict: "sorted_wrt (<) (map stamp ?new)" by (rule dedup_strict) simp
  then have distinct: "distinct (map (edit_key (operation_keyed stamp)) ?es)"
    by (simp add: comp_def strict_sorted_iff)
  obtain r where r: "tree_edit (operation_keyed stamp) q ?es =
      Some (r, filter (\<lambda>x. stamp x \<in> edit_key (operation_keyed stamp) ` set ?es) (tree_items q))"
    "wf_tree (operation_item stamp) r" "tree_items r = merge_edits (operation_keyed stamp) ?es (tree_items q)"
    using queue_tree.tree_edit_ok [of stamp q ?es] assms distinct sort_insert_edits [OF strict]
    by (auto simp: queue_ok_def)
  have es: "sorted_wrt (\<lambda>e f. edit_key (operation_keyed stamp) e < edit_key (operation_keyed stamp) f) ?es"
    using strict by (simp add: sorted_wrt_map)
  have sorted: "key_sorted (operation_keyed stamp) (tree_items q)" using assms(1) by (simp add: queue_ok_def)
  have set: "set (tree_items r) = {x \<in> set (tree_items q). stamp x \<notin> stamp ` set ?new} \<union> set ?new"
    using merge_edits_set [OF sorted es] r(3) by (auto simp: image_iff)
  have keys: "stamp ` set ?new = stamp ` set ops" by (simp add: dedup_set_keys)
  have sub: "set ?new \<subseteq> set ops" using dedup_subset [of stamp "sort_key stamp ops"] by simp
  have ok: "queue_ok stamp r" using merge_edits_sorted [OF sorted es] r set sub assms(1,3) by (auto simp: queue_ok_def)
  moreover have "queue_insert stamp q ops = Some r" using r(1) queue_ok_unmarked [OF ok] by (simp add: queue_insert_def)
  moreover have "stamp ` set (tree_items r) = stamp ` set (tree_items q) \<union> stamp ` set ops"
    unfolding set keys [symmetric] by auto
  moreover have "tree_items r = queued stamp ops (tree_items q)"
    using ok sorted queued_props [of stamp "tree_items q" ops] keys
    by (intro strict_keys_unique [of stamp]) (auto simp: queue_ok_def sorted_wrt_map set)
  ultimately show ?thesis using set sub keys by auto
qed

text \<open>Iterating over a queue yields its operations; \<open>drain\<close> takes them all.\<close>

lemma queue_iter_ok:
  assumes "queue_ok stamp q" "node_height q < STACK_CAP"
  shows "queue_iter q (Suc (length (tree_items q))) = Some (tree_items q)"
  unfolding queue_iter_def
  by (rule iter_collect [of "operation_item stamp"]) (use assms in \<open>simp_all add: queue_ok_def\<close>)

end
