(* ===== verification/Utf8.thy ===== *)
theory Utf8
  imports Prelude
begin

text \<open>
  Rust strings.  A \<open>str\<close> is the list of its UTF-8 bytes; \<open>utf8\<close> is the validity that Rust guarantees
  for every \<open>str\<close> (Table 3-7 of the Unicode standard).  A \<open>char\<close> is represented by its encoding.  The
  operations of the standard library that the sources use (\<open>chars\<close>, \<open>is_char_boundary\<close>,
  \<open>floor_char_boundary\<close>, \<open>ceil_char_boundary\<close>, \<open>split_at\<close>, slicing) are defined here, as is
  \<open>util::is_utf8_char_boundary\<close>, with the facts about splitting and joining strings that the rope
  relies on.
\<close>

section \<open>Definitions\<close>

type_synonym str = "u8 list"

definition is_utf8_char_boundary :: "u8 \<Rightarrow> bool" where
  "is_utf8_char_boundary b \<longleftrightarrow> - 0x40 \<le> sint b"

definition continuation :: "u8 \<Rightarrow> bool" where
  "continuation b \<longleftrightarrow> 0x80 \<le> b \<and> b \<le> 0xBF"

fun utf8_char :: "str \<Rightarrow> bool" where
  "utf8_char [a] \<longleftrightarrow> a < 0x80"
| "utf8_char [a, b] \<longleftrightarrow> 0xC2 \<le> a \<and> a \<le> 0xDF \<and> continuation b"
| "utf8_char [a, b, c] \<longleftrightarrow>
     (a = 0xE0 \<and> 0xA0 \<le> b \<or> 0xE1 \<le> a \<and> a \<le> 0xEF \<and> a \<noteq> 0xED \<or> a = 0xED \<and> b \<le> 0x9F) \<and>
     continuation b \<and> continuation c"
| "utf8_char [a, b, c, d] \<longleftrightarrow>
     (a = 0xF0 \<and> 0x90 \<le> b \<or> 0xF1 \<le> a \<and> a \<le> 0xF3 \<or> a = 0xF4 \<and> b \<le> 0x8F) \<and>
     continuation b \<and> continuation c \<and> continuation d"
| "utf8_char _ \<longleftrightarrow> False"

text \<open>\<open>str::chars\<close>: a character starts at every byte that is not a continuation byte.\<close>

function str_chars :: "str \<Rightarrow> str list" where
  "str_chars [] = []"
| "str_chars (b # bs) = (b # takeWhile (\<lambda>x. \<not> is_utf8_char_boundary x) bs) #
     str_chars (dropWhile (\<lambda>x. \<not> is_utf8_char_boundary x) bs)"
  by pat_completeness auto
termination
  by (relation "measure length") (auto simp: le_imp_less_Suc length_dropWhile_le)

definition utf8 :: "str \<Rightarrow> bool" where
  "utf8 s \<longleftrightarrow> list_all utf8_char (str_chars s)"

definition len_utf8 :: "str \<Rightarrow> nat" where "len_utf8 c = length c"

text \<open>The characters from U+10000 on are those encoded in four bytes.\<close>

definition char_len_utf16 :: "str \<Rightarrow> nat" where "char_len_utf16 c = (if length c = 4 then 2 else 1)"

definition str_is_char_boundary :: "str \<Rightarrow> nat \<Rightarrow> bool" where
  "str_is_char_boundary s i \<longleftrightarrow> i = 0 \<or> i = length s \<or> (i < length s \<and> is_utf8_char_boundary (s ! i))"

fun boundary_below :: "str \<Rightarrow> nat \<Rightarrow> nat" where
  "boundary_below s 0 = 0"
| "boundary_below s (Suc i) = (if str_is_char_boundary s (Suc i) then Suc i else boundary_below s i)"

function boundary_above :: "str \<Rightarrow> nat \<Rightarrow> nat" where
  "boundary_above s i = (if i < length s \<and> \<not> str_is_char_boundary s i then boundary_above s (Suc i) else i)"
  by pat_completeness auto
termination
  by (relation "measure (\<lambda>(s, i). length s - i)") auto

declare boundary_above.simps [simp del]

definition str_floor_char_boundary :: "str \<Rightarrow> nat \<Rightarrow> nat" where
  "str_floor_char_boundary s i = (if length s \<le> i then length s else boundary_below s i)"

definition str_ceil_char_boundary :: "str \<Rightarrow> nat \<Rightarrow> nat" where
  "str_ceil_char_boundary s i = (if length s < i then length s else boundary_above s i)"

text \<open>\<open>split_at\<close> and slicing panic when an index is not a character boundary.\<close>

definition split_at :: "str \<Rightarrow> nat \<Rightarrow> (str \<times> str) option" where
  "split_at s mid = (if str_is_char_boundary s mid then Some (take mid s, drop mid s) else None)"

definition str_slice :: "str \<Rightarrow> nat \<Rightarrow> nat \<Rightarrow> str option" where
  "str_slice s start end =
     (if start \<le> end \<and> str_is_char_boundary s start \<and> str_is_char_boundary s end
      then Some (take (end - start) (drop start s)) else None)"

section \<open>Bytes\<close>

lemma boundary_iff: "is_utf8_char_boundary b \<longleftrightarrow> \<not> continuation b"
proof -
  have u: "0 \<le> uint b" "uint b < 256" using uint_lt2p [of b] by simp_all
  have "sint b = (if uint b < 128 then uint b else uint b - 256)"
    using u by (simp add: sint_uint signed_take_bit_eq_take_bit_shift take_bit_eq_mod)
      (smt (verit) mod_pos_pos_trivial mod_add_self2 minus_mod_self2)
  then show ?thesis
    using u by (auto simp: is_utf8_char_boundary_def continuation_def word_le_def intro: order_trans [OF _ u(1)])
qed

lemma continuation_not_boundary [simp]: "continuation b \<Longrightarrow> \<not> is_utf8_char_boundary b"
  by (simp add: boundary_iff)

lemma lead_boundary: "b < 0x80 \<Longrightarrow> is_utf8_char_boundary b" "0xC0 \<le> b \<Longrightarrow> is_utf8_char_boundary b"
  by (auto simp: boundary_iff continuation_def word_le_nat_alt word_less_nat_alt)

section \<open>Characters\<close>

abbreviation boundary_start :: "str \<Rightarrow> bool" where
  "boundary_start s \<equiv> (s \<noteq> [] \<longrightarrow> is_utf8_char_boundary (hd s))"

lemma utf8_char_shape:
  assumes "utf8_char c"
  shows "1 \<le> length c" "length c \<le> 4" "is_utf8_char_boundary (hd c)" "\<forall>b \<in> set (tl c). \<not> is_utf8_char_boundary b"
    "length c = 4 \<longleftrightarrow> 0xF0 \<le> hd c" "\<forall>b \<in> set (tl c). b < 0xF0"
    "length c \<noteq> 1 \<longleftrightarrow> 0x80 \<le> hd c" "\<forall>b \<in> set (tl c). 0x80 \<le> b"
  using assms
  by (cases c rule: utf8_char.cases;
      auto simp: continuation_def boundary_iff word_le_nat_alt word_less_nat_alt)+

lemma chars_append: "boundary_start t \<Longrightarrow> str_chars (s @ t) = str_chars s @ str_chars t"
proof (induction s rule: str_chars.induct)
  case (2 b bs)
  let ?P = "\<lambda>x. \<not> is_utf8_char_boundary x"
  have "takeWhile ?P (bs @ t) = takeWhile ?P bs \<and> dropWhile ?P (bs @ t) = dropWhile ?P bs @ t"
    using 2(2) by (cases t) (auto simp: takeWhile_append dropWhile_append takeWhile_eq_all_conv [THEN iffD2])
  then show ?case using 2 by simp
qed simp

lemma concat_chars [simp]: "concat (str_chars s) = s"
  by (induction s rule: str_chars.induct) auto

lemma chars_single: "c \<noteq> [] \<Longrightarrow> \<forall>b \<in> set (tl c). \<not> is_utf8_char_boundary b \<Longrightarrow> str_chars c = [c]"
  by (cases c) (auto simp: takeWhile_eq_all_conv dropWhile_eq_Nil_conv [THEN iffD2])

lemma utf8_Nil [simp]: "utf8 []" by (simp add: utf8_def)

lemma utf8_boundary_start: "utf8 s \<Longrightarrow> boundary_start s"
proof (cases s)
  case (Cons b bs)
  assume "utf8 s"
  with Cons have "utf8_char (b # takeWhile (\<lambda>x. \<not> is_utf8_char_boundary x) bs)" by (simp add: utf8_def)
  from utf8_char_shape(3) [OF this] Cons show ?thesis by simp
qed simp

lemma utf8_append_iff: "boundary_start t \<Longrightarrow> utf8 (s @ t) \<longleftrightarrow> utf8 s \<and> utf8 t"
  by (simp add: utf8_def chars_append)

lemma utf8_append [simp]: "utf8 s \<Longrightarrow> utf8 t \<Longrightarrow> utf8 (s @ t)"
  using utf8_boundary_start [of t] by (simp add: utf8_append_iff)

lemma utf8_char_chars: "utf8_char c \<Longrightarrow> str_chars c = [c]"
  using utf8_char_shape [of c] by (intro chars_single) auto

lemma utf8_single [simp]: "utf8_char c \<Longrightarrow> utf8 c"
  by (simp add: utf8_def utf8_char_chars)

text \<open>Induction over the characters of a valid string, from the front and from the back.\<close>

lemma utf8_induct [consumes 1, case_names Nil Char]:
  assumes "utf8 s" "P []" "\<And>c s. utf8_char c \<Longrightarrow> utf8 s \<Longrightarrow> P s \<Longrightarrow> P (c @ s)"
  shows "P s"
proof -
  have "P (concat cs)" if "list_all utf8_char cs" for cs
    using that
  proof (induction cs)
    case (Cons c cs)
    moreover have "utf8 (concat ds)" if "list_all utf8_char ds" for ds using that by (induction ds) auto
    ultimately show ?case using assms(3) by simp
  qed (simp add: assms(2))
  from this [of "str_chars s"] assms(1) show ?thesis by (simp add: utf8_def)
qed

lemma utf8_rev_induct [consumes 1, case_names Nil Char]:
  assumes "utf8 s" "P []" "\<And>s c. utf8 s \<Longrightarrow> utf8_char c \<Longrightarrow> P s \<Longrightarrow> P (s @ c)"
  shows "P s"
proof -
  have "P (concat cs) \<and> utf8 (concat cs)" if "list_all utf8_char cs" for cs
    using that by (induction cs rule: rev_induct) (auto simp: assms(2,3))
  from this [of "str_chars s"] assms(1) show ?thesis by (simp add: utf8_def)
qed

lemma chars_char_append: "utf8_char c \<Longrightarrow> utf8 s \<Longrightarrow> str_chars (c @ s) = c # str_chars s" "utf8_char c \<Longrightarrow> str_chars (s @ c) = str_chars s @ [c]"
  using utf8_boundary_start [of s] utf8_char_shape(3) [of c] by (simp_all add: chars_append utf8_char_chars)

section \<open>Character boundaries\<close>

lemma boundary_ends [simp]: "str_is_char_boundary s 0" "str_is_char_boundary s (length s)"
  by (simp_all add: str_is_char_boundary_def)

lemma boundary_le: "str_is_char_boundary s i \<Longrightarrow> i \<le> length s"
  by (auto simp: str_is_char_boundary_def)

lemma boundary_drop: "str_is_char_boundary s i \<Longrightarrow> utf8 s \<Longrightarrow> boundary_start (drop i s)"
  using utf8_boundary_start [of s] by (auto simp: str_is_char_boundary_def hd_drop_conv_nth hd_conv_nth)

lemma utf8_split:
  assumes "utf8 s" "str_is_char_boundary s i"
  shows "utf8 (take i s)" "utf8 (drop i s)" "str_chars s = str_chars (take i s) @ str_chars (drop i s)"
  using utf8_append_iff [of "drop i s" "take i s"] chars_append [of "drop i s" "take i s"] boundary_drop [OF assms(2,1)] assms
  by simp_all

lemma boundary_append:
  assumes "utf8 s" "utf8 t"
  shows "str_is_char_boundary (s @ t) i \<longleftrightarrow> (if i \<le> length s then str_is_char_boundary s i else str_is_char_boundary t (i - length s))"
  using utf8_boundary_start [OF assms(2)]
  by (auto simp: str_is_char_boundary_def nth_append hd_conv_nth)

text \<open>A character boundary is at most three bytes away in either direction.\<close>

lemma boundary_near:
  assumes "utf8 s" "i \<le> length s"
  shows "(\<exists>j \<le> length s. i \<le> j \<and> j \<le> i + 3 \<and> str_is_char_boundary s j) \<and> (\<exists>j \<le> i. i \<le> j + 3 \<and> str_is_char_boundary s j)"
  using assms
proof (induction s arbitrary: i rule: utf8_induct)
  case (Char c s)
  note c = utf8_char_shape(1,2) [OF Char(1)]
  have b: "str_is_char_boundary (c @ s) i \<longleftrightarrow> (if i \<le> length c then str_is_char_boundary c i else str_is_char_boundary s (i - length c))" for i
    using Char(1,2) by (simp add: boundary_append)
  show ?case
  proof (cases "i < length c")
    case True
    then show ?thesis using c
      by (cases "i = 0") (auto simp: b intro: exI [of _ "length c"] exI [of _ 0])
  next
    case False
    with Char(4) have "i - length c \<le> length s" by simp
    then obtain j k where "j \<le> length s" "i - length c \<le> j" "j \<le> i - length c + 3" "str_is_char_boundary s j"
      "k \<le> i - length c" "i - length c \<le> k + 3" "str_is_char_boundary s k"
      using Char(3) [of "i - length c"] by metis
    then show ?thesis using False
      by (intro conjI exI [of _ "j + length c"] exI [of _ "k + length c"]) (auto simp: b)
  qed
qed simp

lemma boundary_above_ok:
  "i \<le> length s \<Longrightarrow> str_is_char_boundary s (boundary_above s i) \<and> i \<le> boundary_above s i \<and> boundary_above s i \<le> length s \<and>
    (\<forall>j. i \<le> j \<and> str_is_char_boundary s j \<longrightarrow> boundary_above s i \<le> j)"
proof (induction s i rule: boundary_above.induct)
  case (1 s i)
  show ?case
  proof (cases "i < length s \<and> \<not> str_is_char_boundary s i")
    case True
    then have "boundary_above s i = boundary_above s (Suc i)" by (subst boundary_above.simps) simp
    moreover have "Suc i \<le> j" if "i \<le> j" "str_is_char_boundary s j" for j using that True by (cases "i = j") auto
    ultimately show ?thesis using 1(1) True by auto
  next
    case False
    then have "boundary_above s i = i" by (subst boundary_above.simps) (simp only: if_False)
    then show ?thesis using False 1(2) by (cases "i = length s") auto
  qed
qed

lemma boundary_below_ok:
  "str_is_char_boundary s (boundary_below s i) \<and> boundary_below s i \<le> i \<and>
    (\<forall>j \<le> i. str_is_char_boundary s j \<longrightarrow> j \<le> boundary_below s i)"
  by (induction i) (auto simp: le_Suc_eq)

lemma boundary_above_near: "utf8 s \<Longrightarrow> i \<le> length s \<Longrightarrow> boundary_above s i \<le> i + 3"
  using boundary_near [of s i] boundary_above_ok [of i s] by (meson order_trans)

lemma boundary_below_near: "utf8 s \<Longrightarrow> i \<le> length s \<Longrightarrow> i \<le> boundary_below s i + 3"
  using boundary_near [of s i] boundary_below_ok [of s i] by (meson add_le_mono1 order_trans)

text \<open>\<open>floor_char_boundary\<close> and \<open>ceil_char_boundary\<close> are the nearest boundaries on each side.\<close>

lemma floor_ok:
  "str_is_char_boundary s (str_floor_char_boundary s i)" "str_floor_char_boundary s i \<le> length s" "i \<le> length s \<Longrightarrow> str_floor_char_boundary s i \<le> i"
  "j \<le> i \<Longrightarrow> str_is_char_boundary s j \<Longrightarrow> j \<le> str_floor_char_boundary s i"
  using boundary_below_ok [of s i] boundary_le [of s j] by (auto simp: str_floor_char_boundary_def)

lemma ceil_ok:
  "str_is_char_boundary s (str_ceil_char_boundary s i)" "str_ceil_char_boundary s i \<le> length s" "i \<le> length s \<Longrightarrow> i \<le> str_ceil_char_boundary s i"
  "i \<le> j \<Longrightarrow> str_is_char_boundary s j \<Longrightarrow> str_ceil_char_boundary s i \<le> j"
  using boundary_above_ok [of i s] boundary_le [of s j] by (auto simp: str_ceil_char_boundary_def not_less)

end
