(* ===== verification/Bitmap.thy ===== *)
theory Bitmap
  imports Utf8
begin

text \<open>
  Bit counting of the integer types of Rust (\<open>count_ones\<close>, \<open>trailing_zeros\<close>, \<open>leading_zeros\<close>,
  \<open>from_le_bytes\<close>, unbounded shifts) and the bitmaps that a chunk of text keeps: \<open>bitmap_of P text\<close> has
  bit \<open>i\<close> set when the byte at index \<open>i\<close> of the text satisfies \<open>P\<close>.  The lemmas read counting, shifting
  and masking of such a bitmap as operations on the text.
\<close>

section \<open>Definitions\<close>

type_synonym bitmap = "128 word"

definition count_ones :: "'a::len word \<Rightarrow> nat" where
  "count_ones w = length (filter (bit w) [0..<LENGTH('a)])"

definition trailing_zeros :: "'a::len word \<Rightarrow> nat" where
  "trailing_zeros w = length (takeWhile (\<lambda>i. \<not> bit w i) [0..<LENGTH('a)])"

definition leading_zeros :: "'a::len word \<Rightarrow> nat" where
  "leading_zeros w = length (takeWhile (\<lambda>i. \<not> bit w i) (rev [0..<LENGTH('a)]))"

text \<open>\<open>unbounded_shl\<close> and \<open>unbounded_shr\<close> yield zero when every bit is shifted out.\<close>

definition unbounded_shl :: "'a::len word \<Rightarrow> nat \<Rightarrow> 'a word" where "unbounded_shl w n = push_bit n w"

definition unbounded_shr :: "'a::len word \<Rightarrow> nat \<Rightarrow> 'a word" where "unbounded_shr w n = drop_bit n w"

definition saturating_shl_mask :: "nat \<Rightarrow> bitmap" where
  "saturating_shl_mask offset = unbounded_shl 1 offset - 1"

definition saturating_shr_mask :: "nat \<Rightarrow> bitmap" where
  "saturating_shr_mask offset = not (unbounded_shr (- 1) offset)"

fun from_le_bytes :: "u8 list \<Rightarrow> 'a::len word" where
  "from_le_bytes [] = 0"
| "from_le_bytes (b # bs) = or (ucast b) (push_bit 8 (from_le_bytes bs))"

text \<open>The loop over one group of up to eight bytes in \<open>Chunk::new\<close>.\<close>

definition group_bits :: "(u8 \<Rightarrow> bool) \<Rightarrow> u8 list \<Rightarrow> u8" where
  "group_bits P bs = foldl (\<lambda>acc (ix, b). or acc (push_bit ix (of_bool (P b)))) 0 (enumerate 0 bs)"

definition bitmap_of :: "(u8 \<Rightarrow> bool) \<Rightarrow> str \<Rightarrow> bitmap" where
  "bitmap_of P text = from_le_bytes (map (group_bits P) (chunks 8 text))"

section \<open>Bits as a list\<close>

definition bits :: "'a::len word \<Rightarrow> bool list" where
  "bits w = map (bit w) [0..<LENGTH('a)]"

lemma length_bits [simp]: "length (bits (w :: 'a::len word)) = LENGTH('a)"
  by (simp add: bits_def)

lemma nth_bits [simp]: "i < LENGTH('a) \<Longrightarrow> bits w ! i \<longleftrightarrow> bit w i" for w :: "'a::len word"
  by (simp add: bits_def)

lemma count_ones_bits: "count_ones w = length (filter (\<lambda>b. b) (bits w))"
  by (simp add: count_ones_def bits_def filter_map comp_def)

lemma trailing_zeros_bits: "trailing_zeros w = length (takeWhile Not (bits w))"
  by (simp add: trailing_zeros_def bits_def takeWhile_map comp_def)

lemma leading_zeros_bits: "leading_zeros w = length (takeWhile Not (rev (bits w)))"
  by (simp add: leading_zeros_def bits_def takeWhile_map comp_def rev_map)

lemma bits_eqI: "bits v = bits w \<Longrightarrow> v = w" for v w :: "'a::len word"
  by (rule bit_word_eqI) (metis nth_bits)

lemma bits_and: "bits (and v w) = map2 (\<and>) (bits v) (bits w)"
  by (rule nth_equalityI) (auto simp: bit_and_iff)

lemma bits_zero [simp]: "bits (0 :: 'a::len word) = replicate LENGTH('a) False"
  by (rule nth_equalityI) auto

lemma bits_drop: "bits (drop_bit n w) = drop n (bits w) @ replicate (min n LENGTH('a)) False" for w :: "'a::len word"
  by (rule nth_equalityI) (auto simp: nth_append bit_drop_bit_eq min_def dest: bit_imp_le_length)

lemma bit_shl_mask: "bit (saturating_shl_mask n) i \<longleftrightarrow> i < n \<and> i < 128"
proof -
  have "saturating_shl_mask n = mask n"
    by (simp add: saturating_shl_mask_def unbounded_shl_def mask_eq_exp_minus_1 push_bit_eq_mult)
  then show ?thesis by (auto simp: bit_mask_iff)
qed

lemma bit_shr_mask: "bit (saturating_shr_mask n) i \<longleftrightarrow> i < 128 \<and> 128 \<le> i + n"
  by (auto simp: saturating_shr_mask_def unbounded_shr_def bit_not_iff bit_drop_bit_eq bit_mask_iff)

lemma bits_shl_mask: "bits (and w (saturating_shl_mask n)) = take n (bits w) @ replicate (128 - n) False" for w :: bitmap
  by (rule nth_equalityI) (auto simp: bit_and_iff bit_shl_mask nth_append)

lemma bits_shr_mask: "bits (and w (saturating_shr_mask n)) = replicate (128 - n) False @ drop (128 - n) (bits w)" for w :: bitmap
  by (rule nth_equalityI) (auto simp: bit_and_iff bit_shr_mask nth_append)

section \<open>Bitmaps of a text\<close>

lemma bit_group: "length bs \<le> 8 \<Longrightarrow> bit (group_bits P bs) i \<longleftrightarrow> i < length bs \<and> P (bs ! i)"
proof (induction bs rule: rev_induct)
  case (snoc b bs)
  have "group_bits P (bs @ [b]) = or (group_bits P bs) (push_bit (length bs) (of_bool (P b)))"
    by (simp add: group_bits_def enumerate_append_eq)
  with snoc show ?case
    by (auto simp: bit_or_iff bit_push_bit_iff bit_of_bool_iff nth_append less_Suc_eq)
qed (simp add: group_bits_def)

lemma bit_from_le: "bit (from_le_bytes (b # bs) :: 'a::len word) i \<longleftrightarrow>
    (if i < 8 then i < LENGTH('a) \<and> bit b i else i < LENGTH('a) \<and> bit (from_le_bytes bs :: 'a word) (i - 8))"
  by (auto simp: bit_or_iff bit_push_bit_iff bit_ucast_iff dest: bit_imp_le_length)

lemma bit_bitmap_of: "bit (bitmap_of P s) i \<longleftrightarrow> i < 128 \<and> i < length s \<and> P (s ! i)"
proof (induction "length s" arbitrary: s i rule: less_induct)
  case less
  show ?case
  proof (cases "s = []")
    case False
    have eq: "bitmap_of P s = from_le_bytes (group_bits P (take 8 s) # map (group_bits P) (chunks 8 (drop 8 s)))"
      using False by (simp add: bitmap_of_def chunks_nonempty)
    have rec: "bit (bitmap_of P (drop 8 s)) j \<longleftrightarrow> j < 128 \<and> j < length s - 8 \<and> P (drop 8 s ! j)" for j
      using less [of "drop 8 s"] False by simp
    show ?thesis
    proof (cases "i < 8")
      case True
      then show ?thesis unfolding eq bit_from_le by (auto simp: bit_group)
    next
      case F: False
      then show ?thesis unfolding eq bit_from_le bitmap_of_def [symmetric] rec by auto
    qed
  qed (simp add: bitmap_of_def)
qed

lemma bits_bitmap_of:
  assumes "length s \<le> 128"
  shows "bits (bitmap_of P s) = map P s @ replicate (128 - length s) False"
  using assms by (intro nth_equalityI) (auto simp: bit_bitmap_of nth_append)

end
