(* ===== verification/Point.thy ===== *)
theory Point
  imports Utf8
begin

text \<open>
  \<open>crates/rope/src/point.rs\<close>, \<open>point_utf16.rs\<close>, \<open>offset_utf16.rs\<close> and \<open>unclipped.rs\<close>: positions in a text.
  Rows and columns are natural numbers; the sources hold them in 32 bits, so the model describes texts of
  fewer than \<open>2 ^ 32\<close> rows whose lines are shorter than \<open>2 ^ 32\<close> bytes.  Within these bounds the packed
  comparison of the 64-bit build is the lexicographic order of the 32-bit build (\<open>packed_cmp\<close>).
  A \<open>PointUtf16\<close> is a \<open>point\<close> whose column counts UTF-16 code units; the two source types have the same
  operations, an \<open>OffsetUtf16\<close> is a number of code units, and \<open>Unclipped\<close> marks a position that need not
  exist in the text and adds nothing to the operations.
\<close>

section \<open>Definitions\<close>

datatype point = Point (row: nat) (column: nat)

type_synonym point_utf16 = point
type_synonym offset_utf16 = nat
type_synonym 'a unclipped = 'a

definition point_new :: "nat \<Rightarrow> nat \<Rightarrow> point" where "point_new r c = Point r c"

definition point_zero :: point where "point_zero = Point 0 0"

definition row_range :: "nat \<Rightarrow> nat \<Rightarrow> point \<times> point" where
  "row_range start end = (Point start 0, Point end 0)"

definition is_zero :: "point \<Rightarrow> bool" where
  "is_zero p \<longleftrightarrow> row p = 0 \<and> column p = 0"

definition point_add :: "point \<Rightarrow> point \<Rightarrow> point" where
  "point_add p other =
     (if row other = 0 then Point (row p) (column p + column other)
      else Point (row p + row other) (column other))"

text \<open>The comparison of the 32-bit build: the rows first, then the columns.\<close>

definition point_cmp :: "point \<Rightarrow> point \<Rightarrow> ordering" where
  "point_cmp p q = then_with (cmp (row p) (row q)) (cmp (column p) (column q))"

declare point_cmp_def [simp]

instantiation point :: linorder
begin

definition less_eq_point :: "point \<Rightarrow> point \<Rightarrow> bool" where
  "less_eq_point p q \<longleftrightarrow> point_cmp p q \<noteq> Greater"

definition less_point :: "point \<Rightarrow> point \<Rightarrow> bool" where
  "less_point p q \<longleftrightarrow> point_cmp p q = Less"

instance
proof
  fix p q r :: point
  show "p < q \<longleftrightarrow> p \<le> q \<and> \<not> q \<le> p" "p \<le> p" "p \<le> q \<or> q \<le> p"
    by (auto simp: less_eq_point_def less_point_def cmp_def)
  show "p \<le> q \<Longrightarrow> q \<le> r \<Longrightarrow> p \<le> r"
    by (auto simp: less_eq_point_def cmp_def split: if_splits)
  show "p \<le> q \<Longrightarrow> q \<le> p \<Longrightarrow> p = q"
    by (cases p; cases q) (auto simp: less_eq_point_def cmp_def split: if_splits)
qed

end

text \<open>The comparison of the 64-bit build: \<open>(row << 32) | column\<close> as machine words.\<close>

definition packed :: "point \<Rightarrow> u64" where
  "packed p = or (push_bit 32 (of_nat (row p))) (of_nat (column p))"

definition packed_cmp :: "point \<Rightarrow> point \<Rightarrow> ordering" where
  "packed_cmp p q = cmp (packed p) (packed q)"

text \<open>Subtraction panics on underflow, as \<open>debug_assert!(other <= self)\<close> announces.\<close>

definition point_sub :: "point \<Rightarrow> point \<Rightarrow> point option" where
  "point_sub p other =
     (if other \<le> p then
        Some (if row p = row other then Point 0 (column p - column other) else Point (row p - row other) (column p))
      else None)"

definition point_saturating_sub :: "point \<Rightarrow> point \<Rightarrow> point option" where
  "point_saturating_sub p other = (if p < other then Some point_zero else point_sub p other)"

text \<open>\<open>Point::parse_str\<close>: the position after the last byte of a string.\<close>

fun split_lines :: "str \<Rightarrow> str \<Rightarrow> str list" where
  "split_lines acc [] = [acc]"
| "split_lines acc (b # bs) = (if b = 0x0A then acc # split_lines [] bs else split_lines (acc @ [b]) bs)"

definition parse_str :: "str \<Rightarrow> point" where
  "parse_str s = foldl (\<lambda>p (r, line). Point r (length line)) point_zero (enumerate 0 (split_lines [] s))"

section \<open>Order\<close>

lemma point_less_iff: "p < q \<longleftrightarrow> row p < row q \<or> row p = row q \<and> column p < column q"
  by (auto simp: less_point_def cmp_def)

lemma point_le_iff: "p \<le> q \<longleftrightarrow> row p < row q \<or> row p = row q \<and> column p \<le> column q"
  by (auto simp: less_eq_point_def cmp_def)

lemma unat_packed:
  assumes "row p < 2 ^ 32" "column p < 2 ^ 32"
  shows "unat (packed p) = row p * 2 ^ 32 + column p"
proof -
  have r: "take_bit 64 (row p * 2 ^ 32) = row p * 2 ^ 32" "take_bit 64 (column p) = column p" "take_bit 64 (row p) = row p"
    using assms by (simp_all add: take_bit_nat_eq_self_iff)
  have "unat (packed p) = or (push_bit 32 (row p)) (column p)"
    using r unfolding packed_def unsigned_or_eq unsigned_push_bit_eq
    by (simp add: unsigned_of_nat) (simp add: push_bit_eq_mult)
  also have "\<dots> = push_bit 32 (row p) + column p"
  proof -
    have "column p = take_bit 32 (column p)" using assms by (simp add: take_bit_nat_def)
    then have "\<not> bit (column p) n" if "32 \<le> n" for n using that by (metis bit_take_bit_iff not_less)
    then have "and (push_bit 32 (row p)) (column p) = 0"
      by (intro bit_eqI) (auto simp: bit_and_iff bit_push_bit_iff_nat)
    then show ?thesis by (simp add: disjunctive_add_eq_or)
  qed
  finally show ?thesis by (simp add: push_bit_eq_mult)
qed

lemma digits_unique:
  assumes "a * b + c = a' * b + c'" "c < b" "c' < (b :: nat)"
  shows "a = a' \<and> c = c'"
proof -
  have "a = (a * b + c) div b" "c = (a * b + c) mod b" using assms(2) by simp_all
  moreover have "a' = (a' * b + c') div b" "c' = (a' * b + c') mod b" using assms(3) by simp_all
  ultimately show ?thesis using assms(1) by metis
qed

lemma packed_cmp_eq:
  assumes "row p < 2 ^ 32" "column p < 2 ^ 32" "row q < 2 ^ 32" "column q < 2 ^ 32"
  shows "packed_cmp p q = cmp p q"
proof -
  have "packed p < packed q \<longleftrightarrow> p < q"
    using assms by (auto simp: word_less_nat_alt unat_packed point_less_iff)
  moreover have "packed p = packed q \<longleftrightarrow> p = q"
    using assms unat_packed [of p] unat_packed [of q]
      digits_unique [of "row p" "2 ^ 32" "column p" "row q" "column q"] by (metis point.expand)
  ultimately show ?thesis by (simp add: packed_cmp_def cmp_def)
qed

section \<open>Arithmetic\<close>

lemma point_add_zero [simp]: "point_add p point_zero = p" "point_add point_zero p = p"
  by (cases p; simp add: point_add_def point_zero_def)+

lemma point_zero_sel [simp]: "row point_zero = 0" "column point_zero = 0"
  by (simp_all add: point_zero_def)

lemma point_add_assoc: "point_add (point_add p q) r = point_add p (point_add q r)"
  by (simp add: point_add_def)

lemma row_point_add [simp]: "row (point_add p q) = row p + row q"
  by (simp add: point_add_def)

lemma point_le_add: "p \<le> point_add p q"
  by (simp add: point_le_iff point_add_def)

lemma point_sub_add: "point_sub (point_add p q) p = Some q"
  using point_le_add [of p q] by (cases q) (auto simp: point_sub_def point_add_def)

lemma point_add_sub: "q \<le> p \<Longrightarrow> \<exists>d. point_sub p q = Some d \<and> point_add q d = p"
  by (cases p) (auto simp: point_sub_def point_add_def point_le_iff)

lemma point_add_mono: "p \<le> q \<Longrightarrow> point_add r p \<le> point_add r q"
  by (auto simp: point_le_iff point_add_def)

lemma point_add_le_iff: "point_add r p \<le> point_add r q \<longleftrightarrow> p \<le> q"
  by (auto simp: point_le_iff point_add_def)

lemma point_zero_least [simp]: "point_zero \<le> p"
  by (auto simp: point_le_iff point_zero_def)

end
