(* ===== verification/Text_Summary.thy ===== *)
theory Text_Summary
  imports Point
begin

text \<open>
  \<open>TextSummary\<close> of \<open>crates/rope/src/rope.rs\<close>: what the rope caches about a piece of text, the sum of two
  summaries, and the summary of a string computed character by character (\<open>From<&str>\<close>), which is the
  reference for the bitmap computation of a chunk.  The main facts are that addition is a monoid on the
  summaries of texts and that the summary of a concatenation is the sum of the summaries.
\<close>

section \<open>Definitions\<close>

record text_summary =
  ts_len :: nat
  ts_chars :: nat
  ts_len_utf16 :: offset_utf16
  ts_lines :: point
  first_line_chars :: nat
  last_line_chars :: nat
  last_line_len_utf16 :: nat
  longest_row :: nat
  longest_row_chars :: nat

definition text_summary_zero :: text_summary where
  "text_summary_zero = \<lparr>ts_len = 0, ts_chars = 0, ts_len_utf16 = 0, ts_lines = Point 0 0, first_line_chars = 0,
     last_line_chars = 0, last_line_len_utf16 = 0, longest_row = 0, longest_row_chars = 0\<rparr>"

definition lines_utf16 :: "text_summary \<Rightarrow> point_utf16" where
  "lines_utf16 s = Point (row (ts_lines s)) (last_line_len_utf16 s)"

definition newline :: text_summary where
  "newline = \<lparr>ts_len = 1, ts_chars = 1, ts_len_utf16 = 1, ts_lines = Point 1 0, first_line_chars = 0,
     last_line_chars = 0, last_line_len_utf16 = 0, longest_row = 0, longest_row_chars = 0\<rparr>"

definition add_newline :: "text_summary \<Rightarrow> text_summary" where
  "add_newline s = s\<lparr>ts_len := ts_len s + 1, ts_len_utf16 := ts_len_utf16 s + (ts_len_utf16 s + 1),
     last_line_chars := 0, last_line_len_utf16 := 0, ts_lines := point_add (ts_lines s) (Point 1 0)\<rparr>"

definition text_summary_add :: "text_summary \<Rightarrow> text_summary \<Rightarrow> text_summary" where
  "text_summary_add s other =
     (let joined_chars = last_line_chars s + first_line_chars other;
          s = (if longest_row_chars s < joined_chars
               then s\<lparr>longest_row := row (ts_lines s), longest_row_chars := joined_chars\<rparr> else s);
          s = (if longest_row_chars s < longest_row_chars other
               then s\<lparr>longest_row := row (ts_lines s) + longest_row other,
                      longest_row_chars := longest_row_chars other\<rparr> else s);
          s = (if row (ts_lines s) = 0
               then s\<lparr>first_line_chars := first_line_chars s + first_line_chars other\<rparr> else s);
          s = (if row (ts_lines other) = 0
               then s\<lparr>last_line_chars := last_line_chars s + first_line_chars other,
                      last_line_len_utf16 := last_line_len_utf16 s + last_line_len_utf16 other\<rparr>
               else s\<lparr>last_line_chars := last_line_chars other,
                      last_line_len_utf16 := last_line_len_utf16 other\<rparr>)
      in s\<lparr>ts_chars := ts_chars s + ts_chars other, ts_len := ts_len s + ts_len other,
           ts_len_utf16 := ts_len_utf16 s + ts_len_utf16 other, ts_lines := point_add (ts_lines s) (ts_lines other)\<rparr>)"

text \<open>The loop body of \<open>From<&str>\<close>; \<open>ts_len\<close> is set at the end.\<close>

definition summarize_char :: "text_summary \<Rightarrow> str \<Rightarrow> text_summary" where
  "summarize_char s c =
     (let s = s\<lparr>ts_chars := ts_chars s + 1, ts_len_utf16 := ts_len_utf16 s + char_len_utf16 c\<rparr>;
          s = (if c = [0x0A]
               then s\<lparr>ts_lines := point_add (ts_lines s) (Point 1 0), last_line_len_utf16 := 0, last_line_chars := 0\<rparr>
               else s\<lparr>ts_lines := Point (row (ts_lines s)) (column (ts_lines s) + len_utf8 c),
                      last_line_len_utf16 := last_line_len_utf16 s + char_len_utf16 c,
                      last_line_chars := last_line_chars s + 1\<rparr>);
          s = (if row (ts_lines s) = 0 then s\<lparr>first_line_chars := last_line_chars s\<rparr> else s)
      in if longest_row_chars s < last_line_chars s
         then s\<lparr>longest_row := row (ts_lines s), longest_row_chars := last_line_chars s\<rparr> else s)"

definition from_str :: "str \<Rightarrow> text_summary" where
  "from_str text = (foldl summarize_char text_summary_zero (str_chars text))\<lparr>ts_len := length text\<rparr>"

section \<open>Addition is a monoid\<close>

text \<open>What holds of the summary of any text: it is \<open>valid\<close>, and addition keeps it.\<close>

definition valid :: "text_summary \<Rightarrow> bool" where
  "valid s \<longleftrightarrow> first_line_chars s \<le> longest_row_chars s \<and>
     (longest_row_chars s = first_line_chars s \<longrightarrow> longest_row s = 0) \<and>
     (row (ts_lines s) = 0 \<longrightarrow> last_line_chars s = first_line_chars s \<and> longest_row_chars s = first_line_chars s)"

lemma text_summary_add_sel [simp]:
  "ts_len (text_summary_add a b) = ts_len a + ts_len b"
  "ts_chars (text_summary_add a b) = ts_chars a + ts_chars b"
  "ts_len_utf16 (text_summary_add a b) = ts_len_utf16 a + ts_len_utf16 b"
  "ts_lines (text_summary_add a b) = point_add (ts_lines a) (ts_lines b)"
  "first_line_chars (text_summary_add a b) = (if row (ts_lines a) = 0 then first_line_chars a + first_line_chars b else first_line_chars a)"
  "last_line_chars (text_summary_add a b) = (if row (ts_lines b) = 0 then last_line_chars a + first_line_chars b else last_line_chars b)"
  "last_line_len_utf16 (text_summary_add a b) =
    (if row (ts_lines b) = 0 then last_line_len_utf16 a + last_line_len_utf16 b else last_line_len_utf16 b)"
  "longest_row_chars (text_summary_add a b) =
    max (longest_row_chars a) (max (last_line_chars a + first_line_chars b) (longest_row_chars b))"
  "longest_row (text_summary_add a b) =
    (if max (longest_row_chars a) (last_line_chars a + first_line_chars b) < longest_row_chars b
     then row (ts_lines a) + longest_row b
     else if longest_row_chars a < last_line_chars a + first_line_chars b then row (ts_lines a) else longest_row a)"
  by (auto simp: text_summary_add_def Let_def max_def)

lemma valid_zero [simp]: "valid text_summary_zero"
  by (simp add: valid_def text_summary_zero_def)

lemma valid_add [simp]: "valid a \<Longrightarrow> valid b \<Longrightarrow> valid (text_summary_add a b)"
  by (auto simp: valid_def max_def)

lemma text_summary_eqI:
  "\<lbrakk>ts_len a = ts_len b; ts_chars a = ts_chars b; ts_len_utf16 a = ts_len_utf16 b; ts_lines a = ts_lines b;
    first_line_chars a = first_line_chars b; last_line_chars a = last_line_chars b;
    last_line_len_utf16 a = last_line_len_utf16 b; longest_row a = longest_row b;
    longest_row_chars a = longest_row_chars b\<rbrakk> \<Longrightarrow> a = b" for a b :: text_summary
  by simp

lemma text_summary_add_assoc:
  assumes "valid b"
  shows "text_summary_add (text_summary_add a b) c = text_summary_add a (text_summary_add b c)"
proof (rule text_summary_eqI)
  show "longest_row_chars (text_summary_add (text_summary_add a b) c) = longest_row_chars (text_summary_add a (text_summary_add b c))"
    using assms by (auto simp: valid_def max_def)
  show "longest_row (text_summary_add (text_summary_add a b) c) = longest_row (text_summary_add a (text_summary_add b c))"
    using assms by (auto simp: valid_def max_def)
qed (auto simp: point_add_assoc)

lemma text_summary_zero_sel [simp]:
  "ts_len text_summary_zero = 0" "ts_chars text_summary_zero = 0" "ts_len_utf16 text_summary_zero = 0"
  "ts_lines text_summary_zero = point_zero" "first_line_chars text_summary_zero = 0" "last_line_chars text_summary_zero = 0"
  "last_line_len_utf16 text_summary_zero = 0" "longest_row text_summary_zero = 0" "longest_row_chars text_summary_zero = 0"
  by (simp_all add: text_summary_zero_def point_zero_def)

lemma text_summary_zero_left: "valid a \<Longrightarrow> text_summary_add text_summary_zero a = a"
  by (rule text_summary_eqI) (auto simp: valid_def max_def)

lemma text_summary_zero_right: "valid a \<Longrightarrow> last_line_chars a \<le> longest_row_chars a \<Longrightarrow> text_summary_add a text_summary_zero = a"
  by (rule text_summary_eqI) (auto simp: valid_def max_def)

section \<open>The summary of a string\<close>

lemma summarize_char_sel [simp]:
  "ts_len (summarize_char s c) = ts_len s"
  "ts_chars (summarize_char s c) = Suc (ts_chars s)"
  "ts_len_utf16 (summarize_char s c) = ts_len_utf16 s + char_len_utf16 c"
  "ts_lines (summarize_char s c) = point_add (ts_lines s) (if c = [0x0A] then Point 1 0 else Point 0 (length c))"
  "first_line_chars (summarize_char s c) =
    (if row (ts_lines s) = 0 \<and> c \<noteq> [0x0A] then Suc (last_line_chars s) else first_line_chars s)"
  "last_line_chars (summarize_char s c) = (if c = [0x0A] then 0 else Suc (last_line_chars s))"
  "last_line_len_utf16 (summarize_char s c) = (if c = [0x0A] then 0 else last_line_len_utf16 s + char_len_utf16 c)"
  "longest_row_chars (summarize_char s c) = (if c = [0x0A] then longest_row_chars s else max (longest_row_chars s) (Suc (last_line_chars s)))"
  "longest_row (summarize_char s c) =
    (if c \<noteq> [0x0A] \<and> longest_row_chars s < Suc (last_line_chars s) then row (ts_lines s) else longest_row s)"
  by (auto simp: summarize_char_def Let_def len_utf8_def point_add_def max_def)

abbreviation summarize :: "str list \<Rightarrow> text_summary" where
  "summarize cs \<equiv> foldl summarize_char text_summary_zero cs"

lemma summarize_valid: "valid (summarize cs) \<and> last_line_chars (summarize cs) \<le> longest_row_chars (summarize cs)"
  by (induction cs rule: rev_induct) (auto simp: valid_def max_def)

lemma summarize_char_add:
  assumes "valid a" "valid b"
  shows "summarize_char (text_summary_add a b) c = text_summary_add a (summarize_char b c)"
  using assms
  by (intro text_summary_eqI; cases "c = [0x0A]"; auto simp: valid_def max_def point_add_assoc)

lemma summarize_append: "summarize (xs @ ys) = text_summary_add (summarize xs) (summarize ys)"
proof (induction ys rule: rev_induct)
  case Nil
  show ?case using summarize_valid [of xs] by (simp add: text_summary_zero_right)
next
  case (snoc c ys)
  then show ?case using summarize_valid [of xs] summarize_valid [of ys] by (simp add: summarize_char_add flip: append_assoc)
qed

lemma summarize_len: "ts_len (summarize cs) = 0"
  by (induction cs rule: rev_induct) simp_all

lemma from_str_Nil [simp]: "from_str [] = text_summary_zero"
  by (simp add: from_str_def text_summary_zero_def)

lemma from_str_valid [simp]: "valid (from_str s)"
  using summarize_valid [of "str_chars s"] by (simp add: from_str_def valid_def)

lemma ts_len_from_str [simp]: "ts_len (from_str s) = length s"
  by (simp add: from_str_def)

lemma text_summary_add_len: "text_summary_add (a\<lparr>ts_len := m\<rparr>) (b\<lparr>ts_len := n\<rparr>) = (text_summary_add a b)\<lparr>ts_len := m + n\<rparr>"
  by (rule text_summary_eqI) simp_all

text \<open>The summary of a concatenation is the sum of the summaries.\<close>

lemma from_str_append: "boundary_start t \<Longrightarrow> from_str (s @ t) = text_summary_add (from_str s) (from_str t)"
  by (simp add: from_str_def chars_append summarize_append text_summary_add_len del: foldl_append)

lemma ts_chars_from_str: "ts_chars (from_str s) = length (str_chars s)"
proof -
  have "ts_chars (summarize cs) = length cs" for cs by (induction cs rule: rev_induct) simp_all
  then show ?thesis by (simp add: from_str_def)
qed

end
