(* ===== verification/Chunk.thy ===== *)
theory Chunk
  imports Bitmap Text_Summary
begin

text \<open>
  \<open>crates/rope/src/chunk.rs\<close>: a chunk of at most \<open>MAX_BASE\<close> bytes of text with four bitmaps, and the
  slices of chunks.  A \<open>ChunkSlice\<close> has the fields of a \<open>Chunk\<close> and is represented by the same record.
  The bitmap type is \<open>u128\<close>, as in a release build, and \<open>debug_assertions\<close> are off.  A shift by the
  width of the type or more is an overflow: the model panics (\<open>None\<close>).
  The contract: \<open>chunk_ok c\<close> says that \<open>c\<close> is what \<open>Chunk::new\<close> builds from its text; every operation
  yields the chunk of the joined or sliced text, and the bitmap computations agree with the reference
  computations on the text.
\<close>

section \<open>Definitions\<close>

definition MAX_BASE :: nat where "MAX_BASE = 128"
definition MIN_BASE :: nat where "MIN_BASE = MAX_BASE div 2"

record chunk =
  ck_chars :: bitmap
  ck_chars_utf16 :: bitmap
  ck_newlines :: bitmap
  ck_tabs :: bitmap
  ck_text :: str

type_synonym chunk_slice = chunk

definition shl :: "bitmap \<Rightarrow> nat \<Rightarrow> bitmap option" where
  "shl w n = (if n < 128 then Some (push_bit n w) else None)"

definition shr :: "bitmap \<Rightarrow> nat \<Rightarrow> bitmap option" where
  "shr w n = (if n < 128 then Some (drop_bit n w) else None)"

definition chunk_new :: "str \<Rightarrow> chunk option" where
  "chunk_new s = do {
     assert_that (length s \<le> MAX_BASE);
     let chars = bitmap_of is_utf8_char_boundary s;
     utf16 \<leftarrow> shl (bitmap_of (\<lambda>b. 240 \<le> b) s) 1;
     Some \<lparr>ck_chars = chars, ck_chars_utf16 = or utf16 chars, ck_newlines = bitmap_of (\<lambda>b. b = 0x0A) s,
       ck_tabs = bitmap_of (\<lambda>b. b = 0x09) s, ck_text = s\<rparr> }"

definition slice_is_empty :: "chunk_slice \<Rightarrow> bool" where "slice_is_empty c \<longleftrightarrow> ck_text c = []"

definition slice_len :: "chunk_slice \<Rightarrow> nat" where "slice_len c = length (ck_text c)"

definition array_string_push :: "str \<Rightarrow> str \<Rightarrow> str option" where
  "array_string_push s t = (if length s + length t \<le> MAX_BASE then Some (s @ t) else None)"

definition chunk_append :: "chunk \<Rightarrow> chunk_slice \<Rightarrow> chunk option" where
  "chunk_append c sl =
     (if slice_is_empty sl then Some c
      else do {
        let base_ix = length (ck_text c);
        chars \<leftarrow> shl (ck_chars sl) base_ix;
        chars_utf16 \<leftarrow> shl (ck_chars_utf16 sl) base_ix;
        newlines \<leftarrow> shl (ck_newlines sl) base_ix;
        tabs \<leftarrow> shl (ck_tabs sl) base_ix;
        s \<leftarrow> array_string_push (ck_text c) (ck_text sl);
        Some \<lparr>ck_chars = or (ck_chars c) chars, ck_chars_utf16 = or (ck_chars_utf16 c) chars_utf16,
          ck_newlines = or (ck_newlines c) newlines, ck_tabs = or (ck_tabs c) tabs, ck_text = s\<rparr> })"

definition chunk_prepend :: "chunk \<Rightarrow> chunk_slice \<Rightarrow> chunk option" where
  "chunk_prepend c sl =
     (if slice_is_empty sl then Some c
      else if ck_text c = [] then chunk_new (ck_text sl)
      else do {
        let shift = length (ck_text sl);
        chars \<leftarrow> shl (ck_chars c) shift;
        chars_utf16 \<leftarrow> shl (ck_chars_utf16 c) shift;
        newlines \<leftarrow> shl (ck_newlines c) shift;
        tabs \<leftarrow> shl (ck_tabs c) shift;
        s \<leftarrow> array_string_push [] (ck_text sl);
        s \<leftarrow> array_string_push s (ck_text c);
        Some \<lparr>ck_chars = or (ck_chars sl) chars, ck_chars_utf16 = or (ck_chars_utf16 sl) chars_utf16,
          ck_newlines = or (ck_newlines sl) newlines, ck_tabs = or (ck_tabs sl) tabs, ck_text = s\<rparr> })"

definition as_slice :: "chunk \<Rightarrow> chunk_slice" where "as_slice c = c"

definition slice_into_chunk :: "chunk_slice \<Rightarrow> chunk option" where
  "slice_into_chunk sl = (if length (ck_text sl) \<le> MAX_BASE then Some sl else None)"

definition chunk_push_str :: "chunk \<Rightarrow> str \<Rightarrow> chunk option" where
  "chunk_push_str c s = do { n \<leftarrow> chunk_new s; chunk_append c (as_slice n) }"

definition chunk_prepend_str :: "chunk \<Rightarrow> str \<Rightarrow> chunk option" where
  "chunk_prepend_str c s = do { n \<leftarrow> chunk_new s; chunk_prepend c (as_slice n) }"

definition is_char_boundary :: "chunk_slice \<Rightarrow> nat \<Rightarrow> bool" where
  "is_char_boundary c offset \<longleftrightarrow> and (unbounded_shl 1 offset) (ck_chars c) \<noteq> 0 \<or> offset = length (ck_text c)"

fun floor_loop :: "str \<Rightarrow> nat \<Rightarrow> nat" where
  "floor_loop s 0 = 0"
| "floor_loop s (Suc i) = (if is_utf8_char_boundary (s ! Suc i) then Suc i else floor_loop s i)"

definition chunk_floor_char_boundary :: "chunk \<Rightarrow> nat \<Rightarrow> nat" where
  "chunk_floor_char_boundary c index =
     (if length (ck_text c) \<le> index then length (ck_text c) else floor_loop (ck_text c) index)"

definition assert_char_boundary :: "bool \<Rightarrow> chunk_slice \<Rightarrow> nat \<Rightarrow> bool option" where
  "assert_char_boundary panics c offset =
     (if is_char_boundary c offset then Some True else if panics then None else Some False)"

definition empty_slice :: chunk_slice where
  "empty_slice = \<lparr>ck_chars = 0, ck_chars_utf16 = 0, ck_newlines = 0, ck_tabs = 0, ck_text = []\<rparr>"

definition slice_split_at :: "chunk_slice \<Rightarrow> nat \<Rightarrow> (chunk_slice \<times> chunk_slice) option" where
  "slice_split_at c mid =
     (if mid = MAX_BASE then Some (c, empty_slice)
      else do {
        bit \<leftarrow> shl 1 mid;
        let mask = bit - 1;
        (left_text, right_text) \<leftarrow> split_at (ck_text c) mid;
        let left = \<lparr>ck_chars = and (ck_chars c) mask, ck_chars_utf16 = and (ck_chars_utf16 c) mask,
                     ck_newlines = and (ck_newlines c) mask, ck_tabs = and (ck_tabs c) mask, ck_text = left_text\<rparr>;
        chars \<leftarrow> shr (ck_chars c) mid;
        chars_utf16 \<leftarrow> shr (ck_chars_utf16 c) mid;
        newlines \<leftarrow> shr (ck_newlines c) mid;
        tabs \<leftarrow> shr (ck_tabs c) mid;
        Some (left, \<lparr>ck_chars = chars, ck_chars_utf16 = chars_utf16, ck_newlines = newlines, ck_tabs = tabs,
                     ck_text = right_text\<rparr>) })"

definition slice_slice :: "chunk_slice \<Rightarrow> nat \<Rightarrow> nat \<Rightarrow> chunk_slice option" where
  "slice_slice c start end =
     (if start = MAX_BASE then Some empty_slice
      else do {
        ok \<leftarrow> assert_char_boundary False c start;
        let start = (if ok then start else str_ceil_char_boundary (ck_text c) start);
        ok \<leftarrow> assert_char_boundary False c end;
        let end = (if ok then end else if end < start then start else str_floor_char_boundary (ck_text c) end);
        let mask = unbounded_shl 1 end - 1;
        chars \<leftarrow> shr (and (ck_chars c) mask) start;
        chars_utf16 \<leftarrow> shr (and (ck_chars_utf16 c) mask) start;
        newlines \<leftarrow> shr (and (ck_newlines c) mask) start;
        tabs \<leftarrow> shr (and (ck_tabs c) mask) start;
        s \<leftarrow> str_slice (ck_text c) start end;
        Some \<lparr>ck_chars = chars, ck_chars_utf16 = chars_utf16, ck_newlines = newlines, ck_tabs = tabs, ck_text = s\<rparr> })"

definition chunk_slice :: "chunk \<Rightarrow> nat \<Rightarrow> nat \<Rightarrow> chunk_slice option" where
  "chunk_slice c start end = slice_slice (as_slice c) start end"

definition slice_len_utf16 :: "chunk_slice \<Rightarrow> offset_utf16" where
  "slice_len_utf16 c = count_ones (ck_chars_utf16 c)"

definition slice_lines :: "chunk_slice \<Rightarrow> point" where
  "slice_lines c = Point (count_ones (ck_newlines c)) (leading_zeros (ck_newlines c) - (128 - length (ck_text c)))"

definition slice_first_line_chars :: "chunk_slice \<Rightarrow> nat" where
  "slice_first_line_chars c = count_ones (and (ck_chars c) (saturating_shl_mask (trailing_zeros (ck_newlines c))))"

definition slice_last_line_chars :: "chunk_slice \<Rightarrow> nat" where
  "slice_last_line_chars c = count_ones (and (ck_chars c) (saturating_shr_mask (leading_zeros (ck_newlines c))))"

definition slice_last_line_len_utf16 :: "chunk_slice \<Rightarrow> nat" where
  "slice_last_line_len_utf16 c =
     count_ones (and (ck_chars_utf16 c) (saturating_shr_mask (leading_zeros (ck_newlines c))))"

text \<open>
  The loop of \<open>longest_row\<close>; the result is the longest row, its characters and the total number of
  characters.  A row of a chunk has at most 128 characters, so the casts to \<open>u8\<close> lose nothing.
\<close>

lemma trailing_zeros_less: "w \<noteq> 0 \<Longrightarrow> trailing_zeros w < LENGTH('a)" for w :: "'a::len word"
proof (rule ccontr)
  assume "w \<noteq> 0" "\<not> trailing_zeros w < LENGTH('a)"
  then have "takeWhile (\<lambda>i. \<not> bit w i) [0..<LENGTH('a)] = [0..<LENGTH('a)]"
    by (metis trailing_zeros_def takeWhile_eq_take not_less take_all length_upt diff_zero)
  then have "\<not> bit w i" if "i < LENGTH('a)" for i using that by (simp add: takeWhile_eq_all_conv)
  then have "w = 0" by (intro bit_word_eqI) auto
  with \<open>w \<noteq> 0\<close> show False by simp
qed

lemma drop_bit_shrinks:
  assumes "w \<noteq> 0"
  shows "unat (drop_bit (Suc n) w) < unat (w :: 'a::len word)"
proof -
  have "unat (drop_bit (Suc n) w) = unat w div 2 ^ Suc n"
    unfolding unsigned_drop_bit_eq
    by (subst take_bit_nat_eq_self) (rule unsigned_less, simp only: drop_bit_eq_div)
  moreover have "1 < (2 :: nat) ^ Suc n" by (rule one_less_power) simp_all
  moreover have "0 < unat w" using assms by (simp add: unat_gt_0)
  ultimately show ?thesis by (simp del: power_Suc add: div_less_dividend)
qed

function longest_row_loop :: "bitmap \<Rightarrow> bitmap \<Rightarrow> nat \<Rightarrow> nat \<Rightarrow> nat \<Rightarrow> nat \<Rightarrow> nat \<times> nat \<times> nat" where
  "longest_row_loop chars newlines total_chars r longest longest_chars =
     (if newlines \<noteq> 0 then
        let newline_ix = trailing_zeros newlines;
            row_chars = count_ones (and chars (push_bit newline_ix 1 - 1));
            (longest, longest_chars) = (if longest_chars < row_chars then (r, row_chars) else (longest, longest_chars))
        in longest_row_loop (drop_bit 1 (drop_bit newline_ix chars)) (drop_bit 1 (drop_bit newline_ix newlines))
             (total_chars + row_chars + 1) (r + 1) longest longest_chars
      else
        let row_chars = count_ones chars; total_chars = total_chars + row_chars
        in if longest_chars < row_chars then (r, row_chars, total_chars) else (longest, longest_chars, total_chars))"
  by pat_completeness auto
termination
proof (relation "measure (\<lambda>(_, newlines, _). unat newlines)", simp, goal_cases)
  case (1 chars newlines total_chars r longest longest_chars ix rc x l lc)
  moreover have "drop_bit 1 (drop_bit ix newlines) = drop_bit (Suc ix) newlines"
    by (simp only: drop_bit_drop_bit plus_1_eq_Suc add.commute)
  ultimately show ?case using drop_bit_shrinks [of newlines ix] by simp
qed

declare longest_row_loop.simps [simp del]

definition slice_longest_row :: "chunk_slice \<Rightarrow> nat \<times> nat \<times> nat" where
  "slice_longest_row c = longest_row_loop (ck_chars c) (ck_newlines c) 0 0 0 0"

definition slice_text_summary :: "chunk_slice \<Rightarrow> text_summary" where
  "slice_text_summary c =
     (let (longest, longest_chars, chars) = slice_longest_row c
      in \<lparr>ts_len = slice_len c, ts_chars = chars, ts_len_utf16 = slice_len_utf16 c, ts_lines = slice_lines c,
          first_line_chars = slice_first_line_chars c, last_line_chars = slice_last_line_chars c,
          last_line_len_utf16 = slice_last_line_len_utf16 c, longest_row = longest, longest_row_chars = longest_chars\<rparr>)"

definition slice_offset_to_point :: "chunk_slice \<Rightarrow> nat \<Rightarrow> point" where
  "slice_offset_to_point c offset =
     (let mask = unbounded_shl 1 offset - 1;
          newline_ix = 128 - leading_zeros (and (ck_newlines c) mask)
      in Point (count_ones (and (ck_newlines c) mask)) (offset - newline_ix))"

definition slice_offset_to_offset_utf16 :: "chunk_slice \<Rightarrow> nat \<Rightarrow> offset_utf16" where
  "slice_offset_to_offset_utf16 c offset = count_ones (and (ck_chars_utf16 c) (unbounded_shl 1 offset - 1))"

definition slice_offset_to_point_utf16 :: "chunk_slice \<Rightarrow> nat \<Rightarrow> point_utf16" where
  "slice_offset_to_point_utf16 c offset =
     (let mask = saturating_shl_mask offset;
          newline_ix = 128 - leading_zeros (and (ck_newlines c) mask);
          column = (if newline_ix = MAX_BASE then 0 else count_ones (drop_bit newline_ix (and (ck_chars_utf16 c) mask)))
      in Point (count_ones (and (ck_newlines c) (saturating_shl_mask offset))) column)"

section \<open>Invariant\<close>

definition utf16_map :: "str \<Rightarrow> bitmap" where
  "utf16_map s = or (push_bit 1 (bitmap_of (\<lambda>b. 240 \<le> b) s)) (bitmap_of is_utf8_char_boundary s)"

definition chunk_of :: "str \<Rightarrow> chunk" where
  "chunk_of s = \<lparr>ck_chars = bitmap_of is_utf8_char_boundary s, ck_chars_utf16 = utf16_map s,
     ck_newlines = bitmap_of (\<lambda>b. b = 0x0A) s, ck_tabs = bitmap_of (\<lambda>b. b = 0x09) s, ck_text = s\<rparr>"

definition chunk_ok :: "chunk \<Rightarrow> bool" where
  "chunk_ok c \<longleftrightarrow> length (ck_text c) \<le> MAX_BASE \<and> utf8 (ck_text c) \<and> c = chunk_of (ck_text c)"

lemma chunk_of_sel [simp]:
  "ck_text (chunk_of s) = s" "ck_chars (chunk_of s) = bitmap_of is_utf8_char_boundary s"
  "ck_chars_utf16 (chunk_of s) = utf16_map s" "ck_newlines (chunk_of s) = bitmap_of (\<lambda>b. b = 0x0A) s"
  "ck_tabs (chunk_of s) = bitmap_of (\<lambda>b. b = 0x09) s"
  by (simp_all add: chunk_of_def)

lemma chunk_okI: "length s \<le> MAX_BASE \<Longrightarrow> utf8 s \<Longrightarrow> chunk_ok (chunk_of s)"
  by (simp add: chunk_ok_def)

lemma chunk_okE: assumes "chunk_ok c" obtains s where "c = chunk_of s" "length s \<le> MAX_BASE" "utf8 s"
  using assms by (auto simp: chunk_ok_def)

lemma chunk_new_eq: "chunk_new s = (if length s \<le> MAX_BASE then Some (chunk_of s) else None)"
  by (simp add: chunk_new_def shl_def chunk_of_def utf16_map_def Let_def)

end
