(* ===== verification/Chunk_Correct.thy ===== *)
theory Chunk_Correct
  imports Chunk
begin

text \<open>
  The operations on chunks act on the text: joining and slicing chunks gives the chunk of the joined or
  sliced text, the character boundaries read off the bitmap are those of the string, and the summary
  computed from the bitmaps is the reference summary of the text (\<open>TextSummary::from\<close>).
\<close>

section \<open>Joining and cutting bitmaps\<close>

lemma bit_mask_128: "bit (unbounded_shl 1 n - 1 :: bitmap) i \<longleftrightarrow> i < n \<and> i < 128"
  using bit_shl_mask [of n i] by (simp add: saturating_shl_mask_def)

lemma bit_mask_push: "bit (push_bit n 1 - 1 :: bitmap) i \<longleftrightarrow> i < n \<and> i < 128"
  using bit_mask_128 [of n i] by (simp add: unbounded_shl_def)

lemma bitmap_append: "or (bitmap_of P s) (push_bit (length s) (bitmap_of P t)) = bitmap_of P (s @ t)"
  by (rule bit_word_eqI) (auto simp: bit_or_iff bit_push_bit_iff bit_bitmap_of nth_append)

lemma bitmap_take:
  assumes "\<And>i. bit m i \<longleftrightarrow> i < n \<and> i < 128"
  shows "and (bitmap_of P s) m = bitmap_of P (take n s)"
  by (rule bit_word_eqI) (auto simp: bit_and_iff bit_bitmap_of assms)

lemma bitmap_drop: "length s \<le> 128 \<Longrightarrow> drop_bit n (bitmap_of P s) = bitmap_of P (drop n s)"
  by (rule bit_word_eqI) (auto simp: bit_drop_bit_eq bit_bitmap_of)

lemma bit_utf16_map:
  "bit (utf16_map s) i \<longleftrightarrow> i < 128 \<and> (i < length s \<and> is_utf8_char_boundary (s ! i) \<or> 0 < i \<and> i - 1 < length s \<and> 240 \<le> s ! (i - 1))"
  unfolding utf16_map_def bit_or_iff bit_push_bit_iff bit_bitmap_of by auto

lemma utf16_append: "or (utf16_map s) (push_bit (length s) (utf16_map t)) = utf16_map (s @ t)"
proof (rule bit_word_eqI)
  fix i assume i: "i < LENGTH(128)"
  show "bit (or (utf16_map s) (push_bit (length s) (utf16_map t))) i \<longleftrightarrow> bit (utf16_map (s @ t)) i"
    using i by (cases "i = length s"; cases "i < length s")
      (auto simp: bit_or_iff bit_push_bit_iff bit_utf16_map nth_append)
qed

text \<open>A byte from 240 on starts a character of four bytes.\<close>

lemma utf8_wide: "utf8 s \<Longrightarrow> i < length s \<Longrightarrow> 240 \<le> s ! i \<Longrightarrow> Suc i < length s \<and> \<not> is_utf8_char_boundary (s ! Suc i)"
proof (induction s arbitrary: i rule: utf8_induct)
  case (Char c s)
  note shape = utf8_char_shape [OF Char(1)]
  show ?case
  proof (cases "i < length c")
    case True
    then have c: "240 \<le> c ! i" using Char(5) by (simp add: nth_append)
    have "i = 0"
    proof (rule ccontr)
      assume "i \<noteq> 0"
      then have "c ! i \<in> set (tl c)" using True by (cases c) (auto simp: nth_Cons')
      with shape(6) c show False by auto
    qed
    with c shape(1,5) have "length c = 4" by (cases c) auto
    moreover have "c ! 1 \<in> set (tl c)" using \<open>length c = 4\<close> by (cases c) (auto simp: numeral_eq_Suc)
    ultimately show ?thesis using \<open>i = 0\<close> shape(4) by (auto simp: nth_append)
  next
    case False
    then obtain k where "i = length c + k" by (metis le_add_diff_inverse not_less)
    then show ?thesis using Char(3) [of k] Char(4,5) by (auto simp: nth_append)
  qed
qed simp

lemma wide_before_boundary:
  "utf8 s \<Longrightarrow> str_is_char_boundary s n \<Longrightarrow> 0 < n \<Longrightarrow> \<not> 240 \<le> s ! (n - 1)"
  using utf8_wide [of s "n - 1"] by (cases n) (auto simp: str_is_char_boundary_def)

lemma utf16_take:
  assumes "utf8 s" "str_is_char_boundary s n" "\<And>i. bit m i \<longleftrightarrow> i < n \<and> i < 128"
  shows "and (utf16_map s) m = utf16_map (take n s)"
proof (rule bit_word_eqI)
  fix i assume i: "i < LENGTH(128)"
  show "bit (and (utf16_map s) m) i \<longleftrightarrow> bit (utf16_map (take n s)) i"
    using i wide_before_boundary [OF assms(1,2)] boundary_le [OF assms(2)]
    by (cases "i < n"; cases "i = n") (auto simp: bit_and_iff bit_utf16_map assms(3))
qed

lemma utf16_drop:
  assumes "utf8 s" "str_is_char_boundary s n" "length s \<le> 128"
  shows "drop_bit n (utf16_map s) = utf16_map (drop n s)"
proof (rule bit_word_eqI)
  fix i assume i: "i < LENGTH(128)"
  have "bit (utf16_map s) (n + i) \<longleftrightarrow> bit (utf16_map (drop n s)) i"
  proof (cases "n + i < 128")
    case True
    then show ?thesis
      using i wide_before_boundary [OF assms(1,2)] boundary_le [OF assms(2)]
      by (cases i) (auto simp: bit_utf16_map)
  next
    case False
    have "\<not> (240 \<le> s ! (n + i - 1) \<and> n + i - 1 < length s)"
      using False assms(3) utf8_wide [OF assms(1), of "n + i - 1"] by auto
    then show ?thesis using False assms(3) i by (cases i) (auto simp: bit_utf16_map)
  qed
  then show "bit (drop_bit n (utf16_map s)) i \<longleftrightarrow> bit (utf16_map (drop n s)) i"
    by (simp add: bit_drop_bit_eq)
qed

section \<open>Joining chunks\<close>

lemma chunk_append_eq:
  "length s + length t \<le> MAX_BASE \<Longrightarrow> chunk_append (chunk_of s) (chunk_of t) = Some (chunk_of (s @ t))"
  by (cases "t = []")
    (auto simp: chunk_append_def slice_is_empty_def shl_def MAX_BASE_def array_string_push_def bitmap_append utf16_append
      chunk_of_def Let_def neq_Nil_conv)

lemma chunk_prepend_eq:
  "length s + length t \<le> MAX_BASE \<Longrightarrow> chunk_prepend (chunk_of s) (chunk_of t) = Some (chunk_of (t @ s))"
  by (cases "t = []"; cases "s = []")
    (auto simp: chunk_prepend_def slice_is_empty_def shl_def MAX_BASE_def array_string_push_def bitmap_append utf16_append
      chunk_new_eq chunk_of_def Let_def neq_Nil_conv)

lemma chunk_push_str_eq:
  "length s + length t \<le> MAX_BASE \<Longrightarrow> chunk_push_str (chunk_of s) t = Some (chunk_of (s @ t))"
  by (simp add: chunk_push_str_def chunk_new_eq as_slice_def chunk_append_eq)

lemma chunk_prepend_str_eq:
  "length s + length t \<le> MAX_BASE \<Longrightarrow> chunk_prepend_str (chunk_of s) t = Some (chunk_of (t @ s))"
  by (simp add: chunk_prepend_str_def chunk_new_eq as_slice_def chunk_prepend_eq)

section \<open>Character boundaries and slices\<close>

lemma empty_slice_eq: "empty_slice = chunk_of []"
  by (auto simp: empty_slice_def chunk_of_def bitmap_of_def utf16_map_def)

lemma boundary_bit_eq: "and (unbounded_shl 1 i) w \<noteq> 0 \<longleftrightarrow> bit w i" for w :: bitmap
proof -
  have "and (unbounded_shl 1 i) w = (if bit w i then push_bit i 1 else 0)"
    by (rule bit_word_eqI) (auto simp: unbounded_shl_def bit_and_iff bit_exp_iff)
  moreover have "(push_bit i 1 :: bitmap) \<noteq> 0" if "bit w i"
    using bit_imp_le_length [OF that] by (auto simp: push_bit_eq_mult)
  ultimately show ?thesis by simp
qed

lemma is_char_boundary_eq:
  "utf8 s \<Longrightarrow> length s \<le> MAX_BASE \<Longrightarrow> is_char_boundary (chunk_of s) i \<longleftrightarrow> str_is_char_boundary s i"
  using utf8_boundary_start [of s]
  by (cases "s = []")
    (auto simp: is_char_boundary_def boundary_bit_eq bit_bitmap_of MAX_BASE_def str_is_char_boundary_def hd_conv_nth)

lemma floor_loop_eq: "utf8 s \<Longrightarrow> i < length s \<Longrightarrow> floor_loop s i = boundary_below s i"
  by (induction i) (auto simp: str_is_char_boundary_def)

lemma chunk_floor_eq: "utf8 s \<Longrightarrow> chunk_floor_char_boundary (chunk_of s) i = str_floor_char_boundary s i"
  by (simp add: chunk_floor_char_boundary_def str_floor_char_boundary_def floor_loop_eq)

lemma split_at_eq:
  assumes "utf8 s" "length s \<le> MAX_BASE" "str_is_char_boundary s n"
  shows "slice_split_at (chunk_of s) n = Some (chunk_of (take n s), chunk_of (drop n s))"
proof (cases "n = MAX_BASE")
  case True
  then show ?thesis using assms(2) by (simp add: slice_split_at_def empty_slice_eq)
next
  case False
  then have n: "n < 128" using boundary_le [OF assms(3)] assms(2) by (simp add: MAX_BASE_def)
  have s: "length s \<le> 128" using assms(2) by (simp add: MAX_BASE_def)
  note bitmap = bitmap_take [OF bit_mask_push, of _ _ n] bitmap_drop [OF s, of n]
    utf16_take [OF assms(1,3) bit_mask_push] utf16_drop [OF assms(1,3) s]
  show ?thesis
    using n False assms(3) bitmap
    by (simp add: slice_split_at_def shl_def shr_def split_at_def Let_def chunk_of_def)
qed

lemma slice_eq:
  assumes "utf8 s" "length s \<le> MAX_BASE" "i \<le> j" "str_is_char_boundary s i" "str_is_char_boundary s j"
  shows "slice_slice (chunk_of s) i j = Some (chunk_of (take (j - i) (drop i s)))"
proof (cases "i = MAX_BASE")
  case True
  then show ?thesis using assms(2) by (simp add: slice_slice_def empty_slice_eq)
next
  case False
  then have i: "i < 128" using boundary_le [OF assms(4)] assms(2) by (simp add: MAX_BASE_def)
  have t: "length (take j s) \<le> 128" using assms(2) by (simp add: MAX_BASE_def)
  have "utf8 (take j s)" using utf8_split [OF assms(1,5)] by simp
  moreover have b: "str_is_char_boundary (take j s) i"
    using assms(3-5) boundary_le [OF assms(5)] by (auto simp: str_is_char_boundary_def)
  ultimately have utf16: "drop_bit i (and (utf16_map s) (unbounded_shl 1 j - 1)) = utf16_map (drop i (take j s))"
    using utf16_take [OF assms(1,5) bit_mask_128] utf16_drop [OF _ b t] by simp
  have bitmap: "drop_bit i (and (bitmap_of P s) (unbounded_shl 1 j - 1)) = bitmap_of P (drop i (take j s))" for P
    using bitmap_take [OF bit_mask_128, of P s j] bitmap_drop [OF t, of i P] by simp
  have "slice_slice (chunk_of s) i j = Some \<lparr>ck_chars = bitmap_of is_utf8_char_boundary (drop i (take j s)),
      ck_chars_utf16 = utf16_map (drop i (take j s)), ck_newlines = bitmap_of (\<lambda>b. b = 0x0A) (drop i (take j s)),
      ck_tabs = bitmap_of (\<lambda>b. b = 0x09) (drop i (take j s)), ck_text = drop i (take j s)\<rparr>"
    using i False assms(3-5)
    by (simp add: slice_slice_def assert_char_boundary_def is_char_boundary_eq assms(1,2) shr_def str_slice_def Let_def
        bitmap utf16 drop_take del: drop_bit_and)
  then show ?thesis by (simp add: chunk_of_def drop_take)
qed

section \<open>Counting\<close>

text \<open>Two lists of equally many bits, read together: the bits of one at the set bits of the other.\<close>

lemma count_append_False [simp]: "length (filter (\<lambda>b. b) (xs @ replicate n False)) = length (filter (\<lambda>b. b) xs)"
  by simp

lemma count_ones_bitmap: "length s \<le> 128 \<Longrightarrow> count_ones (bitmap_of P s) = length (filter P s)"
  by (simp add: count_ones_bits bits_bitmap_of filter_map comp_def)

lemma takeWhile_Not_map: "takeWhile Not (map P xs @ replicate n False) =
    (if \<exists>x \<in> set xs. P x then map P (takeWhile (\<lambda>x. \<not> P x) xs) else map P xs @ replicate n False)"
  by (induction xs) (auto simp: takeWhile_eq_all_conv)

lemma trailing_zeros_bitmap:
  "length s \<le> 128 \<Longrightarrow> trailing_zeros (bitmap_of P s) = (if \<exists>b \<in> set s. P b then length (takeWhile (\<lambda>b. \<not> P b) s) else 128)"
  by (simp add: trailing_zeros_bits bits_bitmap_of takeWhile_Not_map)

lemma leading_zeros_bitmap:
  assumes "length s \<le> 128"
  shows "leading_zeros (bitmap_of P s) = 128 - length s + length (takeWhile (\<lambda>b. \<not> P b) (rev s))"
proof -
  have "takeWhile Not (replicate n False @ xs) = replicate n False @ takeWhile Not xs" for n xs
    by (induction n) auto
  then show ?thesis
    using assms by (simp add: leading_zeros_bits bits_bitmap_of rev_map takeWhile_map comp_def)
qed

text \<open>The number of UTF-16 code units of a text.\<close>

definition units :: "str \<Rightarrow> nat" where
  "units s = length (filter is_utf8_char_boundary s) + length (filter (\<lambda>b. 240 \<le> b) s)"

lemma units_simps [simp]: "units [] = 0" "units (s @ t) = units s + units t"
  by (simp_all add: units_def)

lemma count_or_disjoint:
  fixes v w :: "'a::len word"
  assumes "and v w = 0"
  shows "count_ones (or v w) = count_ones v + count_ones w"
proof -
  have "\<not> (bit v i \<and> bit w i)" for i using assms by (metis bit_0_eq bit_and_iff bot_apply bot_bool_def)
  then have "length (filter (\<lambda>i. bit v i \<or> bit w i) xs) = length (filter (bit v) xs) + length (filter (bit w) xs)" for xs
    by (induction xs) auto
  moreover have "filter (bit (or v w)) xs = filter (\<lambda>i. bit v i \<or> bit w i) xs" for xs
    by (rule filter_cong) (simp_all add: bit_or_iff)
  ultimately show ?thesis by (simp add: count_ones_def)
qed

lemma count_ones_push1:
  fixes w :: "'a::len word"
  assumes "\<not> bit w (LENGTH('a) - 1)"
  shows "count_ones (push_bit 1 w) = count_ones w"
proof -
  obtain n where n: "LENGTH('a) = Suc n" by (metis Suc_pred len_gt_0)
  have b: "\<not> bit (push_bit 1 w) 0" "i < n \<Longrightarrow> bit (push_bit 1 w) (Suc i) \<longleftrightarrow> bit w i" for i
    unfolding bit_push_bit_iff using n by auto
  have "filter (bit (push_bit 1 w)) (map Suc [0..<n]) = map Suc (filter (bit w) [0..<n])"
    unfolding filter_map comp_def using b(2) by (intro arg_cong [of _ _ "map Suc"] filter_cong) auto
  moreover have "[0..<Suc n] = 0 # map Suc [0..<n]" by (simp add: upt_conv_Cons map_Suc_upt del: upt_Suc)
  ultimately have "filter (bit (push_bit 1 w)) [0..<Suc n] = map Suc (filter (bit w) [0..<n])"
    using b(1) by simp
  moreover have "filter (bit w) [0..<Suc n] = filter (bit w) [0..<n]" using assms n by simp
  ultimately show ?thesis unfolding count_ones_def n by simp
qed

lemma count_ones_utf16:
  assumes "utf8 s" "length s \<le> 128"
  shows "count_ones (utf16_map s) = units s"
proof -
  let ?w = "bitmap_of (\<lambda>b. 240 \<le> b) s"
  have "and (push_bit 1 ?w) (bitmap_of is_utf8_char_boundary s) = 0"
  proof (rule bit_word_eqI)
    fix i
    show "bit (and (push_bit 1 ?w) (bitmap_of is_utf8_char_boundary s)) i \<longleftrightarrow> bit (0 :: bitmap) i"
      unfolding bit_and_iff bit_push_bit_iff bit_bitmap_of using utf8_wide [OF assms(1), of "i - 1"] by (cases i) auto
  qed
  moreover have "\<not> bit ?w (LENGTH(128) - 1)" using assms utf8_wide [OF assms(1), of 127] by (auto simp: bit_bitmap_of)
  ultimately show ?thesis
    unfolding utf16_map_def using assms(2)
    by (simp add: count_or_disjoint count_ones_push1 count_ones_bitmap units_def del: One_nat_def)
qed

section \<open>The reference summary in closed form\<close>

abbreviation char_count :: "str \<Rightarrow> nat" where
  "char_count s \<equiv> length (filter is_utf8_char_boundary s)"

abbreviation first_line :: "str \<Rightarrow> str" where
  "first_line s \<equiv> takeWhile (\<lambda>b. b \<noteq> 0x0A) s"

definition last_line :: "str \<Rightarrow> str" where
  "last_line s = rev (takeWhile (\<lambda>b. b \<noteq> 0x0A) (rev s))"

lemma newline_char: "utf8_char c \<Longrightarrow> 0x0A \<in> set c \<longleftrightarrow> c = [0x0A]"
  using utf8_char_shape(7,8) [of c] by (cases c; cases "tl c") fastforce+

lemma char_count_char: "utf8_char c \<Longrightarrow> char_count c = 1"
  using utf8_char_shape [of c] by (cases c) (auto simp: filter_empty_conv)

lemma units_char: "utf8_char c \<Longrightarrow> units c = char_len_utf16 c"
proof -
  assume c: "utf8_char c"
  note shape = utf8_char_shape [OF c]
  obtain b bs where "c = b # bs" using shape(1) by (cases c) auto
  moreover from this have "filter (\<lambda>b. 240 \<le> b) bs = []" using shape(6) by (auto simp: filter_empty_conv)
  ultimately show ?thesis using shape(5) char_count_char [OF c] by (auto simp: units_def char_len_utf16_def)
qed

lemma last_line_append: "last_line (s @ t) = (if 0x0A \<in> set t then last_line t else last_line s @ t)"
  by (auto simp: last_line_def takeWhile_append takeWhile_eq_all_conv)

lemma first_line_append: "first_line (s @ t) = (if 0x0A \<in> set s then first_line s else s @ first_line t)"
  by (auto simp: takeWhile_append takeWhile_eq_all_conv)

lemma first_line_none: "0x0A \<notin> set s \<Longrightarrow> first_line s = s"
  by (induction s) auto

lemma last_line_none: "0x0A \<notin> set s \<Longrightarrow> last_line s = s" "last_line [] = []" "last_line [0x0A] = []"
  by (simp_all add: last_line_def first_line_none)

lemma from_str_snoc: "utf8_char c \<Longrightarrow> from_str (s @ c) = (summarize_char (from_str s) c)\<lparr>ts_len := length (s @ c)\<rparr>"
  by (rule text_summary_eqI) (simp_all add: from_str_def chars_char_append)

lemma from_str_closed:
  assumes "utf8 s"
  shows "ts_chars (from_str s) = char_count s" "ts_len_utf16 (from_str s) = units s"
    "ts_lines (from_str s) = Point (count_list s 0x0A) (length (last_line s))"
    "last_line_chars (from_str s) = char_count (last_line s)" "last_line_len_utf16 (from_str s) = units (last_line s)"
    "first_line_chars (from_str s) = char_count (first_line s)"
proof -
  have "ts_chars (from_str s) = char_count s \<and> ts_len_utf16 (from_str s) = units s \<and>
    ts_lines (from_str s) = Point (count_list s 0x0A) (length (last_line s)) \<and>
    last_line_chars (from_str s) = char_count (last_line s) \<and> last_line_len_utf16 (from_str s) = units (last_line s) \<and>
    first_line_chars (from_str s) = char_count (first_line s)"
    using assms
  proof (induction s rule: utf8_rev_induct)
    case (Char s c)
    have row0: "count_list s 0x0A = 0 \<longleftrightarrow> 0x0A \<notin> set s" by (simp add: count_list_0_iff)
    have "count_list c 0x0A = 0" if "c \<noteq> [0x0A]" using that newline_char [OF Char(2)] by (simp add: count_list_0_iff)
    then have other: "count_list c 0x0A = 0" "0x0A \<notin> set c" "first_line c = c" if "c \<noteq> [0x0A]"
      using that newline_char [OF Char(2)] by (auto simp: takeWhile_eq_all_conv [THEN iffD2])
    show ?case
    proof (cases "c = [0x0A]")
      case True
      then have "is_utf8_char_boundary 0x0A" "units [0x0A] = 1"
        using units_char [OF Char(2)] utf8_char_shape(3) [OF Char(2)] by (simp_all add: char_len_utf16_def)
      then show ?thesis
        using Char(3) row0 from_str_snoc [OF Char(2), of s] True
        by (simp add: last_line_append last_line_none first_line_append first_line_none point_add_def char_len_utf16_def)
    next
      case False
      then show ?thesis
        using Char(3) char_count_char [OF Char(2)] units_char [OF Char(2)] row0 last_line_none(1) [of s] other
        by (auto simp: from_str_snoc [OF Char(2)] last_line_append first_line_append point_add_def takeWhile_eq_all_conv [THEN iffD2])
    qed
  qed (simp_all add: last_line_none point_zero_def)
  then show "ts_chars (from_str s) = char_count s" "ts_len_utf16 (from_str s) = units s"
    "ts_lines (from_str s) = Point (count_list s 0x0A) (length (last_line s))"
    "last_line_chars (from_str s) = char_count (last_line s)" "last_line_len_utf16 (from_str s) = units (last_line s)"
    "first_line_chars (from_str s) = char_count (first_line s)"
    by simp_all
qed

section \<open>The summary of a chunk\<close>

text \<open>After a newline starts a character.\<close>

lemma boundary_after_ascii: "utf8 s \<Longrightarrow> i < length s \<Longrightarrow> s ! i < 0x80 \<Longrightarrow> str_is_char_boundary s (Suc i)"
proof (induction s arbitrary: i rule: utf8_induct)
  case (Char c s)
  note shape = utf8_char_shape [OF Char(1)]
  show ?case
  proof (cases "i < length c")
    case True
    then have c: "c ! i < 0x80" using Char(5) by (simp add: nth_append)
    have "i = 0"
    proof (rule ccontr)
      assume "i \<noteq> 0"
      then have "c ! i \<in> set (tl c)" using True by (cases c) (auto simp: nth_Cons')
      with shape(8) c show False by auto
    qed
    moreover from this c shape(1,7) have "length c = 1" by (cases c) auto
    ultimately show ?thesis using Char(1,2) by (simp add: boundary_append) (simp add: str_is_char_boundary_def)
  next
    case False
    then obtain k where "i = length c + k" by (metis le_add_diff_inverse not_less)
    then show ?thesis using Char(1,2) Char(3) [of k] Char(4,5) by (auto simp: nth_append boundary_append)
  qed
qed simp

lemma last_line_suffix: "s = take (length s - length (last_line s)) s @ last_line s"
proof -
  have "rev s = takeWhile (\<lambda>b. b \<noteq> 0x0A) (rev s) @ dropWhile (\<lambda>b. b \<noteq> 0x0A) (rev s)" by simp
  then have "s = rev (dropWhile (\<lambda>b. b \<noteq> 0x0A) (rev s)) @ last_line s"
    unfolding last_line_def by (metis rev_append rev_rev_ident)
  then show ?thesis by (metis append_eq_conv_conj diff_add_inverse2 length_append)
qed

lemma last_line_drop: "drop (length s - length (last_line s)) s = last_line s"
  using last_line_suffix [of s] by (metis append_eq_conv_conj length_take min.absorb2 diff_le_self)

lemma length_last_line: "length (last_line s) \<le> length s"
  by (metis last_line_suffix length_append le_add2)

lemma last_line_boundary:
  assumes "utf8 s"
  shows "str_is_char_boundary s (length s - length (last_line s))"
proof (cases "length (last_line s) = length s")
  case False
  let ?n = "length s - length (last_line s)"
  from False length_last_line [of s] have n: "0 < ?n" by simp
  have "dropWhile (\<lambda>b. b \<noteq> 0x0A) (rev s) \<noteq> []"
    using False takeWhile_dropWhile_id [of "\<lambda>b. b \<noteq> 0x0A" "rev s"]
    by (metis append_Nil2 last_line_def length_rev)
  then have "rev s ! length (last_line s) = 0x0A"
    using hd_dropWhile [of "\<lambda>b. b \<noteq> 0x0A" "rev s"] by (simp add: last_line_def dropWhile_eq_drop hd_drop_conv_nth)
  then have "s ! (?n - 1) = 0x0A" using n by (simp add: rev_nth)
  moreover have "Suc (?n - 1) = ?n" "?n - 1 < length s" using n by simp_all
  ultimately show ?thesis using boundary_after_ascii [OF assms, of "?n - 1"] by (simp only:) simp
qed simp

lemma count_newlines: "count_list s 0x0A = length (filter (\<lambda>b. b = 0x0A) s)"
  by (induction s) auto

lemma count_shr_mask: "n \<le> 128 \<Longrightarrow> count_ones (and w (saturating_shr_mask n)) = count_ones (drop_bit (128 - n) w)" for w :: bitmap
  by (simp add: count_ones_bits bits_shr_mask bits_drop)

lemma slice_summary_fields:
  assumes "utf8 s" "length s \<le> MAX_BASE"
  shows "slice_len_utf16 (chunk_of s) = units s"
    "slice_lines (chunk_of s) = Point (count_list s 0x0A) (length (last_line s))"
    "slice_first_line_chars (chunk_of s) = char_count (first_line s)"
    "slice_last_line_chars (chunk_of s) = char_count (last_line s)"
    "slice_last_line_len_utf16 (chunk_of s) = units (last_line s)"
proof -
  have s: "length s \<le> 128" using assms(2) by (simp add: MAX_BASE_def)
  let ?n = "length s - length (last_line s)"
  have lz: "leading_zeros (bitmap_of (\<lambda>b. b = 0x0A) s) = 128 - length s + length (last_line s)"
    using s by (simp add: leading_zeros_bitmap last_line_def)
  have m: "128 - (128 - length s + length (last_line s)) = ?n" "128 - length s + length (last_line s) \<le> 128"
    using s length_last_line [of s] by simp_all
  show "slice_len_utf16 (chunk_of s) = units s" using assms s by (simp add: slice_len_utf16_def count_ones_utf16)
  show "slice_lines (chunk_of s) = Point (count_list s 0x0A) (length (last_line s))"
    using s by (simp add: slice_lines_def lz count_ones_bitmap count_newlines)
  have "take (trailing_zeros (bitmap_of (\<lambda>b. b = 0x0A) s)) s = first_line s"
    using s by (auto simp: trailing_zeros_bitmap first_line_none takeWhile_eq_take [symmetric])
  then show "slice_first_line_chars (chunk_of s) = char_count (first_line s)"
    using s bitmap_take [OF bit_shl_mask] length_takeWhile_le [of "\<lambda>b. b \<noteq> 0x0A" s]
    by (simp add: slice_first_line_chars_def count_ones_bitmap)
  have drop: "utf16_map (drop ?n s) = drop_bit ?n (utf16_map s)"
    "bitmap_of is_utf8_char_boundary (drop ?n s) = drop_bit ?n (bitmap_of is_utf8_char_boundary s)"
    using utf16_drop [OF assms(1) last_line_boundary [OF assms(1)] s] bitmap_drop [OF s] by simp_all
  show "slice_last_line_chars (chunk_of s) = char_count (last_line s)"
    using s m length_last_line [of s]
    by (simp add: slice_last_line_chars_def lz count_shr_mask drop(2) [symmetric] count_ones_bitmap last_line_drop)
  have "utf8 (last_line s)" using utf8_split(2) [OF assms(1) last_line_boundary [OF assms(1)]] by (simp add: last_line_drop)
  then show "slice_last_line_len_utf16 (chunk_of s) = units (last_line s)"
    using s m length_last_line [of s]
    by (simp add: slice_last_line_len_utf16_def lz count_shr_mask drop(1) [symmetric] count_ones_utf16 last_line_drop)
qed

end
