(* ===== verification/Chunk_Summary.thy ===== *)
theory Chunk_Summary
  imports Chunk_Correct
begin

text \<open>
  The summary of a chunk: the rows of the bitmap loop of \<open>longest_row\<close> are the lines of the text, so that
  \<open>text_summary\<close> equals the reference summary; and the conversions between offsets, points and UTF-16
  positions inside a chunk are those of the text before the offset.
\<close>

section \<open>Any bitmaps give a valid summary\<close>

lemma longest_row_step:
  assumes "ns \<noteq> 0" "ix = trailing_zeros ns" "rc = count_ones (and cs (saturating_shl_mask ix))"
  shows "longest_row_loop cs ns tc r l lc = longest_row_loop (drop_bit (Suc ix) cs) (drop_bit (Suc ix) ns)
    (tc + rc + 1) (r + 1) (if lc < rc then r else l) (max lc rc)"
proof -
  have d: "drop_bit 1 (drop_bit ix w) = drop_bit (Suc ix) w" for w :: bitmap
    by (simp only: drop_bit_drop_bit plus_1_eq_Suc add.commute)
  have m: "push_bit ix 1 - 1 = saturating_shl_mask ix" by (simp only: saturating_shl_mask_def unbounded_shl_def)
  have "longest_row_loop cs ns tc r l lc = longest_row_loop (drop_bit 1 (drop_bit ix cs)) (drop_bit 1 (drop_bit ix ns))
      (tc + rc + 1) (r + 1) (fst (if lc < rc then (r, rc) else (l, lc))) (snd (if lc < rc then (r, rc) else (l, lc)))"
    by (subst longest_row_loop.simps) (simp only: assms(1) if_True Let_def assms(2) [symmetric] m assms(3) [symmetric] not_False_eq_True split_beta)
  then show ?thesis unfolding d by (simp add: max_def)
qed

lemma longest_row_last:
  "longest_row_loop cs 0 tc r l lc = (if lc < count_ones cs then r else l, max lc (count_ones cs), tc + count_ones cs)"
  by (subst longest_row_loop.simps) (simp add: Let_def max_def)

lemma longest_row_loop_mono:
  "longest_row_loop cs ns tc r l lc = (l', lc', tc') \<Longrightarrow> lc \<le> lc' \<and> (lc' = lc \<longrightarrow> l' = l)"
proof (induction "unat ns" arbitrary: cs ns tc r l lc rule: less_induct)
  case less
  show ?case
  proof (cases "ns = 0")
    case True
    then show ?thesis using less(2) by (auto simp: longest_row_last split: if_splits)
  next
    case False
    define ix where "ix = trailing_zeros ns"
    have "unat (drop_bit (Suc ix) ns) < unat ns"
      using False drop_bit_shrinks [of ns ix] by simp
    from less(1) [OF this, OF less(2) [unfolded longest_row_step [OF False ix_def refl]]]
    show ?thesis by (auto simp: max_def split: if_splits)
  qed
qed

lemma valid_slice_text_summary: "valid (slice_text_summary c)"
proof -
  obtain l lc tc where loop: "longest_row_loop (ck_chars c) (ck_newlines c) 0 0 0 0 = (l, lc, tc)" by (metis prod_cases3)
  show ?thesis
  proof (cases "ck_newlines c = 0")
    case True
    have "trailing_zeros (0 :: bitmap) = 128" "leading_zeros (0 :: bitmap) = 128"
      by (simp_all add: trailing_zeros_bits leading_zeros_bits takeWhile_replicate)
    moreover have "and w (saturating_shl_mask 128) = w" "and w (saturating_shr_mask 128) = w" for w :: bitmap
      by (auto intro!: bit_word_eqI simp: bit_and_iff bit_shl_mask bit_shr_mask)
    ultimately show ?thesis
      using loop True
      by (auto simp: valid_def slice_text_summary_def slice_longest_row_def slice_first_line_chars_def slice_last_line_chars_def
          longest_row_last split: if_splits)
  next
    case False
    obtain i where "i < 128" "bit (ck_newlines c) i"
      using False bit_word_eqI [of "ck_newlines c" 0] by auto
    then have "i \<in> set (filter (bit (ck_newlines c)) [0..<128])" by simp
    then have "filter (bit (ck_newlines c)) [0..<128] \<noteq> []" by (metis empty_iff empty_set)
    then have "count_ones (ck_newlines c) \<noteq> 0" by (simp add: count_ones_def)
    moreover have "slice_first_line_chars c \<le> lc \<and> (lc = slice_first_line_chars c \<longrightarrow> l = 0)"
      using longest_row_loop_mono [OF loop [unfolded longest_row_step [OF False refl refl]]]
      by (simp add: slice_first_line_chars_def)
    ultimately show ?thesis
      using loop by (auto simp: valid_def slice_text_summary_def slice_longest_row_def slice_lines_def)
  qed
qed

section \<open>The summary of a text\<close>

lemma from_str_line:
  assumes "utf8 s" "0x0A \<notin> set s"
  shows "longest_row_chars (from_str s) = char_count s" "longest_row (from_str s) = 0"
proof -
  have "row (ts_lines (from_str s)) = 0" using assms by (simp add: from_str_closed count_list_0_iff)
  then show "longest_row_chars (from_str s) = char_count s" "longest_row (from_str s) = 0"
    using from_str_valid [of s] assms by (auto simp: valid_def from_str_closed first_line_none)
qed

lemma from_str_newline: "from_str [0x0A] = newline"
  by (rule text_summary_eqI) (simp_all add: from_str_def newline_def char_len_utf16_def point_add_def)

lemma longest_row_loop_text:
  assumes "utf8 s" "length s \<le> 128" "row (ts_lines A) = r" "last_line_chars A = 0"
  shows "longest_row_loop (bitmap_of is_utf8_char_boundary s) (bitmap_of (\<lambda>b. b = 0x0A) s) (ts_chars A) r (longest_row A) (longest_row_chars A) =
    (longest_row (text_summary_add A (from_str s)), longest_row_chars (text_summary_add A (from_str s)), ts_chars (text_summary_add A (from_str s)))"
  using assms
proof (induction "length s" arbitrary: s A r rule: less_induct)
  case less
  let ?cs = "bitmap_of is_utf8_char_boundary" and ?ns = "bitmap_of (\<lambda>b. b = 0x0A)"
  have ns0: "?ns s = 0 \<longleftrightarrow> 0x0A \<notin> set s"
    using less.prems(2) by (auto simp: bit_eq_iff bit_bitmap_of in_set_conv_nth)
  show ?case
  proof (cases "0x0A \<in> set s")
    case False
    then show ?thesis
      using less.prems from_str_line [of s]
      by (simp add: ns0 [THEN iffD2] longest_row_last count_ones_bitmap from_str_closed first_line_none max_def)
  next
    case True
    define line where "line = first_line s"
    define rest where "rest = drop (Suc (length line)) s"
    have s: "s = (line @ [0x0A]) @ rest"
    proof -
      obtain b r where d: "dropWhile (\<lambda>b. b \<noteq> 0x0A) s = b # r"
        using True by (cases "dropWhile (\<lambda>b. b \<noteq> 0x0A) s") (auto simp: dropWhile_eq_Nil_conv)
      then have "b = 0x0A" using hd_dropWhile [of "\<lambda>b. b \<noteq> 0x0A" s] by simp
      moreover have "s = line @ b # r" unfolding line_def d [symmetric] by simp
      moreover from this have "rest = r" by (simp add: rest_def)
      ultimately show ?thesis by simp
    qed
    have line: "0x0A \<notin> set line" unfolding line_def by (auto dest: set_takeWhileD)
    have bound: "str_is_char_boundary s (length (line @ [0x0A]))"
      using boundary_after_ascii [OF less.prems(1), of "length line"] s by (simp add: nth_append)
    have utf8: "utf8 (line @ [0x0A])" "utf8 rest"
      using utf8_split [OF less.prems(1) bound] s by simp_all
    have "boundary_start [0x0A]" by (simp add: lead_boundary)
    with utf8(1) have line8: "utf8 line" by (simp add: utf8_append_iff)
    have tz: "trailing_zeros (?ns s) = length line"
      using less.prems(2) True by (auto simp: trailing_zeros_bitmap line_def)
    define A' where "A' = text_summary_add A (from_str (line @ [0x0A]))"
    have fl: "from_str (line @ [0x0A]) = text_summary_add (from_str line) newline"
      using from_str_append [of "[0x0A]" line] by (simp add: lead_boundary from_str_newline)
    have A': "row (ts_lines A') = r + 1" "last_line_chars A' = 0" "ts_chars A' = ts_chars A + char_count line + 1"
      "longest_row A' = (if longest_row_chars A < char_count line then r else longest_row A)"
      "longest_row_chars A' = max (longest_row_chars A) (char_count line)"
      using less.prems(3,4) from_str_line [OF line8 line] line8 line
      by (auto simp: A'_def fl newline_def from_str_closed first_line_none last_line_none count_list_0_iff max_def)
    have "text_summary_add A (from_str s) = text_summary_add A' (from_str rest)"
      using from_str_append [of rest "line @ [0x0A]"] utf8_boundary_start [OF utf8(2)] s
      by (simp add: A'_def text_summary_add_assoc)
    moreover have "longest_row_loop (?cs s) (?ns s) (ts_chars A) r (longest_row A) (longest_row_chars A) =
        longest_row_loop (?cs rest) (?ns rest) (ts_chars A') (r + 1) (longest_row A') (longest_row_chars A')"
    proof -
      have "count_ones (and (?cs s) (saturating_shl_mask (length line))) = char_count line"
        using less.prems(2) s bitmap_take [OF bit_shl_mask, of is_utf8_char_boundary s "length line"]
        by (metis append.assoc append_eq_conv_conj count_ones_bitmap length_take min.cobounded1 order_trans)
      moreover have "drop_bit (Suc (length line)) (bitmap_of P s) = bitmap_of P rest" for P
        using bitmap_drop less.prems(2) by (simp add: rest_def)
      ultimately show ?thesis
        using True ns0 longest_row_step [OF _ tz [symmetric], of _ "?cs s"] A' by simp
    qed
    moreover have "length rest < length s" "length rest \<le> 128" using s less.prems(2) by simp_all
    ultimately show ?thesis using less.hyps [of rest A' "r + 1"] utf8(2) A'(1,2) by simp
  qed
qed

text \<open>The summary computed from the bitmaps is the reference summary of the text.\<close>

theorem slice_text_summary_eq:
  assumes "utf8 s" "length s \<le> MAX_BASE"
  shows "slice_text_summary (chunk_of s) = from_str s"
proof -
  have "slice_longest_row (chunk_of s) = (longest_row (from_str s), longest_row_chars (from_str s), ts_chars (from_str s))"
    using longest_row_loop_text [OF assms(1), of text_summary_zero 0] assms(2)
    by (simp add: slice_longest_row_def MAX_BASE_def text_summary_zero_left)
  then show ?thesis
    using slice_summary_fields [OF assms] assms(1)
    by (intro text_summary_eqI) (simp_all add: slice_text_summary_def slice_len_def from_str_closed)
qed

section \<open>Conversions inside a chunk\<close>

text \<open>A position inside a chunk is the extent of the text before it.\<close>

lemma shl_mask_eq: "unbounded_shl 1 n - 1 = saturating_shl_mask n"
  by (simp add: saturating_shl_mask_def)

lemma newline_ix_eq:
  assumes "length s \<le> 128" "n \<le> length s"
  shows "128 - leading_zeros (bitmap_of (\<lambda>b. b = 0x0A) (take n s)) = n - length (last_line (take n s))"
  using assms length_last_line [of "take n s"] by (simp add: leading_zeros_bitmap last_line_def)

lemma slice_offset_to_point_eq:
  assumes "utf8 s" "length s \<le> MAX_BASE" "str_is_char_boundary s n"
  shows "slice_offset_to_point (chunk_of s) n = ts_lines (from_str (take n s))"
proof -
  have n: "n \<le> length s" "length s \<le> 128" using boundary_le [OF assms(3)] assms(2) by (simp_all add: MAX_BASE_def)
  have "and (bitmap_of (\<lambda>b. b = 0x0A) s) (saturating_shl_mask n) = bitmap_of (\<lambda>b. b = 0x0A) (take n s)"
    by (rule bitmap_take [OF bit_shl_mask])
  then show ?thesis
    using n utf8_split(1) [OF assms(1,3)] length_last_line [of "take n s"] newline_ix_eq [of s n]
    by (simp add: slice_offset_to_point_def shl_mask_eq Let_def from_str_closed count_ones_bitmap count_newlines)
qed

lemma slice_offset_to_offset_utf16_eq:
  assumes "utf8 s" "length s \<le> MAX_BASE" "str_is_char_boundary s n"
  shows "slice_offset_to_offset_utf16 (chunk_of s) n = ts_len_utf16 (from_str (take n s))"
  using assms utf8_split(1) [OF assms(1,3)] utf16_take [OF assms(1,3) bit_shl_mask]
  by (simp add: slice_offset_to_offset_utf16_def shl_mask_eq from_str_closed count_ones_utf16 MAX_BASE_def)

lemma slice_offset_to_point_utf16_eq:
  assumes "utf8 s" "length s \<le> MAX_BASE" "str_is_char_boundary s n"
  shows "slice_offset_to_point_utf16 (chunk_of s) n = lines_utf16 (from_str (take n s))"
proof -
  let ?t = "take n s"
  have n: "n \<le> length s" "length s \<le> 128" using boundary_le [OF assms(3)] assms(2) by (simp_all add: MAX_BASE_def)
  have t: "utf8 ?t" "length ?t \<le> 128" using n utf8_split(1) [OF assms(1,3)] by simp_all
  have nl: "and (bitmap_of (\<lambda>b. b = 0x0A) s) (saturating_shl_mask n) = bitmap_of (\<lambda>b. b = 0x0A) ?t"
    by (rule bitmap_take [OF bit_shl_mask])
  have u: "and (utf16_map s) (saturating_shl_mask n) = utf16_map ?t" using utf16_take [OF assms(1,3) bit_shl_mask] .
  let ?ix = "length ?t - length (last_line ?t)"
  have ix: "128 - leading_zeros (bitmap_of (\<lambda>b. b = 0x0A) ?t) = ?ix" using newline_ix_eq [of s n] n by simp
  have col: "drop_bit ?ix (utf16_map ?t) = utf16_map (last_line ?t)"
    using utf16_drop [OF t(1) last_line_boundary [OF t(1)] t(2)] unfolding last_line_drop .
  have ll: "utf8 (last_line ?t)" "length (last_line ?t) \<le> 128"
    using utf8_split(2) [OF t(1) last_line_boundary [OF t(1)]] order_trans [OF length_last_line [of ?t] t(2)] unfolding last_line_drop by simp_all
  have "units (last_line ?t) = 0" if "?ix = MAX_BASE"
    using that t(2) length_last_line [of ?t] by (cases "last_line ?t") (auto simp: MAX_BASE_def)
  then show ?thesis
    using count_ones_utf16 [OF ll] col t
    by (simp add: slice_offset_to_point_utf16_def nl u ix Let_def lines_utf16_def from_str_closed count_ones_bitmap count_newlines)
qed

end
