(* ===== verification/Rope.thy ===== *)
theory Rope
  imports SumTree_Iter Chunk_Summary
begin

text \<open>
  \<open>Rope\<close> and \<open>Cursor\<close> of \<open>crates/rope/src/rope.rs\<close>: a text stored as a sum tree of chunks.  A
  \<open>ChunkSummary\<close> is a wrapper of the \<open>TextSummary\<close> it holds and is represented by it.  \<open>check_invariants\<close>
  runs in tests only; its assertion is the invariant \<open>chunks_full\<close> of the correctness theory.
\<close>

section \<open>Summaries and dimensions\<close>

definition chunk_item :: "(chunk, text_summary) item_impl" where
  "chunk_item = \<lparr>item_summary = (\<lambda>c. slice_text_summary (as_slice c)), summary_zero = text_summary_zero,
     add_summary = text_summary_add\<rparr>"

definition offset_dim :: "(text_summary, nat) dimension" where
  "offset_dim = \<lparr>dim_zero = 0, dim_add = (\<lambda>d s. d + ts_len s)\<rparr>"

definition offset_utf16_dim :: "(text_summary, offset_utf16) dimension" where
  "offset_utf16_dim = \<lparr>dim_zero = 0, dim_add = (\<lambda>d s. d + ts_len_utf16 s)\<rparr>"

definition point_dim :: "(text_summary, point) dimension" where
  "point_dim = \<lparr>dim_zero = Point 0 0, dim_add = (\<lambda>d s. point_add d (ts_lines s))\<rparr>"

definition point_utf16_dim :: "(text_summary, point_utf16) dimension" where
  "point_utf16_dim = \<lparr>dim_zero = Point 0 0, dim_add = (\<lambda>d s. point_add d (lines_utf16 s))\<rparr>"

definition text_summary_dim :: "(text_summary, text_summary) dimension" where
  "text_summary_dim = \<lparr>dim_zero = text_summary_zero, dim_add = text_summary_add\<rparr>"

section \<open>Ropes\<close>

type_synonym rope = "(chunk, text_summary) sum_tree"

definition rope_new :: rope where "rope_new = tree_new chunk_item"

definition rope_len :: "rope \<Rightarrow> nat" where "rope_len r = extent offset_dim r"

definition rope_is_empty :: "rope \<Rightarrow> bool" where "rope_is_empty r \<longleftrightarrow> rope_len r = 0"

definition rope_summary :: "rope \<Rightarrow> text_summary" where "rope_summary r = node_summary r"

definition max_point :: "rope \<Rightarrow> point" where "max_point r = extent point_dim r"

definition max_point_utf16 :: "rope \<Rightarrow> point_utf16" where "max_point_utf16 r = extent point_utf16_dim r"

definition rope_is_char_boundary :: "rope \<Rightarrow> nat \<Rightarrow> bool" where
  "rope_is_char_boundary r offset =
     (if tree_is_empty r then offset = 0
      else case find offset_dim (ord_target offset) Left r of
        (start, _, item) \<Rightarrow>
          (case item of Some chunk \<Rightarrow> is_char_boundary chunk (offset - start) | None \<Rightarrow> False))"

definition rope_assert_char_boundary :: "bool \<Rightarrow> rope \<Rightarrow> nat \<Rightarrow> bool option" where
  "rope_assert_char_boundary panics r offset =
     (if tree_is_empty r \<and> offset = 0 then Some True
      else case find offset_dim (ord_target offset) Left r of
        (start, _, Some chunk) \<Rightarrow> assert_char_boundary panics chunk (offset - start)
      | (start, _, None) \<Rightarrow> if panics then None else Some False)"

definition rope_floor_char_boundary :: "rope \<Rightarrow> nat \<Rightarrow> nat" where
  "rope_floor_char_boundary r index =
     (if rope_len r \<le> index then rope_len r
      else case find offset_dim (ord_target index) Left r of
        (start, _, Some chunk) \<Rightarrow> start + str_floor_char_boundary (ck_text chunk) (index - start)
      | (start, _, None) \<Rightarrow> rope_len r)"

definition rope_ceil_char_boundary :: "rope \<Rightarrow> nat \<Rightarrow> nat" where
  "rope_ceil_char_boundary r index =
     (if rope_len r < index then rope_len r
      else case find offset_dim (ord_target index) Left r of
        (start, _, Some chunk) \<Rightarrow> start + str_ceil_char_boundary (ck_text chunk) (index - start)
      | (start, _, None) \<Rightarrow> rope_len r)"

definition rope_clip_offset :: "rope \<Rightarrow> nat \<Rightarrow> bias \<Rightarrow> nat" where
  "rope_clip_offset r offset bias =
     (case bias of Left \<Rightarrow> rope_floor_char_boundary r offset | Right \<Rightarrow> rope_ceil_char_boundary r offset)"

section \<open>Pushing text\<close>

text \<open>
  The closure of \<open>update_last\<close> in \<open>push\<close>: the last chunk takes all of the text if it fits, and
  otherwise as much as brings it to \<open>MIN_BASE\<close> bytes, up to the next character boundary.
  \<open>fill\<close> stands for the common part of \<open>push\<close> and \<open>push_chunk\<close>.
\<close>

definition push_split_ix :: "nat \<Rightarrow> str \<Rightarrow> nat" where
  "push_split_ix last_len s =
     (if last_len + length s \<le> MAX_BASE then length s
      else boundary_above s (min (MIN_BASE - last_len) (length s)))"

definition push_into_last :: "chunk \<Rightarrow> str \<Rightarrow> (chunk \<times> str) option" where
  "push_into_last last_chunk s = do {
     (suffix, remainder) \<leftarrow> split_at s (push_split_ix (length (ck_text last_chunk)) s);
     last_chunk \<leftarrow> chunk_push_str last_chunk suffix;
     Some (last_chunk, remainder) }"

function chunk_boundary_above :: "chunk_slice \<Rightarrow> nat \<Rightarrow> nat" where
  "chunk_boundary_above c i =
     (if i < length (ck_text c) \<and> \<not> is_char_boundary c i then chunk_boundary_above c (Suc i) else i)"
  by pat_completeness auto
termination
  by (relation "measure (\<lambda>(c, i). length (ck_text c) - i)") auto

declare chunk_boundary_above.simps [simp del]

definition push_chunk_into_last :: "chunk \<Rightarrow> chunk_slice \<Rightarrow> (chunk \<times> chunk_slice) option" where
  "push_chunk_into_last last_chunk c = do {
     let split_ix =
       (if length (ck_text last_chunk) + slice_len c \<le> MAX_BASE then slice_len c
        else chunk_boundary_above c (min (MIN_BASE - length (ck_text last_chunk)) (slice_len c)));
     (suffix, remainder) \<leftarrow> slice_split_at c split_ix;
     last_chunk \<leftarrow> chunk_append last_chunk suffix;
     Some (last_chunk, remainder) }"

text \<open>
  \<open>update_last\<close> with a closure that also changes a captured variable: the closure runs on the last
  item, if there is one, and yields the new item and the new value of the variable.
\<close>

definition update_last_capturing ::
  "(chunk \<Rightarrow> 'a \<Rightarrow> (chunk \<times> 'a) option) \<Rightarrow> rope \<Rightarrow> 'a \<Rightarrow> (rope \<times> 'a) option" where
  "update_last_capturing f r a = do {
     last \<leftarrow> tree_last r;
     (case last of
        None \<Rightarrow> do { r \<leftarrow> update_last chunk_item (\<lambda>c. c) r; Some (r, a) }
      | Some c \<Rightarrow> do {
          (c', a') \<leftarrow> f c a;
          r \<leftarrow> update_last chunk_item (\<lambda>_. c') r;
          Some (r, a') }) }"

text \<open>The loop that cuts the remaining text into chunks of at most \<open>MAX_BASE\<close> bytes; a piece without
  any boundary in reach would not make progress, and is reported as \<open>None\<close>.\<close>

function split_chunks :: "str \<Rightarrow> str list option" where
  "split_chunks s =
     (if s = [] then Some []
      else
        let split_ix = boundary_below s (min MAX_BASE (length s))
        in if split_ix = 0 then None
           else do { rest \<leftarrow> split_chunks (drop split_ix s); Some (take split_ix s # rest) })"
  by pat_completeness auto
termination
  by (relation "measure length") auto

declare split_chunks.simps [simp del]

definition NUM_CHUNKS :: nat where "NUM_CHUNKS = 4"

definition PARALLEL_THRESHOLD :: nat where "PARALLEL_THRESHOLD = 84 * (2 * TREE_BASE)"

definition push_large :: "rope \<Rightarrow> str \<Rightarrow> rope option" where
  "push_large r s = do {
     new_chunks \<leftarrow> split_chunks s;
     chunks \<leftarrow> collect_options (map chunk_new new_chunks);
     if PARALLEL_THRESHOLD \<le> length new_chunks then par_extend chunk_item r chunks
     else tree_extend chunk_item r chunks }"

definition rope_push :: "rope \<Rightarrow> str \<Rightarrow> rope option" where
  "rope_push r s = do {
     (r, s) \<leftarrow> update_last_capturing push_into_last r s;
     if s = [] then Some r
     else if NUM_CHUNKS * MAX_BASE - NUM_CHUNKS * 4 < length s then push_large r s
     else do {
       new_chunks \<leftarrow> split_chunks s;
       new_chunks \<leftarrow> arr_collect NUM_CHUNKS new_chunks;
       chunks \<leftarrow> collect_options (map chunk_new new_chunks);
       tree_extend chunk_item r chunks } }"

definition push_chunk :: "rope \<Rightarrow> chunk_slice \<Rightarrow> rope option" where
  "push_chunk r c = do {
     (r, c) \<leftarrow> update_last_capturing push_chunk_into_last r c;
     if \<not> slice_is_empty c then do { c \<leftarrow> slice_into_chunk c; tree_push chunk_item r c }
     else Some r }"

definition rope_append :: "rope \<Rightarrow> rope \<Rightarrow> rope option" where
  "rope_append r other = do {
     first \<leftarrow> tree_first other;
     last \<leftarrow> tree_last r;
     (case first of
        Some chunk \<Rightarrow>
          if (case last of Some c \<Rightarrow> length (ck_text c) < MIN_BASE | None \<Rightarrow> False) \<or> length (ck_text chunk) < MIN_BASE
          then do {
            r \<leftarrow> push_chunk r (as_slice chunk);
            chunks \<leftarrow> cursor_next unit_dimension (cursor_new unit_dimension other);
            chunks \<leftarrow> cursor_next unit_dimension chunks;
            (chunks, rest) \<leftarrow> suffix chunk_item unit_dimension chunks;
            tree_append chunk_item r rest }
          else tree_append chunk_item r other
      | None \<Rightarrow> tree_append chunk_item r other) }"

definition rope_from_str :: "str \<Rightarrow> rope option" where
  "rope_from_str s = rope_push rope_new s"

fun rope_from_iter :: "rope \<Rightarrow> str list \<Rightarrow> rope option" where
  "rope_from_iter r [] = Some r"
| "rope_from_iter r (s # ss) = do { r \<leftarrow> rope_push r s; rope_from_iter r ss }"

definition push_front :: "rope \<Rightarrow> str \<Rightarrow> rope option" where
  "push_front r s =
     (if s = [] then Some r
      else if rope_is_empty r then rope_push r s
      else do {
        first \<leftarrow> tree_first r;
        if (case first of Some c \<Rightarrow> length (ck_text c) + length s \<le> MAX_BASE | None \<Rightarrow> False) then do {
          c \<leftarrow> first;
          c' \<leftarrow> chunk_prepend_str c s;
          update_first chunk_item (\<lambda>_. c') r }
        else do {
          new \<leftarrow> rope_from_str s;
          rope_append new r } })"

section \<open>Cursors\<close>

record rope_cursor =
  rc_rope :: rope
  rc_chunks :: "(chunk, text_summary, nat) cursor"
  rc_offset :: nat

definition rope_cursor_new :: "rope \<Rightarrow> nat \<Rightarrow> rope_cursor option" where
  "rope_cursor_new r offset = do {
     (chunks, _) \<leftarrow> seek offset_dim (ord_target offset) Right (cursor_new offset_dim r);
     Some \<lparr>rc_rope = r, rc_chunks = chunks, rc_offset = offset\<rparr> }"

definition rope_cursor_seek_forward :: "rope_cursor \<Rightarrow> nat \<Rightarrow> rope_cursor option" where
  "rope_cursor_seek_forward c end_offset = do {
     assert_that (rc_offset c \<le> end_offset);
     assert_that (end_offset \<le> rope_len (rc_rope c));
     (chunks, _) \<leftarrow> seek_forward offset_dim (ord_target end_offset) Right (rc_chunks c);
     Some (c\<lparr>rc_chunks := chunks, rc_offset := end_offset\<rparr>) }"

definition rope_cursor_slice :: "rope_cursor \<Rightarrow> nat \<Rightarrow> (rope_cursor \<times> rope) option" where
  "rope_cursor_slice c end_offset = do {
     assert_that (rc_offset c \<le> end_offset);
     assert_that (end_offset \<le> rope_len (rc_rope c));
     let chunks = rc_chunks c;
     item \<leftarrow> cursor_item chunks;
     chunks_end \<leftarrow> cursor_end offset_dim chunks;
     result \<leftarrow> (case item of
        Some start_chunk \<Rightarrow> do {
          start_ix \<leftarrow> (if cursor_start chunks \<le> rc_offset c then Some (rc_offset c - cursor_start chunks) else None);
          let end_ix = min end_offset chunks_end - cursor_start chunks;
          sl \<leftarrow> chunk_slice start_chunk start_ix end_ix;
          push_chunk rope_new sl }
      | None \<Rightarrow> Some rope_new);
     (chunks, result) \<leftarrow> (if chunks_end < end_offset then do {
          chunks \<leftarrow> cursor_next offset_dim chunks;
          (chunks, middle) \<leftarrow> slice chunk_item offset_dim (ord_target end_offset) Right chunks;
          result \<leftarrow> rope_append result middle;
          item \<leftarrow> cursor_item chunks;
          result \<leftarrow> (case item of
             Some end_chunk \<Rightarrow> do {
               sl \<leftarrow> chunk_slice end_chunk 0 (end_offset - cursor_start chunks);
               push_chunk result sl }
           | None \<Rightarrow> Some result);
          Some (chunks, result) }
        else Some (chunks, result));
     Some (c\<lparr>rc_chunks := chunks, rc_offset := end_offset\<rparr>, result) }"

text \<open>\<open>Cursor::summary\<close> for a text dimension: its dimension and its \<open>from_chunk\<close> and \<open>add_assign\<close>.\<close>

record 'd text_dimension =
  td_dim :: "(text_summary, 'd) dimension"
  td_from_text_summary :: "text_summary \<Rightarrow> 'd"
  td_from_chunk :: "chunk_slice \<Rightarrow> 'd"
  td_add :: "'d \<Rightarrow> 'd \<Rightarrow> 'd"

definition offset_td :: "nat text_dimension" where
  "offset_td = \<lparr>td_dim = offset_dim, td_from_text_summary = ts_len, td_from_chunk = slice_len, td_add = (+)\<rparr>"

definition offset_utf16_td :: "offset_utf16 text_dimension" where
  "offset_utf16_td = \<lparr>td_dim = offset_utf16_dim, td_from_text_summary = ts_len_utf16,
     td_from_chunk = slice_len_utf16, td_add = (+)\<rparr>"

definition point_td :: "point text_dimension" where
  "point_td = \<lparr>td_dim = point_dim, td_from_text_summary = ts_lines, td_from_chunk = slice_lines, td_add = point_add\<rparr>"

definition point_utf16_td :: "point_utf16 text_dimension" where
  "point_utf16_td = \<lparr>td_dim = point_utf16_dim, td_from_text_summary = lines_utf16,
     td_from_chunk = (\<lambda>c. Point (row (slice_lines c)) (slice_last_line_len_utf16 c)), td_add = point_add\<rparr>"

definition text_summary_td :: "text_summary text_dimension" where
  "text_summary_td = \<lparr>td_dim = text_summary_dim, td_from_text_summary = (\<lambda>s. s), td_from_chunk = slice_text_summary,
     td_add = text_summary_add\<rparr>"

definition rope_cursor_summary :: "'d text_dimension \<Rightarrow> rope_cursor \<Rightarrow> nat \<Rightarrow> (rope_cursor \<times> 'd) option" where
  "rope_cursor_summary T c end_offset = do {
     assert_that (rc_offset c \<le> end_offset);
     assert_that (end_offset \<le> rope_len (rc_rope c));
     let chunks = rc_chunks c;
     item \<leftarrow> cursor_item chunks;
     chunks_end \<leftarrow> cursor_end offset_dim chunks;
     let total = dim_zero (td_dim T);
     total \<leftarrow> (case item of
        Some start_chunk \<Rightarrow> do {
          start_ix \<leftarrow> (if cursor_start chunks \<le> rc_offset c then Some (rc_offset c - cursor_start chunks) else None);
          let end_ix = min end_offset chunks_end - cursor_start chunks;
          sl \<leftarrow> chunk_slice start_chunk start_ix end_ix;
          Some (td_add T total (td_from_chunk T sl)) }
      | None \<Rightarrow> Some total);
     (chunks, total) \<leftarrow> (if chunks_end < end_offset then do {
          chunks \<leftarrow> cursor_next offset_dim chunks;
          (chunks, middle) \<leftarrow> cursor_summary offset_dim (td_dim T) (ord_target end_offset) Right chunks;
          let total = td_add T total middle;
          item \<leftarrow> cursor_item chunks;
          total \<leftarrow> (case item of
             Some end_chunk \<Rightarrow> do {
               sl \<leftarrow> chunk_slice end_chunk 0 (end_offset - cursor_start chunks);
               Some (td_add T total (td_from_chunk T sl)) }
           | None \<Rightarrow> Some total);
          Some (chunks, total) }
        else Some (chunks, total));
     Some (c\<lparr>rc_chunks := chunks, rc_offset := end_offset\<rparr>, total) }"

definition rope_cursor_suffix :: "rope_cursor \<Rightarrow> rope option" where
  "rope_cursor_suffix c = map_option snd (rope_cursor_slice c (extent offset_dim (rc_rope c)))"

definition rope_slice :: "rope \<Rightarrow> nat \<Rightarrow> nat \<Rightarrow> rope option" where
  "rope_slice r start end = do {
     c \<leftarrow> rope_cursor_new r 0;
     c \<leftarrow> rope_cursor_seek_forward c start;
     (_, result) \<leftarrow> rope_cursor_slice c end;
     Some result }"

definition rope_replace :: "rope \<Rightarrow> nat \<Rightarrow> nat \<Rightarrow> str \<Rightarrow> rope option" where
  "rope_replace r start end s = do {
     c \<leftarrow> rope_cursor_new r 0;
     (c, before) \<leftarrow> rope_cursor_slice c start;
     new_rope \<leftarrow> rope_append rope_new before;
     c \<leftarrow> rope_cursor_seek_forward c end;
     new_rope \<leftarrow> rope_push new_rope s;
     after \<leftarrow> rope_cursor_suffix c;
     rope_append new_rope after }"

section \<open>Conversions\<close>

definition rope_offset_to_offset_utf16 :: "rope \<Rightarrow> nat \<Rightarrow> offset_utf16" where
  "rope_offset_to_offset_utf16 r offset =
     (if ts_len (rope_summary r) \<le> offset then ts_len_utf16 (rope_summary r)
      else case find (dimensions2 offset_dim offset_utf16_dim) (fst_target (ord_target offset)) Left r of
        (start, _, item) \<Rightarrow> snd start +
          (case item of None \<Rightarrow> 0 | Some chunk \<Rightarrow> slice_offset_to_offset_utf16 (as_slice chunk) (offset - fst start)))"

definition rope_offset_to_point :: "rope \<Rightarrow> nat \<Rightarrow> point" where
  "rope_offset_to_point r offset =
     (if ts_len (rope_summary r) \<le> offset then ts_lines (rope_summary r)
      else case find (dimensions2 offset_dim point_dim) (fst_target (ord_target offset)) Left r of
        (start, _, item) \<Rightarrow> point_add (snd start)
          (case item of None \<Rightarrow> point_zero | Some chunk \<Rightarrow> slice_offset_to_point (as_slice chunk) (offset - fst start)))"

definition rope_offset_to_point_utf16 :: "rope \<Rightarrow> nat \<Rightarrow> point_utf16" where
  "rope_offset_to_point_utf16 r offset =
     (if ts_len (rope_summary r) \<le> offset then lines_utf16 (rope_summary r)
      else case find (dimensions2 offset_dim point_utf16_dim) (fst_target (ord_target offset)) Left r of
        (start, _, item) \<Rightarrow> point_add (snd start)
          (case item of None \<Rightarrow> point_zero | Some chunk \<Rightarrow> slice_offset_to_point_utf16 (as_slice chunk) (offset - fst start)))"

end
