(* ===== verification/Rope_Correct.thy ===== *)
theory Rope_Correct
  imports Rope
begin

text \<open>
  A rope stands for a string.  \<open>rope_ok\<close> says that the tree is well-formed and every chunk is a non-empty
  chunk of valid UTF-8; \<open>rope_text\<close> is the string.  The operations are shown to return and to act on the
  string as their names say; the cached summary is the reference summary of the string; and no chunk but
  the last is shorter than \<open>MIN_BASE - 3\<close> bytes (\<open>chunks_full\<close>, asserted by \<open>check_invariants\<close>).
\<close>

section \<open>The summaries of chunks\<close>

lemma chunk_item_sel [simp]:
  "item_summary chunk_item c = slice_text_summary c" "summary_zero chunk_item = text_summary_zero"
  "add_summary chunk_item = text_summary_add"
  by (simp_all add: chunk_item_def as_slice_def)

lemma summaries_valid: "s \<in> summaries chunk_item \<Longrightarrow> valid s"
  by (induction rule: summaries.induct) (simp_all add: valid_slice_text_summary)

lemma lines_utf16_add: "valid b \<Longrightarrow> lines_utf16 (text_summary_add a b) = point_add (lines_utf16 a) (lines_utf16 b)"
  by (simp add: lines_utf16_def point_add_def)

lemma lines_utf16_zero [simp]: "lines_utf16 text_summary_zero = point_zero"
  by (simp add: lines_utf16_def point_zero_def)

interpretation rope_tree: summary_monoid chunk_item
  by unfold_locales (simp_all add: summaries_valid text_summary_add_assoc text_summary_zero_left)

interpretation rope_offset: seekable chunk_item offset_dim
  by unfold_locales (simp_all add: offset_dim_def)

interpretation rope_offset_utf16: seekable chunk_item offset_utf16_dim
  by unfold_locales (simp_all add: offset_utf16_dim_def)

interpretation rope_point: seekable chunk_item point_dim
  by unfold_locales (simp_all add: point_dim_def point_add_assoc point_zero_def [symmetric])

interpretation rope_point_utf16: seekable chunk_item point_utf16_dim
  by unfold_locales
    (simp_all add: point_utf16_dim_def point_add_assoc lines_utf16_add summaries_valid point_zero_def [symmetric])

interpretation rope_text_summary: seekable chunk_item text_summary_dim
  by unfold_locales (simp_all add: text_summary_dim_def text_summary_add_assoc summaries_valid text_summary_zero_left)

interpretation rope_unit: seekable chunk_item unit_dimension
  by unfold_locales (simp_all add: unit_dimension_def)

lemma seekable_pair: "seekable I D \<Longrightarrow> seekable I E \<Longrightarrow> seekable I (dimensions2 D E)"
  by (auto simp: seekable_def seekable_axioms_def measured_def measured_axioms_def dimensions2_def)

section \<open>Invariant and abstraction\<close>

definition chunk_texts :: "chunk list \<Rightarrow> str" where
  "chunk_texts cs = concat (map ck_text cs)"

definition rope_text :: "rope \<Rightarrow> str" where
  "rope_text r = chunk_texts (tree_items r)"

definition chunk_ok' :: "chunk \<Rightarrow> bool" where
  "chunk_ok' c \<longleftrightarrow> chunk_ok c \<and> ck_text c \<noteq> []"

definition chunks_full :: "chunk list \<Rightarrow> bool" where
  "chunks_full cs \<longleftrightarrow> (\<forall>c \<in> set (butlast cs). MIN_BASE \<le> length (ck_text c) + 3)"

definition rope_ok :: "rope \<Rightarrow> bool" where
  "rope_ok r \<longleftrightarrow> wf_tree chunk_item r \<and> (\<forall>c \<in> set (tree_items r). chunk_ok' c) \<and> chunks_full (tree_items r)"

lemma chunk_texts_simps [simp]:
  "chunk_texts [] = []" "chunk_texts (c # cs) = ck_text c @ chunk_texts cs" "chunk_texts (xs @ ys) = chunk_texts xs @ chunk_texts ys"
  by (simp_all add: chunk_texts_def)

lemma chunk_ok'_iff: "chunk_ok' c \<longleftrightarrow> (\<exists>s. c = chunk_of s \<and> s \<noteq> [] \<and> length s \<le> MAX_BASE \<and> utf8 s)"
  by (auto simp: chunk_ok'_def chunk_ok_def)

lemma utf8_chunk_texts: "\<forall>c \<in> set cs. chunk_ok' c \<Longrightarrow> utf8 (chunk_texts cs)"
  by (induction cs) (auto simp: chunk_ok'_def chunk_ok_def)

lemma chunk_summary: "chunk_ok' c \<Longrightarrow> slice_text_summary c = from_str (ck_text c)"
  by (auto simp: chunk_ok'_iff slice_text_summary_eq)

lemma items_summary_text:
  "\<forall>c \<in> set cs. chunk_ok' c \<Longrightarrow> items_summary chunk_item cs = from_str (chunk_texts cs)"
proof (induction cs rule: rev_induct)
  case (snoc c cs)
  then have "utf8 (ck_text c)" by (auto simp: chunk_ok'_def chunk_ok_def)
  with snoc show ?case
    using from_str_append [of "ck_text c" "chunk_texts cs"] utf8_boundary_start by (simp add: chunk_summary)
qed simp

lemma rope_summary_ok: "rope_ok r \<Longrightarrow> rope_summary r = from_str (rope_text r)"
  using rope_tree.wf_summary [of r] items_summary_text [of "tree_items r"]
  by (simp add: rope_ok_def rope_summary_def rope_text_def)

lemma rope_len_ok: "rope_ok r \<Longrightarrow> rope_len r = length (rope_text r)"
  using rope_summary_ok [of r] by (simp add: rope_len_def extent_def offset_dim_def rope_summary_def)

lemma rope_utf8: "rope_ok r \<Longrightarrow> utf8 (rope_text r)"
  by (simp add: rope_ok_def rope_text_def utf8_chunk_texts)

lemma rope_empty_iff: "rope_ok r \<Longrightarrow> rope_text r = [] \<longleftrightarrow> tree_items r = []"
  by (cases "tree_items r") (auto simp: rope_ok_def rope_text_def chunk_ok'_def)

lemma rope_new_ok: "rope_ok rope_new" "rope_text rope_new = []"
  by (simp_all add: rope_ok_def rope_new_def tree_new_def rope_text_def chunks_full_def)

lemma chunks_full_simps:
  "chunks_full []" "chunks_full [c]"
  "chunks_full (xs @ y # ys) \<longleftrightarrow> (\<forall>c \<in> set xs. MIN_BASE \<le> length (ck_text c) + 3) \<and> chunks_full (y # ys)"
  by (auto simp: chunks_full_def butlast_append)

section \<open>Pushing text\<close>

lemma push_split_ix_ok:
  assumes "utf8 s" "n \<le> MAX_BASE"
  shows "str_is_char_boundary s (push_split_ix n s)" "n + push_split_ix n s \<le> MAX_BASE"
    "drop (push_split_ix n s) s \<noteq> [] \<Longrightarrow> MIN_BASE \<le> n + push_split_ix n s"
    "drop (push_split_ix n s) s \<noteq> [] \<Longrightarrow> MAX_BASE < n + length s \<and> push_split_ix n s \<le> MIN_BASE - n + 3"
    "drop (push_split_ix n s) s \<noteq> [] \<Longrightarrow> MIN_BASE \<le> n \<Longrightarrow> push_split_ix n s = 0"
proof -
  let ?m = "min (MIN_BASE - n) (length s)"
  have ok: "str_is_char_boundary s (boundary_above s ?m)" "?m \<le> boundary_above s ?m" "boundary_above s ?m \<le> length s"
    using boundary_above_ok [of ?m s] by simp_all
  have near: "boundary_above s ?m \<le> ?m + 3" using boundary_above_near [OF assms(1), of ?m] by simp
  show "str_is_char_boundary s (push_split_ix n s)" using ok by (simp add: push_split_ix_def)
  have "n + boundary_above s ?m \<le> MAX_BASE" if "MAX_BASE < n + length s"
  proof (cases "MIN_BASE \<le> n")
    case True
    then have "boundary_above s ?m = 0" by (subst boundary_above.simps) simp
    with assms(2) show ?thesis by simp
  next
    case False
    with near show ?thesis by (simp add: MIN_BASE_def MAX_BASE_def)
  qed
  then show "n + push_split_ix n s \<le> MAX_BASE" by (simp add: push_split_ix_def)
  show "drop (push_split_ix n s) s \<noteq> [] \<Longrightarrow> MIN_BASE \<le> n + push_split_ix n s"
    using ok(2,3) by (auto simp: push_split_ix_def MIN_BASE_def MAX_BASE_def split: if_splits)
  show "drop (push_split_ix n s) s \<noteq> [] \<Longrightarrow> MAX_BASE < n + length s \<and> push_split_ix n s \<le> MIN_BASE - n + 3"
    using near by (auto simp: push_split_ix_def split: if_splits)
  show "drop (push_split_ix n s) s \<noteq> [] \<Longrightarrow> MIN_BASE \<le> n \<Longrightarrow> push_split_ix n s = 0"
    by (auto simp: push_split_ix_def boundary_above.simps split: if_splits)
qed

lemma push_into_last_ok:
  assumes "chunk_ok' c" "utf8 s"
  defines "i \<equiv> push_split_ix (length (ck_text c)) s"
  shows "push_into_last c s = Some (chunk_of (ck_text c @ take i s), drop i s)" "chunk_ok' (chunk_of (ck_text c @ take i s))"
    "utf8 (drop i s)"
proof -
  obtain t where t: "c = chunk_of t" "t \<noteq> []" "length t \<le> MAX_BASE" "utf8 t" using assms(1) by (auto simp: chunk_ok'_iff)
  note ix = push_split_ix_ok [OF assms(2) t(3)]
  have i: "i = push_split_ix (length t) s" using t(1) by (simp add: i_def)
  have le: "length t + length (take i s) \<le> MAX_BASE" using ix(2) unfolding i by simp
  have b: "str_is_char_boundary s i" using ix(1) i by simp
  then show "push_into_last c s = Some (chunk_of (ck_text c @ take i s), drop i s)"
    using chunk_push_str_eq [OF le] by (simp add: push_into_last_def t(1) i [symmetric] split_at_def)
  show "chunk_ok' (chunk_of (ck_text c @ take i s))" "utf8 (drop i s)"
    using le t utf8_split [OF assms(2) b] by (auto simp: chunk_ok'_iff)
qed

lemma chunk_boundary_above_eq:
  "utf8 s \<Longrightarrow> length s \<le> MAX_BASE \<Longrightarrow> chunk_boundary_above (chunk_of s) i = boundary_above s i"
proof (induction s i rule: boundary_above.induct)
  case (1 s i)
  then show ?case
    by (subst boundary_above.simps, subst chunk_boundary_above.simps) (auto simp: is_char_boundary_eq)
qed

lemma push_chunk_into_last_ok:
  assumes "chunk_ok' c" "chunk_ok d"
  defines "i \<equiv> push_split_ix (length (ck_text c)) (ck_text d)"
  shows "push_chunk_into_last c d = Some (chunk_of (ck_text c @ take i (ck_text d)), chunk_of (drop i (ck_text d)))"
    "chunk_ok' (chunk_of (ck_text c @ take i (ck_text d)))" "chunk_ok (chunk_of (drop i (ck_text d)))"
proof -
  obtain t where t: "c = chunk_of t" "t \<noteq> []" "length t \<le> MAX_BASE" "utf8 t" using assms(1) by (auto simp: chunk_ok'_iff)
  obtain s where s: "d = chunk_of s" "length s \<le> MAX_BASE" "utf8 s" using assms(2) by (auto elim: chunk_okE)
  note ix = push_split_ix_ok [OF s(3) t(3)]
  have i: "i = push_split_ix (length t) s" using t(1) s(1) by (simp add: i_def)
  have le: "length t + length (take i s) \<le> MAX_BASE" using ix(2) unfolding i by simp
  have b: "str_is_char_boundary s i" using ix(1) i by simp
  have ixeq: "(if length t + slice_len (chunk_of s) \<le> MAX_BASE then slice_len (chunk_of s)
      else chunk_boundary_above (chunk_of s) (min (MIN_BASE - length t) (slice_len (chunk_of s)))) = i"
    using s by (simp add: i push_split_ix_def slice_len_def chunk_boundary_above_eq)
  show "push_chunk_into_last c d = Some (chunk_of (ck_text c @ take i (ck_text d)), chunk_of (drop i (ck_text d)))"
    unfolding push_chunk_into_last_def Let_def t(1) s(1) chunk_of_sel ixeq
    using chunk_append_eq [OF le] split_at_eq [OF s(3,2) b] by simp
  show "chunk_ok' (chunk_of (ck_text c @ take i (ck_text d)))" "chunk_ok (chunk_of (drop i (ck_text d)))"
    using le t s utf8_split [OF s(3) b] by (auto simp: chunk_ok'_iff chunk_ok_def)
qed

lemma update_last_capturing_ok:
  assumes "wf_tree chunk_item r" "tree_items r \<noteq> [] \<Longrightarrow> f (last (tree_items r)) a = Some (c', a')"
  shows "\<exists>r'. update_last_capturing f r a = Some (r', if tree_items r = [] then a else a') \<and> wf_tree chunk_item r' \<and>
    tree_items r' = (if tree_items r = [] then [] else butlast (tree_items r) @ [c'])"
proof (cases "tree_items r = []")
  case True
  then show ?thesis
    using rope_tree.update_last_ok [OF assms(1), of "\<lambda>c. c"] rope_tree.tree_last_ok [OF assms(1)]
    by (auto simp: update_last_capturing_def)
next
  case False
  then show ?thesis
    using rope_tree.update_last_ok [OF assms(1), of "\<lambda>_. c'"] rope_tree.tree_last_ok [OF assms(1)] assms(2)
    by (auto simp: update_last_capturing_def list_last_nonempty set_last_def)
qed

lemma split_chunks_ok:
  "utf8 s \<Longrightarrow> \<exists>ps. split_chunks s = Some ps \<and> concat ps = s \<and> (\<forall>p \<in> set ps. p \<noteq> [] \<and> utf8 p \<and> length p \<le> MAX_BASE) \<and>
    (\<forall>p \<in> set (butlast ps). MAX_BASE \<le> length p + 3)"
proof (induction s rule: split_chunks.induct)
  case (1 s)
  show ?case
  proof (cases "s = []")
    case True
    then show ?thesis by (subst split_chunks.simps) simp
  next
    case False
    define i where "i = boundary_below s (min MAX_BASE (length s))"
    have b: "str_is_char_boundary s i" "i \<le> MAX_BASE" "i \<le> length s" "min MAX_BASE (length s) \<le> i + 3"
      using boundary_below_ok [of s "min MAX_BASE (length s)"] boundary_below_near [OF 1(2), of "min MAX_BASE (length s)"]
      by (simp_all add: i_def)
    have whole: "i = length s" if "length s \<le> MAX_BASE"
      using boundary_below_ok [of s "length s"] that by (auto simp: i_def min_absorb2 intro: antisym)
    have "i \<noteq> 0" using whole b(4) False by (auto simp: MAX_BASE_def min_def split: if_splits)
    then obtain ps where ps: "split_chunks (drop i s) = Some ps" "concat ps = drop i s"
      "\<forall>p \<in> set ps. p \<noteq> [] \<and> utf8 p \<and> length p \<le> MAX_BASE" "\<forall>p \<in> set (butlast ps). MAX_BASE \<le> length p + 3"
      using 1(1) [OF False i_def] utf8_split [OF 1(2) b(1)] by auto
    have "split_chunks s = Some (take i s # ps)"
      using False \<open>i \<noteq> 0\<close> ps(1) by (subst split_chunks.simps) (simp add: i_def [symmetric])
    moreover have "MAX_BASE \<le> length (take i s) + 3" if "ps \<noteq> []"
    proof -
      have "drop i s \<noteq> []" using ps(2,3) that by (cases ps) (auto simp flip: ps(2))
      then show ?thesis using b(3,4) whole by (auto simp: min_def split: if_splits)
    qed
    ultimately show ?thesis
      using ps utf8_split [OF 1(2) b(1)] b \<open>i \<noteq> 0\<close> False by auto
  qed
qed

lemma collect_chunks:
  "\<forall>p \<in> set ps. length p \<le> MAX_BASE \<Longrightarrow> collect_options (map chunk_new ps) = Some (map chunk_of ps)"
  by (induction ps) (simp_all add: chunk_new_eq)

lemma chunk_texts_chunk_of [simp]: "chunk_texts (map chunk_of ps) = concat ps"
  by (simp add: chunk_texts_def comp_def)

text \<open>Appending whole chunks after the text.\<close>

lemma extend_chunks_ok:
  assumes "wf_tree chunk_item r" "\<forall>c \<in> set (tree_items r). chunk_ok' c" "\<forall>c \<in> set (tree_items r). MIN_BASE \<le> length (ck_text c) + 3"
    and "\<forall>p \<in> set ps. p \<noteq> [] \<and> utf8 p \<and> length p \<le> MAX_BASE" "\<forall>p \<in> set (butlast ps). MAX_BASE \<le> length p + 3" "ps \<noteq> []"
  shows "\<exists>r'. tree_extend chunk_item r (map chunk_of ps) = Some r' \<and> rope_ok r' \<and> rope_text r' = rope_text r @ concat ps"
proof -
  obtain r' where r': "tree_extend chunk_item r (map chunk_of ps) = Some r'" "wf_tree chunk_item r'"
    "tree_items r' = tree_items r @ map chunk_of ps"
    using rope_tree.tree_extend_ok [OF assms(1)] by blast
  have "MIN_BASE \<le> MAX_BASE" by (simp add: MIN_BASE_def)
  then have "chunks_full (tree_items r')"
    using assms(3,5,6) by (auto simp: chunks_full_def r'(3) butlast_append simp flip: map_butlast dest: order_trans)
  moreover have "\<forall>c \<in> set (tree_items r'). chunk_ok' c" using assms(2,4) by (auto simp: r'(3) chunk_ok'_iff)
  ultimately show ?thesis using r' by (simp add: rope_ok_def rope_text_def)
qed

theorem rope_push_ok:
  assumes "rope_ok r" "utf8 s"
  shows "\<exists>r'. rope_push r s = Some r' \<and> rope_ok r' \<and> rope_text r' = rope_text r @ s"
proof -
  have wf: "wf_tree chunk_item r" and cs: "\<forall>c \<in> set (tree_items r). chunk_ok' c" and full: "chunks_full (tree_items r)"
    using assms(1) by (simp_all add: rope_ok_def)
  let ?last = "last (tree_items r)"
  define i where "i = (if tree_items r = [] then 0 else push_split_ix (length (ck_text ?last)) s)"
  let ?c = "chunk_of (ck_text ?last @ take i s)"
  have last: "push_into_last ?last s = Some (?c, drop i s)" "chunk_ok' ?c" if "tree_items r \<noteq> []"
    using push_into_last_ok [of ?last s] cs assms(2) that by (simp_all add: i_def)
  then obtain r1 where r1: "update_last_capturing push_into_last r s = Some (r1, drop i s)" "wf_tree chunk_item r1"
    "tree_items r1 = (if tree_items r = [] then [] else butlast (tree_items r) @ [?c])"
    using update_last_capturing_ok [OF wf, of push_into_last s ?c "drop i s"] by (auto simp: i_def split: if_splits)
  have b: "str_is_char_boundary s i"
    using push_split_ix_ok(1) [OF assms(2)] cs by (auto simp: i_def chunk_ok'_def chunk_ok_def)
  have text1: "rope_text r1 @ drop i s = rope_text r @ s"
  proof (cases "tree_items r" rule: rev_cases)
    case Nil
    then show ?thesis by (simp add: rope_text_def r1(3) i_def)
  next
    case (snoc xs x)
    then show ?thesis by (simp add: rope_text_def r1(3))
  qed
  have cs1: "\<forall>c \<in> set (tree_items r1). chunk_ok' c" using r1(3) cs last(2) by (auto dest: in_set_butlastD)
  have ok1: "rope_ok r1" if "drop i s = []"
    using r1 cs1 full by (auto simp: rope_ok_def chunks_full_def)
  have full1: "\<forall>c \<in> set (tree_items r1). MIN_BASE \<le> length (ck_text c) + 3" if "drop i s \<noteq> []"
  proof (cases "tree_items r = []")
    case False
    have "MIN_BASE \<le> length (ck_text ?last) + i"
      using push_split_ix_ok(3) [OF assms(2), of "length (ck_text ?last)"] cs False that
      by (auto simp: i_def chunk_ok'_def chunk_ok_def)
    then show ?thesis using full that by (auto simp: r1(3) chunks_full_def)
  qed (simp add: r1(3))
  obtain ps where ps: "split_chunks (drop i s) = Some ps" "concat ps = drop i s"
    "\<forall>p \<in> set ps. p \<noteq> [] \<and> utf8 p \<and> length p \<le> MAX_BASE" "\<forall>p \<in> set (butlast ps). MAX_BASE \<le> length p + 3"
    using split_chunks_ok [OF utf8_split(2) [OF assms(2) b]] by blast
  show ?thesis
  proof (cases "drop i s = []")
    case True
    then show ?thesis using r1 ok1 text1 by (simp add: rope_push_def)
  next
    case False
    with ps(2) have "ps \<noteq> []" by auto
    with extend_chunks_ok [OF r1(2) cs1 full1 [OF False] ps(3,4)] ps(2) text1
    obtain r' where r': "tree_extend chunk_item r1 (map chunk_of ps) = Some r'" "rope_ok r'" "rope_text r' = rope_text r @ s"
      by auto
    have collect: "collect_options (map chunk_new ps) = Some (map chunk_of ps)" using collect_chunks ps(3) by blast
    have large: "push_large r1 (drop i s) = Some r'"
      using ps(1) collect r'(1) by (simp add: push_large_def rope_tree.par_extend_eq)
    have "length ps \<le> NUM_CHUNKS" if "length (drop i s) \<le> NUM_CHUNKS * MAX_BASE - NUM_CHUNKS * 4"
    proof -
      have "length xs * 125 \<le> length (concat xs)" if "\<forall>p \<in> set xs. MAX_BASE \<le> length p + 3" for xs :: "str list"
        using that by (induction xs) (auto simp: MAX_BASE_def)
      from this [OF ps(4)] have "(length ps - 1) * 125 \<le> length (concat (butlast ps))" by simp
      also have "\<dots> < length (concat ps)"
        using \<open>ps \<noteq> []\<close> ps(3) by (cases ps rule: rev_cases) auto
      finally show ?thesis using that ps(2) by (simp add: NUM_CHUNKS_def MAX_BASE_def)
    qed
    then show ?thesis
      using r1(1) False large r' ps(1) collect by (auto simp: rope_push_def arr_collect_def not_less)
  qed
qed

lemma rope_from_str_ok: "utf8 s \<Longrightarrow> \<exists>r. rope_from_str s = Some r \<and> rope_ok r \<and> rope_text r = s"
  using rope_push_ok [OF rope_new_ok(1)] rope_new_ok(2) by (simp add: rope_from_str_def)

lemma rope_from_iter_ok:
  "rope_ok r \<Longrightarrow> \<forall>s \<in> set ss. utf8 s \<Longrightarrow> \<exists>r'. rope_from_iter r ss = Some r' \<and> rope_ok r' \<and> rope_text r' = rope_text r @ concat ss"
proof (induction ss arbitrary: r)
  case (Cons s ss)
  then obtain r1 where "rope_push r s = Some r1" "rope_ok r1" "rope_text r1 = rope_text r @ s"
    using rope_push_ok [of r s] by auto
  with Cons.IH [of r1] Cons.prems(2) show ?case by auto
qed simp

section \<open>Appending ropes\<close>

text \<open>
  The chunks after \<open>push_chunk\<close>: the last chunk is filled up and the remainder, if any, follows it.
  Where chunks of \<open>MIN_BASE - 3\<close> bytes or more are pushed, the last chunk has that size, too.
\<close>

lemma push_chunk_ok:
  assumes "rope_ok r" "chunk_ok d"
  shows "\<exists>r'. push_chunk r d = Some r' \<and> rope_ok r' \<and> rope_text r' = rope_text r @ ck_text d \<and>
    (MIN_BASE \<le> length (ck_text d) + 3 \<longrightarrow> (\<forall>c \<in> set (tree_items r'). MIN_BASE \<le> length (ck_text c) + 3))"
proof -
  have wf: "wf_tree chunk_item r" and cs: "\<forall>c \<in> set (tree_items r). chunk_ok' c" and full: "chunks_full (tree_items r)"
    using assms(1) by (simp_all add: rope_ok_def)
  let ?last = "last (tree_items r)" and ?s = "ck_text d"
  define i where "i = (if tree_items r = [] then 0 else push_split_ix (length (ck_text ?last)) ?s)"
  let ?c = "chunk_of (ck_text ?last @ take i ?s)"
  have d: "d = chunk_of ?s" "utf8 ?s" "length ?s \<le> MAX_BASE" using assms(2) by (simp_all add: chunk_ok_def)
  have last: "push_chunk_into_last ?last d = Some (?c, chunk_of (drop i ?s))" "chunk_ok' ?c" "chunk_ok (chunk_of (drop i ?s))"
    if "tree_items r \<noteq> []"
    using push_chunk_into_last_ok [of ?last d] cs assms(2) that by (simp_all add: i_def)
  obtain r1 where r1: "update_last_capturing push_chunk_into_last r d = Some (r1, chunk_of (drop i ?s))" "wf_tree chunk_item r1"
    "tree_items r1 = (if tree_items r = [] then [] else butlast (tree_items r) @ [?c])"
    using update_last_capturing_ok [OF wf, of push_chunk_into_last d ?c "chunk_of (drop i ?s)"] last(1) d(1)
    by (auto simp: i_def split: if_splits)
  have cs1: "\<forall>c \<in> set (tree_items r1). chunk_ok' c" using r1(3) cs last(2) by (auto dest: in_set_butlastD)
  have text1: "rope_text r1 @ drop i ?s = rope_text r @ ?s"
    by (cases "tree_items r" rule: rev_cases) (simp_all add: rope_text_def r1(3) i_def)
  have len: "length (ck_text ?last) \<le> MAX_BASE" if "tree_items r \<noteq> []" using cs that by (auto simp: chunk_ok'_def chunk_ok_def)
  note ix = push_split_ix_ok [OF d(2), of "length (ck_text ?last)"]
  have butlast: "\<forall>c \<in> set (butlast (tree_items r)). MIN_BASE \<le> length (ck_text c) + 3" using full by (simp add: chunks_full_def)
  show ?thesis
  proof (cases "drop i ?s = []")
    case True
    then have "push_chunk r d = Some r1" using r1(1) by (simp add: push_chunk_def slice_is_empty_def)
    moreover have "rope_ok r1" using r1 cs1 butlast by (auto simp: rope_ok_def chunks_full_def)
    moreover have "MIN_BASE \<le> length ?s + 3 \<longrightarrow> (\<forall>c \<in> set (tree_items r1). MIN_BASE \<le> length (ck_text c) + 3)"
      using True butlast by (auto simp: r1(3))
    ultimately show ?thesis using text1 True by auto
  next
    case False
    let ?d = "chunk_of (drop i ?s)"
    have d': "chunk_ok' ?d" using False last(3) d by (cases "tree_items r = []") (auto simp: chunk_ok'_def chunk_ok_def i_def)
    obtain r2 where r2: "tree_push chunk_item r1 ?d = Some r2" "wf_tree chunk_item r2" "tree_items r2 = tree_items r1 @ [?d]"
      using rope_tree.push_ok [OF r1(2)] by blast
    have "push_chunk r d = Some r2"
      using r1(1) False r2(1) d(3) by (simp add: push_chunk_def slice_is_empty_def slice_into_chunk_def)
    moreover have full1: "\<forall>c \<in> set (tree_items r1). MIN_BASE \<le> length (ck_text c) + 3"
      using butlast False ix(3) [OF len] by (auto simp: r1(3) i_def)
    then have "rope_ok r2" using r2 cs1 d' by (auto simp: rope_ok_def chunks_full_def)
    moreover have "MIN_BASE \<le> length (drop i ?s) + 3" if big: "MIN_BASE \<le> length ?s + 3"
    proof (cases "tree_items r = [] \<or> MIN_BASE \<le> length (ck_text ?last)")
      case True
      then show ?thesis using big False ix(5) [OF len] by (auto simp: i_def)
    next
      case small: False
      then show ?thesis using False ix(4) [OF len] by (auto simp: i_def MAX_BASE_def MIN_BASE_def)
    qed
    ultimately show ?thesis using text1 r2(3) full1 by (auto simp: rope_text_def)
  qed
qed

lemma skip_first:
  assumes "wf_tree chunk_item t" "node_height t < STACK_CAP"
  shows "\<exists>c1 c2 c3 u. cursor_next unit_dimension (cursor_new unit_dimension t) = Some c1 \<and> cursor_next unit_dimension c1 = Some c2 \<and>
    suffix chunk_item unit_dimension c2 = Some (c3, u) \<and> wf_tree chunk_item u \<and> tree_items u = drop 1 (tree_items t)"
proof -
  obtain c1 where c1: "cursor_next unit_dimension (cursor_new unit_dimension t) = Some c1" "did_seek c1"
    "cursor_at chunk_item unit_dimension c1 [] (tree_items t)"
    using rope_unit.cursor_next_fresh [OF assms] by blast
  obtain c2 where c2: "cursor_next unit_dimension c1 = Some c2" "cursor_at chunk_item unit_dimension c2 (take 1 (tree_items t)) (drop 1 (tree_items t))"
    using rope_unit.cursor_next_ok [OF c1(3,2)] by auto
  with rope_unit.suffix_ok [OF c2(2)] c1 show ?thesis by blast
qed

theorem rope_append_ok:
  assumes "rope_ok r" "rope_ok other" "node_height other < STACK_CAP"
  shows "\<exists>r'. rope_append r other = Some r' \<and> rope_ok r' \<and> rope_text r' = rope_text r @ rope_text other"
proof -
  have wf: "wf_tree chunk_item r" "wf_tree chunk_item other" using assms by (simp_all add: rope_ok_def)
  note ends = rope_tree.tree_first_ok [OF wf(2)] rope_tree.tree_last_ok [OF wf(1)]
  have full: "chunks_full (tree_items r)" "chunks_full (tree_items other)"
    and cs: "\<forall>c \<in> set (tree_items r) \<union> set (tree_items other). chunk_ok' c"
    using assms by (auto simp: rope_ok_def)
  show ?thesis
  proof (cases "tree_items other")
    case Nil
    then show ?thesis
      using ends rope_tree.append_ok [OF wf] assms(1) by (auto simp: rope_append_def rope_ok_def rope_text_def)
  next
    case (Cons c rest)
    let ?merge = "(case list_last (tree_items r) of Some c \<Rightarrow> length (ck_text c) < MIN_BASE | None \<Rightarrow> False) \<or> length (ck_text c) < MIN_BASE"
    show ?thesis
    proof (cases ?merge)
      case True
      have "chunk_ok c" using cs Cons by (simp add: chunk_ok'_def)
      then obtain r1 where r1: "push_chunk r c = Some r1" "rope_ok r1" "rope_text r1 = rope_text r @ ck_text c"
        "MIN_BASE \<le> length (ck_text c) + 3 \<longrightarrow> (\<forall>c \<in> set (tree_items r1). MIN_BASE \<le> length (ck_text c) + 3)"
        using push_chunk_ok [OF assms(1)] by blast
      obtain c1 c2 c3 u where u: "cursor_next unit_dimension (cursor_new unit_dimension other) = Some c1" "cursor_next unit_dimension c1 = Some c2"
        "suffix chunk_item unit_dimension c2 = Some (c3, u)" "wf_tree chunk_item u" "tree_items u = rest"
        using skip_first [OF wf(2) assms(3)] Cons by auto
      obtain r2 where r2: "tree_append chunk_item r1 u = Some r2" "wf_tree chunk_item r2" "tree_items r2 = tree_items r1 @ rest"
        using rope_tree.append_ok [of r1 u] r1(2) u(4,5) by (auto simp: rope_ok_def)
      have "rope_append r other = Some r2"
        using ends True Cons r1(1) u(1-3) r2(1) by (simp add: rope_append_def as_slice_def)
      moreover have "chunks_full (tree_items r2)"
      proof (cases rest)
        case Nil
        then show ?thesis using r1(2) r2(3) by (simp add: rope_ok_def)
      next
        case (Cons c' rest')
        with full(2) \<open>tree_items other = c # rest\<close> have "MIN_BASE \<le> length (ck_text c) + 3" "chunks_full rest"
          by (auto simp: chunks_full_def split: if_splits)
        then show ?thesis using r1(4) r2(3) Cons by (auto simp: chunks_full_simps)
      qed
      ultimately show ?thesis using r1(2,3) r2 cs Cons by (auto simp: rope_ok_def rope_text_def)
    next
      case False
      obtain r2 where r2: "tree_append chunk_item r other = Some r2" "wf_tree chunk_item r2" "tree_items r2 = tree_items r @ tree_items other"
        using rope_tree.append_ok [OF wf] by blast
      have "rope_append r other = Some r2" using ends False Cons r2(1) by (simp add: rope_append_def)
      moreover have "\<forall>c \<in> set (tree_items r). MIN_BASE \<le> length (ck_text c) + 3"
        using full(1) False by (cases "tree_items r" rule: rev_cases) (auto simp: chunks_full_def)
      then have "chunks_full (tree_items r2)" using full(2) Cons by (auto simp: r2(3) chunks_full_simps)
      ultimately show ?thesis using r2 cs by (auto simp: rope_ok_def rope_text_def)
    qed
  qed
qed

lemma push_front_ok:
  assumes "rope_ok r" "utf8 s" "node_height r < STACK_CAP"
  shows "\<exists>r'. push_front r s = Some r' \<and> rope_ok r' \<and> rope_text r' = s @ rope_text r"
proof (cases "s = [] \<or> rope_is_empty r")
  case True
  then show ?thesis
    using assms rope_push_ok [OF assms(1,2)] by (auto simp: push_front_def rope_is_empty_def rope_len_ok)
next
  case False
  then obtain c cs where items: "tree_items r = c # cs"
    using assms(1) by (cases "tree_items r") (auto simp: rope_is_empty_def rope_len_ok rope_text_def)
  have wf: "wf_tree chunk_item r" using assms(1) by (simp add: rope_ok_def)
  note first = rope_tree.tree_first_ok [OF wf]
  show ?thesis
  proof (cases "length (ck_text c) + length s \<le> MAX_BASE")
    case True
    have c: "c = chunk_of (ck_text c)" "chunk_ok' c" using assms(1) items by (simp_all add: rope_ok_def chunk_ok'_def chunk_ok_def)
    let ?c = "chunk_of (s @ ck_text c)"
    have pre: "chunk_prepend_str c s = Some ?c" using chunk_prepend_str_eq [OF True] c(1) by simp
    obtain r' where r': "update_first chunk_item (\<lambda>_. ?c) r = Some r'" "wf_tree chunk_item r'" "tree_items r' = ?c # cs"
      using rope_tree.update_first_ok [OF wf, of "\<lambda>_. ?c"] items by auto
    have "chunk_ok' ?c" using c True False assms(2) by (auto simp: chunk_ok'_def chunk_ok_def)
    then have "rope_ok r'" using assms(1) r' items by (auto simp: rope_ok_def chunks_full_def split: if_splits)
    moreover have "push_front r s = Some r'" using False first items True pre r'(1) by (simp add: push_front_def)
    ultimately show ?thesis using r'(3) items by (auto simp: rope_text_def)
  next
    case large: False
    obtain n where n: "rope_from_str s = Some n" "rope_ok n" "rope_text n = s" using rope_from_str_ok [OF assms(2)] by blast
    with False large first items rope_append_ok [OF n(2) assms(1,3)] show ?thesis by (auto simp: push_front_def)
  qed
qed

end
