(* ===== verification/Rope_Cursor.thy ===== *)
theory Rope_Cursor
  imports Rope_Correct
begin

text \<open>
  Cursors over ropes: a cursor at an offset reads the text from there.  \<open>slice\<close>, \<open>summary\<close>, \<open>suffix\<close> and
  the operations built on them (\<open>Rope::slice\<close>, \<open>Rope::replace\<close>) are shown to return and to yield the
  expected part of the text, provided the offsets are character boundaries.  The cursors of the sum
  tree have room for trees of 16 levels; \<open>sliceable\<close> states that the tree and the slices cut from it
  stay below that.
\<close>

section \<open>Offsets in a list of chunks\<close>

lemma slice_text_summary_len [simp]: "ts_len (slice_text_summary c) = length (ck_text c)"
  by (simp add: slice_text_summary_def slice_len_def split: prod.splits)

lemma pos_after_offset [simp]: "pos_after chunk_item offset_dim d cs = d + length (chunk_texts cs)"
  by (induction cs arbitrary: d) (simp_all add: offset_dim_def)

lemma offset_zero [simp]: "dim_zero offset_dim = 0"
  by (simp add: offset_dim_def)

lemma offset_add [simp]: "dim_add offset_dim d s = d + ts_len s"
  by (simp add: offset_dim_def)

lemma offset_past [simp]:
  "target_past (ord_target n) Right = (\<lambda>d. d \<le> n)" "target_past (ord_target n) Left = (\<lambda>d. d < n)" for n :: nat
  by (auto simp: fun_eq_iff target_past_def ord_target_def)

lemma offset_ge [simp]: "ord_target n d \<noteq> Less \<longleftrightarrow> d \<le> n" for n d :: nat
  by (auto simp: ord_target_def)

lemma offset_mono: "seek_mono chunk_item offset_dim (target_past (ord_target n) b) d cs"
  by (cases b) (auto simp: seek_mono_def)

lemma offset_split_right:
  "seek_split chunk_item offset_dim (\<lambda>d. d \<le> n) d cs = (as, bs) \<Longrightarrow> d \<le> n \<Longrightarrow>
    cs = as @ bs \<and> d + length (chunk_texts as) \<le> n \<and> (bs \<noteq> [] \<longrightarrow> n < d + length (chunk_texts as) + length (ck_text (hd bs)))"
proof (induction cs arbitrary: d as bs)
  case (Cons c cs)
  show ?case
  proof (cases "d + length (ck_text c) \<le> n")
    case True
    then obtain as' where "seek_split chunk_item offset_dim (\<lambda>d. d \<le> n) (d + length (ck_text c)) cs = (as', bs)"
      "as = c # as'"
      using Cons.prems by (auto simp: Let_def split: prod.splits)
    with Cons.IH [OF this(1)] True show ?thesis by (simp add: add.assoc)
  next
    case False
    then show ?thesis using Cons.prems by (auto simp: Let_def)
  qed
qed simp

lemma chunks_full_sub: "chunks_full (xs @ ys @ zs) \<Longrightarrow> chunks_full ys"
proof -
  assume "chunks_full (xs @ ys @ zs)"
  moreover have "set (butlast ys) \<subseteq> set (butlast (xs @ ys @ zs))"
    by (cases ys rule: rev_cases; cases zs) (auto simp: butlast_append)
  ultimately show ?thesis by (auto simp: chunks_full_def)
qed

section \<open>Rope cursors\<close>

definition rope_cursor_at :: "rope_cursor \<Rightarrow> chunk list \<Rightarrow> chunk list \<Rightarrow> bool" where
  "rope_cursor_at c ys zs \<longleftrightarrow>
     rope_ok (rc_rope c) \<and> cursor_tree (rc_chunks c) = rc_rope c \<and> did_seek (rc_chunks c) \<and>
     cursor_at chunk_item offset_dim (rc_chunks c) ys zs \<and>
     length (chunk_texts ys) \<le> rc_offset c \<and> rc_offset c \<le> length (chunk_texts (ys @ take 1 zs))"

definition rope_cursor_ok :: "rope_cursor \<Rightarrow> bool" where
  "rope_cursor_ok c \<longleftrightarrow> (\<exists>ys zs. rope_cursor_at c ys zs)"

text \<open>The rope, and every tree or rope cut from it, fits the stack of a cursor.\<close>

definition sliceable :: "rope \<Rightarrow> bool" where
  "sliceable r \<longleftrightarrow> node_height r < STACK_CAP \<and>
     (\<forall>c n k k' t. rope_cursor_ok c \<longrightarrow> rc_rope c = r \<longrightarrow> cursor_next offset_dim (rc_chunks c) = Some k \<longrightarrow>
        cursor_position k \<le> n \<longrightarrow> slice chunk_item offset_dim (ord_target n) Right k = Some (k', t) \<longrightarrow> node_height t < STACK_CAP) \<and>
     (\<forall>c n c' u. rope_cursor_ok c \<longrightarrow> rc_rope c = r \<longrightarrow> rope_cursor_slice c n = Some (c', u) \<longrightarrow> node_height u < STACK_CAP)"

lemma rope_cursor_at_facts:
  assumes "rope_cursor_at c ys zs"
  shows "cursor_item (rc_chunks c) = Some (list_first zs)" "cursor_start (rc_chunks c) = length (chunk_texts ys)"
    "cursor_end offset_dim (rc_chunks c) = Some (length (chunk_texts (ys @ take 1 zs)))"
    "rope_text (rc_rope c) = chunk_texts ys @ chunk_texts zs" "tree_items (rc_rope c) = ys @ zs"
    "\<forall>d \<in> set (ys @ zs). chunk_ok' d" "chunks_full (ys @ zs)"
proof -
  have at: "cursor_at chunk_item offset_dim (rc_chunks c) ys zs" "did_seek (rc_chunks c)" "cursor_tree (rc_chunks c) = rc_rope c"
    "rope_ok (rc_rope c)"
    using assms by (simp_all add: rope_cursor_at_def)
  show items: "tree_items (rc_rope c) = ys @ zs" using at(1,3) by (simp add: cursor_at_def)
  show start: "cursor_start (rc_chunks c) = length (chunk_texts ys)" using at(1) by (simp add: cursor_at_def cursor_start_def)
  show "cursor_item (rc_chunks c) = Some (list_first zs)" using cursor_at_item(1) [OF at(1,2)] .
  show "cursor_end offset_dim (rc_chunks c) = Some (length (chunk_texts (ys @ take 1 zs)))"
    using cursor_at_item(2) [OF at(1,2)] start by (cases zs) (simp_all add: cursor_end_def)
  show "rope_text (rc_rope c) = chunk_texts ys @ chunk_texts zs" using items by (simp add: rope_text_def)
  show "\<forall>d \<in> set (ys @ zs). chunk_ok' d" "chunks_full (ys @ zs)" using at(4) items by (simp_all add: rope_ok_def)
qed

lemma rope_cursor_okI:
  assumes "rope_ok (rc_rope c)" "cursor_at chunk_item offset_dim (rc_chunks c) as bs" "did_seek (rc_chunks c)"
    "cursor_tree (rc_chunks c) = rc_rope c" "length (chunk_texts as) \<le> rc_offset c" "rc_offset c \<le> length (rope_text (rc_rope c))"
    "bs \<noteq> [] \<Longrightarrow> rc_offset c < length (chunk_texts as) + length (ck_text (hd bs))"
  shows "rope_cursor_at c as bs" "rope_cursor_ok c"
proof -
  have "rope_text (rc_rope c) = chunk_texts as @ chunk_texts bs" using assms(2,4) by (simp add: cursor_at_def rope_text_def)
  then show "rope_cursor_at c as bs" using assms by (cases bs) (auto simp: rope_cursor_at_def)
  then show "rope_cursor_ok c" by (auto simp: rope_cursor_ok_def)
qed

lemma rope_cursor_new_ok:
  assumes "rope_ok r" "node_height r < STACK_CAP" "offset \<le> length (rope_text r)"
  shows "\<exists>c. rope_cursor_new r offset = Some c \<and> rope_cursor_ok c \<and> rc_rope c = r \<and> rc_offset c = offset"
proof -
  obtain as bs where split: "seek_split chunk_item offset_dim (\<lambda>d. d \<le> offset) 0 (tree_items r) = (as, bs)"
    by fastforce
  have at: "cursor_at chunk_item offset_dim (cursor_new offset_dim r) [] (tree_items r)"
    using assms cursor_at_new by (auto simp: rope_ok_def)
  obtain k b where k: "seek offset_dim (ord_target offset) Right (cursor_new offset_dim r) = Some (k, b)"
    "cursor_at chunk_item offset_dim k as bs" "did_seek k" "cursor_tree k = r"
    using rope_offset.seek_ok [OF at, of "ord_target offset" Right as bs] split offset_mono [of offset Right]
    by (auto simp: cursor_new_def)
  let ?c = "\<lparr>rc_rope = r, rc_chunks = k, rc_offset = offset\<rparr>"
  have "rope_cursor_ok ?c"
    by (rule rope_cursor_okI [of _ as bs]) (use k assms offset_split_right [OF split] in auto)
  with k show ?thesis by (simp add: rope_cursor_new_def)
qed

lemma rope_cursor_seek_forward_ok:
  assumes "rope_cursor_ok c" "rc_offset c \<le> n" "n \<le> length (rope_text (rc_rope c))"
  shows "\<exists>c'. rope_cursor_seek_forward c n = Some c' \<and> rope_cursor_ok c' \<and> rc_rope c' = rc_rope c \<and> rc_offset c' = n"
proof -
  obtain ys zs where at: "rope_cursor_at c ys zs" using assms(1) by (auto simp: rope_cursor_ok_def)
  have ok: "rope_ok (rc_rope c)" "cursor_tree (rc_chunks c) = rc_rope c" "cursor_at chunk_item offset_dim (rc_chunks c) ys zs"
    and pos: "cursor_position (rc_chunks c) = length (chunk_texts ys)" "length (chunk_texts ys) \<le> n"
    using at assms(2) by (auto simp: rope_cursor_at_def cursor_at_def)
  obtain as bs where split: "seek_split chunk_item offset_dim (\<lambda>d. d \<le> n) (length (chunk_texts ys)) zs = (as, bs)" by fastforce
  obtain k b where k: "seek_forward offset_dim (ord_target n) Right (rc_chunks c) = Some (k, b)"
    "cursor_at chunk_item offset_dim k (ys @ as) bs" "did_seek k" "cursor_tree k = rc_rope c"
    using rope_offset.seek_forward_ok [OF ok(3), of "ord_target n" Right as bs] split offset_mono [of n Right] pos ok(2) by auto
  let ?c = "c\<lparr>rc_chunks := k, rc_offset := n\<rparr>"
  have "rope_cursor_ok ?c"
    by (rule rope_cursor_okI [of _ "ys @ as" bs]) (use k assms(3) ok offset_split_right [OF split pos(2)] in auto)
  with k assms(2,3) ok(1) show ?thesis by (simp add: rope_cursor_seek_forward_def rope_len_ok)
qed

section \<open>Slices\<close>

text \<open>Reading the part of a chunk between two boundaries of the whole text.\<close>

lemma chunk_slice_part:
  assumes "chunk_ok' c" "i \<le> j" "str_is_char_boundary (ck_text c) i" "str_is_char_boundary (ck_text c) j"
  shows "chunk_slice c i j = Some (chunk_of (take (j - i) (drop i (ck_text c))))"
    "chunk_ok (chunk_of (take (j - i) (drop i (ck_text c))))"
proof -
  obtain s where s: "c = chunk_of s" "length s \<le> MAX_BASE" "utf8 s" using assms(1) by (auto simp: chunk_ok'_iff)
  show "chunk_slice c i j = Some (chunk_of (take (j - i) (drop i (ck_text c))))"
    using slice_eq [of s i j] s assms by (simp add: chunk_slice_def as_slice_def)
  have "utf8 (take j s)" using utf8_split(1) [of s j] s assms by simp
  moreover have "str_is_char_boundary (take j s) i"
    using assms(2-4) s boundary_le [of s j] by (auto simp: str_is_char_boundary_def)
  ultimately have "utf8 (drop i (take j s))" by (rule utf8_split(2))
  then show "chunk_ok (chunk_of (take (j - i) (drop i (ck_text c))))"
    using s by (auto intro!: chunk_okI simp: drop_take)
qed

lemma boundary_in_chunk:
  assumes "\<forall>d \<in> set (ys @ z # zs). chunk_ok' d" "str_is_char_boundary (chunk_texts (ys @ z # zs)) n"
    and "length (chunk_texts ys) \<le> n" "n \<le> length (chunk_texts ys) + length (ck_text z)"
  shows "str_is_char_boundary (ck_text z) (n - length (chunk_texts ys))"
proof -
  have u: "utf8 (chunk_texts ys)" "utf8 (ck_text z)" "utf8 (chunk_texts zs)"
    using assms(1) by (auto simp: utf8_chunk_texts chunk_ok'_def chunk_ok_def)
  have "str_is_char_boundary (ck_text z @ chunk_texts zs) (n - length (chunk_texts ys))"
    using assms(2,3) boundary_append [OF u(1), of "ck_text z @ chunk_texts zs" n] u
    by (cases "n = length (chunk_texts ys)") auto
  then show ?thesis using boundary_append [OF u(2,3)] assms(4) by (simp split: if_splits)
qed

text \<open>The part of the current chunk between the cursor and \<open>n\<close>.\<close>

lemma start_part:
  assumes at: "rope_cursor_at c ys (z # zs)" and n: "rc_offset c \<le> n"
    and bound: "str_is_char_boundary (rope_text (rc_rope c)) (rc_offset c)" "str_is_char_boundary (rope_text (rc_rope c)) n"
  defines "s \<equiv> length (chunk_texts ys)"
  defines "e \<equiv> min n (s + length (ck_text z)) - s"
  defines "p \<equiv> take (e - (rc_offset c - s)) (drop (rc_offset c - s) (ck_text z))"
  shows "chunk_slice z (rc_offset c - s) e = Some (chunk_of p)" "chunk_ok (chunk_of p)"
    "take (n - rc_offset c) (drop (rc_offset c) (rope_text (rc_rope c))) = p @ take (n - (s + length (ck_text z))) (chunk_texts zs)"
proof -
  note facts = rope_cursor_at_facts [OF at]
  let ?o = "rc_offset c"
  have o: "s \<le> ?o" "?o \<le> s + length (ck_text z)" using at by (auto simp: rope_cursor_at_def s_def)
  have bound': "str_is_char_boundary (chunk_texts (ys @ z # zs)) ?o" "str_is_char_boundary (chunk_texts (ys @ z # zs)) n"
    using bound facts(4) by simp_all
  have bz: "str_is_char_boundary (ck_text z) (?o - s)"
    using boundary_in_chunk [OF facts(6) bound'(1)] o by (simp add: s_def)
  have be: "str_is_char_boundary (ck_text z) e"
    using boundary_in_chunk [OF facts(6) bound'(2)] n o(1) by (cases "n \<le> s + length (ck_text z)") (auto simp: min_def e_def s_def)
  have "?o - s \<le> e" using n o by (auto simp: e_def)
  from chunk_slice_part [OF _ this bz be] facts(6)
  show "chunk_slice z (?o - s) e = Some (chunk_of p)" "chunk_ok (chunk_of p)" by (simp_all add: p_def)
  show "take (n - ?o) (drop ?o (rope_text (rc_rope c))) = p @ take (n - (s + length (ck_text z))) (chunk_texts zs)"
    using o n by (simp add: facts(4) p_def e_def s_def min_def add.commute)
qed

text \<open>The chunks between the current one and \<open>n\<close>, and the part of the chunk that contains \<open>n\<close>.\<close>

lemma tail_part:
  assumes at: "rope_cursor_at c ys (z # zs)" and n: "n \<le> length (rope_text (rc_rope c))"
    and bound: "str_is_char_boundary (rope_text (rc_rope c)) n"
  defines "s \<equiv> length (chunk_texts ys) + length (ck_text z)"
  assumes far: "s < n"
  obtains k as bs where "cursor_next offset_dim (rc_chunks c) = Some k" "did_seek k" "cursor_tree k = rc_rope c"
    "cursor_at chunk_item offset_dim k (ys @ [z]) zs" "cursor_position k = s"
    "seek_split chunk_item offset_dim (\<lambda>d. d \<le> n) s zs = (as, bs)" "zs = as @ bs" "s + length (chunk_texts as) \<le> n"
    "\<And>k'. cursor_at chunk_item offset_dim k' (ys @ z # as) bs \<Longrightarrow> did_seek k' \<Longrightarrow> cursor_tree k' = rc_rope c \<Longrightarrow>
      rope_cursor_ok (c\<lparr>rc_chunks := k', rc_offset := n\<rparr>)"
    "bs = [] \<Longrightarrow> take (n - s) (chunk_texts zs) = chunk_texts as"
    "\<And>b bs'. bs = b # bs' \<Longrightarrow> let m = n - (s + length (chunk_texts as)) in
      chunk_slice b 0 m = Some (chunk_of (take m (ck_text b))) \<and> chunk_ok (chunk_of (take m (ck_text b))) \<and>
      take (n - s) (chunk_texts zs) = chunk_texts as @ take m (ck_text b)"
proof -
  note facts = rope_cursor_at_facts [OF at]
  have ok: "rope_ok (rc_rope c)" "cursor_tree (rc_chunks c) = rc_rope c" "cursor_at chunk_item offset_dim (rc_chunks c) ys (z # zs)"
    "did_seek (rc_chunks c)"
    using at by (auto simp: rope_cursor_at_def)
  obtain k where k: "cursor_next offset_dim (rc_chunks c) = Some k" "did_seek k" "cursor_tree k = rc_rope c"
    "cursor_at chunk_item offset_dim k (ys @ [z]) zs"
    using rope_offset.cursor_next_ok [OF ok(3,4)] ok(2) by auto
  obtain as bs where split: "seek_split chunk_item offset_dim (\<lambda>d. d \<le> n) s zs = (as, bs)" by fastforce
  note sp = offset_split_right [OF split less_imp_le [OF far]]
  show thesis
  proof (rule that [OF k _ split])
    show "cursor_position k = s" using k(4) by (simp add: cursor_at_def s_def)
    show "zs = as @ bs" "s + length (chunk_texts as) \<le> n" using sp by simp_all
    show "take (n - s) (chunk_texts zs) = chunk_texts as" if "bs = []" using that sp n facts(4) by (auto simp: s_def)
  next
    fix k'
    assume "cursor_at chunk_item offset_dim k' (ys @ z # as) bs" "did_seek k'" "cursor_tree k' = rc_rope c"
    then show "rope_cursor_ok (c\<lparr>rc_chunks := k', rc_offset := n\<rparr>)"
      using ok(1) sp n by (intro rope_cursor_okI [of _ "ys @ z # as" bs]) (auto simp: s_def)
  next
    fix b bs' assume bs: "bs = b # bs'"
    define m where "m = n - (s + length (chunk_texts as))"
    have cs: "\<forall>d \<in> set ((ys @ z # as) @ b # bs'). chunk_ok' d" using facts(6) sp bs by simp
    have "str_is_char_boundary (ck_text b) (n - length (chunk_texts (ys @ z # as)))"
      by (rule boundary_in_chunk [OF cs]) (use bound facts(4) sp bs in \<open>auto simp: s_def\<close>)
    then have "str_is_char_boundary (ck_text b) m" by (simp add: m_def s_def add.assoc)
    from chunk_slice_part [OF _ le0 boundary_ends(1) this] cs
    have "chunk_slice b 0 m = Some (chunk_of (take m (ck_text b)))" "chunk_ok (chunk_of (take m (ck_text b)))" by simp_all
    moreover have "take (n - s) (chunk_texts zs) = chunk_texts as @ take m (ck_text b)"
      using sp bs by (auto simp: take_append m_def)
    ultimately show "let m = n - (s + length (chunk_texts as)) in
        chunk_slice b 0 m = Some (chunk_of (take m (ck_text b))) \<and> chunk_ok (chunk_of (take m (ck_text b))) \<and>
        take (n - s) (chunk_texts zs) = chunk_texts as @ take m (ck_text b)"
      by (simp add: m_def)
  qed
qed

lemma slice_tail_ok:
  assumes at: "rope_cursor_at c ys (z # zs)" and n: "n \<le> length (rope_text (rc_rope c))"
    and bound: "str_is_char_boundary (rope_text (rc_rope c)) n" and "sliceable (rc_rope c)" "rope_ok r"
  defines "s \<equiv> length (chunk_texts ys) + length (ck_text z)"
  assumes far: "s < n"
  obtains k k' t r1 r2 where "cursor_next offset_dim (rc_chunks c) = Some k"
    "slice chunk_item offset_dim (ord_target n) Right k = Some (k', t)" "rope_append r t = Some r1"
    "do { item \<leftarrow> cursor_item k'; case item of Some b \<Rightarrow> do { sl \<leftarrow> chunk_slice b 0 (n - cursor_start k'); push_chunk r1 sl } | None \<Rightarrow> Some r1 } = Some r2"
    "rope_ok r2" "rope_text r2 = rope_text r @ take (n - s) (chunk_texts zs)" "rope_cursor_ok (c\<lparr>rc_chunks := k', rc_offset := n\<rparr>)"
proof -
  obtain k as bs where k: "cursor_next offset_dim (rc_chunks c) = Some k" "did_seek k" "cursor_tree k = rc_rope c"
    "cursor_at chunk_item offset_dim k (ys @ [z]) zs" "cursor_position k = s"
    and split: "seek_split chunk_item offset_dim (\<lambda>d. d \<le> n) s zs = (as, bs)" "zs = as @ bs" "s + length (chunk_texts as) \<le> n"
    and ok: "\<And>k'. cursor_at chunk_item offset_dim k' (ys @ z # as) bs \<Longrightarrow> did_seek k' \<Longrightarrow> cursor_tree k' = rc_rope c \<Longrightarrow>
      rope_cursor_ok (c\<lparr>rc_chunks := k', rc_offset := n\<rparr>)"
    and none: "bs = [] \<Longrightarrow> take (n - s) (chunk_texts zs) = chunk_texts as"
    and part: "\<And>b bs'. bs = b # bs' \<Longrightarrow> let m = n - (s + length (chunk_texts as)) in
      chunk_slice b 0 m = Some (chunk_of (take m (ck_text b))) \<and> chunk_ok (chunk_of (take m (ck_text b))) \<and>
      take (n - s) (chunk_texts zs) = chunk_texts as @ take m (ck_text b)"
    using tail_part [OF at n bound far [unfolded s_def]] unfolding s_def by blast
  obtain k' t where k': "slice chunk_item offset_dim (ord_target n) Right k = Some (k', t)" "wf_tree chunk_item t"
    "tree_items t = as" "cursor_at chunk_item offset_dim k' (ys @ z # as) bs" "did_seek k'" "cursor_tree k' = rc_rope c"
    using rope_offset.slice_ok [OF k(4), of "ord_target n" Right as bs] split offset_mono [of n Right] k(3,5) far by auto
  have "rope_ok t"
    using k'(2,3) rope_cursor_at_facts(6,7) [OF at] split(2) chunks_full_sub [of "ys @ [z]" as bs] by (auto simp: rope_ok_def)
  moreover have "node_height t < STACK_CAP"
    using assms(4) at k(1,5) k'(1) less_imp_le [OF far] unfolding sliceable_def rope_cursor_ok_def by blast
  ultimately obtain r1 where r1: "rope_append r t = Some r1" "rope_ok r1" "rope_text r1 = rope_text r @ chunk_texts as"
    using rope_append_ok [OF assms(5)] k'(3) by (auto simp: rope_text_def)
  have item: "cursor_item k' = Some (list_first bs)" "cursor_start k' = s + length (chunk_texts as)"
    using cursor_at_item(1) [OF k'(4,5)] k'(4) by (simp_all add: cursor_at_def cursor_start_def s_def)
  obtain r2 where "do { item \<leftarrow> cursor_item k'; case item of Some b \<Rightarrow> do { sl \<leftarrow> chunk_slice b 0 (n - cursor_start k'); push_chunk r1 sl } | None \<Rightarrow> Some r1 } = Some r2"
    "rope_ok r2" "rope_text r2 = rope_text r @ take (n - s) (chunk_texts zs)"
  proof (cases bs)
    case Nil
    then show ?thesis using that r1 none item by simp
  next
    case (Cons b bs')
    with part [OF Cons] push_chunk_ok [OF r1(2)] r1(3) item that show ?thesis by (fastforce simp: Let_def)
  qed
  with that k(1) k'(1) r1(1) ok [OF k'(4-6)] show thesis by blast
qed

theorem rope_cursor_slice_ok:
  assumes "rope_cursor_ok c" "rc_offset c \<le> n" "n \<le> length (rope_text (rc_rope c))" "sliceable (rc_rope c)"
    and "str_is_char_boundary (rope_text (rc_rope c)) (rc_offset c)" "str_is_char_boundary (rope_text (rc_rope c)) n"
  shows "\<exists>c' r. rope_cursor_slice c n = Some (c', r) \<and> rope_cursor_ok c' \<and> rc_rope c' = rc_rope c \<and> rc_offset c' = n \<and>
    rope_ok r \<and> rope_text r = take (n - rc_offset c) (drop (rc_offset c) (rope_text (rc_rope c))) \<and> node_height r < STACK_CAP"
proof -
  have shallow: "node_height u < STACK_CAP" if "rope_cursor_slice c n = Some (c', u)" for c' u
    using assms(1,4) that unfolding sliceable_def by blast
  obtain ys zs where at: "rope_cursor_at c ys zs" using assms(1) by (auto simp: rope_cursor_ok_def)
  note facts = rope_cursor_at_facts [OF at]
  let ?o = "rc_offset c" and ?s = "length (chunk_texts ys)"
  have ok: "rope_ok (rc_rope c)" and o: "?s \<le> ?o" "?o \<le> length (chunk_texts (ys @ take 1 zs))"
    using at by (auto simp: rope_cursor_at_def)
  have n: "n \<le> rope_len (rc_rope c)" using assms(3) ok by (simp add: rope_len_ok)
  show ?thesis
  proof (cases zs)
    case Nil
    with o facts(4) assms(2,3) have eq: "n = ?o" "?o = ?s" by auto
    have "rope_cursor_slice c n = Some (c\<lparr>rc_chunks := rc_chunks c, rc_offset := n\<rparr>, rope_new)"
      using Nil facts(1-4) n eq by (simp add: rope_cursor_slice_def Let_def)
    moreover have "rope_cursor_ok (c\<lparr>rc_offset := n\<rparr>)" using assms(1) unfolding eq(1) by simp
    ultimately show ?thesis using Nil facts(4) rope_new_ok eq shallow by simp
  next
    case (Cons z zs')
    note start = start_part [OF at [unfolded Cons] assms(2,5,6)]
    let ?p = "take (min n (?s + length (ck_text z)) - ?s - (?o - ?s)) (drop (?o - ?s) (ck_text z))"
    obtain r1 where r1: "push_chunk rope_new (chunk_of ?p) = Some r1" "rope_ok r1" "rope_text r1 = ?p"
      using push_chunk_ok [OF rope_new_ok(1) start(2)] rope_new_ok(2) by auto
    show ?thesis
    proof (cases "?s + length (ck_text z) < n")
      case False
      then have "rope_cursor_slice c n = Some (c\<lparr>rc_chunks := rc_chunks c, rc_offset := n\<rparr>, r1)"
        using facts(1-3) Cons assms(2) n o(1) start(1) r1(1) by (simp add: rope_cursor_slice_def Let_def)
      moreover have "rope_cursor_at (c\<lparr>rc_chunks := rc_chunks c, rc_offset := n\<rparr>) ys zs"
        using at False Cons assms(2) by (auto simp: rope_cursor_at_def)
      ultimately show ?thesis using r1 start(3) False shallow by (auto simp: rope_cursor_ok_def)
    next
      case True
      obtain k k' t r2 r3 where "cursor_next offset_dim (rc_chunks c) = Some k"
        "slice chunk_item offset_dim (ord_target n) Right k = Some (k', t)" "rope_append r1 t = Some r2"
        "do { item \<leftarrow> cursor_item k'; case item of Some b \<Rightarrow> do { sl \<leftarrow> chunk_slice b 0 (n - cursor_start k'); push_chunk r2 sl } | None \<Rightarrow> Some r2 } = Some r3"
        "rope_ok r3" "rope_text r3 = rope_text r1 @ take (n - (?s + length (ck_text z))) (chunk_texts zs')"
        "rope_cursor_ok (c\<lparr>rc_chunks := k', rc_offset := n\<rparr>)"
        using slice_tail_ok [OF at [unfolded Cons] assms(3,6,4) r1(2) True] .
      moreover from this have "rope_cursor_slice c n = Some (c\<lparr>rc_chunks := k', rc_offset := n\<rparr>, r3)"
        using facts(1-3) Cons assms(2) n o(1) start(1) r1(1) True by (auto simp: rope_cursor_slice_def Let_def)
      ultimately show ?thesis using start(3) r1(3) shallow by auto
    qed
  qed
qed

lemma rope_cursor_bounds: "rope_cursor_ok c \<Longrightarrow> rope_ok (rc_rope c) \<and> rc_offset c \<le> length (rope_text (rc_rope c))"
proof -
  assume "rope_cursor_ok c"
  then obtain ys zs where at: "rope_cursor_at c ys zs" by (auto simp: rope_cursor_ok_def)
  have "length (chunk_texts (take 1 zs)) \<le> length (chunk_texts zs)" by (cases zs) auto
  with at rope_cursor_at_facts(4) [OF at] show ?thesis by (auto simp: rope_cursor_at_def)
qed

lemma rope_cursor_suffix_ok:
  assumes "rope_cursor_ok c" "sliceable (rc_rope c)" "str_is_char_boundary (rope_text (rc_rope c)) (rc_offset c)"
  shows "\<exists>r. rope_cursor_suffix c = Some r \<and> rope_ok r \<and> rope_text r = drop (rc_offset c) (rope_text (rc_rope c)) \<and>
    node_height r < STACK_CAP"
  using rope_cursor_bounds [OF assms(1)] rope_cursor_slice_ok [OF assms(1) _ _ assms(2,3), of "length (rope_text (rc_rope c))"]
    rope_len_ok [of "rc_rope c"]
  by (auto simp: rope_cursor_suffix_def rope_len_def)

lemma rope_cursor_start:
  assumes "rope_ok r" "sliceable r"
  obtains c where "rope_cursor_new r 0 = Some c" "rope_cursor_ok c" "rc_rope c = r" "rc_offset c = 0"
  using rope_cursor_new_ok [of r 0] assms by (auto simp: sliceable_def)

theorem rope_slice_ok:
  assumes "rope_ok r" "sliceable r" "i \<le> j" "str_is_char_boundary (rope_text r) i" "str_is_char_boundary (rope_text r) j"
  shows "\<exists>r'. rope_slice r i j = Some r' \<and> rope_ok r' \<and> rope_text r' = take (j - i) (drop i (rope_text r)) \<and> node_height r' < STACK_CAP"
proof -
  have le: "i \<le> length (rope_text r)" "j \<le> length (rope_text r)" using assms(4,5) boundary_le by auto
  obtain c where c: "rope_cursor_new r 0 = Some c" "rope_cursor_ok c" "rc_rope c = r" "rc_offset c = 0"
    using rope_cursor_start [OF assms(1,2)] .
  obtain c' where c': "rope_cursor_seek_forward c i = Some c'" "rope_cursor_ok c'" "rc_rope c' = r" "rc_offset c' = i"
    using rope_cursor_seek_forward_ok [OF c(2), of i] c(3,4) le by auto
  with rope_cursor_slice_ok [OF c'(2), of j] assms le(2) c(1) show ?thesis by (auto simp: rope_slice_def)
qed

theorem rope_replace_ok:
  assumes "rope_ok r" "sliceable r" "i \<le> j" "str_is_char_boundary (rope_text r) i" "str_is_char_boundary (rope_text r) j" "utf8 s"
  shows "\<exists>r'. rope_replace r i j s = Some r' \<and> rope_ok r' \<and> rope_text r' = take i (rope_text r) @ s @ drop j (rope_text r)"
proof -
  have le: "i \<le> length (rope_text r)" "j \<le> length (rope_text r)" using assms(4,5) boundary_le by auto
  obtain c where c: "rope_cursor_new r 0 = Some c" "rope_cursor_ok c" "rc_rope c = r" "rc_offset c = 0"
    using rope_cursor_start [OF assms(1,2)] .
  obtain c1 u where u: "rope_cursor_slice c i = Some (c1, u)" "rope_cursor_ok c1" "rc_rope c1 = r" "rc_offset c1 = i"
    "rope_ok u" "rope_text u = take i (rope_text r)" "node_height u < STACK_CAP"
    using rope_cursor_slice_ok [OF c(2), of i] c assms(2,4) le by auto
  obtain n1 where n1: "rope_append rope_new u = Some n1" "rope_ok n1" "rope_text n1 = take i (rope_text r)"
    using rope_append_ok [OF rope_new_ok(1) u(5,7)] rope_new_ok(2) u(6) by auto
  obtain c2 where c2: "rope_cursor_seek_forward c1 j = Some c2" "rope_cursor_ok c2" "rc_rope c2 = r" "rc_offset c2 = j"
    using rope_cursor_seek_forward_ok [OF u(2), of j] u(3,4) le assms(3) by auto
  obtain n2 where n2: "rope_push n1 s = Some n2" "rope_ok n2" "rope_text n2 = take i (rope_text r) @ s"
    using rope_push_ok [OF n1(2) assms(6)] n1(3) by auto
  obtain v where v: "rope_cursor_suffix c2 = Some v" "rope_ok v" "rope_text v = drop j (rope_text r)" "node_height v < STACK_CAP"
    using rope_cursor_suffix_ok [OF c2(2)] c2 assms(2,5) by auto
  show ?thesis
    using rope_append_ok [OF n2(2) v(2,4)] c(1) u(1) n1(1) c2(1) n2(1,3) v(1,3) by (auto simp: rope_replace_def)
qed

section \<open>Summaries of a range\<close>

text \<open>What a text dimension promises: it is a homomorphic image of the text summary.\<close>

locale text_dim =
  fixes T :: "'d text_dimension"
  assumes td_zero: "dim_zero (td_dim T) = td_from_text_summary T text_summary_zero"
    and td_summary: "dim_add (td_dim T) d s = td_add T d (td_from_text_summary T s)"
    and td_chunk: "utf8 t \<Longrightarrow> length t \<le> MAX_BASE \<Longrightarrow> td_from_chunk T (chunk_of t) = td_from_text_summary T (from_str t)"
    and td_sum: "valid a \<Longrightarrow> valid b \<Longrightarrow>
      td_from_text_summary T (text_summary_add a b) = td_add T (td_from_text_summary T a) (td_from_text_summary T b)"
    and td_seekable: "seekable chunk_item (td_dim T)"
begin

abbreviation measure :: "str \<Rightarrow> 'd" where
  "measure s \<equiv> td_from_text_summary T (from_str s)"

lemma measure_append: "utf8 t \<Longrightarrow> measure (s @ t) = td_add T (measure s) (measure t)"
  using utf8_boundary_start by (simp add: from_str_append td_sum)

lemma measure_chunks:
  "\<forall>c \<in> set cs. chunk_ok' c \<Longrightarrow> pos_after chunk_item (td_dim T) (dim_zero (td_dim T)) cs = measure (chunk_texts cs)"
proof (induction cs rule: rev_induct)
  case (snoc c cs)
  then have "utf8 (ck_text c)" by (auto simp: chunk_ok'_def chunk_ok_def)
  with snoc show ?case by (simp add: td_summary chunk_summary measure_append)
qed (simp add: td_zero)

lemmas middle_ok = seekable_sum.cursor_summary_ok [OF seekable_sum.intro [OF rope_offset.seekable_axioms td_seekable]]

lemma summary_tail_ok:
  assumes at: "rope_cursor_at c ys (z # zs)" and n: "n \<le> length (rope_text (rc_rope c))"
    and bound: "str_is_char_boundary (rope_text (rc_rope c)) n" and far: "length (chunk_texts ys) + length (ck_text z) < n"
  obtains k k' m where "cursor_next offset_dim (rc_chunks c) = Some k"
    "cursor_summary offset_dim (td_dim T) (ord_target n) Right k = Some (k', m)"
    "do { item \<leftarrow> cursor_item k'; case item of
        Some b \<Rightarrow> do { sl \<leftarrow> chunk_slice b 0 (n - cursor_start k'); Some (td_add T (td_add T (measure p) m) (td_from_chunk T sl)) }
      | None \<Rightarrow> Some (td_add T (measure p) m) } =
      Some (measure (p @ take (n - (length (chunk_texts ys) + length (ck_text z))) (chunk_texts zs)))"
    "rope_cursor_ok (c\<lparr>rc_chunks := k', rc_offset := n\<rparr>)"
proof -
  define s where "s = length (chunk_texts ys) + length (ck_text z)"
  obtain k as bs where k: "cursor_next offset_dim (rc_chunks c) = Some k" "did_seek k" "cursor_tree k = rc_rope c"
    "cursor_at chunk_item offset_dim k (ys @ [z]) zs" "cursor_position k = s"
    and split: "seek_split chunk_item offset_dim (\<lambda>d. d \<le> n) s zs = (as, bs)" "zs = as @ bs" "s + length (chunk_texts as) \<le> n"
    and ok: "\<And>k'. cursor_at chunk_item offset_dim k' (ys @ z # as) bs \<Longrightarrow> did_seek k' \<Longrightarrow> cursor_tree k' = rc_rope c \<Longrightarrow>
      rope_cursor_ok (c\<lparr>rc_chunks := k', rc_offset := n\<rparr>)"
    and none: "bs = [] \<Longrightarrow> take (n - s) (chunk_texts zs) = chunk_texts as"
    and part: "\<And>b bs'. bs = b # bs' \<Longrightarrow> let m = n - (s + length (chunk_texts as)) in
      chunk_slice b 0 m = Some (chunk_of (take m (ck_text b))) \<and> chunk_ok (chunk_of (take m (ck_text b))) \<and>
      take (n - s) (chunk_texts zs) = chunk_texts as @ take m (ck_text b)"
    using tail_part [OF at n bound far] unfolding s_def by blast
  have cs: "\<forall>d \<in> set as. chunk_ok' d" using rope_cursor_at_facts(6) [OF at] split(2) by simp
  obtain k' where k': "cursor_summary offset_dim (td_dim T) (ord_target n) Right k = Some (k', measure (chunk_texts as))"
    "cursor_at chunk_item offset_dim k' (ys @ z # as) bs" "did_seek k'" "cursor_tree k' = rc_rope c"
    using middle_ok [OF k(4), of "ord_target n" Right as bs] split offset_mono [of n Right] k(3,5) far measure_chunks [OF cs]
    by (auto simp: s_def)
  have item: "cursor_item k' = Some (list_first bs)" "cursor_start k' = s + length (chunk_texts as)"
    using cursor_at_item(1) [OF k'(2,3)] k'(2) by (simp_all add: cursor_at_def cursor_start_def s_def)
  have as: "measure (p @ chunk_texts as) = td_add T (measure p) (measure (chunk_texts as))"
    using utf8_chunk_texts [OF cs] by (rule measure_append)
  have "do { item \<leftarrow> cursor_item k'; case item of
      Some b \<Rightarrow> do { sl \<leftarrow> chunk_slice b 0 (n - cursor_start k');
        Some (td_add T (td_add T (measure p) (measure (chunk_texts as))) (td_from_chunk T sl)) }
    | None \<Rightarrow> Some (td_add T (measure p) (measure (chunk_texts as))) } = Some (measure (p @ take (n - s) (chunk_texts zs)))"
  proof (cases bs)
    case Nil
    then show ?thesis using none item as by simp
  next
    case (Cons b bs')
    define q where "q = take (n - (s + length (chunk_texts as))) (ck_text b)"
    have q: "chunk_slice b 0 (n - (s + length (chunk_texts as))) = Some (chunk_of q)" "chunk_ok (chunk_of q)"
      "take (n - s) (chunk_texts zs) = chunk_texts as @ q"
      using part [OF Cons] by (simp_all add: Let_def q_def)
    have "utf8 q" "td_from_chunk T (chunk_of q) = measure q" using q(2) by (simp_all add: chunk_ok_def td_chunk)
    then show ?thesis using Cons item q(1,3) as measure_append [of q "p @ chunk_texts as"] by simp
  qed
  with that k(1) k'(1) ok [OF k'(2-4)] show thesis unfolding s_def by blast
qed

lemma rope_cursor_summary_ok:
  assumes "rope_cursor_ok c" "rc_offset c \<le> n" "n \<le> length (rope_text (rc_rope c))"
    and "str_is_char_boundary (rope_text (rc_rope c)) (rc_offset c)" "str_is_char_boundary (rope_text (rc_rope c)) n"
  shows "\<exists>c'. rope_cursor_summary T c n = Some (c', measure (take (n - rc_offset c) (drop (rc_offset c) (rope_text (rc_rope c))))) \<and>
    rope_cursor_ok c' \<and> rc_rope c' = rc_rope c \<and> rc_offset c' = n"
proof -
  obtain ys zs where at: "rope_cursor_at c ys zs" using assms(1) by (auto simp: rope_cursor_ok_def)
  note facts = rope_cursor_at_facts [OF at]
  let ?o = "rc_offset c" and ?s = "length (chunk_texts ys)"
  have ok: "rope_ok (rc_rope c)" and o: "?s \<le> ?o" "?o \<le> length (chunk_texts (ys @ take 1 zs))"
    using at by (auto simp: rope_cursor_at_def)
  have n: "n \<le> rope_len (rc_rope c)" using assms(3) ok by (simp add: rope_len_ok)
  show ?thesis
  proof (cases zs)
    case Nil
    with o facts(4) assms(2,3) have eq: "n = ?o" "?o = ?s" by auto
    have "rope_cursor_summary T c n = Some (c\<lparr>rc_chunks := rc_chunks c, rc_offset := n\<rparr>, measure [])"
      using Nil facts(1-4) n eq td_zero by (simp add: rope_cursor_summary_def Let_def)
    moreover have "rope_cursor_ok (c\<lparr>rc_offset := n\<rparr>)" using assms(1) unfolding eq(1) by simp
    ultimately show ?thesis using Nil facts(4) eq by simp
  next
    case (Cons z zs')
    obtain p where start: "chunk_slice z (?o - ?s) (min n (?s + length (ck_text z)) - ?s) = Some (chunk_of p)" "chunk_ok (chunk_of p)"
      "take (n - ?o) (drop ?o (rope_text (rc_rope c))) = p @ take (n - (?s + length (ck_text z))) (chunk_texts zs')"
      using start_part [OF at [unfolded Cons] assms(2,4,5)] by blast
    have p: "td_add T (dim_zero (td_dim T)) (td_from_chunk T (chunk_of p)) = measure p"
      using start(2) measure_append [of p "[]"] td_zero by (simp add: chunk_ok_def td_chunk)
    show ?thesis
    proof (cases "?s + length (ck_text z) < n")
      case False
      then have "rope_cursor_summary T c n = Some (c\<lparr>rc_chunks := rc_chunks c, rc_offset := n\<rparr>, measure p)"
        using facts(1-3) Cons assms(2) n o(1) start(1) p by (simp add: rope_cursor_summary_def Let_def)
      moreover have "rope_cursor_at (c\<lparr>rc_chunks := rc_chunks c, rc_offset := n\<rparr>) ys zs"
        using at False Cons assms(2) by (auto simp: rope_cursor_at_def)
      ultimately show ?thesis using start(3) False by (auto simp: rope_cursor_ok_def)
    next
      case True
      obtain k k' m where "cursor_next offset_dim (rc_chunks c) = Some k"
        "cursor_summary offset_dim (td_dim T) (ord_target n) Right k = Some (k', m)"
        "do { item \<leftarrow> cursor_item k'; case item of
            Some b \<Rightarrow> do { sl \<leftarrow> chunk_slice b 0 (n - cursor_start k'); Some (td_add T (td_add T (measure p) m) (td_from_chunk T sl)) }
          | None \<Rightarrow> Some (td_add T (measure p) m) } =
          Some (measure (p @ take (n - (?s + length (ck_text z))) (chunk_texts zs')))"
        "rope_cursor_ok (c\<lparr>rc_chunks := k', rc_offset := n\<rparr>)"
        using summary_tail_ok [OF at [unfolded Cons] assms(3,5) True, of p] by blast
      moreover from this have "rope_cursor_summary T c n =
          Some (c\<lparr>rc_chunks := k', rc_offset := n\<rparr>, measure (p @ take (n - (?s + length (ck_text z))) (chunk_texts zs')))"
        using facts(1-3) Cons assms(2) n o(1) start(1) p True by (auto simp: rope_cursor_summary_def Let_def)
      ultimately show ?thesis using start(3) by auto
    qed
  qed
qed

end

interpretation offset_td: text_dim offset_td
  by (rule text_dim.intro) (simp_all add: offset_td_def offset_dim_def slice_len_def rope_offset.seekable_axioms [unfolded offset_dim_def])

interpretation offset_utf16_td: text_dim offset_utf16_td
  by (rule text_dim.intro)
    (simp_all add: offset_utf16_td_def offset_utf16_dim_def slice_summary_fields from_str_closed
      rope_offset_utf16.seekable_axioms [unfolded offset_utf16_dim_def])

interpretation point_td: text_dim point_td
  by (rule text_dim.intro)
    (simp_all add: point_td_def point_dim_def slice_summary_fields from_str_closed point_zero_def
      rope_point.seekable_axioms [unfolded point_dim_def])

interpretation point_utf16_td: text_dim point_utf16_td
  by (rule text_dim.intro)
    (simp_all add: point_utf16_td_def point_utf16_dim_def slice_summary_fields from_str_closed point_zero_def lines_utf16_add
      lines_utf16_def [of "from_str _"] rope_point_utf16.seekable_axioms [unfolded point_utf16_dim_def])

interpretation text_summary_td: text_dim text_summary_td
  by (rule text_dim.intro)
    (simp_all add: text_summary_td_def text_summary_dim_def slice_text_summary_eq
      rope_text_summary.seekable_axioms [unfolded text_summary_dim_def])

end
