(* ===== verification/Rope_Find.thy ===== *)
theory Rope_Find
  imports Rope_Cursor
begin

text \<open>
  The rope operations that look up one chunk with \<open>find\<close>: character boundaries, clipping, and the
  conversions from offsets to points and UTF-16 positions.  Each agrees with the same question asked of
  the whole text.
\<close>

section \<open>Finding the chunk at an offset\<close>

lemma offset_split_left:
  "seek_split chunk_item offset_dim (\<lambda>d. d < n) d cs = (as, bs) \<Longrightarrow>
    cs = as @ bs \<and> (as \<noteq> [] \<longrightarrow> d + length (chunk_texts as) < n) \<and> (bs \<noteq> [] \<longrightarrow> n \<le> d + length (chunk_texts as) + length (ck_text (hd bs)))"
proof (induction cs arbitrary: d as bs)
  case (Cons c cs)
  show ?case
  proof (cases "d + length (ck_text c) < n")
    case True
    then obtain as' where "seek_split chunk_item offset_dim (\<lambda>d. d < n) (d + length (ck_text c)) cs = (as', bs)" "as = c # as'"
      using Cons.prems by (auto simp: Let_def split: prod.splits)
    with Cons.IH [OF this(1)] True show ?thesis by (auto simp: add.assoc)
  next
    case False
    then show ?thesis using Cons.prems by (auto simp: Let_def)
  qed
qed simp

lemma pair_dim [simp]:
  "dim_zero (dimensions2 D E) = (dim_zero D, dim_zero E)" "dim_add (dimensions2 D E) (d, e) s = (dim_add D d s, dim_add E e s)"
  by (simp_all add: dimensions2_def)

lemma pos_after_pair [simp]: "pos_after I (dimensions2 D E) (d, e) xs = (pos_after I D d xs, pos_after I E e xs)"
  by (induction xs arbitrary: d e) simp_all

lemma target_past_fst [simp]: "target_past (fst_target t) b = (\<lambda>p. target_past t b (fst p))"
  by (simp add: fun_eq_iff target_past_def fst_target_def)

lemma seek_split_pair: "seek_split I (dimensions2 D E) (\<lambda>p. P (fst p)) (d, e) xs = seek_split I D P d xs"
  by (induction xs arbitrary: d e) (simp_all add: Let_def)

text \<open>The result of \<open>find\<close> with bias left at an offset of a non-empty rope: the first chunk that ends at or after it.\<close>

lemma find_chunk:
  assumes "rope_ok r" "n \<le> length (rope_text r)" "tree_items r \<noteq> []" "seekable chunk_item E"
  obtains as c bs where "tree_items r = as @ c # bs" "length (chunk_texts as) \<le> n" "n \<le> length (chunk_texts as) + length (ck_text c)"
    "find offset_dim (ord_target n) Left r = (length (chunk_texts as), length (chunk_texts (as @ [c])), Some c)"
    "\<exists>e. find (dimensions2 offset_dim E) (fst_target (ord_target n)) Left r =
      ((length (chunk_texts as), pos_after chunk_item E (dim_zero E) as), e, Some c)"
proof -
  have wf: "wf_tree chunk_item r" using assms(1) by (simp add: rope_ok_def)
  obtain as bs where split: "seek_split chunk_item offset_dim (\<lambda>d. d < n) 0 (tree_items r) = (as, bs)" by fastforce
  note sp = offset_split_left [OF split]
  have "bs \<noteq> []" using sp assms(2,3) by (cases bs) (auto simp: rope_text_def)
  then obtain c bs' where bs: "bs = c # bs'" by (cases bs) auto
  have mono: "seek_mono chunk_item offset_dim (\<lambda>d. d < n) 0 (tree_items r)" using offset_mono [of n Left 0] by simp
  have mono2: "seek_mono chunk_item (dimensions2 offset_dim E) (\<lambda>p. fst p < n) (0, dim_zero E) (tree_items r)"
    by (auto simp: seek_mono_def)
  have "find offset_dim (ord_target n) Left r = (length (chunk_texts as), length (chunk_texts (as @ [c])), Some c)"
    using rope_offset.find_ok [OF wf, of "ord_target n" Left] mono split bs by (simp add: scan_result_def)
  moreover have "\<exists>e. find (dimensions2 offset_dim E) (fst_target (ord_target n)) Left r =
      ((length (chunk_texts as), pos_after chunk_item E (dim_zero E) as), e, Some c)"
    using seekable.find_ok [OF seekable_pair [OF rope_offset.seekable_axioms assms(4)] wf, of "fst_target (ord_target n)" Left]
      mono2 split bs seek_split_pair [of chunk_item offset_dim E "\<lambda>d. d < n" 0 "dim_zero E" "tree_items r"]
    by (simp add: scan_result_def)
  ultimately show thesis
    using that [of as c bs'] sp bs by (cases "as = []") auto
qed

lemma find_beyond:
  assumes "rope_ok r" "length (rope_text r) < n"
  shows "find offset_dim (ord_target n) Left r = (length (rope_text r), length (rope_text r), None)"
proof -
  have wf: "wf_tree chunk_item r" using assms(1) by (simp add: rope_ok_def)
  obtain as bs where split: "seek_split chunk_item offset_dim (\<lambda>d. d < n) 0 (tree_items r) = (as, bs)" by fastforce
  have "bs = []" "as = tree_items r"
    using offset_split_left [OF split] assms(2) by (cases bs; auto simp: rope_text_def)+
  with split rope_offset.find_ok [OF wf, of "ord_target n" Left] offset_mono [of n Left 0 "tree_items r"]
  show ?thesis by (simp add: scan_result_def rope_text_def)
qed

lemma text_around_chunk:
  assumes "rope_ok r" "tree_items r = as @ c # bs"
  shows "rope_text r = chunk_texts as @ ck_text c @ chunk_texts bs" "utf8 (chunk_texts as)" "utf8 (ck_text c)" "utf8 (chunk_texts bs)"
    "c = chunk_of (ck_text c)" "length (ck_text c) \<le> MAX_BASE" "\<forall>d \<in> set as. chunk_ok' d"
  using assms by (auto simp: rope_text_def rope_ok_def chunk_ok'_def chunk_ok_def intro!: utf8_chunk_texts)

lemma boundary_at_chunk:
  assumes "rope_ok r" "tree_items r = as @ c # bs" "length (chunk_texts as) \<le> n" "n \<le> length (chunk_texts as) + length (ck_text c)"
  shows "str_is_char_boundary (rope_text r) n \<longleftrightarrow> str_is_char_boundary (ck_text c) (n - length (chunk_texts as))"
proof -
  note t = text_around_chunk [OF assms(1,2)]
  have "str_is_char_boundary (ck_text c @ chunk_texts bs) (n - length (chunk_texts as)) \<longleftrightarrow> str_is_char_boundary (ck_text c) (n - length (chunk_texts as))"
    using boundary_append [OF t(3,4)] assms(4) by simp
  then show ?thesis using boundary_append [OF t(2), of "ck_text c @ chunk_texts bs" n] t assms(3) by (cases "n = length (chunk_texts as)") auto
qed

section \<open>Boundaries\<close>

theorem rope_is_char_boundary_ok:
  assumes "rope_ok r"
  shows "rope_is_char_boundary r n \<longleftrightarrow> str_is_char_boundary (rope_text r) n"
proof (cases "tree_items r = []")
  case True
  with assms have "tree_is_empty r" "rope_text r = []" by (auto simp: rope_ok_def rope_text_def simp flip: tree_items_eq_Nil)
  then show ?thesis by (auto simp: rope_is_char_boundary_def str_is_char_boundary_def)
next
  case False
  then have ne: "\<not> tree_is_empty r" using assms by (auto simp: rope_ok_def simp flip: tree_items_eq_Nil)
  show ?thesis
  proof (cases "n \<le> length (rope_text r)")
    case True
    obtain as c bs where c: "tree_items r = as @ c # bs" "length (chunk_texts as) \<le> n" "n \<le> length (chunk_texts as) + length (ck_text c)"
      "find offset_dim (ord_target n) Left r = (length (chunk_texts as), length (chunk_texts (as @ [c])), Some c)"
      using find_chunk [OF assms True False rope_unit.seekable_axioms] .
    note t = text_around_chunk [OF assms c(1)]
    have "is_char_boundary c i \<longleftrightarrow> str_is_char_boundary (ck_text c) i" for i
      using is_char_boundary_eq [OF t(3,6)] t(5) by metis
    then show ?thesis using ne c(4) boundary_at_chunk [OF assms c(1-3)] by (simp add: rope_is_char_boundary_def)
  next
    case False
    then show ?thesis using ne find_beyond [OF assms, of n] boundary_le by (auto simp: rope_is_char_boundary_def)
  qed
qed

text \<open>Shifting the nearest boundaries of a chunk to the whole text.\<close>

lemma str_floor_eq:
  assumes "str_is_char_boundary s b" "b \<le> i" "\<And>j. j \<le> i \<Longrightarrow> str_is_char_boundary s j \<Longrightarrow> j \<le> b" "i \<le> length s"
  shows "str_floor_char_boundary s i = b"
proof (rule antisym)
  show "str_floor_char_boundary s i \<le> b" by (rule assms(3) [OF floor_ok(3) [OF assms(4)] floor_ok(1)])
  show "b \<le> str_floor_char_boundary s i" by (rule floor_ok(4) [OF assms(2,1)])
qed

lemma str_ceil_eq:
  assumes "str_is_char_boundary s b" "i \<le> b" "\<And>j. i \<le> j \<Longrightarrow> str_is_char_boundary s j \<Longrightarrow> b \<le> j" "i \<le> length s"
  shows "str_ceil_char_boundary s i = b"
proof (rule antisym)
  show "str_ceil_char_boundary s i \<le> b" by (rule ceil_ok(4) [OF assms(2,1)])
  show "b \<le> str_ceil_char_boundary s i" by (rule assms(3) [OF ceil_ok(3) [OF assms(4)] ceil_ok(1)])
qed

theorem rope_floor_char_boundary_ok:
  assumes "rope_ok r"
  shows "rope_floor_char_boundary r n = str_floor_char_boundary (rope_text r) n"
proof (cases "length (rope_text r) \<le> n")
  case True
  then show ?thesis using assms by (simp add: rope_floor_char_boundary_def rope_len_ok str_floor_char_boundary_def)
next
  case False
  then have n: "n \<le> length (rope_text r)" and ne: "tree_items r \<noteq> []" by (auto simp: rope_text_def)
  obtain as c bs where c: "tree_items r = as @ c # bs" "length (chunk_texts as) \<le> n" "n \<le> length (chunk_texts as) + length (ck_text c)"
    "find offset_dim (ord_target n) Left r = (length (chunk_texts as), length (chunk_texts (as @ [c])), Some c)"
    using find_chunk [OF assms n ne rope_unit.seekable_axioms] .
  let ?i = "n - length (chunk_texts as)"
  let ?b = "length (chunk_texts as) + str_floor_char_boundary (ck_text c) ?i"
  have i: "?i \<le> length (ck_text c)" using c(3) by simp
  have le: "?b \<le> n" using floor_ok(3) [OF i] c(2) by simp
  have "str_floor_char_boundary (rope_text r) n = ?b"
  proof (rule str_floor_eq)
    show "str_is_char_boundary (rope_text r) ?b" using boundary_at_chunk [OF assms c(1), of ?b] floor_ok(1,2) le c(3) by simp
    show "j \<le> ?b" if "j \<le> n" "str_is_char_boundary (rope_text r) j" for j
    proof (cases "length (chunk_texts as) \<le> j")
      case True
      then show ?thesis
        using boundary_at_chunk [OF assms c(1) True] that c(3) floor_ok(4) [OF diff_le_mono, of j n "ck_text c" "length (chunk_texts as)"] by auto
    qed simp
  qed (use le False in auto)
  then show ?thesis using False c(4) assms by (simp add: rope_floor_char_boundary_def rope_len_ok)
qed

theorem rope_ceil_char_boundary_ok:
  assumes "rope_ok r"
  shows "rope_ceil_char_boundary r n = str_ceil_char_boundary (rope_text r) n"
proof (cases "length (rope_text r) < n \<or> tree_items r = []")
  case True
  have "rope_text r = [] \<and> str_ceil_char_boundary [] n = 0" if "tree_items r = []" "\<not> length (rope_text r) < n"
    using that by (auto simp: rope_text_def str_ceil_char_boundary_def boundary_above.simps)
  moreover have "find offset_dim (ord_target 0) Left r = (0, 0, None)" if "tree_items r = []"
    using that rope_offset.find_ok [of r "ord_target 0" Left] assms offset_mono [of 0 Left 0 "[]"] by (simp add: rope_ok_def scan_result_def)
  ultimately show ?thesis
    using True assms by (auto simp: rope_ceil_char_boundary_def rope_len_ok str_ceil_char_boundary_def)
next
  case False
  then have n: "n \<le> length (rope_text r)" and ne: "tree_items r \<noteq> []" by auto
  obtain as c bs where c: "tree_items r = as @ c # bs" "length (chunk_texts as) \<le> n" "n \<le> length (chunk_texts as) + length (ck_text c)"
    "find offset_dim (ord_target n) Left r = (length (chunk_texts as), length (chunk_texts (as @ [c])), Some c)"
    using find_chunk [OF assms n ne rope_unit.seekable_axioms] .
  let ?i = "n - length (chunk_texts as)"
  let ?b = "length (chunk_texts as) + str_ceil_char_boundary (ck_text c) ?i"
  have i: "?i \<le> length (ck_text c)" using c(3) by simp
  note ok = ceil_ok(1,2) [of "ck_text c" ?i] ceil_ok(3) [OF i]
  have "str_ceil_char_boundary (rope_text r) n = ?b"
  proof (rule str_ceil_eq)
    show "str_is_char_boundary (rope_text r) ?b" using boundary_at_chunk [OF assms c(1), of ?b] ok by simp
    show "?b \<le> j" if "n \<le> j" "str_is_char_boundary (rope_text r) j" for j
    proof (cases "j \<le> length (chunk_texts as) + length (ck_text c)")
      case True
      then show ?thesis
        using boundary_at_chunk [OF assms c(1) _ True] that c(2) ceil_ok(4) [OF diff_le_mono, of n j "ck_text c" "length (chunk_texts as)"] by auto
    next
      case False
      then show ?thesis using ok(2) by simp
    qed
  qed (use ok c(2) False in auto)
  then show ?thesis using False c(4) assms by (simp add: rope_ceil_char_boundary_def rope_len_ok)
qed

section \<open>Conversions of offsets\<close>

context text_dim
begin

lemma convert_chunk:
  assumes "rope_ok r" "n < length (rope_text r)" "str_is_char_boundary (rope_text r) n"
    "\<And>s i. utf8 s \<Longrightarrow> length s \<le> MAX_BASE \<Longrightarrow> str_is_char_boundary s i \<Longrightarrow> f (chunk_of s) i = measure (take i s)"
  shows "(case find (dimensions2 offset_dim (td_dim T)) (fst_target (ord_target n)) Left r of
      (start, _, item) \<Rightarrow> td_add T (snd start) (case item of None \<Rightarrow> z | Some c \<Rightarrow> f c (n - fst start))) = measure (take n (rope_text r))"
proof -
  have n: "n \<le> length (rope_text r)" and ne: "tree_items r \<noteq> []" using assms(2) by (auto simp: rope_text_def)
  obtain as c bs where c: "tree_items r = as @ c # bs" "length (chunk_texts as) \<le> n" "n \<le> length (chunk_texts as) + length (ck_text c)"
    and e: "\<exists>e. find (dimensions2 offset_dim (td_dim T)) (fst_target (ord_target n)) Left r =
      ((length (chunk_texts as), pos_after chunk_item (td_dim T) (dim_zero (td_dim T)) as), e, Some c)"
    using find_chunk [OF assms(1) n ne td_seekable] .
  note t = text_around_chunk [OF assms(1) c(1)]
  have b: "str_is_char_boundary (ck_text c) (n - length (chunk_texts as))"
    using boundary_at_chunk [OF assms(1) c] assms(3) by simp
  have "take n (rope_text r) = chunk_texts as @ take (n - length (chunk_texts as)) (ck_text c)" using c(2,3) t(1) by simp
  then have "measure (take n (rope_text r)) = td_add T (measure (chunk_texts as)) (measure (take (n - length (chunk_texts as)) (ck_text c)))"
    using measure_append utf8_split(1) [OF t(3) b] by simp
  moreover have "f c (n - length (chunk_texts as)) = measure (take (n - length (chunk_texts as)) (ck_text c))"
    using assms(4) [OF t(3,6) b] t(5) by simp
  ultimately show ?thesis using e measure_chunks [OF t(7)] by auto
qed

end

theorem rope_offset_conversions:
  assumes "rope_ok r" "str_is_char_boundary (rope_text r) n"
  shows "rope_offset_to_point r n = ts_lines (from_str (take n (rope_text r)))"
    "rope_offset_to_offset_utf16 r n = ts_len_utf16 (from_str (take n (rope_text r)))"
    "rope_offset_to_point_utf16 r n = lines_utf16 (from_str (take n (rope_text r)))"
proof -
  note s = rope_summary_ok [OF assms(1)]
  have "rope_offset_to_point r n = ts_lines (from_str (take n (rope_text r))) \<and>
    rope_offset_to_offset_utf16 r n = ts_len_utf16 (from_str (take n (rope_text r))) \<and>
    rope_offset_to_point_utf16 r n = lines_utf16 (from_str (take n (rope_text r)))"
  proof (cases "n < length (rope_text r)")
    case True
    have lt: "\<not> ts_len (rope_summary r) \<le> n" using True s by simp
    show ?thesis
      using point_td.convert_chunk [OF assms(1) True assms(2), of slice_offset_to_point point_zero]
        offset_utf16_td.convert_chunk [OF assms(1) True assms(2), of slice_offset_to_offset_utf16 0]
        point_utf16_td.convert_chunk [OF assms(1) True assms(2), of slice_offset_to_point_utf16 point_zero]
        slice_offset_to_point_eq slice_offset_to_offset_utf16_eq slice_offset_to_point_utf16_eq lt
      unfolding rope_offset_to_point_def rope_offset_to_offset_utf16_def rope_offset_to_point_utf16_def as_slice_def
      by (simp add: point_td_def offset_utf16_td_def point_utf16_td_def)
  qed (use s in \<open>simp add: rope_offset_to_point_def rope_offset_to_offset_utf16_def rope_offset_to_point_utf16_def\<close>)
  then show "rope_offset_to_point r n = ts_lines (from_str (take n (rope_text r)))"
    "rope_offset_to_offset_utf16 r n = ts_len_utf16 (from_str (take n (rope_text r)))"
    "rope_offset_to_point_utf16 r n = lines_utf16 (from_str (take n (rope_text r)))" by simp_all
qed

end
