(* ===== verification/Rope_Properties.thy ===== *)
theory Rope_Properties
  imports Rope_Find
begin

text \<open>
  The properties of chunks and ropes, stated over the text \<open>rope_text\<close> that a rope holds, each with a
  witness on a concrete rope.  The witnesses use ropes of a single chunk: they are well formed and every
  slice of them is a leaf, so they fit the stack of a cursor.
\<close>

section \<open>Ropes of a single chunk\<close>

definition chunk_rope :: "str \<Rightarrow> rope" where
  "chunk_rope s = Leaf (from_str s) [chunk_of s] [from_str s]"

lemma chunk_rope_ok:
  assumes "utf8 s" "s \<noteq> []" "length s \<le> MAX_BASE"
  shows "rope_ok (chunk_rope s)" "rope_text (chunk_rope s) = s" "node_height (chunk_rope s) = 0"
  using assms
  by (auto simp: chunk_rope_def rope_ok_def rope_text_def chunk_ok'_def chunk_ok_def chunks_full_def slice_text_summary_eq
      summary_sum_def TREE_BASE_def text_summary_zero_left)

lemma push_chunk_new: "push_chunk rope_new c = Some u \<Longrightarrow> node_height u = 0"
  by (auto simp: push_chunk_def update_last_capturing_def rope_new_def tree_new_def tree_last_def rightmost_leaf.simps update_last_def
      tree_push_def tree_append_def Let_def slice_into_chunk_def split: if_splits bind_splits)

lemma chunk_rope_sliceable:
  assumes "utf8 s" "s \<noteq> []" "length s \<le> MAX_BASE"
  shows "sliceable (chunk_rope s)"
proof -
  have at: "\<exists>ys zs. rope_cursor_at c ys zs \<and> ys @ zs = [chunk_of s]" if "rope_cursor_ok c" "rc_rope c = chunk_rope s" for c
    using that rope_cursor_at_facts(5) [of c] unfolding rope_cursor_ok_def chunk_rope_def by (metis tree_items.simps(1))
  have "node_height t < STACK_CAP"
    if c: "rope_cursor_ok c" "rc_rope c = chunk_rope s" and k: "cursor_next offset_dim (rc_chunks c) = Some k"
      and n: "cursor_position k \<le> n" and t: "slice chunk_item offset_dim (ord_target n) Right k = Some (k', t)" for c n k k' t
  proof -
    obtain ys zs where yz: "rope_cursor_at c ys zs" "ys @ zs = [chunk_of s]" using at [OF c] by blast
    have "drop 1 zs = []" using yz(2) by (auto simp: append_eq_Cons_conv)
    then have "cursor_at chunk_item offset_dim k (ys @ take 1 zs) []"
      using rope_offset.cursor_next_ok [of "rc_chunks c" ys zs] yz(1) k by (auto simp: rope_cursor_at_def)
    from rope_offset.slice_ok [OF this, of "ord_target n" Right] have "wf_tree chunk_item t" "tree_items t = []"
      using n t by (auto simp: seek_mono_def)
    then have "tree_is_empty t" using tree_items_eq_Nil by blast
    then have "node_height t = 0" by (cases t) simp_all
    then show ?thesis by (simp add: STACK_CAP_def)
  qed
  moreover have "node_height u < STACK_CAP"
    if c: "rope_cursor_ok c" "rc_rope c = chunk_rope s" and u: "rope_cursor_slice c n = Some (c', u)" for c n c' u
  proof -
    obtain ys zs where yz: "rope_cursor_at c ys zs" "ys @ zs = [chunk_of s]" using at [OF c] by blast
    have "chunk_texts (ys @ take 1 zs) = s" using yz(2) by (cases ys) auto
    moreover have "rope_len (rc_rope c) = length s" using chunk_rope_ok [OF assms] rope_len_ok c(2) by simp
    ultimately have "u = rope_new \<or> (\<exists>d. push_chunk rope_new d = Some u)"
      using u rope_cursor_at_facts(1-3) [OF yz(1)]
      by (auto simp: rope_cursor_slice_def assert_that_def Let_def split: if_splits option.splits bind_splits)
    then have "node_height u = 0" using push_chunk_new by (auto simp: rope_new_def tree_new_def)
    then show ?thesis by (simp add: STACK_CAP_def)
  qed
  ultimately show ?thesis unfolding sliceable_def by (simp add: chunk_rope_def STACK_CAP_def)
qed

text \<open>The bytes of an \<open>a\<close>, a newline, a two-byte and a four-byte character.\<close>

definition sample_text :: str where
  "sample_text = [0x61, 0x0A, 0xC3, 0xA9, 0xF0, 0x9F, 0x98, 0x80]"

lemma sample_text_ok [simp]: "utf8 sample_text" "sample_text \<noteq> []" "length sample_text \<le> MAX_BASE"
  by (simp_all add: sample_text_def utf8_def MAX_BASE_def) code_simp

lemmas sample_rope_ok = chunk_rope_ok [OF sample_text_ok] chunk_rope_sliceable [OF sample_text_ok]

lemma sample_boundaries [simp]:
  "str_is_char_boundary sample_text 2" "str_is_char_boundary sample_text 4" "\<not> str_is_char_boundary sample_text 3"
  by code_simp+

lemma sample_parts [simp]:
  "take 2 sample_text = [0x61, 0x0A]" "take 2 (drop 2 sample_text) = [0xC3, 0xA9]" "drop 4 sample_text = [0xF0, 0x9F, 0x98, 0x80]"
  by (simp_all add: sample_text_def)

section \<open>Chunks\<close>

text \<open>C34: \<open>Chunk::text_summary\<close>, computed from the five bitmaps of a chunk with bit counts, agrees with the
  character-by-character \<open>TextSummary::from\<close> of its text, for every UTF-8 text that fits a chunk.\<close>

theorem chunk_summary_equals_scan:
  assumes "utf8 s" "length s \<le> MAX_BASE"
  shows "\<exists>c. chunk_new s = Some c \<and> slice_text_summary (as_slice c) = from_str s"
  using assms by (simp add: chunk_new_eq as_slice_def slice_text_summary_eq)

theorem chunk_summary_equals_scan_witness:
  "\<exists>c. chunk_new sample_text = Some c \<and> slice_text_summary (as_slice c) = from_str sample_text"
  by (rule chunk_summary_equals_scan) simp_all

section \<open>Ropes\<close>

text \<open>C35: \<open>Rope::push\<close> never panics on UTF-8 text, appends exactly that text, and keeps the invariant of the
  rope: a well-formed tree of non-empty UTF-8 chunks with the right bitmaps and summaries, all but the last at least half full
  (up to a character).\<close>

theorem rope_push_appends:
  assumes "rope_ok r" "utf8 s"
  shows "\<exists>r'. rope_push r s = Some r' \<and> rope_ok r' \<and> rope_text r' = rope_text r @ s \<and> rope_summary r' = from_str (rope_text r @ s)"
  using rope_push_ok [OF assms] by (metis rope_summary_ok)

theorem rope_push_appends_witness:
  "\<exists>r'. rope_push (chunk_rope sample_text) sample_text = Some r' \<and> rope_ok r' \<and> rope_text r' = sample_text @ sample_text"
  using rope_push_appends [OF sample_rope_ok(1) sample_text_ok(1)] sample_rope_ok(2) by auto

text \<open>C36: \<open>Rope::append\<close> and \<open>Rope::push_front\<close> concatenate the texts and keep the invariant, for ropes that fit the
  16 levels of a cursor.\<close>

theorem rope_append_concatenates:
  assumes "rope_ok r" "rope_ok other" "node_height other < STACK_CAP" "utf8 s"
  shows "(\<exists>r'. rope_append r other = Some r' \<and> rope_ok r' \<and> rope_text r' = rope_text r @ rope_text other) \<and>
    (\<exists>r'. push_front other s = Some r' \<and> rope_ok r' \<and> rope_text r' = s @ rope_text other)"
  using rope_append_ok [OF assms(1-3)] push_front_ok [OF assms(2,4,3)] by blast

theorem rope_append_concatenates_witness:
  "(\<exists>r'. rope_append (chunk_rope sample_text) (chunk_rope sample_text) = Some r' \<and> rope_text r' = sample_text @ sample_text) \<and>
   (\<exists>r'. push_front (chunk_rope sample_text) sample_text = Some r' \<and> rope_text r' = sample_text @ sample_text)"
  using rope_append_concatenates [OF sample_rope_ok(1,1) _ sample_text_ok(1)] sample_rope_ok(2,3) by (auto simp: STACK_CAP_def)

text \<open>C37: \<open>Rope::slice\<close> and \<open>Rope::replace\<close> at character boundaries return: the slice holds exactly the bytes of the range,
  the replacement puts the new text in place of the range, and both are ropes in order.\<close>

theorem rope_slice_replace:
  assumes "rope_ok r" "sliceable r" "i \<le> j" "str_is_char_boundary (rope_text r) i" "str_is_char_boundary (rope_text r) j" "utf8 s"
  shows "(\<exists>r'. rope_slice r i j = Some r' \<and> rope_ok r' \<and> rope_text r' = take (j - i) (drop i (rope_text r))) \<and>
    (\<exists>r'. rope_replace r i j s = Some r' \<and> rope_ok r' \<and> rope_text r' = take i (rope_text r) @ s @ drop j (rope_text r))"
  using rope_slice_ok [OF assms(1-5)] rope_replace_ok [OF assms] by blast

theorem rope_slice_replace_witness:
  "(\<exists>r'. rope_slice (chunk_rope sample_text) 2 4 = Some r' \<and> rope_text r' = [0xC3, 0xA9]) \<and>
   (\<exists>r'. rope_replace (chunk_rope sample_text) 2 4 [0x62] = Some r' \<and> rope_text r' = [0x61, 0x0A, 0x62, 0xF0, 0x9F, 0x98, 0x80])"
proof -
  have "utf8 [0x62]" by code_simp
  from rope_slice_replace [OF sample_rope_ok(1,4) _ _ _ this, of 2 4, unfolded sample_rope_ok(2)] show ?thesis by auto
qed

text \<open>C38: a rope cursor that walks forward by \<open>Cursor::summary\<close> measures exactly the text it passes, in bytes, UTF-16
  units, points, UTF-16 points and whole summaries, and stops at the offset it was given.\<close>

theorem rope_cursor_measures:
  assumes "rope_ok r" "node_height r < STACK_CAP" "i \<le> j" "str_is_char_boundary (rope_text r) i" "str_is_char_boundary (rope_text r) j"
  defines "s \<equiv> take (j - i) (drop i (rope_text r))"
  shows "\<exists>c. rope_cursor_new r i = Some c \<and>
    (\<exists>c'. rope_cursor_summary offset_td c j = Some (c', length s) \<and> rc_offset c' = j) \<and>
    (\<exists>c'. rope_cursor_summary offset_utf16_td c j = Some (c', ts_len_utf16 (from_str s)) \<and> rc_offset c' = j) \<and>
    (\<exists>c'. rope_cursor_summary point_td c j = Some (c', ts_lines (from_str s)) \<and> rc_offset c' = j) \<and>
    (\<exists>c'. rope_cursor_summary point_utf16_td c j = Some (c', lines_utf16 (from_str s)) \<and> rc_offset c' = j) \<and>
    (\<exists>c'. rope_cursor_summary text_summary_td c j = Some (c', from_str s) \<and> rc_offset c' = j)"
proof -
  have le: "i \<le> length (rope_text r)" "j \<le> length (rope_text r)" using assms(4,5) boundary_le by auto
  obtain c where c: "rope_cursor_new r i = Some c" "rope_cursor_ok c" "rc_rope c = r" "rc_offset c = i"
    using rope_cursor_new_ok [OF assms(1,2) le(1)] by blast
  note at = c(2) assms(3) [folded c(4)] le(2) [folded c(3)] assms(4) [folded c(3,4)] assms(5) [folded c(3)]
  show ?thesis
    using c offset_td.rope_cursor_summary_ok [OF at] offset_utf16_td.rope_cursor_summary_ok [OF at] point_td.rope_cursor_summary_ok [OF at]
      point_utf16_td.rope_cursor_summary_ok [OF at] text_summary_td.rope_cursor_summary_ok [OF at]
    by (auto simp: s_def offset_td_def offset_utf16_td_def point_td_def point_utf16_td_def text_summary_td_def)
qed

theorem rope_cursor_measures_witness:
  "\<exists>c c'. rope_cursor_new (chunk_rope sample_text) 2 = Some c \<and> rope_cursor_summary offset_td c 4 = Some (c', 2)"
  using rope_cursor_measures [OF sample_rope_ok(1), of 2 4] sample_rope_ok(2,3) by (auto simp: STACK_CAP_def)

text \<open>C39: \<open>Rope::is_char_boundary\<close>, \<open>floor_char_boundary\<close>, \<open>ceil_char_boundary\<close> and \<open>clip_offset\<close> answer for any offset as the same
  function of \<open>str\<close> does on the whole text, although they look at one chunk only.\<close>

theorem rope_boundaries:
  assumes "rope_ok r"
  shows "(rope_is_char_boundary r n \<longleftrightarrow> str_is_char_boundary (rope_text r) n) \<and>
    rope_clip_offset r n b = (case b of Left \<Rightarrow> str_floor_char_boundary (rope_text r) n | Right \<Rightarrow> str_ceil_char_boundary (rope_text r) n)"
  using assms
  by (simp add: rope_is_char_boundary_ok rope_clip_offset_def rope_floor_char_boundary_ok rope_ceil_char_boundary_ok split: bias.splits)

theorem rope_boundaries_witness:
  "\<not> rope_is_char_boundary (chunk_rope sample_text) 3 \<and> rope_clip_offset (chunk_rope sample_text) 3 Right = 4"
proof -
  have "str_ceil_char_boundary sample_text 3 = 4" by code_simp
  then show ?thesis using rope_boundaries [OF sample_rope_ok(1), of 3 Right, unfolded sample_rope_ok(2)] by simp
qed

text \<open>C40: the conversions of an offset to a point, a UTF-16 offset and a UTF-16 point count the lines and the columns of the
  text before it.\<close>

theorem rope_offset_to_positions:
  assumes "rope_ok r" "str_is_char_boundary (rope_text r) n"
  shows "rope_offset_to_point r n = ts_lines (from_str (take n (rope_text r))) \<and>
    rope_offset_to_offset_utf16 r n = ts_len_utf16 (from_str (take n (rope_text r))) \<and>
    rope_offset_to_point_utf16 r n = lines_utf16 (from_str (take n (rope_text r)))"
  using rope_offset_conversions [OF assms] by simp_all

theorem rope_offset_to_positions_witness:
  "rope_offset_to_point (chunk_rope sample_text) 4 = Point 1 2 \<and> rope_offset_to_point_utf16 (chunk_rope sample_text) 4 = Point 1 1"
proof -
  have "ts_lines (from_str (take 4 sample_text)) = Point 1 2" "lines_utf16 (from_str (take 4 sample_text)) = Point 1 1" by code_simp+
  then show ?thesis using rope_offset_to_positions [OF sample_rope_ok(1), of 4, unfolded sample_rope_ok(2), OF sample_boundaries(2)] by simp
qed

end
