(* ===== verification/Fragment.thy ===== *)
theory Fragment
  imports Locator Undo_Map SumTree_Iter
begin

text \<open>
  Fragments of \<open>crates/text/src/text.rs\<close>: runs of bytes of one insertion that share their deletions and
  visibility, the summaries of trees of fragments and their dimensions, and the index of fragments by
  insertion.  The summary context of the source is used by one dimension only, which takes it as an
  argument; the lengths \<open>u32\<close> and \<open>usize\<close> are natural numbers.
\<close>

section \<open>Definitions\<close>

definition MAX_INSERTION_LEN :: nat where "MAX_INSERTION_LEN = 2 ^ 32 - 1"

record fragment =
  fr_id :: locator
  fr_timestamp :: lamport
  insertion_offset :: nat
  fr_len :: nat
  fr_visible :: bool
  fr_deletions :: "lamport list"
  max_undos :: global

record fragment_text_summary =
  fts_visible :: nat
  fts_deleted :: nat

record fragment_summary =
  fs_text :: fragment_text_summary
  fs_max_id :: locator
  fs_max_version :: global
  fs_min_insertion_version :: global
  fs_max_insertion_version :: global

definition fragment_text_zero :: fragment_text_summary where
  "fragment_text_zero = \<lparr>fts_visible = 0, fts_deleted = 0\<rparr>"

definition fragment_text_add :: "fragment_text_summary \<Rightarrow> fragment_text_summary \<Rightarrow> fragment_text_summary" where
  "fragment_text_add a b = \<lparr>fts_visible = fts_visible a + fts_visible b, fts_deleted = fts_deleted a + fts_deleted b\<rparr>"

definition fragment_summarize :: "fragment \<Rightarrow> fragment_summary" where
  "fragment_summarize f =
     (let max_version = global_join (foldl global_observe (global_observe global_new (fr_timestamp f)) (fr_deletions f)) (max_undos f);
          insertion_version = global_observe global_new (fr_timestamp f)
      in if fr_visible f
         then \<lparr>fs_text = \<lparr>fts_visible = fr_len f, fts_deleted = 0\<rparr>, fs_max_id = fr_id f, fs_max_version = max_version,
           fs_min_insertion_version = insertion_version, fs_max_insertion_version = insertion_version\<rparr>
         else \<lparr>fs_text = \<lparr>fts_visible = 0, fts_deleted = fr_len f\<rparr>, fs_max_id = fr_id f, fs_max_version = max_version,
           fs_min_insertion_version = insertion_version, fs_max_insertion_version = insertion_version\<rparr>)"

definition fragment_summary_zero :: fragment_summary where
  "fragment_summary_zero = \<lparr>fs_text = fragment_text_zero, fs_max_id = locator_min, fs_max_version = global_new,
     fs_min_insertion_version = global_new, fs_max_insertion_version = global_new\<rparr>"

definition fragment_summary_add :: "fragment_summary \<Rightarrow> fragment_summary \<Rightarrow> fragment_summary" where
  "fragment_summary_add a b =
     \<lparr>fs_text = fragment_text_add (fs_text a) (fs_text b),
      fs_max_id = locator_assign (fs_max_id a) (fs_max_id b),
      fs_max_version = global_join (fs_max_version a) (fs_max_version b),
      fs_min_insertion_version = global_meet (fs_min_insertion_version a) (fs_min_insertion_version b),
      fs_max_insertion_version = global_join (fs_max_insertion_version a) (fs_max_insertion_version b)\<rparr>"

definition fragment_item :: "(fragment, fragment_summary) item_impl" where
  "fragment_item = \<lparr>item_summary = fragment_summarize, summary_zero = fragment_summary_zero, add_summary = fragment_summary_add\<rparr>"

type_synonym fragment_tree = "(fragment, fragment_summary) sum_tree"

fun all_option :: "('a \<Rightarrow> bool option) \<Rightarrow> 'a list \<Rightarrow> bool option" where
  "all_option p [] = Some True"
| "all_option p (x # xs) = do { b \<leftarrow> p x; if b then all_option p xs else Some False }"

definition fragment_is_visible :: "fragment \<Rightarrow> undo_map \<Rightarrow> bool option" where
  "fragment_is_visible f undos = do {
     undone \<leftarrow> is_undone undos (fr_timestamp f);
     if \<not> undone then all_option (is_undone undos) (fr_deletions f) else Some False }"

definition fragment_was_visible :: "fragment \<Rightarrow> global \<Rightarrow> undo_map \<Rightarrow> bool option" where
  "fragment_was_visible f version undos =
     (if global_observed version (fr_timestamp f) then do {
        undone \<leftarrow> was_undone undos (fr_timestamp f) version;
        if \<not> undone
        then all_option (\<lambda>d. if \<not> global_observed version d then Some True else was_undone undos d version) (fr_deletions f)
        else Some False }
      else Some False)"

subsection \<open>Dimensions\<close>

definition fragment_text_dim :: "(fragment_summary, fragment_text_summary) dimension" where
  "fragment_text_dim = \<lparr>dim_zero = fragment_text_zero, dim_add = (\<lambda>d s. fragment_text_add d (fs_text s))\<rparr>"

definition visible_dim :: "(fragment_summary, nat) dimension" where
  "visible_dim = \<lparr>dim_zero = 0, dim_add = (\<lambda>d s. d + fts_visible (fs_text s))\<rparr>"

definition full_offset_dim :: "(fragment_summary, nat) dimension" where
  "full_offset_dim = \<lparr>dim_zero = 0, dim_add = (\<lambda>d s. d + (fts_visible (fs_text s) + fts_deleted (fs_text s)))\<rparr>"

definition fragment_locator_dim :: "(fragment_summary, locator option) dimension" where
  "fragment_locator_dim = \<lparr>dim_zero = None, dim_add = (\<lambda>d s. Some (fs_max_id s))\<rparr>"

definition visible_target :: "nat \<Rightarrow> fragment_text_summary \<Rightarrow> ordering" where
  "visible_target n d = cmp n (fts_visible d)"

datatype versioned_full_offset = Offset nat | Invalid

fun full_offset_of :: "versioned_full_offset \<Rightarrow> nat option" where
  "full_offset_of (Offset n) = Some n"
| "full_offset_of Invalid = None"

definition versioned_dim :: "global \<Rightarrow> (fragment_summary, versioned_full_offset) dimension" where
  "versioned_dim version =
     \<lparr>dim_zero = Offset 0,
      dim_add = (\<lambda>d s. case d of
        Offset n \<Rightarrow>
          (if observed_all version (fs_max_insertion_version s) then Offset (n + (fts_visible (fs_text s) + fts_deleted (fs_text s)))
           else if observed_any version (fs_min_insertion_version s) then Invalid
           else d)
      | Invalid \<Rightarrow> Invalid)\<rparr>"

fun versioned_target :: "nat \<Rightarrow> versioned_full_offset \<Rightarrow> ordering" where
  "versioned_target a (Offset b) = cmp a b"
| "versioned_target a Invalid = Less"

subsection \<open>The index by insertion\<close>

record insertion_fragment =
  if_timestamp :: lamport
  if_split_offset :: nat
  if_fragment_id :: locator

type_synonym insertion_fragment_key = "lamport \<times> nat"

definition insertion_fragment_key :: "insertion_fragment \<Rightarrow> insertion_fragment_key" where
  "insertion_fragment_key f = (if_timestamp f, if_split_offset f)"

definition insertion_item :: "(insertion_fragment, insertion_fragment_key) item_impl" where
  "insertion_item = \<lparr>item_summary = insertion_fragment_key, summary_zero = (lamport_MIN, 0), add_summary = (\<lambda>a b. b)\<rparr>"

definition insertion_keyed :: "(insertion_fragment, insertion_fragment_key, insertion_fragment_key) keyed_impl" where
  "insertion_keyed = \<lparr>keyed_item = insertion_item, item_key = insertion_fragment_key, key_dim = summary_dimension insertion_item\<rparr>"

type_synonym insertion_tree = "(insertion_fragment, insertion_fragment_key) sum_tree"

definition insertion_fragment_new :: "fragment \<Rightarrow> insertion_fragment" where
  "insertion_fragment_new f = \<lparr>if_timestamp = fr_timestamp f, if_split_offset = insertion_offset f, if_fragment_id = fr_id f\<rparr>"

definition insert_new :: "fragment \<Rightarrow> (insertion_fragment, insertion_fragment_key) edit" where
  "insert_new f = Insert (insertion_fragment_new f)"

datatype insertion_slice = InsertionSlice
  (is_edit_id_value: seq) (is_edit_id_replica_id: replica_id)
  (is_insertion_id_value: seq) (is_insertion_id_replica_id: replica_id)
  (is_start: nat) (is_end: nat)

definition is_edit_id :: "insertion_slice \<Rightarrow> lamport" where
  "is_edit_id s = Lamport (is_edit_id_value s) (is_edit_id_replica_id s)"

definition is_insertion_id :: "insertion_slice \<Rightarrow> lamport" where
  "is_insertion_id s = Lamport (is_insertion_id_value s) (is_insertion_id_replica_id s)"

definition insertion_slice_cmp :: "insertion_slice \<Rightarrow> insertion_slice \<Rightarrow> ordering" where
  "insertion_slice_cmp a b =
     then_with (then_with (then_with
       (cmp (is_edit_id a) (is_edit_id b))
       (cmp (is_insertion_id a) (is_insertion_id b)))
       (cmp (is_start a) (is_start b)))
       (cmp (is_end a) (is_end b))"

text \<open>The comparison is that of the tuple of its four components.\<close>

definition insertion_slice_key :: "insertion_slice \<Rightarrow> lamport \<times> lamport \<times> nat \<times> nat" where
  "insertion_slice_key s = (is_edit_id s, is_insertion_id s, is_start s, is_end s)"

lemma insertion_slice_key_inject: "insertion_slice_key a = insertion_slice_key b \<longleftrightarrow> a = b"
  by (cases a; cases b) (auto simp: insertion_slice_key_def is_edit_id_def is_insertion_id_def)

lemma cmp_pair: "cmp (a, b) (c, d) = then_with (cmp a c) (cmp b d)"
  by (auto simp: cmp_def)

lemma then_with_assoc: "then_with (then_with a b) c = then_with a (then_with b c)"
  by (cases a) simp_all

lemma insertion_slice_cmp_key: "insertion_slice_cmp a b = cmp (insertion_slice_key a) (insertion_slice_key b)"
  by (simp add: insertion_slice_cmp_def insertion_slice_key_def cmp_pair then_with_assoc)

instantiation insertion_slice :: linorder
begin

definition less_insertion_slice :: "insertion_slice \<Rightarrow> insertion_slice \<Rightarrow> bool" where
  "a < b \<longleftrightarrow> insertion_slice_cmp a b = Less"

definition less_eq_insertion_slice :: "insertion_slice \<Rightarrow> insertion_slice \<Rightarrow> bool" where
  "a \<le> b \<longleftrightarrow> insertion_slice_cmp a b \<noteq> Greater"

instance
  by standard
    (auto simp: less_insertion_slice_def less_eq_insertion_slice_def insertion_slice_cmp_key cmp_def insertion_slice_key_inject
      split: if_splits)

end

definition insertion_slice_from_fragment :: "lamport \<Rightarrow> fragment \<Rightarrow> insertion_slice" where
  "insertion_slice_from_fragment edit_id f =
     InsertionSlice (lamport_value edit_id) (lamport_replica edit_id)
       (lamport_value (fr_timestamp f)) (lamport_replica (fr_timestamp f))
       (insertion_offset f) (insertion_offset f + fr_len f)"

section \<open>Laws of the summaries\<close>

lemma global_join_Nil [simp]: "global_join [] g = g"
  by (simp add: global_join_def resize_def map2_map_map [symmetric] zip_replicate1 comp_def)

lemma global_join_assoc: "global_join (global_join a b) c = global_join a (global_join b c)"
  by (rule nth_equalityI) (auto simp: nth_join max.assoc less_max_iff_disj)

lemma ok_meet:
  assumes "global_ok g" "global_ok h"
  shows "global_ok (global_meet g h)"
proof -
  have len: "length g \<le> 2 ^ 16" "length h \<le> 2 ^ 16" using assms by (simp_all add: global_ok_def)
  define g1 where "g1 = (if length g < length h then resize (length h) g else g)"
  define ps where "ps = map2 meet_entry (take (length h) g1) h"
  have l: "length h \<le> length g1" "length ps = length h" by (auto simp: g1_def ps_def)
  have eq: "global_meet g h = (if length h = length g1 then take (meet_len ps) (ps @ drop (length h) g1) else ps @ drop (length h) g1)"
    by (simp add: global_meet_def g1_def ps_def Let_def)
  show ?thesis
  proof (cases "length h = length g1")
    case True
    then have "global_meet g h = take (meet_len ps) ps" using eq by simp
    moreover have "take (meet_len ps) ps = [] \<or> last (take (meet_len ps) ps) \<noteq> 0"
      using meet_len_props(1,3) [of ps] by (cases "meet_len ps = 0") (auto simp: last_conv_nth min_absorb2)
    ultimately show ?thesis using len l(2) by (auto simp: global_ok_def)
  next
    case False
    then have "g1 = g" "length h < length g" using l by (auto simp: g1_def split: if_splits)
    then show ?thesis using eq False len l assms(1) by (auto simp: global_ok_def)
  qed
qed

lemma global_ok_Nil [simp]: "global_ok []"
  by (simp add: global_ok_def)

lemma get_Nil [simp]: "global_get [] r = 0"
  by (simp add: global_get_nth)

lemma global_meet_Nil [simp]: "global_ok g \<Longrightarrow> global_meet [] g = g"
  by (rule global_ok_eqI) (simp_all add: ok_meet get_meet meet_entry_def)

lemma meet_entry_assoc: "meet_entry (meet_entry a b) c = meet_entry a (meet_entry b c)"
  by (auto simp: meet_entry_def min_def)

lemma global_meet_assoc:
  "global_ok a \<Longrightarrow> global_ok b \<Longrightarrow> global_ok c \<Longrightarrow> global_meet (global_meet a b) c = global_meet a (global_meet b c)"
  by (rule global_ok_eqI) (simp_all add: ok_meet get_meet meet_entry_assoc)

lemma fragment_item_sel [simp]:
  "item_summary fragment_item = fragment_summarize" "summary_zero fragment_item = fragment_summary_zero"
  "add_summary fragment_item = fragment_summary_add"
  by (simp_all add: fragment_item_def)

lemma fragment_summary_sel [simp]:
  "fts_visible (fs_text (fragment_summarize f)) = (if fr_visible f then fr_len f else 0)"
  "fts_deleted (fs_text (fragment_summarize f)) = (if fr_visible f then 0 else fr_len f)"
  "fs_max_id (fragment_summarize f) = fr_id f"
  "fs_min_insertion_version (fragment_summarize f) = global_observe global_new (fr_timestamp f)"
  by (simp_all add: fragment_summarize_def Let_def)

lemma fragment_summary_zero_sel [simp]:
  "fs_text fragment_summary_zero = fragment_text_zero" "fs_max_id fragment_summary_zero = locator_min"
  "fs_max_version fragment_summary_zero = []" "fs_min_insertion_version fragment_summary_zero = []"
  "fs_max_insertion_version fragment_summary_zero = []"
  by (simp_all add: fragment_summary_zero_def global_new_def)

lemma fragment_text_simps [simp]:
  "fragment_text_add fragment_text_zero s = s" "fragment_text_add s fragment_text_zero = s"
  "fragment_text_add (fragment_text_add a b) c = fragment_text_add a (fragment_text_add b c)"
  "fts_visible (fragment_text_add a b) = fts_visible a + fts_visible b" "fts_deleted (fragment_text_add a b) = fts_deleted a + fts_deleted b"
  "fts_visible fragment_text_zero = 0" "fts_deleted fragment_text_zero = 0"
  by (simp_all add: fragment_text_add_def fragment_text_zero_def)

lemma fragment_summary_add_sel [simp]:
  "fs_text (fragment_summary_add a b) = fragment_text_add (fs_text a) (fs_text b)" "fs_max_id (fragment_summary_add a b) = fs_max_id b"
  "fs_max_version (fragment_summary_add a b) = global_join (fs_max_version a) (fs_max_version b)"
  "fs_min_insertion_version (fragment_summary_add a b) = global_meet (fs_min_insertion_version a) (fs_min_insertion_version b)"
  "fs_max_insertion_version (fragment_summary_add a b) = global_join (fs_max_insertion_version a) (fs_max_insertion_version b)"
  by (simp_all add: fragment_summary_add_def)

lemma fragment_summaries_ok: "s \<in> summaries fragment_item \<Longrightarrow> global_ok (fs_min_insertion_version s)"
  by (induction rule: summaries.induct) (simp_all add: ok_observe ok_meet global_new_def)

interpretation fragment_tree: summary_monoid fragment_item
  by unfold_locales
    (auto intro!: fragment_summary.equality simp: fragment_summaries_ok global_meet_assoc global_join_assoc)

interpretation fragment_text: seekable fragment_item fragment_text_dim
  by unfold_locales (simp_all add: fragment_text_dim_def)

interpretation fragment_visible: seekable fragment_item visible_dim
  by unfold_locales (simp_all add: visible_dim_def)

interpretation fragment_full_offset: seekable fragment_item full_offset_dim
  by unfold_locales (simp_all add: full_offset_dim_def)

end
