(* ===== verification/Buffer.thy ===== *)
theory Buffer
  imports Fragment Rope_Cursor Subscription History Operation_Queue
begin

text \<open>
  \<open>BufferSnapshot\<close>, \<open>Buffer\<close>, \<open>LineEnding\<close> and \<open>RopeBuilder\<close> of \<open>crates/text/src/text.rs\<close>, and the local edit: the
  state of a buffer and \<open>apply_local_edit\<close> with its loops.  The local variables of an edit are a record.
  Debug assertions are off, the platform is Unix, and the current time is an argument.
\<close>

section \<open>Line endings\<close>

datatype line_ending = Unix | Windows

definition line_ending_default :: line_ending where "line_ending_default = Unix"

definition line_ending_as_str :: "line_ending \<Rightarrow> str" where
  "line_ending_as_str e = (case e of Unix \<Rightarrow> [0x0A] | Windows \<Rightarrow> [0x0D, 0x0A])"

definition line_ending_detect :: "str \<Rightarrow> line_ending" where
  "line_ending_detect s =
     (let max_ix = boundary_below s (min (length s) 1000);
          ix = length (takeWhile (\<lambda>b. b \<noteq> 0x0A) (take max_ix s))
      in if ix < max_ix then (if 0 < ix \<and> s ! (ix - 1) = 0x0D then Windows else Unix)
         else line_ending_default)"

text \<open>Replacing every match of the regular expression for a carriage return, with or without a line
  feed after it, by a line feed.\<close>

fun line_ending_normalize :: "str \<Rightarrow> str" where
  "line_ending_normalize [] = []"
| "line_ending_normalize (b # s) =
     (if b = 0x0D
      then 0x0A # (case s of [] \<Rightarrow> [] | c # s' \<Rightarrow> if c = 0x0A then line_ending_normalize s' else line_ending_normalize s)
      else b # line_ending_normalize s)"

section \<open>State\<close>

type_synonym buffer_id = u64

record buffer_snapshot =
  visible_text :: rope
  deleted_text :: rope
  fragments :: fragment_tree
  insertions :: insertion_tree
  insertion_slices :: "insertion_slice tree_set"
  snap_undo_map :: undo_map
  snap_version :: global
  remote_id :: buffer_id
  snap_replica_id :: replica_id
  snap_line_ending :: line_ending

text \<open>
  A waiting task is the number of its channel; \<open>notified\<close> lists the channels a message was sent to.
\<close>

record buffer =
  snapshot :: buffer_snapshot
  buf_history :: "rope history"
  deferred_ops :: "operation operation_queue"
  deferred_replicas :: "replica_id set"
  lamport_clock :: lamport
  buf_subscriptions :: topic
  edit_id_resolvers :: "(lamport \<times> nat list) list"
  wait_for_version_txs :: "(global \<times> nat) list"
  notified :: "nat list"

section \<open>Building the texts of an edit\<close>

record rope_builder =
  old_visible_cursor :: rope_cursor
  old_deleted_cursor :: rope_cursor
  new_visible :: rope
  new_deleted :: rope

definition builder_new :: "rope_cursor \<Rightarrow> rope_cursor \<Rightarrow> rope_builder" where
  "builder_new v d = \<lparr>old_visible_cursor = v, old_deleted_cursor = d, new_visible = rope_new, new_deleted = rope_new\<rparr>"

definition builder_push :: "rope_builder \<Rightarrow> nat \<Rightarrow> bool \<Rightarrow> bool \<Rightarrow> rope_builder option" where
  "builder_push b len was_visible is_visible = do {
     (b, t) \<leftarrow> (if was_visible
        then do {
          (c, t) \<leftarrow> rope_cursor_slice (old_visible_cursor b) (rc_offset (old_visible_cursor b) + len);
          Some (b\<lparr>old_visible_cursor := c\<rparr>, t) }
        else do {
          (c, t) \<leftarrow> rope_cursor_slice (old_deleted_cursor b) (rc_offset (old_deleted_cursor b) + len);
          Some (b\<lparr>old_deleted_cursor := c\<rparr>, t) });
     if is_visible
     then do { r \<leftarrow> rope_append (new_visible b) t; Some (b\<lparr>new_visible := r\<rparr>) }
     else do { r \<leftarrow> rope_append (new_deleted b) t; Some (b\<lparr>new_deleted := r\<rparr>) } }"

definition builder_append :: "rope_builder \<Rightarrow> fragment_text_summary \<Rightarrow> rope_builder option" where
  "builder_append b len = do {
     b \<leftarrow> builder_push b (fts_visible len) True True;
     builder_push b (fts_deleted len) False False }"

definition builder_push_fragment :: "rope_builder \<Rightarrow> fragment \<Rightarrow> bool \<Rightarrow> rope_builder option" where
  "builder_push_fragment b f was_visible = builder_push b (fr_len f) was_visible (fr_visible f)"

definition builder_push_str :: "rope_builder \<Rightarrow> str \<Rightarrow> rope_builder option" where
  "builder_push_str b s = do { r \<leftarrow> rope_push (new_visible b) s; Some (b\<lparr>new_visible := r\<rparr>) }"

definition builder_finish :: "rope_builder \<Rightarrow> (rope \<times> rope) option" where
  "builder_finish b = do {
     v \<leftarrow> rope_cursor_suffix (old_visible_cursor b);
     v \<leftarrow> rope_append (new_visible b) v;
     d \<leftarrow> rope_cursor_suffix (old_deleted_cursor b);
     d \<leftarrow> rope_append (new_deleted b) d;
     Some (v, d) }"

section \<open>The local variables of an edit\<close>

record 'd edit_state =
  es_cursor :: "(fragment, fragment_summary, 'd) cursor"
  es_fragments :: fragment_tree
  es_ropes :: rope_builder
  es_insertions :: "(insertion_fragment, insertion_fragment_key) edit list"
  es_slices :: "insertion_slice list"
  es_patch :: patch
  es_start :: nat
  es_insertion_offset :: nat

text \<open>A part of a fragment, and the three statements that add one to the indices, texts and fragments.\<close>

definition fragment_part :: "fragment \<Rightarrow> nat \<Rightarrow> nat \<Rightarrow> fragment" where
  "fragment_part f offset len = f\<lparr>fr_len := len, insertion_offset := insertion_offset f + offset\<rparr>"

definition push_part :: "fragment \<Rightarrow> bool \<Rightarrow> 'd edit_state \<Rightarrow> 'd edit_state option" where
  "push_part f was_visible st = do {
     ropes \<leftarrow> builder_push_fragment (es_ropes st) f was_visible;
     fs \<leftarrow> tree_push fragment_item (es_fragments st) f;
     Some (st\<lparr>es_insertions := es_insertions st @ [insert_new f], es_ropes := ropes, es_fragments := fs\<rparr>) }"

definition new_max_id :: "'d edit_state \<Rightarrow> locator" where
  "new_max_id st = fs_max_id (node_summary (es_fragments st))"

definition new_visible_len :: "'d edit_state \<Rightarrow> nat" where
  "new_visible_len st = fts_visible (fs_text (node_summary (es_fragments st)))"

definition push_insertion_fragment :: "lamport \<Rightarrow> locator \<Rightarrow> lamport \<Rightarrow> nat \<Rightarrow> 'd edit_state \<Rightarrow> 'd edit_state option" where
  "push_insertion_fragment timestamp next_id edit_timestamp chunk_len st = do {
     let f = \<lparr>fr_id = between (new_max_id st) next_id, fr_timestamp = timestamp, insertion_offset = es_insertion_offset st,
       fr_len = chunk_len, fr_visible = True, fr_deletions = [], max_undos = global_new\<rparr>;
     fs \<leftarrow> tree_push fragment_item (es_fragments st) f;
     Some (st\<lparr>es_slices := es_slices st @ [insertion_slice_from_fragment edit_timestamp f],
       es_insertions := es_insertions st @ [insert_new f], es_fragments := fs,
       es_insertion_offset := es_insertion_offset st + chunk_len\<rparr>) }"

function insertion_loop :: "str \<Rightarrow> lamport \<Rightarrow> locator \<Rightarrow> lamport \<Rightarrow> nat \<Rightarrow> 'd edit_state \<Rightarrow> 'd edit_state option" where
  "insertion_loop s timestamp next_id edit_timestamp text_offset st =
     (if length s \<le> text_offset then Some st
      else
        let target_end = min (length s) (text_offset + MAX_INSERTION_LEN);
            chunk_end = (if target_end = length s then target_end else str_floor_char_boundary s target_end)
        in if chunk_end = text_offset then Some st
           else if chunk_end < text_offset then None
           else do {
             st \<leftarrow> push_insertion_fragment timestamp next_id edit_timestamp (chunk_end - text_offset) st;
             insertion_loop s timestamp next_id edit_timestamp chunk_end st })"
  by pat_completeness auto
termination
  by (relation "measure (\<lambda>(s, _, _, _, text_offset, _). length s - text_offset)") auto

declare insertion_loop.simps [simp del]

definition push_fragments_for_insertion ::
  "str \<Rightarrow> lamport \<Rightarrow> locator \<Rightarrow> lamport \<Rightarrow> 'd edit_state \<Rightarrow> 'd edit_state option" where
  "push_fragments_for_insertion s timestamp next_id edit_timestamp st = do {
     st \<leftarrow> insertion_loop s timestamp next_id edit_timestamp 0 st;
     ropes \<leftarrow> builder_push_str (es_ropes st) s;
     Some (st\<lparr>es_ropes := ropes\<rparr>) }"

definition next_fragment_id :: "'d edit_state \<Rightarrow> locator option" where
  "next_fragment_id st = do {
     item \<leftarrow> cursor_item (es_cursor st);
     Some (case item of Some f \<Rightarrow> fr_id f | None \<Rightarrow> locator_max) }"

section \<open>Local edits\<close>

type_synonym local_state = "fragment_text_summary edit_state"

definition current_fragment :: "'d edit_state \<Rightarrow> fragment option" where
  "current_fragment st = do { item \<leftarrow> cursor_item (es_cursor st); item }"

definition local_fragment_start :: "local_state \<Rightarrow> nat" where
  "local_fragment_start st = fts_visible (cursor_start (es_cursor st))"

definition local_fragment_end :: "local_state \<Rightarrow> nat option" where
  "local_fragment_end st = do { e \<leftarrow> cursor_end fragment_text_dim (es_cursor st); Some (fts_visible e) }"

definition local_next :: "local_state \<Rightarrow> local_state option" where
  "local_next st = do { c \<leftarrow> cursor_next fragment_text_dim (es_cursor st); Some (st\<lparr>es_cursor := c\<rparr>) }"

text \<open>Consuming the rest of a fragment that has been partially consumed.\<close>

definition local_finish_fragment :: "local_state \<Rightarrow> local_state option" where
  "local_finish_fragment st =
     (if local_fragment_start st < es_start st then do {
        fragment_end \<leftarrow> local_fragment_end st;
        st \<leftarrow> (if es_start st < fragment_end then do {
            f \<leftarrow> current_fragment st;
            push_part (fragment_part f (es_start st - local_fragment_start st) (fragment_end - es_start st)) (fr_visible f) st }
          else Some st);
        local_next st }
      else Some st)"

definition local_advance :: "nat \<Rightarrow> local_state \<Rightarrow> local_state option" where
  "local_advance range_start st = do {
     fragment_end \<leftarrow> local_fragment_end st;
     if fragment_end < range_start then do {
       st \<leftarrow> local_finish_fragment st;
       (c, sl) \<leftarrow> slice fragment_item fragment_text_dim (visible_target range_start) Right (es_cursor st);
       ropes \<leftarrow> builder_append (es_ropes st) (fs_text (node_summary sl));
       fs \<leftarrow> tree_append fragment_item (es_fragments st) sl;
       Some (st\<lparr>es_cursor := c, es_ropes := ropes, es_fragments := fs, es_start := fts_visible (cursor_start c)\<rparr>) }
     else Some st }"

definition local_prefix :: "nat \<Rightarrow> local_state \<Rightarrow> local_state option" where
  "local_prefix range_start st =
     (if es_start st < range_start then do {
        f \<leftarrow> current_fragment st;
        let prefix = fragment_part f (es_start st - local_fragment_start st) (range_start - es_start st);
        let prefix = prefix\<lparr>fr_id := between (new_max_id st) (fr_id prefix)\<rparr>;
        st \<leftarrow> push_part prefix (fr_visible prefix) st;
        Some (st\<lparr>es_start := range_start\<rparr>) }
      else Some st)"

definition local_insert :: "lamport \<Rightarrow> str \<Rightarrow> local_state \<Rightarrow> local_state option" where
  "local_insert timestamp new_text st =
     (if new_text \<noteq> [] then do {
        let new_start = new_visible_len st;
        next_id \<leftarrow> next_fragment_id st;
        st \<leftarrow> push_fragments_for_insertion new_text timestamp next_id timestamp st;
        Some (st\<lparr>es_patch := patch_push (es_patch st)
          (mk_edit (es_start st) (es_start st) new_start (new_start + length new_text))\<rparr>) }
      else Some st)"

definition local_delete_step :: "lamport \<Rightarrow> nat \<Rightarrow> local_state \<Rightarrow> local_state option" where
  "local_delete_step timestamp range_end st = do {
     f \<leftarrow> current_fragment st;
     fragment_end \<leftarrow> local_fragment_end st;
     let intersection_end = min range_end fragment_end;
     let intersection =
       (if fr_visible f
        then (fragment_part f (es_start st - local_fragment_start st) (intersection_end - es_start st))
          \<lparr>fr_id := between (new_max_id st) (fr_id f), fr_deletions := fr_deletions f @ [timestamp], fr_visible := False\<rparr>
        else f);
     st \<leftarrow> (if 0 < fr_len intersection then do {
         let st = (if fr_visible f \<and> \<not> fr_visible intersection
           then st\<lparr>es_patch := patch_push (es_patch st) (mk_edit (es_start st) intersection_end (new_visible_len st) (new_visible_len st)),
             es_slices := es_slices st @ [insertion_slice_from_fragment timestamp intersection]\<rparr>
           else st);
         st \<leftarrow> push_part intersection (fr_visible f) st;
         Some (st\<lparr>es_start := intersection_end\<rparr>) }
       else Some st);
     if fragment_end \<le> range_end then local_next st else Some st }"

partial_function (option) local_delete :: "lamport \<Rightarrow> nat \<Rightarrow> local_state \<Rightarrow> local_state option" where
  "local_delete timestamp range_end st =
     (if es_start st < range_end then do {
        st \<leftarrow> local_delete_step timestamp range_end st;
        local_delete timestamp range_end st }
      else Some st)"

declare local_delete.simps [code]

definition local_edit_step ::
  "lamport \<Rightarrow> nat \<times> nat \<times> str \<Rightarrow> local_state \<Rightarrow> (local_state \<times> (full_offset \<times> full_offset) \<times> str) option" where
  "local_edit_step timestamp e st = do {
     let (range_start, range_end, new_text) = e;
     let new_text = line_ending_normalize new_text;
     st \<leftarrow> local_advance range_start st;
     let full_range_start = range_start + fts_deleted (cursor_start (es_cursor st));
     st \<leftarrow> local_prefix range_start st;
     st \<leftarrow> local_insert timestamp new_text st;
     st \<leftarrow> local_delete timestamp range_end st;
     let full_range_end = range_end + fts_deleted (cursor_start (es_cursor st));
     Some (st, (full_range_start, full_range_end), new_text) }"

fun local_edit_loop ::
  "lamport \<Rightarrow> (nat \<times> nat \<times> str) list \<Rightarrow> local_state \<Rightarrow> (local_state \<times> (full_offset \<times> full_offset) list \<times> str list) option" where
  "local_edit_loop timestamp [] st = Some (st, [], [])"
| "local_edit_loop timestamp (e # es) st = do {
     (st, range, new_text) \<leftarrow> local_edit_step timestamp e st;
     (st, ranges, new_texts) \<leftarrow> local_edit_loop timestamp es st;
     Some (st, range # ranges, new_text # new_texts) }"

definition usize_to_offset :: "rope \<Rightarrow> nat \<Rightarrow> nat option" where
  "usize_to_offset r n = do {
     ok \<leftarrow> rope_assert_char_boundary False r n;
     Some (if ok then n else rope_floor_char_boundary r n) }"

definition edit_to_offsets :: "rope \<Rightarrow> nat \<times> nat \<times> str \<Rightarrow> (nat \<times> nat \<times> str) option" where
  "edit_to_offsets r e = (case e of (s, e, new_text) \<Rightarrow> do {
     s \<leftarrow> usize_to_offset r s;
     e \<leftarrow> usize_to_offset r e;
     Some (s, e, new_text) })"

definition local_start :: "buffer_snapshot \<Rightarrow> nat \<Rightarrow> local_state option" where
  "local_start s first_start = do {
     v \<leftarrow> rope_cursor_new (visible_text s) 0;
     d \<leftarrow> rope_cursor_new (deleted_text s) 0;
     (c, new_fragments) \<leftarrow> slice fragment_item fragment_text_dim (visible_target first_start) Right
       (cursor_new fragment_text_dim (fragments s));
     ropes \<leftarrow> builder_append (builder_new v d) (fs_text (node_summary new_fragments));
     Some \<lparr>es_cursor = c, es_fragments = new_fragments, es_ropes = ropes, es_insertions = [], es_slices = [],
       es_patch = patch_empty, es_start = fts_visible (cursor_start c), es_insertion_offset = 0\<rparr> }"

definition local_finish :: "local_state \<Rightarrow> (local_state \<times> rope \<times> rope) option" where
  "local_finish st = do {
     st \<leftarrow> local_finish_fragment st;
     (c, sfx) \<leftarrow> suffix fragment_item fragment_text_dim (es_cursor st);
     ropes \<leftarrow> builder_append (es_ropes st) (fs_text (node_summary sfx));
     fs \<leftarrow> tree_append fragment_item (es_fragments st) sfx;
     (visible, deleted) \<leftarrow> builder_finish ropes;
     Some (st\<lparr>es_cursor := c, es_ropes := ropes, es_fragments := fs\<rparr>, visible, deleted) }"

text \<open>Storing the results of an edit in the buffer.\<close>

definition store_edit :: "buffer \<Rightarrow> 'd edit_state \<Rightarrow> rope \<Rightarrow> rope \<Rightarrow> buffer option" where
  "store_edit b st visible deleted = do {
     let s = snapshot b;
     (ins, _) \<leftarrow> tree_edit insertion_keyed (insertions s) (es_insertions st);
     subs \<leftarrow> publish (buf_subscriptions b) (es_patch st);
     slices \<leftarrow> set_extend (insertion_slices s) (es_slices st);
     Some (b\<lparr>snapshot := s\<lparr>fragments := es_fragments st, insertions := ins, visible_text := visible, deleted_text := deleted,
       insertion_slices := slices\<rparr>, buf_subscriptions := subs\<rparr>) }"

definition apply_local_edit :: "buffer \<Rightarrow> (nat \<times> nat \<times> str) list \<Rightarrow> lamport \<Rightarrow> (buffer \<times> edit_operation) option" where
  "apply_local_edit b edits timestamp = do {
     edits \<leftarrow> collect_options (map (edit_to_offsets (visible_text (snapshot b))) edits);
     (first_start, _) \<leftarrow> list_first edits;
     st \<leftarrow> local_start (snapshot b) first_start;
     (st, ranges, new_texts) \<leftarrow> local_edit_loop timestamp edits st;
     (st, visible, deleted) \<leftarrow> local_finish st;
     b' \<leftarrow> store_edit b st visible deleted;
     Some (b', \<lparr>op_timestamp = timestamp, op_version = snap_version (snapshot b), op_ranges = ranges, op_new_text = new_texts\<rparr>) }"

end
