(* ===== verification/Buffer_Undo.thy ===== *)
theory Buffer_Undo
  imports Buffer
begin

text \<open>
  Undoing edits: \<open>fragment_ids_for_edits\<close> and \<open>apply_undo\<close> of \<open>crates/text/src/text.rs\<close>.  The slices of the
  edits lead to entries of the index of insertions, those to the fragments whose visibility has to be
  computed again.  The local variables of \<open>apply_undo\<close> are those of an edit.
\<close>

section \<open>The fragments of an edit\<close>

text \<open>\<open>iter_from\<close> the least slice of an edit; the bound exceeds the number of slices.\<close>

definition slices_for_edit :: "buffer_snapshot \<Rightarrow> lamport \<Rightarrow> insertion_slice list option" where
  "slices_for_edit s edit_id = do {
     let insertion_slice = InsertionSlice (lamport_value edit_id) (lamport_replica edit_id)
       (lamport_value lamport_MIN) (lamport_replica lamport_MIN) 0 0;
     slices \<leftarrow> set_iter_from (insertion_slices s) insertion_slice (Suc (length (tree_items (insertion_slices s))));
     Some (takeWhile (\<lambda>sl. is_edit_id sl = edit_id) slices) }"

text \<open>The key of the sort: \<open>Reverse\<close> turns the order of the ends around.\<close>

definition slice_sort_key :: "insertion_slice \<Rightarrow> lamport \<times> nat \<times> int" where
  "slice_sort_key sl = (is_insertion_id sl, is_start sl, - int (is_end sl))"

type_synonym insertion_cursor = "(insertion_fragment, insertion_fragment_key, insertion_fragment_key) cursor"

partial_function (option) slice_items ::
  "insertion_slice \<Rightarrow> insertion_cursor \<Rightarrow> locator list \<Rightarrow> (insertion_cursor \<times> locator list) option" where
  "slice_items sl c ids = do {
     item \<leftarrow> cursor_item c;
     (case item of
        None \<Rightarrow> Some (c, ids)
      | Some i \<Rightarrow>
          if if_timestamp i \<noteq> is_insertion_id sl \<or> is_end sl \<le> if_split_offset i then Some (c, ids)
          else do {
            c' \<leftarrow> cursor_next (key_dim insertion_keyed) c;
            slice_items sl c' (ids @ [if_fragment_id i]) }) }"

declare slice_items.simps [code]

definition slice_fragments ::
  "insertion_slice \<Rightarrow> insertion_cursor \<times> locator list \<Rightarrow> (insertion_cursor \<times> locator list) option" where
  "slice_fragments sl st = do {
     let (c, ids) = st;
     c \<leftarrow> (if is_insertion_id sl \<noteq> fst (cursor_start c) \<or> snd (cursor_start c) < is_start sl
       then do {
         (c, _) \<leftarrow> seek_forward (key_dim insertion_keyed) (ord_target (is_insertion_id sl, is_start sl)) Left c;
         Some c }
       else Some c);
     slice_items sl c ids }"

fun slices_loop ::
  "insertion_slice list \<Rightarrow> insertion_cursor \<times> locator list \<Rightarrow> (insertion_cursor \<times> locator list) option" where
  "slices_loop [] st = Some st"
| "slices_loop (sl # sls) st = do { st \<leftarrow> slice_fragments sl st; slices_loop sls st }"

definition fragment_ids_for_edits :: "buffer_snapshot \<Rightarrow> lamport list \<Rightarrow> locator list option" where
  "fragment_ids_for_edits s edits = do {
     slices \<leftarrow> collect_options (map (slices_for_edit s) edits);
     let sorted_slices = sort_key slice_sort_key (concat slices);
     (_, fragment_ids) \<leftarrow> slices_loop sorted_slices (cursor_new (key_dim insertion_keyed) (insertions s), []);
     Some (sort fragment_ids) }"

section \<open>Applying an undo operation\<close>

definition undo_fragment_dim :: "(fragment_summary, locator option \<times> nat) dimension" where
  "undo_fragment_dim = dimensions2 fragment_locator_dim visible_dim"

type_synonym undo_state = "(locator option \<times> nat) edit_state"

definition undo_fragment :: "undo_map \<Rightarrow> lamport \<Rightarrow> fragment \<Rightarrow> undo_state \<Rightarrow> undo_state option" where
  "undo_fragment undos timestamp old st = do {
     visible \<leftarrow> fragment_is_visible old undos;
     let f = old\<lparr>fr_visible := visible, max_undos := global_observe (max_undos old) timestamp\<rparr>;
     let old_start = snd (cursor_start (es_cursor st));
     let new_start = new_visible_len st;
     let edits =
       (if fr_visible old \<and> \<not> visible
        then patch_push (es_patch st) (mk_edit old_start (old_start + fr_len f) new_start new_start)
        else if \<not> fr_visible old \<and> visible
        then patch_push (es_patch st) (mk_edit old_start old_start new_start (new_start + fr_len f))
        else es_patch st);
     ropes \<leftarrow> builder_push_fragment (es_ropes st) f (fr_visible old);
     fs \<leftarrow> tree_push fragment_item (es_fragments st) f;
     c \<leftarrow> cursor_next undo_fragment_dim (es_cursor st);
     Some (st\<lparr>es_cursor := c, es_fragments := fs, es_ropes := ropes, es_patch := edits\<rparr>) }"

definition undo_step :: "undo_map \<Rightarrow> lamport \<Rightarrow> locator \<Rightarrow> undo_state \<Rightarrow> undo_state option" where
  "undo_step undos timestamp fragment_id st = do {
     (c, preceding) \<leftarrow> slice fragment_item undo_fragment_dim (fst_target (ord_target (Some fragment_id))) Left (es_cursor st);
     ropes \<leftarrow> builder_append (es_ropes st) (fs_text (node_summary preceding));
     fs \<leftarrow> tree_append fragment_item (es_fragments st) preceding;
     let st = st\<lparr>es_cursor := c, es_fragments := fs, es_ropes := ropes\<rparr>;
     item \<leftarrow> cursor_item c;
     (case item of Some f \<Rightarrow> undo_fragment undos timestamp f st | None \<Rightarrow> Some st) }"

fun undo_loop_fragments :: "undo_map \<Rightarrow> lamport \<Rightarrow> locator list \<Rightarrow> undo_state \<Rightarrow> undo_state option" where
  "undo_loop_fragments undos timestamp [] st = Some st"
| "undo_loop_fragments undos timestamp (l # ls) st = do {
     st \<leftarrow> undo_step undos timestamp l st;
     undo_loop_fragments undos timestamp ls st }"

definition undo_start :: "buffer_snapshot \<Rightarrow> undo_state option" where
  "undo_start s = do {
     v \<leftarrow> rope_cursor_new (visible_text s) 0;
     d \<leftarrow> rope_cursor_new (deleted_text s) 0;
     Some \<lparr>es_cursor = cursor_new undo_fragment_dim (fragments s), es_fragments = tree_new fragment_item, es_ropes = builder_new v d,
       es_insertions = [], es_slices = [], es_patch = patch_empty, es_start = 0, es_insertion_offset = 0\<rparr> }"

definition undo_finish :: "undo_state \<Rightarrow> (undo_state \<times> rope \<times> rope) option" where
  "undo_finish st = do {
     (c, sfx) \<leftarrow> suffix fragment_item undo_fragment_dim (es_cursor st);
     ropes \<leftarrow> builder_append (es_ropes st) (fs_text (node_summary sfx));
     fs \<leftarrow> tree_append fragment_item (es_fragments st) sfx;
     (visible, deleted) \<leftarrow> builder_finish ropes;
     Some (st\<lparr>es_cursor := c, es_ropes := ropes, es_fragments := fs\<rparr>, visible, deleted) }"

definition apply_undo :: "buffer \<Rightarrow> undo_operation \<Rightarrow> buffer option" where
  "apply_undo b undo = do {
     undos \<leftarrow> undo_map_insert (snap_undo_map (snapshot b)) undo;
     let s = (snapshot b)\<lparr>snap_undo_map := undos\<rparr>;
     st \<leftarrow> undo_start s;
     ids \<leftarrow> fragment_ids_for_edits s (map fst (undo_counts undo));
     st \<leftarrow> undo_loop_fragments undos (undo_timestamp undo) ids st;
     (st, visible, deleted) \<leftarrow> undo_finish st;
     subs \<leftarrow> publish (buf_subscriptions b) (es_patch st);
     Some (b\<lparr>snapshot := s\<lparr>fragments := es_fragments st, visible_text := visible, deleted_text := deleted\<rparr>,
       buf_subscriptions := subs\<rparr>) }"

end
