(* ===== verification/Buffer_Remote.thy ===== *)
theory Buffer_Remote
  imports Buffer
begin

text \<open>
  Applying the edit of another replica, \<open>apply_remote_edit\<close> of \<open>crates/text/src/text.rs\<close>.  Its ranges are offsets in the
  text, visible and deleted, of the version it was made at; the cursor measures fragments by that version.
  A subtraction of offsets whose result would be negative is a failure.
\<close>

section \<open>Positions\<close>

definition remote_dim :: "global \<Rightarrow> (fragment_summary, versioned_full_offset \<times> nat) dimension" where
  "remote_dim version = dimensions2 (versioned_dim version) visible_dim"

type_synonym remote_state = "(versioned_full_offset \<times> nat) edit_state"

definition offset_sub :: "nat \<Rightarrow> nat \<Rightarrow> nat option" where
  "offset_sub a b = (if b \<le> a then Some (a - b) else None)"

definition remote_fragment_start :: "remote_state \<Rightarrow> nat option" where
  "remote_fragment_start st = full_offset_of (fst (cursor_start (es_cursor st)))"

definition remote_fragment_end :: "global \<Rightarrow> remote_state \<Rightarrow> nat option" where
  "remote_fragment_end version st = do {
     e \<leftarrow> cursor_end (remote_dim version) (es_cursor st);
     full_offset_of (fst e) }"

definition remote_next :: "global \<Rightarrow> remote_state \<Rightarrow> remote_state option" where
  "remote_next version st = do { c \<leftarrow> cursor_next (remote_dim version) (es_cursor st); Some (st\<lparr>es_cursor := c\<rparr>) }"

text \<open>The part of the current fragment from \<open>fragment_start\<close> up to an offset.\<close>

definition remote_part :: "nat \<Rightarrow> remote_state \<Rightarrow> fragment option" where
  "remote_part to_offset st = do {
     f \<leftarrow> current_fragment st;
     start \<leftarrow> remote_fragment_start st;
     len \<leftarrow> offset_sub to_offset (es_start st);
     offset \<leftarrow> offset_sub (es_start st) start;
     Some (fragment_part f offset len) }"

section \<open>Steps of an edit\<close>

definition remote_finish_fragment :: "global \<Rightarrow> remote_state \<Rightarrow> remote_state option" where
  "remote_finish_fragment version st = do {
     start \<leftarrow> remote_fragment_start st;
     if start < es_start st then do {
       fragment_end \<leftarrow> remote_fragment_end version st;
       st \<leftarrow> (if es_start st < fragment_end then do {
           f \<leftarrow> remote_part fragment_end st;
           push_part f (fr_visible f) st }
         else Some st);
       remote_next version st }
     else Some st }"

definition remote_target :: "nat \<Rightarrow> versioned_full_offset \<times> nat \<Rightarrow> ordering" where
  "remote_target n = fst_target (versioned_target n)"

definition remote_advance :: "global \<Rightarrow> nat \<Rightarrow> remote_state \<Rightarrow> remote_state option" where
  "remote_advance version range_start st = do {
     fragment_end \<leftarrow> remote_fragment_end version st;
     if fragment_end < range_start then do {
       st \<leftarrow> remote_finish_fragment version st;
       (c, sl) \<leftarrow> slice fragment_item (remote_dim version) (remote_target range_start) Left (es_cursor st);
       ropes \<leftarrow> builder_append (es_ropes st) (fs_text (node_summary sl));
       fs \<leftarrow> tree_append fragment_item (es_fragments st) sl;
       start \<leftarrow> full_offset_of (fst (cursor_start c));
       Some (st\<lparr>es_cursor := c, es_ropes := ropes, es_fragments := fs, es_start := start\<rparr>) }
     else Some st }"

text \<open>At the end of a fragment the edit has seen, advance to the next one.\<close>

definition remote_pass_end :: "global \<Rightarrow> nat \<Rightarrow> remote_state \<Rightarrow> remote_state option" where
  "remote_pass_end version range_start st = do {
     fragment_end \<leftarrow> remote_fragment_end version st;
     if fragment_end = range_start \<and> es_start st < fragment_end then do {
       f \<leftarrow> remote_part fragment_end st;
       st \<leftarrow> push_part f (fr_visible f) st;
       st \<leftarrow> remote_next version st;
       start \<leftarrow> remote_fragment_start st;
       Some (st\<lparr>es_start := start\<rparr>) }
     else Some st }"

text \<open>Insertions at the same place that the edit has not seen and that have a greater timestamp come first.\<close>

partial_function (option) remote_skip :: "global \<Rightarrow> lamport \<Rightarrow> nat \<Rightarrow> remote_state \<Rightarrow> remote_state option" where
  "remote_skip version timestamp range_start st = do {
     item \<leftarrow> cursor_item (es_cursor st);
     (case item of
        None \<Rightarrow> Some st
      | Some f \<Rightarrow>
          if es_start st = range_start \<and> timestamp < fr_timestamp f then do {
            ropes \<leftarrow> builder_push_fragment (es_ropes st) f (fr_visible f);
            fs \<leftarrow> tree_push fragment_item (es_fragments st) f;
            c \<leftarrow> cursor_next (remote_dim version) (es_cursor st);
            remote_skip version timestamp range_start (st\<lparr>es_cursor := c, es_ropes := ropes, es_fragments := fs\<rparr>) }
          else Some st) }"

declare remote_skip.simps [code]

definition remote_prefix :: "nat \<Rightarrow> remote_state \<Rightarrow> remote_state option" where
  "remote_prefix range_start st =
     (if es_start st < range_start then do {
        prefix \<leftarrow> remote_part range_start st;
        let prefix = prefix\<lparr>fr_id := between (new_max_id st) (fr_id prefix)\<rparr>;
        st \<leftarrow> push_part prefix (fr_visible prefix) st;
        Some (st\<lparr>es_start := range_start\<rparr>) }
      else Some st)"

definition remote_insert :: "lamport \<Rightarrow> str \<Rightarrow> remote_state \<Rightarrow> remote_state option" where
  "remote_insert timestamp new_text st =
     (if new_text \<noteq> [] then do {
        item \<leftarrow> cursor_item (es_cursor st);
        let old_start = snd (cursor_start (es_cursor st));
        old_start \<leftarrow> (case item of
            Some f \<Rightarrow>
              if fr_visible f then do {
                start \<leftarrow> remote_fragment_start st;
                offset \<leftarrow> offset_sub (es_start st) start;
                Some (old_start + offset) }
              else Some old_start
          | None \<Rightarrow> Some old_start);
        let new_start = new_visible_len st;
        next_id \<leftarrow> next_fragment_id st;
        st \<leftarrow> push_fragments_for_insertion new_text timestamp next_id timestamp st;
        Some (st\<lparr>es_patch := patch_push (es_patch st) (mk_edit old_start old_start new_start (new_start + length new_text))\<rparr>) }
      else Some st)"

definition remote_intersection ::
  "undo_map \<Rightarrow> global \<Rightarrow> lamport \<Rightarrow> fragment \<Rightarrow> nat \<Rightarrow> remote_state \<Rightarrow> (fragment \<times> insertion_slice list) option" where
  "remote_intersection undos version timestamp f intersection_end st =
     (if global_observed version (fr_timestamp f) then do {
        part \<leftarrow> remote_part intersection_end st;
        let part = part\<lparr>fr_id := between (new_max_id st) (fr_id part)\<rparr>;
        was \<leftarrow> fragment_was_visible f version undos;
        Some (if was
              then let part = part\<lparr>fr_deletions := fr_deletions part @ [timestamp], fr_visible := False\<rparr>
                   in (part, [insertion_slice_from_fragment timestamp part])
              else (part, [])) }
      else Some (f, []))"

definition remote_delete_step :: "undo_map \<Rightarrow> global \<Rightarrow> lamport \<Rightarrow> nat \<Rightarrow> remote_state \<Rightarrow> remote_state option" where
  "remote_delete_step undos version timestamp range_end st = do {
     f \<leftarrow> current_fragment st;
     fragment_end \<leftarrow> remote_fragment_end version st;
     let intersection_end = min range_end fragment_end;
     (intersection, slices) \<leftarrow> remote_intersection undos version timestamp f intersection_end st;
     let st = st\<lparr>es_slices := es_slices st @ slices\<rparr>;
     st \<leftarrow> (if 0 < fr_len intersection then do {
         st \<leftarrow> (if fr_visible f \<and> \<not> fr_visible intersection then do {
             start \<leftarrow> remote_fragment_start st;
             offset \<leftarrow> offset_sub (es_start st) start;
             let old_start = snd (cursor_start (es_cursor st)) + offset;
             let new_start = new_visible_len st;
             Some (st\<lparr>es_patch := patch_push (es_patch st)
               (mk_edit old_start (old_start + fr_len intersection) new_start new_start)\<rparr>) }
           else Some st);
         st \<leftarrow> push_part intersection (fr_visible f) st;
         Some (st\<lparr>es_start := intersection_end\<rparr>) }
       else Some st);
     if fragment_end \<le> range_end then remote_next version st else Some st }"

partial_function (option) remote_delete :: "undo_map \<Rightarrow> global \<Rightarrow> lamport \<Rightarrow> nat \<Rightarrow> remote_state \<Rightarrow> remote_state option" where
  "remote_delete undos version timestamp range_end st =
     (if es_start st < range_end then do {
        st \<leftarrow> remote_delete_step undos version timestamp range_end st;
        remote_delete undos version timestamp range_end st }
      else Some st)"

declare remote_delete.simps [code]

definition remote_edit_step ::
  "undo_map \<Rightarrow> global \<Rightarrow> lamport \<Rightarrow> (full_offset \<times> full_offset) \<times> str \<Rightarrow> remote_state \<Rightarrow> remote_state option" where
  "remote_edit_step undos version timestamp e st = do {
     let ((range_start, range_end), new_text) = e;
     st \<leftarrow> remote_advance version range_start st;
     st \<leftarrow> remote_pass_end version range_start st;
     st \<leftarrow> remote_skip version timestamp range_start st;
     st \<leftarrow> remote_prefix range_start st;
     st \<leftarrow> remote_insert timestamp new_text st;
     remote_delete undos version timestamp range_end st }"

fun remote_edit_loop ::
  "undo_map \<Rightarrow> global \<Rightarrow> lamport \<Rightarrow> ((full_offset \<times> full_offset) \<times> str) list \<Rightarrow> remote_state \<Rightarrow> remote_state option" where
  "remote_edit_loop undos version timestamp [] st = Some st"
| "remote_edit_loop undos version timestamp (e # es) st = do {
     st \<leftarrow> remote_edit_step undos version timestamp e st;
     remote_edit_loop undos version timestamp es st }"

definition remote_start :: "buffer_snapshot \<Rightarrow> global \<Rightarrow> full_offset \<Rightarrow> remote_state option" where
  "remote_start s version first_start = do {
     v \<leftarrow> rope_cursor_new (visible_text s) 0;
     d \<leftarrow> rope_cursor_new (deleted_text s) 0;
     (c, new_fragments) \<leftarrow> slice fragment_item (remote_dim version) (remote_target first_start) Left
       (cursor_new (remote_dim version) (fragments s));
     ropes \<leftarrow> builder_append (builder_new v d) (fs_text (node_summary new_fragments));
     start \<leftarrow> full_offset_of (fst (cursor_start c));
     Some \<lparr>es_cursor = c, es_fragments = new_fragments, es_ropes = ropes, es_insertions = [], es_slices = [],
       es_patch = patch_empty, es_start = start, es_insertion_offset = 0\<rparr> }"

definition remote_finish :: "global \<Rightarrow> remote_state \<Rightarrow> (remote_state \<times> rope \<times> rope) option" where
  "remote_finish version st = do {
     st \<leftarrow> remote_finish_fragment version st;
     (c, sfx) \<leftarrow> suffix fragment_item (remote_dim version) (es_cursor st);
     ropes \<leftarrow> builder_append (es_ropes st) (fs_text (node_summary sfx));
     fs \<leftarrow> tree_append fragment_item (es_fragments st) sfx;
     (visible, deleted) \<leftarrow> builder_finish ropes;
     Some (st\<lparr>es_cursor := c, es_ropes := ropes, es_fragments := fs\<rparr>, visible, deleted) }"

definition apply_remote_edit ::
  "buffer \<Rightarrow> global \<Rightarrow> (full_offset \<times> full_offset) list \<Rightarrow> str list \<Rightarrow> lamport \<Rightarrow> buffer option" where
  "apply_remote_edit b version ranges new_text timestamp =
     (case ranges of
        [] \<Rightarrow> Some b
      | (first_start, _) # _ \<Rightarrow> do {
          st \<leftarrow> remote_start (snapshot b) version first_start;
          st \<leftarrow> remote_edit_loop (snap_undo_map (snapshot b)) version timestamp (zip ranges new_text) st;
          (st, visible, deleted) \<leftarrow> remote_finish version st;
          store_edit b st visible deleted })"

end
