(* ===== verification/Buffer_Ops.thy ===== *)
theory Buffer_Ops
  imports Buffer_Undo Buffer_Remote
begin

text \<open>
  The methods of \<open>Buffer\<close> in \<open>crates/text/src/text.rs\<close>: construction, transactions, edits, undo and redo, the
  operations of other replicas and their deferral, and the tasks that wait for them.  \<open>Instant::now()\<close> is an
  argument, and so is the number of the first channel that a method makes.  A method that only
  forwards to the history has the name of the method it calls with \<open>buffer_\<close> before it.
\<close>

section \<open>Construction\<close>

record new_state =
  ns_fragments :: fragment_tree
  ns_insertions :: insertion_tree
  ns_insertion_offset :: nat
  ns_prev_locator :: locator

definition base_fragment :: "lamport \<Rightarrow> nat \<Rightarrow> new_state \<Rightarrow> fragment" where
  "base_fragment insertion_timestamp chunk_len st =
     \<lparr>fr_id = between (ns_prev_locator st) locator_max, fr_timestamp = insertion_timestamp,
      insertion_offset = ns_insertion_offset st, fr_len = chunk_len, fr_visible = True, fr_deletions = [], max_undos = global_new\<rparr>"

definition push_base_fragment :: "lamport \<Rightarrow> nat \<Rightarrow> new_state \<Rightarrow> new_state option" where
  "push_base_fragment insertion_timestamp chunk_len st = do {
     let f = base_fragment insertion_timestamp chunk_len st;
     insertions \<leftarrow> tree_push insertion_item (ns_insertions st) (insertion_fragment_new f);
     fragments \<leftarrow> tree_push fragment_item (ns_fragments st) f;
     Some \<lparr>ns_fragments = fragments, ns_insertions = insertions, ns_insertion_offset = ns_insertion_offset st + chunk_len,
       ns_prev_locator = fr_id f\<rparr> }"

partial_function (option) new_loop :: "rope \<Rightarrow> lamport \<Rightarrow> nat \<Rightarrow> new_state \<Rightarrow> new_state option" where
  "new_loop r insertion_timestamp text_offset st =
     (if text_offset < rope_len r then do {
        let target_end = min (rope_len r) (text_offset + MAX_INSERTION_LEN);
        let chunk_end = (if target_end = rope_len r then target_end else rope_floor_char_boundary r target_end);
        assert_that (text_offset \<le> chunk_end);
        st \<leftarrow> push_base_fragment insertion_timestamp (chunk_end - text_offset) st;
        new_loop r insertion_timestamp chunk_end st }
      else Some st)"

declare new_loop.simps [code]

definition new_state_empty :: new_state where
  "new_state_empty = \<lparr>ns_fragments = tree_new fragment_item, ns_insertions = tree_new insertion_item, ns_insertion_offset = 0,
     ns_prev_locator = locator_min\<rparr>"

definition new_normalized :: "replica_id \<Rightarrow> buffer_id \<Rightarrow> line_ending \<Rightarrow> rope \<Rightarrow> buffer option" where
  "new_normalized replica_id bid line_ending normalized = do {
     let insertion_timestamp = lamport_new LOCAL;
     st \<leftarrow> (if rope_is_empty normalized then Some new_state_empty
       else new_loop normalized insertion_timestamp 0 new_state_empty);
     let clock = lamport_new replica_id;
     let clock = (if rope_is_empty normalized then clock else lamport_observe clock insertion_timestamp);
     let version = (if rope_is_empty normalized then global_new else global_observe global_new insertion_timestamp);
     Some \<lparr>snapshot = \<lparr>visible_text = normalized, deleted_text = rope_new, fragments = ns_fragments st, insertions = ns_insertions st,
         insertion_slices = map_default, snap_undo_map = undo_map_default, snap_version = version, remote_id = bid,
         snap_replica_id = replica_id, snap_line_ending = line_ending\<rparr>,
       buf_history = history_new normalized, deferred_ops = queue_new operation_timestamp, deferred_replicas = {}, lamport_clock = clock,
       buf_subscriptions = topic_default, edit_id_resolvers = [], wait_for_version_txs = [], notified = []\<rparr> }"

definition buffer_new :: "replica_id \<Rightarrow> buffer_id \<Rightarrow> str \<Rightarrow> buffer option" where
  "buffer_new replica_id bid text = do {
     r \<leftarrow> rope_from_str (line_ending_normalize text);
     new_normalized replica_id bid (line_ending_detect text) r }"

definition branch :: "buffer \<Rightarrow> buffer" where
  "branch b = \<lparr>snapshot = snapshot b, buf_history = history_new (base_text (buf_history b)), deferred_ops = queue_new operation_timestamp,
     deferred_replicas = {}, lamport_clock = lamport_new LOCAL_BRANCH, buf_subscriptions = topic_default, edit_id_resolvers = [],
     wait_for_version_txs = [], notified = []\<rparr>"

definition set_line_ending :: "line_ending \<Rightarrow> buffer \<Rightarrow> buffer" where
  "set_line_ending e b = b\<lparr>snapshot := (snapshot b)\<lparr>snap_line_ending := e\<rparr>\<rparr>"

section \<open>Transactions\<close>

definition start_transaction_at :: "instant \<Rightarrow> buffer \<Rightarrow> buffer \<times> transaction_id option" where
  "start_transaction_at now b =
     (let (h, clock, tid) = start_transaction (buf_history b) (snap_version (snapshot b)) now (lamport_clock b)
      in (b\<lparr>buf_history := h, lamport_clock := clock\<rparr>, tid))"

definition end_transaction_at :: "instant \<Rightarrow> buffer \<Rightarrow> (buffer \<times> (transaction_id \<times> global) option) option" where
  "end_transaction_at now b = do {
     (h, entry) \<leftarrow> end_transaction (buf_history b) now;
     (case entry of
        Some entry \<Rightarrow> do {
          (h, tid) \<leftarrow> group h;
          tid \<leftarrow> tid;
          Some (b\<lparr>buf_history := h\<rparr>, Some (tid, tr_start (transaction_of entry))) }
      | None \<Rightarrow> Some (b\<lparr>buf_history := h\<rparr>, None)) }"

definition on_history :: "(rope history \<Rightarrow> (rope history \<times> 'a) option) \<Rightarrow> buffer \<Rightarrow> (buffer \<times> 'a) option" where
  "on_history f b = do { (h, x) \<leftarrow> f (buf_history b); Some (b\<lparr>buf_history := h\<rparr>, x) }"

definition buffer_finalize_last_transaction :: "buffer \<Rightarrow> (buffer \<times> transaction option) option" where
  "buffer_finalize_last_transaction = on_history (\<lambda>h. Some (finalize_last_transaction h))"

definition group_until_transaction :: "transaction_id \<Rightarrow> buffer \<Rightarrow> buffer option" where
  "group_until_transaction tid b = do { h \<leftarrow> group_until (buf_history b) tid; Some (b\<lparr>buf_history := h\<rparr>) }"

definition forget_transaction :: "transaction_id \<Rightarrow> buffer \<Rightarrow> (buffer \<times> transaction option) option" where
  "forget_transaction tid = on_history (\<lambda>h. forget h tid)"

definition get_transaction :: "transaction_id \<Rightarrow> buffer \<Rightarrow> transaction option" where
  "get_transaction tid b = history_transaction (buf_history b) tid"

definition buffer_merge_transactions :: "transaction_id \<Rightarrow> transaction_id \<Rightarrow> buffer \<Rightarrow> buffer option" where
  "buffer_merge_transactions t destination b = do {
     h \<leftarrow> merge_transactions (buf_history b) t destination;
     Some (b\<lparr>buf_history := h\<rparr>) }"

definition buffer_push_transaction :: "transaction \<Rightarrow> instant \<Rightarrow> buffer \<Rightarrow> buffer option" where
  "buffer_push_transaction t now b = do { h \<leftarrow> push_transaction (buf_history b) t now; Some (b\<lparr>buf_history := h\<rparr>) }"

definition buffer_push_empty_transaction :: "instant \<Rightarrow> buffer \<Rightarrow> (buffer \<times> transaction_id) option" where
  "buffer_push_empty_transaction now b = do {
     (h, clock, tid) \<leftarrow> push_empty_transaction (buf_history b) (snap_version (snapshot b)) now (lamport_clock b);
     Some (b\<lparr>buf_history := h, lamport_clock := clock\<rparr>, tid) }"

definition set_group_interval :: "duration \<Rightarrow> buffer \<Rightarrow> buffer" where
  "set_group_interval interval b = b\<lparr>buf_history := (buf_history b)\<lparr>group_interval := interval\<rparr>\<rparr>"

section \<open>Edits\<close>

definition observe_version :: "lamport \<Rightarrow> buffer \<Rightarrow> buffer" where
  "observe_version ts b = b\<lparr>snapshot := (snapshot b)\<lparr>snap_version := global_observe (snap_version (snapshot b)) ts\<rparr>\<rparr>"

definition buffer_edit :: "instant \<Rightarrow> instant \<Rightarrow> (nat \<times> nat \<times> str) list \<Rightarrow> buffer \<Rightarrow> (buffer \<times> operation) option" where
  "buffer_edit start_now end_now edits b = do {
     let (b, _) = start_transaction_at start_now b;
     let (clock, timestamp) = tick (lamport_clock b);
     let b = b\<lparr>lamport_clock := clock\<rparr>;
     (b, op) \<leftarrow> apply_local_edit b edits timestamp;
     let operation = EditOp op;
     h \<leftarrow> history_push (buf_history b) operation;
     h \<leftarrow> push_undo h (operation_timestamp operation);
     let b = observe_version (operation_timestamp operation) (b\<lparr>buf_history := h\<rparr>);
     (b, _) \<leftarrow> end_transaction_at end_now b;
     Some (b, operation) }"

section \<open>Undo and redo\<close>

definition undo_operations :: "(lamport \<times> u32) list \<Rightarrow> buffer \<Rightarrow> (buffer \<times> operation) option" where
  "undo_operations counts b = do {
     let (clock, timestamp) = tick (lamport_clock b);
     let version = snap_version (snapshot b);
     let b = observe_version timestamp (b\<lparr>lamport_clock := clock\<rparr>);
     let undo = \<lparr>undo_timestamp = timestamp, undo_version = version, undo_counts = counts\<rparr>;
     b \<leftarrow> apply_undo b undo;
     Some (b, UndoOp undo) }"

definition saturating_inc :: "u32 \<Rightarrow> u32" where
  "saturating_inc n = (if n = - 1 then n else n + 1)"

text \<open>The hash map of counts: inserting an edit again gives the same count, and the order does not matter, since
  \<open>apply_undo\<close> sorts what it looks up.\<close>

definition next_undo_count :: "undo_map \<Rightarrow> lamport \<Rightarrow> (lamport \<times> u32) option" where
  "next_undo_count m e = do { n \<leftarrow> undo_count m e; Some (e, saturating_inc n) }"

definition undo_or_redo :: "transaction \<Rightarrow> buffer \<Rightarrow> (buffer \<times> operation) option" where
  "undo_or_redo t b = do {
     counts \<leftarrow> collect_options (map (next_undo_count (snap_undo_map (snapshot b))) (remdups (edit_ids t)));
     (b, operation) \<leftarrow> undo_operations counts b;
     h \<leftarrow> history_push (buf_history b) operation;
     Some (b\<lparr>buf_history := h\<rparr>, operation) }"

fun undo_or_redo_all :: "transaction list \<Rightarrow> buffer \<Rightarrow> (buffer \<times> operation list) option" where
  "undo_or_redo_all [] b = Some (b, [])"
| "undo_or_redo_all (t # ts) b = do {
     (b, operation) \<leftarrow> undo_or_redo t b;
     (b, ops) \<leftarrow> undo_or_redo_all ts b;
     Some (b, operation # ops) }"

definition undo_entry :: "history_entry option \<Rightarrow> buffer \<Rightarrow> (buffer \<times> (transaction_id \<times> operation) option) option" where
  "undo_entry entry b =
     (case entry of
        Some entry \<Rightarrow> do {
          (b, op) \<leftarrow> undo_or_redo (transaction_of entry) b;
          Some (b, Some (entry_id entry, op)) }
      | None \<Rightarrow> Some (b, None))"

definition buffer_undo :: "buffer \<Rightarrow> (buffer \<times> (transaction_id \<times> operation) option) option" where
  "buffer_undo b = do { (b, entry) \<leftarrow> on_history pop_undo b; undo_entry entry b }"

definition buffer_redo :: "buffer \<Rightarrow> (buffer \<times> (transaction_id \<times> operation) option) option" where
  "buffer_redo b = do { (b, entry) \<leftarrow> on_history pop_redo b; undo_entry entry b }"

definition undo_transaction :: "transaction_id \<Rightarrow> buffer \<Rightarrow> (buffer \<times> operation option) option" where
  "undo_transaction tid b = do {
     (b, entry) \<leftarrow> on_history (\<lambda>h. remove_from_undo h tid) b;
     (b, r) \<leftarrow> undo_entry entry b;
     Some (b, map_option snd r) }"

definition undo_to_transaction :: "transaction_id \<Rightarrow> buffer \<Rightarrow> (buffer \<times> operation list) option" where
  "undo_to_transaction tid b = do {
     (b, entries) \<leftarrow> on_history (\<lambda>h. remove_from_undo_until h tid) b;
     undo_or_redo_all (map transaction_of entries) b }"

definition redo_to_transaction :: "transaction_id \<Rightarrow> buffer \<Rightarrow> (buffer \<times> operation list) option" where
  "redo_to_transaction tid b = do {
     (b, entries) \<leftarrow> on_history (\<lambda>h. remove_from_redo h tid) b;
     undo_or_redo_all (map transaction_of entries) b }"

section \<open>Operations of other replicas\<close>

fun operation_replica_id :: "operation \<Rightarrow> replica_id" where
  "operation_replica_id op = lamport_replica (operation_timestamp op)"

fun operation_version :: "operation \<Rightarrow> global" where
  "operation_version (EditOp e) = op_version e"
| "operation_version (UndoOp u) = undo_version u"

definition can_apply_op :: "buffer \<Rightarrow> operation \<Rightarrow> bool" where
  "can_apply_op b op \<longleftrightarrow>
     (if operation_replica_id op \<in> deferred_replicas b then False
      else observed_all (snap_version (snapshot b)) (operation_version op))"

definition resolve_edit :: "lamport \<Rightarrow> buffer \<Rightarrow> buffer" where
  "resolve_edit edit_id b =
     b\<lparr>edit_id_resolvers := filter (\<lambda>(e, _). e \<noteq> edit_id) (edit_id_resolvers b),
       notified := notified b @ concat (map snd (filter (\<lambda>(e, _). e = edit_id) (edit_id_resolvers b)))\<rparr>"

definition notify_version :: "buffer \<Rightarrow> buffer" where
  "notify_version b =
     (let observed = (\<lambda>(version, _). observed_all (snap_version (snapshot b)) version)
      in b\<lparr>wait_for_version_txs := filter (\<lambda>w. \<not> observed w) (wait_for_version_txs b),
           notified := notified b @ map snd (filter observed (wait_for_version_txs b))\<rparr>)"

definition observe_clock :: "lamport \<Rightarrow> buffer \<Rightarrow> buffer" where
  "observe_clock ts b = b\<lparr>lamport_clock := lamport_observe (lamport_clock b) ts\<rparr>"

definition apply_op :: "operation \<Rightarrow> buffer \<Rightarrow> buffer option" where
  "apply_op op b = do {
     b \<leftarrow> (case op of
         EditOp e \<Rightarrow>
           if \<not> global_observed (snap_version (snapshot b)) (op_timestamp e) then do {
             b \<leftarrow> apply_remote_edit b (op_version e) (op_ranges e) (op_new_text e) (op_timestamp e);
             Some (resolve_edit (op_timestamp e) (observe_clock (op_timestamp e) (observe_version (op_timestamp e) b))) }
           else Some b
       | UndoOp u \<Rightarrow>
           if \<not> global_observed (snap_version (snapshot b)) (undo_timestamp u) then do {
             b \<leftarrow> apply_undo b u;
             Some (observe_clock (undo_timestamp u) (observe_version (undo_timestamp u) b)) }
           else Some b);
     Some (notify_version b) }"

text \<open>One operation: applied, or its replica deferred and the operation added to the vector.\<close>

definition apply_or_defer :: "operation \<Rightarrow> buffer \<times> operation list \<Rightarrow> (buffer \<times> operation list) option" where
  "apply_or_defer op st =
     (case st of (b, deferred) \<Rightarrow>
        if can_apply_op b op then do { b \<leftarrow> apply_op op b; Some (b, deferred) }
        else Some (b\<lparr>deferred_replicas := insert (operation_replica_id op) (deferred_replicas b)\<rparr>, deferred @ [op]))"

fun flush_loop :: "operation list \<Rightarrow> buffer \<times> operation list \<Rightarrow> (buffer \<times> operation list) option" where
  "flush_loop [] st = Some st"
| "flush_loop (op # ops) st = do { st \<leftarrow> apply_or_defer op st; flush_loop ops st }"

definition insert_deferred :: "buffer \<times> operation list \<Rightarrow> buffer option" where
  "insert_deferred st = (case st of (b, deferred) \<Rightarrow> do {
     q \<leftarrow> queue_insert operation_timestamp (deferred_ops b) deferred;
     Some (b\<lparr>deferred_ops := q\<rparr>) })"

definition flush_deferred_ops :: "buffer \<Rightarrow> buffer option" where
  "flush_deferred_ops b = do {
     let (rest, drained) = queue_drain operation_timestamp (deferred_ops b);
     ops \<leftarrow> queue_iter drained (Suc (queue_len drained));
     st \<leftarrow> flush_loop ops (b\<lparr>deferred_replicas := {}, deferred_ops := rest\<rparr>, []);
     insert_deferred st }"

fun apply_ops_loop :: "operation list \<Rightarrow> buffer \<times> operation list \<Rightarrow> (buffer \<times> operation list) option" where
  "apply_ops_loop [] st = Some st"
| "apply_ops_loop (op # ops) st = do {
     let (b, deferred) = st;
     h \<leftarrow> history_push (buf_history b) op;
     st \<leftarrow> apply_or_defer op (b\<lparr>buf_history := h\<rparr>, deferred);
     apply_ops_loop ops st }"

definition apply_ops :: "operation list \<Rightarrow> buffer \<Rightarrow> buffer option" where
  "apply_ops ops b = do {
     st \<leftarrow> apply_ops_loop ops (b, []);
     b \<leftarrow> insert_deferred st;
     flush_deferred_ops b }"

definition has_deferred_ops :: "buffer \<Rightarrow> bool" where
  "has_deferred_ops b \<longleftrightarrow> \<not> queue_is_empty (deferred_ops b)"

section \<open>Waiting\<close>

definition buffer_subscribe :: "buffer \<Rightarrow> nat \<times> buffer" where
  "buffer_subscribe b = (let (n, t) = subscribe (buf_subscriptions b) in (n, b\<lparr>buf_subscriptions := t\<rparr>))"

text \<open>\<open>entry(edit_id).or_default().push(tx)\<close>\<close>

fun add_resolver :: "lamport \<Rightarrow> nat \<Rightarrow> (lamport \<times> nat list) list \<Rightarrow> (lamport \<times> nat list) list" where
  "add_resolver e tx [] = [(e, [tx])]"
| "add_resolver e tx ((k, txs) # rs) = (if k = e then (k, txs @ [tx]) # rs else (k, txs) # add_resolver e tx rs)"

fun wait_for_edits :: "lamport list \<Rightarrow> nat \<Rightarrow> buffer \<Rightarrow> buffer \<times> nat list" where
  "wait_for_edits [] channel b = (b, [])"
| "wait_for_edits (e # es) channel b =
     (if \<not> global_observed (snap_version (snapshot b)) e
      then let (b, futures) = wait_for_edits es (Suc channel)
             (b\<lparr>edit_id_resolvers := add_resolver e channel (edit_id_resolvers b)\<rparr>)
           in (b, channel # futures)
      else wait_for_edits es channel b)"

definition wait_for_version :: "global \<Rightarrow> nat \<Rightarrow> buffer \<Rightarrow> buffer \<times> nat option" where
  "wait_for_version version channel b =
     (if \<not> observed_all (snap_version (snapshot b)) version
      then (b\<lparr>wait_for_version_txs := wait_for_version_txs b @ [(version, channel)]\<rparr>, Some channel)
      else (b, None))"

definition give_up_waiting :: "buffer \<Rightarrow> buffer" where
  "give_up_waiting b = b\<lparr>edit_id_resolvers := [], wait_for_version_txs := []\<rparr>"

end
