(* ===== verification/Buffer_Cells.thy ===== *)
theory Buffer_Cells
  imports Buffer
begin

text \<open>
  The abstract value of a buffer: the sequence of its bytes, each with the identity of its insertion,
  its visibility, and the edits that deleted it.  A list of fragments is a run-length encoding of such
  a sequence.  \<open>ins\<close> gives the text of every insertion.  \<open>builder_at\<close> relates a rope builder to the texts it
  has still to read and the texts it has written.
\<close>

section \<open>Cells\<close>

record cell =
  c_timestamp :: lamport
  c_offset :: nat
  c_visible :: bool
  c_deletions :: "lamport list"
  c_undos :: global

definition fragment_cells :: "fragment \<Rightarrow> cell list" where
  "fragment_cells f =
     map (\<lambda>i. \<lparr>c_timestamp = fr_timestamp f, c_offset = i, c_visible = fr_visible f, c_deletions = fr_deletions f, c_undos = max_undos f\<rparr>)
       [insertion_offset f ..< insertion_offset f + fr_len f]"

definition cells_of :: "fragment list \<Rightarrow> cell list" where
  "cells_of fs = concat (map fragment_cells fs)"

type_synonym insertion_texts = "lamport \<Rightarrow> str"

definition cells_text :: "insertion_texts \<Rightarrow> cell list \<Rightarrow> str" where
  "cells_text ins cs = map (\<lambda>c. ins (c_timestamp c) ! c_offset c) cs"

abbreviation vis :: "cell list \<Rightarrow> cell list" where "vis cs \<equiv> filter c_visible cs"
abbreviation dead :: "cell list \<Rightarrow> cell list" where "dead cs \<equiv> filter (\<lambda>c. \<not> c_visible c) cs"

lemma cells_simps [simp]:
  "cells_of [] = []" "cells_of (f # fs) = fragment_cells f @ cells_of fs" "cells_of (xs @ ys) = cells_of xs @ cells_of ys"
  by (simp_all add: cells_of_def)

lemma cells_text_simps [simp]:
  "cells_text ins [] = []" "cells_text ins (xs @ ys) = cells_text ins xs @ cells_text ins ys" "length (cells_text ins xs) = length xs"
  "cells_text ins (take n xs) = take n (cells_text ins xs)" "cells_text ins (drop n xs) = drop n (cells_text ins xs)"
  by (simp_all add: cells_text_def take_map drop_map)

lemma length_fragment_cells [simp]: "length (fragment_cells f) = fr_len f"
  by (simp add: fragment_cells_def)

lemma fragment_cells_vis:
  "c \<in> set (fragment_cells f) \<Longrightarrow> c_visible c = fr_visible f" "c \<in> set (fragment_cells f) \<Longrightarrow> c_timestamp c = fr_timestamp f"
  by (auto simp: fragment_cells_def)

lemma vis_fragment [simp]: "vis (fragment_cells f) = (if fr_visible f then fragment_cells f else [])"
  by (auto simp: filter_id_conv filter_empty_conv fragment_cells_vis)

lemma dead_fragment [simp]: "dead (fragment_cells f) = (if fr_visible f then [] else fragment_cells f)"
  by (auto simp: filter_id_conv filter_empty_conv fragment_cells_vis)

lemma vis_part:
  "fr_visible f \<Longrightarrow> vis (drop k (fragment_cells f)) = drop k (fragment_cells f)" "fr_visible f \<Longrightarrow> dead (drop k (fragment_cells f)) = []"
  "fr_visible f \<Longrightarrow> vis (take k (fragment_cells f)) = take k (fragment_cells f)"
  by (auto simp: filter_id_conv filter_empty_conv fragment_cells_vis dest: in_set_dropD in_set_takeD)

lemma part_cells:
  "i + n \<le> fr_len f \<Longrightarrow> fragment_cells (fragment_part f i n) = take n (drop i (fragment_cells f))"
  "fragment_cells (f\<lparr>fr_id := l\<rparr>) = fragment_cells f"
  by (simp_all add: fragment_cells_def fragment_part_def take_map drop_map add.assoc)

text \<open>Lengths of the visible and of the deleted text of fragments.\<close>

abbreviation vlen :: "fragment list \<Rightarrow> nat" where "vlen fs \<equiv> length (vis (cells_of fs))"
abbreviation dlen :: "fragment list \<Rightarrow> nat" where "dlen fs \<equiv> length (dead (cells_of fs))"

lemma fragment_text_dim_sel [simp]:
  "dim_zero fragment_text_dim = fragment_text_zero" "dim_add fragment_text_dim d s = fragment_text_add d (fs_text s)"
  by (simp_all add: fragment_text_dim_def)

text \<open>The text of a part of a fragment, whatever its identifier, visibility and deletions.\<close>

lemma part_text:
  assumes "fr_timestamp g = fr_timestamp f" "insertion_offset g = insertion_offset f + k" "k + fr_len g \<le> fr_len f"
  shows "cells_text ins (fragment_cells g) = take (fr_len g) (drop k (cells_text ins (fragment_cells f)))"
  using assms by (simp add: cells_text_def fragment_cells_def take_map drop_map add.assoc)

lemma pos_after_text:
  "pos_after fragment_item fragment_text_dim d fs = fragment_text_add d \<lparr>fts_visible = vlen fs, fts_deleted = dlen fs\<rparr>"
  by (induction fs arbitrary: d) (auto simp: fragment_text_add_def)

lemma fragment_tree_text:
  assumes "wf_tree fragment_item t"
  shows "fs_text (node_summary t) = \<lparr>fts_visible = vlen (tree_items t), fts_deleted = dlen (tree_items t)\<rparr>"
proof -
  have "fs_text (items_summary fragment_item fs) = \<lparr>fts_visible = vlen fs, fts_deleted = dlen fs\<rparr>" for fs
  proof (induction fs rule: rev_induct)
    case (snoc f fs)
    then show ?case by (auto simp: summary_sum_def fragment_text_add_def)
  qed (simp add: summary_sum_def fragment_text_zero_def)
  then show ?thesis using fragment_tree.wf_summary [OF assms] by simp
qed

lemma fragment_tree_max_id:
  assumes "wf_tree fragment_item t"
  shows "fs_max_id (node_summary t) = (if tree_items t = [] then locator_min else fr_id (last (tree_items t)))"
proof -
  have "fs_max_id (items_summary fragment_item fs) = (if fs = [] then locator_min else fr_id (last fs))" for fs
    by (induction fs rule: rev_induct) (simp_all add: summary_sum_def)
  then show ?thesis using fragment_tree.wf_summary [OF assms] by simp
qed

section \<open>Fragments and their texts\<close>

definition fragment_ok :: "insertion_texts \<Rightarrow> fragment \<Rightarrow> bool" where
  "fragment_ok ins f \<longleftrightarrow> 0 < fr_len f \<and> insertion_offset f + fr_len f \<le> length (ins (fr_timestamp f)) \<and>
     utf8 (cells_text ins (fragment_cells f))"

definition id_ok :: "locator \<Rightarrow> bool" where
  "id_ok l \<longleftrightarrow> locator_min < l \<and> l < locator_max \<and> last l \<noteq> 0"

lemma utf8_cells:
  assumes "\<forall>f \<in> set fs. fragment_ok ins f"
  shows "utf8 (cells_text ins (vis (cells_of fs)))" "utf8 (cells_text ins (dead (cells_of fs)))"
  using assms by (induction fs) (auto simp: fragment_ok_def)

lemma between_ok:
  assumes "lhs < rhs" "last rhs \<noteq> 0"
  shows "lhs < between lhs rhs" "between lhs rhs < rhs" "last (between lhs rhs) \<noteq> 0"
  using between_loop_above between_loop_below [OF assms] between_loop_last by (auto simp: between_def)

section \<open>Rope builders\<close>

definition reads :: "rope_cursor \<Rightarrow> rope \<Rightarrow> str \<Rightarrow> bool" where
  "reads c r s \<longleftrightarrow> rope_cursor_ok c \<and> rc_rope c = r \<and> str_is_char_boundary (rope_text r) (rc_offset c) \<and>
     drop (rc_offset c) (rope_text r) = s"

definition writes :: "rope \<Rightarrow> str \<Rightarrow> bool" where
  "writes r s \<longleftrightarrow> rope_ok r \<and> rope_text r = s"

definition builder_at :: "rope_builder \<Rightarrow> rope \<Rightarrow> rope \<Rightarrow> str \<Rightarrow> str \<Rightarrow> str \<Rightarrow> str \<Rightarrow> bool" where
  "builder_at b V D rv rd v d \<longleftrightarrow>
     reads (old_visible_cursor b) V rv \<and> reads (old_deleted_cursor b) D rd \<and> writes (new_visible b) v \<and> writes (new_deleted b) d"

lemma reads_slice:
  assumes "reads c r (s @ t)" "sliceable r" "utf8 s" "utf8 t"
  shows "\<exists>c' u. rope_cursor_slice c (rc_offset c + length s) = Some (c', u) \<and> reads c' r t \<and> writes u s \<and> node_height u < STACK_CAP"
proof -
  let ?x = "rope_text r" and ?n = "rc_offset c"
  have c: "rope_cursor_ok c" "rc_rope c = r" "str_is_char_boundary ?x ?n" "drop ?n ?x = s @ t" using assms(1) by (simp_all add: reads_def)
  have r: "rope_ok r" "?n \<le> length ?x" using rope_cursor_bounds [OF c(1)] c(2) by simp_all
  have x: "?x = (take ?n ?x @ s) @ t" using c(4) append_take_drop_id [of ?n ?x] by simp
  have len: "length (take ?n ?x @ s) = ?n + length s" using r(2) by simp
  have "utf8 (take ?n ?x @ s)" using utf8_split(1) [OF rope_utf8 [OF r(1)] c(3)] assms(3) by simp
  then have b: "str_is_char_boundary ?x (?n + length s)"
    using boundary_append [of "take ?n ?x @ s" t "?n + length s"] assms(4) len x boundary_ends(2) [of "take ?n ?x @ s"] by simp
  have t: "drop (?n + length s) ?x = t" using arg_cong [OF c(4), of "drop (length s)"] by (simp add: add.commute)
  obtain c' u where "rope_cursor_slice c (?n + length s) = Some (c', u)" "rope_cursor_ok c'" "rc_rope c' = r" "rc_offset c' = ?n + length s"
    "rope_ok u" "rope_text u = s" "node_height u < STACK_CAP"
    using rope_cursor_slice_ok [OF c(1), of "?n + length s"] boundary_le [OF b] assms(2) c(2-4) b by auto
  with b t show ?thesis by (auto simp: reads_def writes_def)
qed

lemma writes_append:
  "writes r s \<Longrightarrow> writes u t \<Longrightarrow> node_height u < STACK_CAP \<Longrightarrow> \<exists>r'. rope_append r u = Some r' \<and> writes r' (s @ t)"
  using rope_append_ok [of r u] by (auto simp: writes_def)

lemma builder_push_visible:
  assumes "builder_at b V D (s @ rv) rd v d" "sliceable V" "utf8 s" "utf8 rv"
  shows "\<exists>b'. builder_push b (length s) True True = Some b' \<and> builder_at b' V D rv rd (v @ s) d"
    and "\<exists>b'. builder_push b (length s) True False = Some b' \<and> builder_at b' V D rv rd v (d @ s)"
proof -
  obtain c' u where u: "rope_cursor_slice (old_visible_cursor b) (rc_offset (old_visible_cursor b) + length s) = Some (c', u)"
    "reads c' V rv" "writes u s" "node_height u < STACK_CAP"
    using reads_slice [OF _ assms(2-4)] assms(1) unfolding builder_at_def by blast
  show "\<exists>b'. builder_push b (length s) True True = Some b' \<and> builder_at b' V D rv rd (v @ s) d"
    using writes_append [OF _ u(3,4), of "new_visible b" v] assms(1) u by (auto simp: builder_push_def builder_at_def)
  show "\<exists>b'. builder_push b (length s) True False = Some b' \<and> builder_at b' V D rv rd v (d @ s)"
    using writes_append [OF _ u(3,4), of "new_deleted b" d] assms(1) u by (auto simp: builder_push_def builder_at_def)
qed

lemma builder_push_deleted:
  assumes "builder_at b V D rv (s @ rd) v d" "sliceable D" "utf8 s" "utf8 rd"
  shows "\<exists>b'. builder_push b (length s) False True = Some b' \<and> builder_at b' V D rv rd (v @ s) d"
    and "\<exists>b'. builder_push b (length s) False False = Some b' \<and> builder_at b' V D rv rd v (d @ s)"
proof -
  obtain c' u where u: "rope_cursor_slice (old_deleted_cursor b) (rc_offset (old_deleted_cursor b) + length s) = Some (c', u)"
    "reads c' D rd" "writes u s" "node_height u < STACK_CAP"
    using reads_slice [OF _ assms(2-4)] assms(1) unfolding builder_at_def by blast
  show "\<exists>b'. builder_push b (length s) False True = Some b' \<and> builder_at b' V D rv rd (v @ s) d"
    using writes_append [OF _ u(3,4), of "new_visible b" v] assms(1) u by (auto simp: builder_push_def builder_at_def)
  show "\<exists>b'. builder_push b (length s) False False = Some b' \<and> builder_at b' V D rv rd v (d @ s)"
    using writes_append [OF _ u(3,4), of "new_deleted b" d] assms(1) u by (auto simp: builder_push_def builder_at_def)
qed

lemma builder_append_ok:
  assumes "builder_at b V D (s @ rv) (t @ rd) v d" "sliceable V" "sliceable D" "utf8 s" "utf8 rv" "utf8 t" "utf8 rd"
  shows "\<exists>b'. builder_append b \<lparr>fts_visible = length s, fts_deleted = length t\<rparr> = Some b' \<and> builder_at b' V D rv rd (v @ s) (d @ t)"
proof -
  obtain b1 where b1: "builder_push b (length s) True True = Some b1" "builder_at b1 V D rv (t @ rd) (v @ s) d"
    using builder_push_visible(1) [OF assms(1,2,4,5)] by blast
  then show ?thesis using builder_push_deleted(2) [OF b1(2) assms(3,6,7)] by (auto simp: builder_append_def)
qed

lemma builder_push_str_ok:
  "builder_at b V D rv rd v d \<Longrightarrow> utf8 s \<Longrightarrow> \<exists>b'. builder_push_str b s = Some b' \<and> builder_at b' V D rv rd (v @ s) d"
  using rope_push_ok [of "new_visible b" s] by (auto simp: builder_push_str_def builder_at_def writes_def)

lemma builder_finish_ok:
  assumes "builder_at b V D rv rd v d" "sliceable V" "sliceable D"
  shows "\<exists>V' D'. builder_finish b = Some (V', D') \<and> writes V' (v @ rv) \<and> writes D' (d @ rd)"
proof -
  have suffix: "\<exists>u. rope_cursor_suffix c = Some u \<and> writes u s \<and> node_height u < STACK_CAP" if "reads c r s" "sliceable r" for c r s
    using rope_cursor_suffix_ok [of c] that by (auto simp: reads_def writes_def)
  obtain x y where x: "rope_cursor_suffix (old_visible_cursor b) = Some x" "writes x rv" "node_height x < STACK_CAP"
    and y: "rope_cursor_suffix (old_deleted_cursor b) = Some y" "writes y rd" "node_height y < STACK_CAP"
    using suffix assms unfolding builder_at_def by blast
  show ?thesis
    using writes_append [OF _ x(2,3), of "new_visible b" v] writes_append [OF _ y(2,3), of "new_deleted b" d] assms(1) x(1) y(1)
    by (auto simp: builder_finish_def builder_at_def)
qed

lemma builder_new_ok:
  assumes "rope_ok V" "rope_ok D" "sliceable V" "sliceable D"
  shows "\<exists>v d. rope_cursor_new V 0 = Some v \<and> rope_cursor_new D 0 = Some d \<and>
    builder_at (builder_new v d) V D (rope_text V) (rope_text D) [] []"
proof -
  obtain v where v: "rope_cursor_new V 0 = Some v" "rope_cursor_ok v" "rc_rope v = V" "rc_offset v = 0"
    using rope_cursor_start [OF assms(1,3)] .
  obtain d where d: "rope_cursor_new D 0 = Some d" "rope_cursor_ok d" "rc_rope d = D" "rc_offset d = 0"
    using rope_cursor_start [OF assms(2,4)] .
  show ?thesis using v d by (simp add: builder_at_def builder_new_def reads_def writes_def rope_new_ok)
qed

end
