(* ===== verification/Buffer_Local.thy ===== *)
theory Buffer_Local
  imports Buffer_Cells
begin

text \<open>
  Correctness of local edits.  The invariant of the loops relates the local variables to the old
  fragments: \<open>ys\<close> are the fragments that were consumed, \<open>zs\<close> those from the current one on, \<open>k\<close> the number
  of bytes of the current one that were consumed, and \<open>em\<close> the fragments written so far, with a flag for
  those that are entered into the index of insertions.
\<close>

section \<open>The invariant of an edit\<close>

definition emitted :: "insertion_texts \<Rightarrow> rope \<Rightarrow> rope \<Rightarrow> 'd edit_state \<Rightarrow> (bool \<times> fragment) list \<Rightarrow> cell list \<Rightarrow> bool" where
  "emitted ins V D st em R \<longleftrightarrow>
     wf_tree fragment_item (es_fragments st) \<and> tree_items (es_fragments st) = map snd em \<and>
     es_insertions st = map (insert_new \<circ> snd) (filter fst em) \<and>
     builder_at (es_ropes st) V D (cells_text ins (vis R)) (cells_text ins (dead R))
       (cells_text ins (vis (cells_of (map snd em)))) (cells_text ins (dead (cells_of (map snd em))))"

definition order_ok :: "(bool \<times> fragment) list \<Rightarrow> fragment list \<Rightarrow> bool" where
  "order_ok em zs \<longleftrightarrow> sorted_wrt (<) (map fr_id (map snd em @ zs)) \<and> (\<forall>f \<in> set (map snd em @ zs). id_ok (fr_id f))"

definition frags_ok :: "insertion_texts \<Rightarrow> (bool \<times> fragment) list \<Rightarrow> fragment list \<Rightarrow> nat \<Rightarrow> bool" where
  "frags_ok ins em zs k \<longleftrightarrow> (\<forall>f \<in> set (map snd em @ zs). fragment_ok ins f) \<and>
     (case zs of [] \<Rightarrow> k = 0
      | f # _ \<Rightarrow> k \<le> fr_len f \<and> (0 < k \<longrightarrow> fr_visible f) \<and> utf8 (cells_text ins (drop k (fragment_cells f))))"

definition fragment_key :: "fragment \<Rightarrow> insertion_fragment_key" where
  "fragment_key f = (fr_timestamp f, insertion_offset f)"

definition indexed :: "(bool \<times> fragment) list \<Rightarrow> fragment \<Rightarrow> bool" where
  "indexed em f \<longleftrightarrow> (\<exists>g. (True, g) \<in> set em \<and> fragment_key g = fragment_key f)"

definition covered :: "(bool \<times> fragment) list \<Rightarrow> fragment list \<Rightarrow> fragment list \<Rightarrow> nat \<Rightarrow> bool" where
  "covered em ys zs k \<longleftrightarrow> (\<forall>y \<in> set ys. (False, y) \<in> set em \<or> indexed em y) \<and> (\<forall>f. (False, f) \<in> set em \<longrightarrow> f \<in> set ys) \<and>
     (0 < k \<longrightarrow> indexed em (hd zs))"

definition trace_ok :: "insertion_texts \<Rightarrow> (bool \<times> fragment) list \<Rightarrow> fragment list \<Rightarrow> fragment list \<Rightarrow> nat \<Rightarrow> bool" where
  "trace_ok ins em ys zs k \<longleftrightarrow> order_ok em zs \<and> frags_ok ins em zs k \<and> covered em ys zs k"


section \<open>Writing parts of fragments\<close>

lemma filter_all: "\<forall>c \<in> set P. c_visible c = w \<Longrightarrow> vis P = (if w then P else []) \<and> dead P = (if w then [] else P)"
  by (auto simp: filter_id_conv filter_empty_conv)

lemma push_part_ok:
  assumes em: "emitted ins V D st em (P @ R)" and sl: "sliceable V" "sliceable D"
    and P: "\<forall>c \<in> set P. c_visible c = w" "cells_text ins (fragment_cells g) = cells_text ins P" "utf8 (cells_text ins P)"
    and R: "utf8 (cells_text ins (vis R))" "utf8 (cells_text ins (dead R))"
  shows "\<exists>st'. push_part g w st = Some st' \<and> emitted ins V D st' (em @ [(True, g)]) R \<and>
    es_cursor st' = es_cursor st \<and> es_start st' = es_start st \<and> es_slices st' = es_slices st \<and> es_patch st' = es_patch st \<and>
    es_insertion_offset st' = es_insertion_offset st"
proof -
  note P' = filter_all [OF P(1)]
  let ?v = "cells_text ins (vis (cells_of (map snd em)))" and ?d = "cells_text ins (dead (cells_of (map snd em)))"
  let ?p = "cells_text ins P"
  have len: "fr_len g = length ?p" using arg_cong [OF P(2), of length] by simp
  obtain fs where fs: "tree_push fragment_item (es_fragments st) g = Some fs" "wf_tree fragment_item fs" "tree_items fs = map snd em @ [g]"
    using fragment_tree.push_ok [of "es_fragments st" g] em by (auto simp: emitted_def)
  have at: "builder_at (es_ropes st) V D (cells_text ins (vis P) @ cells_text ins (vis R)) (cells_text ins (dead P) @ cells_text ins (dead R)) ?v ?d"
    using em by (simp add: emitted_def)
  have "\<exists>b'. builder_push (es_ropes st) (length ?p) w (fr_visible g) = Some b' \<and>
    builder_at b' V D (cells_text ins (vis R)) (cells_text ins (dead R)) (if fr_visible g then ?v @ ?p else ?v) (if fr_visible g then ?d else ?d @ ?p)"
  proof (cases w)
    case True
    then show ?thesis using builder_push_visible [of "es_ropes st" V D ?p "cells_text ins (vis R)"] at P' sl(1) P(3) R by auto
  next
    case False
    then show ?thesis using builder_push_deleted [of "es_ropes st" V D _ ?p "cells_text ins (dead R)"] at P' sl(2) P(3) R by auto
  qed
  then obtain b' where "builder_push_fragment (es_ropes st) g w = Some b'"
    "builder_at b' V D (cells_text ins (vis R)) (cells_text ins (dead R)) (if fr_visible g then ?v @ ?p else ?v) (if fr_visible g then ?d else ?d @ ?p)"
    using len by (auto simp: builder_push_fragment_def)
  with fs em P(2) show ?thesis by (auto simp: push_part_def emitted_def split: if_splits)
qed

text \<open>Appending a slice of the old fragments as it is.\<close>

lemma append_slice_ok:
  assumes em: "emitted ins V D st em (cells_of as @ R)" and sl: "sliceable V" "sliceable D" and as: "\<forall>f \<in> set as. fragment_ok ins f"
    and R: "utf8 (cells_text ins (vis R))" "utf8 (cells_text ins (dead R))" and u: "wf_tree fragment_item u" "tree_items u = as"
  shows "\<exists>b fs. builder_append (es_ropes st) (fs_text (node_summary u)) = Some b \<and> tree_append fragment_item (es_fragments st) u = Some fs \<and>
    emitted ins V D (st\<lparr>es_ropes := b, es_fragments := fs\<rparr>) (em @ map (Pair False) as) R"
proof -
  let ?v = "cells_text ins (vis (cells_of as))" and ?d = "cells_text ins (dead (cells_of as))"
  have at: "builder_at (es_ropes st) V D (?v @ cells_text ins (vis R)) (?d @ cells_text ins (dead R))
      (cells_text ins (vis (cells_of (map snd em)))) (cells_text ins (dead (cells_of (map snd em))))"
    using em by (simp add: emitted_def)
  have "fs_text (node_summary u) = \<lparr>fts_visible = length ?v, fts_deleted = length ?d\<rparr>" using fragment_tree_text [OF u(1)] u(2) by simp
  moreover obtain fs where "tree_append fragment_item (es_fragments st) u = Some fs" "wf_tree fragment_item fs" "tree_items fs = map snd em @ as"
    using fragment_tree.append_ok [of "es_fragments st" u] em u by (auto simp: emitted_def)
  ultimately show ?thesis
    using builder_append_ok [OF at sl utf8_cells(1) [OF as] R(1) utf8_cells(2) [OF as] R(2)] em by (auto simp: emitted_def comp_def)
qed

section \<open>Positions of local edits\<close>

definition local_cursor :: "buffer_snapshot \<Rightarrow> local_state \<Rightarrow> fragment list \<Rightarrow> fragment list \<Rightarrow> bool" where
  "local_cursor s st ys zs \<longleftrightarrow>
     cursor_at fragment_item fragment_text_dim (es_cursor st) ys zs \<and> did_seek (es_cursor st) \<and> cursor_tree (es_cursor st) = fragments s"

definition local_at :: "insertion_texts \<Rightarrow> buffer_snapshot \<Rightarrow> local_state \<Rightarrow> (bool \<times> fragment) list \<Rightarrow>
  fragment list \<Rightarrow> fragment list \<Rightarrow> nat \<Rightarrow> bool" where
  "local_at ins s st em ys zs k \<longleftrightarrow>
     local_cursor s st ys zs \<and> emitted ins (visible_text s) (deleted_text s) st em (drop k (cells_of zs)) \<and>
     trace_ok ins em ys zs k \<and> es_start st = vlen ys + k"

text \<open>The number of visible bytes left in the current fragment.\<close>

definition room :: "fragment list \<Rightarrow> nat \<Rightarrow> nat" where
  "room zs k = (case zs of [] \<Rightarrow> 0 | f # _ \<Rightarrow> if fr_visible f then fr_len f - k else 0)"

lemma local_cursor_facts:
  assumes "local_cursor s st ys zs"
  shows "cursor_start (es_cursor st) = \<lparr>fts_visible = vlen ys, fts_deleted = dlen ys\<rparr>"
    and "local_fragment_start st = vlen ys"
    and "local_fragment_end st = Some (vlen ys + room zs 0)"
    and "current_fragment st = list_first zs"
    and "tree_items (fragments s) = ys @ zs"
proof -
  have at: "cursor_at fragment_item fragment_text_dim (es_cursor st) ys zs" "did_seek (es_cursor st)" "cursor_tree (es_cursor st) = fragments s"
    using assms by (simp_all add: local_cursor_def)
  have start: "cursor_start (es_cursor st) = \<lparr>fts_visible = vlen ys, fts_deleted = dlen ys\<rparr>"
    using at(1) by (simp add: cursor_at_def cursor_start_def pos_after_text)
  then show "cursor_start (es_cursor st) = \<lparr>fts_visible = vlen ys, fts_deleted = dlen ys\<rparr>" "local_fragment_start st = vlen ys"
    by (simp_all add: local_fragment_start_def)
  note item = cursor_at_item [OF at(1,2)]
  show "local_fragment_end st = Some (vlen ys + room zs 0)"
    using item(2) start by (cases zs) (auto simp: local_fragment_end_def cursor_end_def room_def)
  show "current_fragment st = list_first zs" using item(1) by (simp add: current_fragment_def)
  show "tree_items (fragments s) = ys @ zs" using at by (simp add: cursor_at_def)
qed

lemma local_next_ok:
  assumes "local_cursor s st ys zs"
  shows "\<exists>c. local_next st = Some (st\<lparr>es_cursor := c\<rparr>) \<and> local_cursor s (st\<lparr>es_cursor := c\<rparr>) (ys @ take 1 zs) (drop 1 zs)"
  using fragment_text.cursor_next_ok [of "es_cursor st" ys zs] assms by (auto simp: local_cursor_def local_next_def)

lemma visible_past [simp]: "target_past (visible_target n) Right = (\<lambda>d. fts_visible d \<le> n)"
  by (auto simp: fun_eq_iff target_past_def visible_target_def cmp_def)

lemma visible_mono: "seek_mono fragment_item fragment_text_dim (\<lambda>d. fts_visible d \<le> n) d fs"
  by (auto simp: seek_mono_def pos_after_text)

lemma visible_split:
  "seek_split fragment_item fragment_text_dim (\<lambda>d. fts_visible d \<le> n) d fs = (as, bs) \<Longrightarrow>
    fs = as @ bs \<and> (fts_visible d \<le> n \<longrightarrow> fts_visible d + vlen as \<le> n) \<and> (bs \<noteq> [] \<longrightarrow> n < fts_visible d + vlen as + room bs 0)"
proof (induction fs arbitrary: d as bs)
  case (Cons f fs)
  let ?e = "fragment_text_add d (fs_text (fragment_summarize f))"
  show ?case
  proof (cases "fts_visible ?e \<le> n")
    case True
    then obtain as' where "seek_split fragment_item fragment_text_dim (\<lambda>d. fts_visible d \<le> n) ?e fs = (as', bs)" "as = f # as'"
      using Cons.prems by (auto simp: Let_def split: prod.splits)
    with Cons.IH [OF this(1)] True show ?thesis by (auto simp: add.assoc)
  next
    case False
    then show ?thesis using Cons.prems by (auto simp: Let_def room_def)
  qed
qed simp

lemma vlen_zs: "vlen zs = (case zs of [] \<Rightarrow> 0 | f # fs \<Rightarrow> (if fr_visible f then fr_len f else 0) + vlen fs)"
  by (cases zs) auto

text \<open>The text still to be read consists of whole characters.\<close>

lemma rest_utf8:
  assumes "frags_ok ins em zs k"
  shows "utf8 (cells_text ins (vis (drop k (cells_of zs))))" "utf8 (cells_text ins (dead (drop k (cells_of zs))))"
proof -
  have "utf8 (cells_text ins (vis (drop k (cells_of zs)))) \<and> utf8 (cells_text ins (dead (drop k (cells_of zs))))"
  proof (cases "k = 0 \<or> zs = []")
    case True
    then show ?thesis using assms utf8_cells [of zs ins] by (auto simp: frags_ok_def)
  next
    case False
    then obtain f fs where zs: "zs = f # fs" by (cases zs) auto
    with assms False have f: "k \<le> fr_len f" "fr_visible f" "utf8 (cells_text ins (drop k (fragment_cells f)))"
      and fs: "\<forall>f \<in> set fs. fragment_ok ins f" by (auto simp: frags_ok_def)
    then show ?thesis using zs utf8_cells [OF fs] vis_part [OF f(2), of k] by simp
  qed
  then show "utf8 (cells_text ins (vis (drop k (cells_of zs))))" "utf8 (cells_text ins (dead (drop k (cells_of zs))))" by simp_all
qed

section \<open>Traces\<close>

lemma order_ok_snoc:
  assumes "order_ok em (f # zs)" "\<forall>h \<in> set (map snd em). fr_id h < fr_id g" "fr_id g \<le> fr_id f" "id_ok (fr_id g)"
  shows "order_ok (em @ [(w, g)]) zs" "fr_id g < fr_id f \<Longrightarrow> order_ok (em @ [(w, g)]) (f # zs)"
  using assms by (auto simp: order_ok_def sorted_wrt_append)

lemma order_ok_hd:
  assumes "order_ok em (f # zs)"
  shows "\<forall>h \<in> set (map snd em). fr_id h < fr_id f" "id_ok (fr_id f)" "order_ok em zs"
  using assms by (auto simp: order_ok_def sorted_wrt_append)

lemma covered_snoc: "covered em ys zs k \<Longrightarrow> covered (em @ [(True, g)]) ys zs k"
  by (auto simp: covered_def indexed_def)

lemma fragment_ok_part:
  assumes "fragment_ok ins f" "fr_timestamp g = fr_timestamp f" "insertion_offset g = insertion_offset f + k" "k + fr_len g \<le> fr_len f"
    and "0 < fr_len g" "utf8 (take (fr_len g) (drop k (cells_text ins (fragment_cells f))))"
  shows "fragment_ok ins g"
  using assms part_text [OF assms(2-4), of ins] by (simp add: fragment_ok_def)

lemma indexed_part:
  assumes "covered em ys (f # zs) k" "fr_timestamp g = fr_timestamp f" "insertion_offset g = insertion_offset f + k"
  shows "indexed (em @ [(True, g)]) f"
  using assms by (cases "k = 0") (auto simp: covered_def indexed_def fragment_key_def)

lemma trace_part:
  assumes tr: "trace_ok ins em ys (f # zs) k" and f: "fr_visible f" "k + fr_len g \<le> fr_len f"
    and g: "fr_timestamp g = fr_timestamp f" "insertion_offset g = insertion_offset f + k" "0 < fr_len g"
    and u: "utf8 (take (fr_len g) (drop k (cells_text ins (fragment_cells f))))" "utf8 (drop (k + fr_len g) (cells_text ins (fragment_cells f)))"
    and id: "\<forall>h \<in> set (map snd em). fr_id h < fr_id g" "fr_id g < fr_id f" "id_ok (fr_id g)"
  shows "trace_ok ins (em @ [(True, g)]) ys (f # zs) (k + fr_len g)"
proof -
  have "fragment_ok ins g" using fragment_ok_part [OF _ g(1,2) f(2) g(3) u(1)] tr by (simp add: trace_ok_def frags_ok_def)
  then have "frags_ok ins (em @ [(True, g)]) (f # zs) (k + fr_len g)" using tr f u(2) by (auto simp: trace_ok_def frags_ok_def)
  moreover have "order_ok (em @ [(True, g)]) (f # zs)" using order_ok_snoc(2) [OF _ id(1) _ id(3,2)] id(2) tr by (simp add: trace_ok_def)
  moreover have "covered (em @ [(True, g)]) ys (f # zs) (k + fr_len g)"
    using indexed_part [OF _ g(1,2)] tr by (auto simp: trace_ok_def covered_def indexed_def)
  ultimately show ?thesis by (simp add: trace_ok_def)
qed

lemma trace_finish:
  assumes tr: "trace_ok ins em ys (f # zs) k" and f: "k + fr_len g = fr_len f"
    and g: "fr_timestamp g = fr_timestamp f" "insertion_offset g = insertion_offset f + k" "0 < fr_len g" "fr_id g \<le> fr_id f"
    and id: "\<forall>h \<in> set (map snd em). fr_id h < fr_id g" "id_ok (fr_id g)"
  shows "trace_ok ins (em @ [(True, g)]) (ys @ [f]) zs 0"
proof -
  have "utf8 (take (fr_len g) (drop k (cells_text ins (fragment_cells f))))" using tr f by (simp add: trace_ok_def frags_ok_def)
  then have "fragment_ok ins g" using fragment_ok_part [OF _ g(1,2) _ g(3)] tr f by (simp add: trace_ok_def frags_ok_def)
  then have "frags_ok ins (em @ [(True, g)]) zs 0" using tr by (auto simp: trace_ok_def frags_ok_def fragment_ok_def split: list.splits)
  moreover have "order_ok (em @ [(True, g)]) zs" using order_ok_snoc(1) [OF _ id(1) g(4) id(2)] tr by (simp add: trace_ok_def)
  moreover have "covered (em @ [(True, g)]) (ys @ [f]) zs 0"
    using indexed_part [OF _ g(1,2)] tr by (auto simp: trace_ok_def covered_def indexed_def)
  ultimately show ?thesis by (simp add: trace_ok_def)
qed

lemma trace_next:
  assumes "trace_ok ins em ys (f # zs) (fr_len f)"
  shows "trace_ok ins em (ys @ [f]) zs 0"
  using assms by (auto simp: trace_ok_def order_ok_def frags_ok_def covered_def fragment_ok_def sorted_wrt_append split: list.splits)

lemma trace_slice:
  assumes "trace_ok ins em ys (as @ bs) 0"
  shows "trace_ok ins (em @ map (Pair False) as) (ys @ as) bs 0"
proof -
  have "map snd (em @ map (Pair False) as) @ bs = map snd em @ as @ bs" by (simp add: comp_def)
  then have "order_ok (em @ map (Pair False) as) bs" using assms by (simp add: trace_ok_def order_ok_def comp_def)
  moreover have "frags_ok ins (em @ map (Pair False) as) bs 0"
    using assms by (auto simp: trace_ok_def frags_ok_def fragment_ok_def comp_def split: list.splits)
  moreover have "covered (em @ map (Pair False) as) (ys @ as) bs 0"
    using assms by (auto simp: trace_ok_def covered_def indexed_def)
  ultimately show ?thesis by (simp add: trace_ok_def)
qed

lemma trace_insert:
  assumes tr: "trace_ok ins em ys zs k" and ok: "\<forall>g \<in> set gs. fragment_ok ins g \<and> id_ok (fr_id g)"
    and id: "\<forall>g \<in> set gs. (\<forall>h \<in> set (map snd em). fr_id h < fr_id g) \<and> (\<forall>h \<in> set zs. fr_id g < fr_id h)" "sorted_wrt (<) (map fr_id gs)"
  shows "trace_ok ins (em @ map (Pair True) gs) ys zs k"
proof -
  have "order_ok (em @ map (Pair True) gs) zs" using tr ok id by (auto simp: trace_ok_def order_ok_def sorted_wrt_append comp_def)
  moreover have "frags_ok ins (em @ map (Pair True) gs) zs k" using tr ok by (auto simp: trace_ok_def frags_ok_def comp_def)
  moreover have "covered (em @ map (Pair True) gs) ys zs k" using tr by (auto simp: trace_ok_def covered_def indexed_def)
  ultimately show ?thesis by (simp add: trace_ok_def)
qed

text \<open>The identifiers that \<open>between\<close> makes for the next fragment to be written.\<close>

lemma new_max_id_eq:
  "emitted ins V D st em R \<Longrightarrow> new_max_id st = (if em = [] then locator_min else fr_id (snd (last em)))"
  by (simp add: emitted_def new_max_id_def fragment_tree_max_id last_map)

lemma max_id_bound:
  assumes "order_ok em zs"
  shows "h \<in> set (map snd em) \<Longrightarrow> fr_id h \<le> (if em = [] then locator_min else fr_id (snd (last em)))"
    and "locator_min \<le> (if em = [] then locator_min else fr_id (snd (last em)))"
    and "f \<in> set zs \<Longrightarrow> (if em = [] then locator_min else fr_id (snd (last em))) < fr_id f"
    and "(if em = [] then locator_min else fr_id (snd (last em))) < locator_max"
proof -
  have max: "locator_min < locator_max" by code_simp
  show "h \<in> set (map snd em) \<Longrightarrow> fr_id h \<le> (if em = [] then locator_min else fr_id (snd (last em)))"
    using assms by (cases em rule: rev_cases) (auto simp: order_ok_def sorted_wrt_append)
  show "locator_min \<le> (if em = [] then locator_min else fr_id (snd (last em)))"
    "f \<in> set zs \<Longrightarrow> (if em = [] then locator_min else fr_id (snd (last em))) < fr_id f"
    "(if em = [] then locator_min else fr_id (snd (last em))) < locator_max"
    using assms max by (cases em rule: rev_cases; auto simp: order_ok_def sorted_wrt_append id_ok_def)+
qed

lemma new_id_ok:
  assumes "emitted ins V D st em R" "order_ok em zs" "rhs = (case zs of [] \<Rightarrow> locator_max | f # _ \<Rightarrow> fr_id f)"
  shows "\<forall>h \<in> set (map snd em). fr_id h < between (new_max_id st) rhs" "between (new_max_id st) rhs < rhs" "id_ok (between (new_max_id st) rhs)"
proof -
  define m where "m = (if em = [] then locator_min else fr_id (snd (last em)))"
  have m: "new_max_id st = m" unfolding m_def by (rule new_max_id_eq [OF assms(1)])
  note bounds = max_id_bound [OF assms(2), folded m_def]
  have bound: "\<forall>h \<in> set (map snd em). fr_id h \<le> m" "locator_min \<le> m" "m < locator_max" "\<forall>f \<in> set zs. m < fr_id f"
    using bounds by blast+
  have rhs: "m < rhs" "last rhs \<noteq> 0" "rhs \<le> locator_max"
  proof -
    show "m < rhs" using assms(3) bound(3,4) by (cases zs) simp_all
    have ids: "last (fr_id f) \<noteq> 0 \<and> fr_id f \<le> locator_max" if "f \<in> set zs" for f
      using assms(2) that unfolding order_ok_def id_ok_def by (auto intro: less_imp_le)
    show "last rhs \<noteq> 0" "rhs \<le> locator_max" using assms(3) ids by (cases zs; simp add: locator_max_def)+
  qed
  note b = between_ok [OF rhs(1,2)]
  show "\<forall>h \<in> set (map snd em). fr_id h < between (new_max_id st) rhs" unfolding m using bound(1) b(1) le_less_trans by blast
  show "between (new_max_id st) rhs < rhs" unfolding m by (rule b(2))
  show "id_ok (between (new_max_id st) rhs)"
    unfolding m id_ok_def using le_less_trans [OF bound(2) b(1)] less_le_trans [OF b(2) rhs(3)] b(3) by simp
qed

section \<open>Moving forward\<close>

definition same_log :: "'d edit_state \<Rightarrow> 'd edit_state \<Rightarrow> bool" where
  "same_log st st' \<longleftrightarrow> es_slices st' = es_slices st \<and> es_patch st' = es_patch st \<and> es_insertion_offset st' = es_insertion_offset st"

abbreviation written :: "(bool \<times> fragment) list \<Rightarrow> cell list" where
  "written em \<equiv> cells_of (map snd em)"

lemma emitted_cursor [simp]: "emitted ins V D (st\<lparr>es_cursor := c\<rparr>) em R = emitted ins V D st em R"
  by (simp add: emitted_def)

lemma emitted_start [simp]: "emitted ins V D (st\<lparr>es_start := n\<rparr>) em R = emitted ins V D st em R"
  by (simp add: emitted_def)

lemma emitted_log [simp]:
  "emitted ins V D (st\<lparr>es_patch := p\<rparr>) em R = emitted ins V D st em R" "emitted ins V D (st\<lparr>es_slices := l\<rparr>) em R = emitted ins V D st em R"
  by (simp_all add: emitted_def)

lemma local_cursor_frame: "es_cursor st' = es_cursor st \<Longrightarrow> local_cursor s st' ys zs = local_cursor s st ys zs"
  by (simp add: local_cursor_def)

lemma local_finish_fragment_ok:
  assumes at: "local_at ins s st em ys zs k" and sl: "sliceable (visible_text s)" "sliceable (deleted_text s)"
  shows "\<exists>st' em' ys' zs' A. local_finish_fragment st = Some st' \<and> local_cursor s st' ys' zs' \<and>
    emitted ins (visible_text s) (deleted_text s) st' em' (cells_of zs') \<and> trace_ok ins em' ys' zs' 0 \<and>
    written em' = written em @ A \<and> drop k (cells_of zs) = A @ cells_of zs' \<and> same_log st st' \<and> ys' \<in> {ys, ys @ take 1 zs}"
proof (cases "k = 0")
  case True
  have "local_finish_fragment st = Some st" using at local_cursor_facts(2) [of s st ys zs] True by (simp add: local_finish_fragment_def local_at_def)
  moreover have "drop k (cells_of zs) = [] @ cells_of zs" "written em = written em @ []" "same_log st st" using True by (simp_all add: same_log_def)
  ultimately show ?thesis using at True unfolding local_at_def by (metis drop0 insertI1)
next
  case False
  have cur: "local_cursor s st ys zs" and em: "emitted ins (visible_text s) (deleted_text s) st em (drop k (cells_of zs))"
    and tr: "trace_ok ins em ys zs k" and start: "es_start st = vlen ys + k" using at by (simp_all add: local_at_def)
  obtain f fs where zs: "zs = f # fs" using False tr by (cases zs) (auto simp: trace_ok_def frags_ok_def)
  have f: "k \<le> fr_len f" "fr_visible f" "utf8 (cells_text ins (drop k (fragment_cells f)))"
    using tr zs False by (simp_all add: trace_ok_def frags_ok_def)
  note facts = local_cursor_facts [OF cur]
  have room: "room zs 0 = fr_len f" using zs f by (simp add: room_def)
  have drop: "drop k (cells_of zs) = drop k (fragment_cells f) @ cells_of fs" using zs f(1) by simp
  show ?thesis
  proof (cases "k = fr_len f")
    case True
    obtain c where c: "local_next st = Some (st\<lparr>es_cursor := c\<rparr>)" "local_cursor s (st\<lparr>es_cursor := c\<rparr>) (ys @ [f]) fs"
      using local_next_ok [OF cur] zs by auto
    have "local_finish_fragment st = Some (st\<lparr>es_cursor := c\<rparr>)" using facts room start False True c(1) by (simp add: local_finish_fragment_def)
    moreover have "trace_ok ins em (ys @ [f]) fs 0" using trace_next tr zs True by blast
    moreover have "drop k (cells_of zs) = [] @ cells_of fs" using drop True by simp
    moreover have "emitted ins (visible_text s) (deleted_text s) (st\<lparr>es_cursor := c\<rparr>) em (cells_of fs)" using em drop True by simp
    moreover have "same_log st (st\<lparr>es_cursor := c\<rparr>)" "written em = written em @ []" by (simp_all add: same_log_def)
    moreover have "ys @ [f] \<in> {ys, ys @ take 1 zs}" using zs by simp
    ultimately show ?thesis using c(2) by blast
  next
    case False
    define g where "g = fragment_part f k (fr_len f - k)"
    have g: "fr_timestamp g = fr_timestamp f" "insertion_offset g = insertion_offset f + k" "fr_len g = fr_len f - k" "fr_id g = fr_id f" "0 < fr_len g"
      "fr_visible g = fr_visible f" using False f(1) by (simp_all add: g_def fragment_part_def)
    have gc: "fragment_cells g = drop k (fragment_cells f)" using f(1) part_cells(1) [of k "fr_len f - k" f] by (simp add: g_def)
    have homog: "\<forall>c \<in> set (drop k (fragment_cells f)). c_visible c = fr_visible f" by (auto simp: fragment_cells_vis dest: in_set_dropD)
    have R: "\<forall>h \<in> set fs. fragment_ok ins h" using tr zs by (simp add: trace_ok_def frags_ok_def)
    obtain st1 where st1: "push_part g (fr_visible f) st = Some st1"
      "emitted ins (visible_text s) (deleted_text s) st1 (em @ [(True, g)]) (cells_of fs)" "es_cursor st1 = es_cursor st" "same_log st st1"
      using push_part_ok [OF em [unfolded drop] sl homog, of g] gc f(3) utf8_cells [OF R] by (auto simp: same_log_def)
    obtain c where c: "local_next st1 = Some (st1\<lparr>es_cursor := c\<rparr>)" "local_cursor s (st1\<lparr>es_cursor := c\<rparr>) (ys @ [f]) fs"
      using local_next_ok [of s st1 ys zs] cur zs by (auto simp: local_cursor_frame [OF st1(3)])
    have "local_finish_fragment st = Some (st1\<lparr>es_cursor := c\<rparr>)"
      using facts room start \<open>k \<noteq> 0\<close> False f(1) zs st1(1) c(1) by (simp add: local_finish_fragment_def g_def)
    moreover have "trace_ok ins (em @ [(True, g)]) (ys @ [f]) fs 0"
      using trace_finish [OF tr [unfolded zs] _ g(1,2,5)] order_ok_hd [of em f fs] tr zs g(3,4) f(1) by (simp add: trace_ok_def)
    moreover have "written (em @ [(True, g)]) = written em @ drop k (fragment_cells f)" using gc by simp
    moreover have "emitted ins (visible_text s) (deleted_text s) (st1\<lparr>es_cursor := c\<rparr>) (em @ [(True, g)]) (cells_of fs)" using st1(2) by simp
    moreover have "same_log st (st1\<lparr>es_cursor := c\<rparr>)" using st1(4) by (simp add: same_log_def)
    moreover have "ys @ [f] \<in> {ys, ys @ take 1 zs}" using zs by simp
    ultimately show ?thesis using c(2) drop by blast
  qed
qed

text \<open>The cells of consumed and remaining fragments, and where the next edit finds its place.\<close>

lemma local_total:
  assumes "local_cursor s st ys zs" "local_cursor s st' ys' zs'"
  shows "cells_of ys @ cells_of zs = cells_of ys' @ cells_of zs'"
  using local_cursor_facts(5) [OF assms(1)] local_cursor_facts(5) [OF assms(2)] by (metis cells_simps(3))

lemma local_advance_ok:
  assumes at: "local_at ins s st em ys zs k" and sl: "sliceable (visible_text s)" "sliceable (deleted_text s)"
    and rs: "es_start st \<le> rs" "rs \<le> vlen (tree_items (fragments s))"
  shows "\<exists>st' em' ys' zs' k' A. local_advance rs st = Some st' \<and> local_at ins s st' em' ys' zs' k' \<and>
    written em' = written em @ A \<and> drop k (cells_of zs) = A @ drop k' (cells_of zs') \<and> same_log st st' \<and>
    es_start st' \<le> rs \<and> rs \<le> es_start st' + room zs' k'"
proof -
  have cur: "local_cursor s st ys zs" and start: "es_start st = vlen ys + k" and tr: "trace_ok ins em ys zs k"
    using at by (simp_all add: local_at_def)
  note facts = local_cursor_facts [OF cur]
  show ?thesis
  proof (cases "vlen ys + room zs 0 < rs")
    case False
    then have "local_advance rs st = Some st" using facts by (simp add: local_advance_def)
    moreover have "rs \<le> es_start st + room zs k" using False start tr rs(1) by (cases zs) (auto simp: room_def trace_ok_def frags_ok_def split: if_splits)
    moreover have "written em = written em @ []" "drop k (cells_of zs) = [] @ drop k (cells_of zs)" "same_log st st" by (simp_all add: same_log_def)
    ultimately show ?thesis using at rs(1) by blast
  next
    case True
    obtain st1 em1 ys1 zs1 A1 where st1: "local_finish_fragment st = Some st1" "local_cursor s st1 ys1 zs1"
      "emitted ins (visible_text s) (deleted_text s) st1 em1 (cells_of zs1)" "trace_ok ins em1 ys1 zs1 0"
      "written em1 = written em @ A1" "drop k (cells_of zs) = A1 @ cells_of zs1" "same_log st st1"
      "ys1 \<in> {ys, ys @ take 1 zs}"
      using local_finish_fragment_ok [OF at sl] by blast
    have "vlen ys1 \<le> rs" using st1(8) True by (cases zs) (auto simp: room_def split: if_splits)
    have pos: "cursor_position (es_cursor st1) = \<lparr>fts_visible = vlen ys1, fts_deleted = dlen ys1\<rparr>"
      using local_cursor_facts(1) [OF st1(2)] by (simp add: cursor_start_def)
    obtain as bs where split: "seek_split fragment_item fragment_text_dim (\<lambda>d. fts_visible d \<le> rs) (cursor_position (es_cursor st1)) zs1 = (as, bs)"
      by fastforce
    have sp: "zs1 = as @ bs" "vlen ys1 + vlen as \<le> rs" "bs \<noteq> [] \<Longrightarrow> rs < vlen ys1 + vlen as + room bs 0"
      using visible_split [OF split] pos \<open>vlen ys1 \<le> rs\<close> by auto
    obtain c u where c: "slice fragment_item fragment_text_dim (visible_target rs) Right (es_cursor st1) = Some (c, u)"
      "wf_tree fragment_item u" "tree_items u = as" "cursor_at fragment_item fragment_text_dim c (ys1 @ as) bs" "did_seek c" "cursor_tree c = fragments s"
      using fragment_text.slice_ok [of "es_cursor st1" ys1 zs1 "visible_target rs" Right as bs] st1(2) split visible_mono pos \<open>vlen ys1 \<le> rs\<close>
      by (auto simp: local_cursor_def visible_target_def)
    have oks: "\<forall>f \<in> set as. fragment_ok ins f" "\<forall>f \<in> set bs. fragment_ok ins f" using st1(4) sp(1) by (auto simp: trace_ok_def frags_ok_def)
    let ?em = "em1 @ map (Pair False) as"
    obtain b fs where b: "builder_append (es_ropes st1) (fs_text (node_summary u)) = Some b" "tree_append fragment_item (es_fragments st1) u = Some fs"
      "emitted ins (visible_text s) (deleted_text s) (st1\<lparr>es_ropes := b, es_fragments := fs\<rparr>) ?em (cells_of bs)"
      using append_slice_ok [OF _ sl oks(1) _ _ c(2,3), of st1 em1 "cells_of bs"] st1(3) sp(1) utf8_cells [OF oks(2)] by auto
    let ?st = "st1\<lparr>es_cursor := c, es_ropes := b, es_fragments := fs, es_start := fts_visible (cursor_start c)\<rparr>"
    have "local_advance rs st = Some ?st" using True facts st1(1) c(1) b(1,2) by (simp add: local_advance_def)
    moreover have cur': "local_cursor s ?st (ys1 @ as) bs" using c by (simp add: local_cursor_def)
    moreover have "local_at ins s ?st ?em (ys1 @ as) bs 0"
      using cur' local_cursor_facts(1) [OF cur'] trace_slice st1(4) sp(1) b(3) by (simp add: local_at_def emitted_def)
    moreover have "written ?em = written em @ A1 @ cells_of as" using st1(5) by (simp add: comp_def)
    moreover have "drop k (cells_of zs) = (A1 @ cells_of as) @ drop 0 (cells_of bs)" using st1(6) sp(1) by simp
    moreover have "same_log st ?st" using st1(7) by (simp add: same_log_def)
    moreover have "es_start ?st = vlen (ys1 @ as)" using local_cursor_facts(1) [OF cur'] by simp
    moreover have "rs \<le> vlen (ys1 @ as) + room bs 0"
      using sp local_cursor_facts(5) [OF cur'] rs(2) by (cases bs) (auto simp: room_def)
    moreover have "es_start ?st \<le> rs" using sp(2) local_cursor_facts(1) [OF cur'] by simp
    ultimately show ?thesis by (metis append.assoc)
  qed
qed

end
