(* ===== verification/Buffer_Edit.thy ===== *)
theory Buffer_Edit
  imports Buffer_Local
begin

text \<open>
  The steps of a local edit: keeping the part of a fragment before a range, inserting text, deleting a
  range, and finishing.  Each step reads some cells of the old sequence and appends cells to the
  new one: unchanged, new, or deleted.
\<close>

section \<open>What an edit writes\<close>

definition new_cells :: "lamport \<Rightarrow> nat \<Rightarrow> nat \<Rightarrow> cell list" where
  "new_cells timestamp offset n =
     map (\<lambda>i. \<lparr>c_timestamp = timestamp, c_offset = i, c_visible = True, c_deletions = [], c_undos = global_new\<rparr>) [offset ..< offset + n]"

definition kill :: "lamport \<Rightarrow> cell \<Rightarrow> cell" where
  "kill timestamp c = (if c_visible c then c\<lparr>c_visible := False, c_deletions := c_deletions c @ [timestamp]\<rparr> else c)"

definition text_of :: "insertion_texts \<Rightarrow> buffer_snapshot \<Rightarrow> bool" where
  "text_of ins s \<longleftrightarrow> (\<forall>f \<in> set (tree_items (fragments s)). fragment_ok ins f) \<and>
     rope_text (visible_text s) = cells_text ins (vis (cells_of (tree_items (fragments s)))) \<and>
     rope_text (deleted_text s) = cells_text ins (dead (cells_of (tree_items (fragments s)))) \<and>
     sliceable (visible_text s) \<and> sliceable (deleted_text s)"

text \<open>The slices that an edit enters into the index of insertion slices name the bytes it inserts or deletes.\<close>

definition cell_id :: "cell \<Rightarrow> lamport \<times> nat" where
  "cell_id c = (c_timestamp c, c_offset c)"

definition slice_ids :: "insertion_slice \<Rightarrow> (lamport \<times> nat) list" where
  "slice_ids sl = map (Pair (is_insertion_id sl)) [is_start sl ..< is_end sl]"

definition slices_of :: "lamport \<Rightarrow> insertion_slice list \<Rightarrow> (lamport \<times> nat) list \<Rightarrow> bool" where
  "slices_of ts sls ids \<longleftrightarrow> concat (map slice_ids sls) = ids \<and> (\<forall>sl \<in> set sls. is_edit_id sl = ts \<and> is_start sl < is_end sl)"

definition logs :: "lamport \<Rightarrow> 'd edit_state \<Rightarrow> 'd edit_state \<Rightarrow> (lamport \<times> nat) list \<Rightarrow> bool" where
  "logs ts st st' ids \<longleftrightarrow> (\<exists>sls. es_slices st' = es_slices st @ sls \<and> slices_of ts sls ids)"

lemma logs_none: "es_slices st' = es_slices st \<Longrightarrow> logs ts st st' []"
  by (simp add: logs_def slices_of_def)

lemma logs_trans: "logs ts st st' a \<Longrightarrow> logs ts st' st'' b \<Longrightarrow> logs ts st st'' (a @ b)"
  by (fastforce simp: logs_def slices_of_def)

lemma slice_of_fragment: "slice_ids (insertion_slice_from_fragment ts g) = map cell_id (fragment_cells g)"
  "is_edit_id (insertion_slice_from_fragment ts g) = ts"
  "is_start (insertion_slice_from_fragment ts g) < is_end (insertion_slice_from_fragment ts g) \<longleftrightarrow> 0 < fr_len g"
  by (simp_all add: slice_ids_def insertion_slice_from_fragment_def is_insertion_id_def is_edit_id_def fragment_cells_def cell_id_def)

lemma slices_of_fragments:
  "\<forall>g \<in> set gs. 0 < fr_len g \<Longrightarrow> slices_of ts (map (insertion_slice_from_fragment ts) gs) (map cell_id (cells_of gs))"
  by (induction gs) (simp_all add: slices_of_def slice_of_fragment)

lemma boundary_suffix: "str_is_char_boundary s (k + m) \<Longrightarrow> k \<le> length s \<Longrightarrow> str_is_char_boundary (drop k s) m"
  by (auto simp: str_is_char_boundary_def)

text \<open>A boundary of the visible text inside the current fragment cuts the text of the fragment.\<close>

lemma cut_fragment:
  assumes at: "local_at ins s st em ys (f # fs) k" and tx: "text_of ins s" and f: "fr_visible f"
    and n: "str_is_char_boundary (rope_text (visible_text s)) (es_start st + m)" "k + m \<le> fr_len f"
  shows "utf8 (take m (drop k (cells_text ins (fragment_cells f))))" "utf8 (drop (k + m) (cells_text ins (fragment_cells f)))"
proof -
  let ?x = "cells_text ins (fragment_cells f)"
  have items: "tree_items (fragments s) = ys @ f # fs" using at local_cursor_facts(5) by (auto simp: local_at_def)
  have tr: "frags_ok ins em (f # fs) k" and start: "es_start st = vlen ys + k" using at by (simp_all add: local_at_def trace_ok_def)
  have oks: "\<forall>f \<in> set ys. fragment_ok ins f" "\<forall>f \<in> set fs. fragment_ok ins f" "utf8 ?x"
    using tx items by (simp_all add: text_of_def fragment_ok_def)
  have "str_is_char_boundary (cells_text ins (vis (cells_of ys)) @ ?x @ cells_text ins (vis (cells_of fs))) (vlen ys + (k + m))"
    using n(1) tx items f start by (simp add: text_of_def add.assoc)
  then have "str_is_char_boundary (?x @ cells_text ins (vis (cells_of fs))) (k + m)"
    using boundary_append [OF utf8_cells(1) [OF oks(1)], of "?x @ cells_text ins (vis (cells_of fs))" "vlen ys + (k + m)"] oks utf8_cells(1) [OF oks(2)]
    by (cases "k + m = 0") auto
  then have "str_is_char_boundary ?x (k + m)" using boundary_append [OF oks(3) utf8_cells(1) [OF oks(2)]] n(2) by simp
  then have "str_is_char_boundary (drop k ?x) m" using boundary_suffix n(2) by simp
  with utf8_split(1,2) [of "drop k ?x" m] tr show "utf8 (take m (drop k ?x))" "utf8 (drop (k + m) ?x)"
    by (simp_all add: frags_ok_def add.commute)
qed

text \<open>Progress is measured by the visible cells that were read.\<close>

lemma local_progress:
  assumes "local_at ins s st em ys zs k" "local_at ins s st' em' ys' zs' k'" "drop k (cells_of zs) = A @ drop k' (cells_of zs')"
  shows "es_start st' = es_start st + length (vis A)"
proof -
  have part: "length (vis (take k (cells_of zs))) = k" if "frags_ok ins em zs k" for em zs k
    using that vis_part(3) [of _ k] by (cases zs) (auto simp: frags_ok_def)
  have "vlen ys + vlen zs = vlen ys' + vlen zs'"
    using local_total [of s st ys zs st' ys' zs'] assms(1,2) by (metis filter_append length_append local_at_def)
  moreover have "vlen zs = k + length (vis (drop k (cells_of zs)))" "vlen zs' = k' + length (vis (drop k' (cells_of zs')))"
    using part [of em zs k] part [of em' zs' k'] assms(1,2)
    by (metis append_take_drop_id filter_append length_append local_at_def trace_ok_def)+
  ultimately show ?thesis using assms by (simp add: local_at_def)
qed

lemma local_rest:
  assumes "local_at ins s st em ys zs k" "text_of ins s"
  shows "cells_text ins (vis (drop k (cells_of zs))) = drop (es_start st) (rope_text (visible_text s))"
proof -
  have items: "tree_items (fragments s) = ys @ zs" using assms(1) local_cursor_facts(5) by (auto simp: local_at_def)
  have fr: "frags_ok ins em zs k" and start: "es_start st = vlen ys + k" using assms(1) by (simp_all add: local_at_def trace_ok_def)
  have "vis (drop k (cells_of zs)) = drop k (vis (cells_of zs))"
    using fr vis_part(1) [of _ k] by (cases zs; cases "k = 0") (auto simp: frags_ok_def)
  then show ?thesis using assms(2) items start by (simp add: text_of_def)
qed

text \<open>The patch of an edit explains the new visible text so far.\<close>

definition patch_at :: "insertion_texts \<Rightarrow> buffer_snapshot \<Rightarrow> local_state \<Rightarrow> (bool \<times> fragment) list \<Rightarrow> bool" where
  "patch_at ins s st em \<longleftrightarrow>
     (let v = cells_text ins (vis (written em)) in patched_upto (rev (es_patch st)) (es_start st) (length v) (rope_text (visible_text s)) v)"

lemma upto_extend: "patched_upto es i j xs ys \<Longrightarrow> j \<le> length ys \<Longrightarrow> patched_upto es i j xs (ys @ zs)"
  by (induction es arbitrary: i j) (auto simp: seg_def)

lemma patch_keep:
  assumes at: "local_at ins s st em ys zs k" "local_at ins s st' em' ys' zs' k'" and tx: "text_of ins s" and p: "patch_at ins s st em"
    and A: "drop k (cells_of zs) = A @ drop k' (cells_of zs')" "written em' = written em @ A" "es_patch st' = es_patch st"
  shows "patch_at ins s st' em'"
proof -
  let ?xs = "rope_text (visible_text s)" and ?v = "cells_text ins (vis (written em))" and ?a = "cells_text ins (vis A)"
  have start: "es_start st' = es_start st + length ?a" using local_progress [OF at A(1)] by simp
  have "drop (es_start st) ?xs = ?a @ cells_text ins (vis (drop k' (cells_of zs')))" using local_rest [OF at(1) tx] A(1) by simp
  then have "seg ?xs (es_start st) (es_start st + length ?a) = seg (?v @ ?a) (length ?v) (length ?v + length ?a)" by (simp add: seg_def)
  then have "patched_upto (rev (es_patch st)) (es_start st + length ?a) (length ?v + length ?a) ?xs (?v @ ?a)"
    using upto_step upto_extend p by (fastforce simp: patch_at_def Let_def)
  then show ?thesis using start A(2,3) by (simp add: patch_at_def Let_def)
qed

section \<open>The part before a range\<close>

lemma local_prefix_ok:
  assumes at: "local_at ins s st em ys zs k" and tx: "text_of ins s"
    and rs: "es_start st \<le> rs" "rs \<le> es_start st + room zs k" "str_is_char_boundary (rope_text (visible_text s)) rs"
  shows "\<exists>st' em' k' A. local_prefix rs st = Some st' \<and> local_at ins s st' em' ys zs k' \<and> es_start st' = rs \<and>
    written em' = written em @ A \<and> drop k (cells_of zs) = A @ drop k' (cells_of zs) \<and> same_log st st'"
proof (cases "es_start st = rs")
  case True
  have "local_prefix rs st = Some st" "same_log st st" "written em = written em @ []" "drop k (cells_of zs) = [] @ drop k (cells_of zs)"
    using True by (simp_all add: local_prefix_def same_log_def)
  then show ?thesis using at True by blast
next
  case False
  define n where "n = rs - es_start st"
  have n: "0 < n" "rs = es_start st + n" "n \<le> room zs k" using False rs by (simp_all add: n_def)
  then obtain f fs where zs: "zs = f # fs" and f: "fr_visible f" "k + n \<le> fr_len f"
    by (cases zs) (auto simp: room_def split: if_splits)
  have cur: "local_cursor s st ys zs" and em: "emitted ins (visible_text s) (deleted_text s) st em (drop k (cells_of zs))"
    and tr: "trace_ok ins em ys zs k" and start: "es_start st = vlen ys + k" using at by (simp_all add: local_at_def)
  note facts = local_cursor_facts [OF cur]
  note sl = tx [unfolded text_of_def, THEN conjunct2, THEN conjunct2, THEN conjunct2]
  note cut = cut_fragment [OF at [unfolded zs] tx f(1) rs(3) [unfolded n(2)] f(2)]
  define id where "id = between (new_max_id st) (fr_id f)"
  define g where "g = (fragment_part f k n)\<lparr>fr_id := id\<rparr>"
  have g: "fr_timestamp g = fr_timestamp f" "insertion_offset g = insertion_offset f + k" "fr_len g = n" "fr_id g = id" "fr_visible g = fr_visible f"
    by (simp_all add: g_def fragment_part_def)
  have gc: "fragment_cells g = take n (drop k (fragment_cells f))" using f(2) by (simp add: g_def part_cells)
  have drop: "drop k (cells_of zs) = take n (drop k (fragment_cells f)) @ drop (k + n) (cells_of zs)"
    using zs f(2) by simp (metis append_take_drop_id add.commute append.assoc drop_drop)
  have ids: "\<forall>h \<in> set (map snd em). fr_id h < id" "id < fr_id f" "id_ok id"
    using new_id_ok [OF em, of zs "fr_id f"] tr zs by (simp_all add: id_def trace_ok_def)
  have tr': "trace_ok ins (em @ [(True, g)]) ys zs (k + n)"
    unfolding zs g(3) [symmetric] by (rule trace_part [OF tr [unfolded zs] f(1) _ g(1,2)]) (use f(2) g n(1) cut ids in simp_all)
  have homog: "\<forall>c \<in> set (take n (drop k (fragment_cells f))). c_visible c = fr_visible f"
    using fragment_cells_vis(1) [of _ f] by (meson in_set_dropD in_set_takeD)
  note R = rest_utf8 [OF tr' [unfolded trace_ok_def, THEN conjunct2, THEN conjunct1]]
  obtain st1 where st1: "push_part g (fr_visible f) st = Some st1"
    "emitted ins (visible_text s) (deleted_text s) st1 (em @ [(True, g)]) (drop (k + n) (cells_of zs))" "es_cursor st1 = es_cursor st" "same_log st st1"
    using push_part_ok [OF em [unfolded drop] conjunct1 [OF sl] conjunct2 [OF sl] homog, of g] gc cut(1) R by (auto simp: same_log_def)
  have "local_prefix rs st = Some (st1\<lparr>es_start := rs\<rparr>)"
    using n facts zs start st1(1) g(5) by (simp add: local_prefix_def g_def id_def fragment_part_def Let_def)
  moreover have "local_at ins s (st1\<lparr>es_start := rs\<rparr>) (em @ [(True, g)]) ys zs (k + n)"
    using cur st1(2,3) tr' n(2) start by (simp add: local_at_def local_cursor_def)
  moreover have "written (em @ [(True, g)]) = written em @ take n (drop k (fragment_cells f))" using gc by simp
  moreover have "same_log st (st1\<lparr>es_start := rs\<rparr>)" using st1(4) by (simp add: same_log_def)
  moreover have "es_start (st1\<lparr>es_start := rs\<rparr>) = rs" by simp
  ultimately show ?thesis using drop by blast
qed

section \<open>Inserting text\<close>

lemma new_cells_vis [simp]: "vis (new_cells ts off n) = new_cells ts off n" "dead (new_cells ts off n) = []" "length (new_cells ts off n) = n"
  by (simp_all add: new_cells_def filter_id_conv filter_empty_conv)

lemma new_cells_text: "off + n \<le> length (ins ts) \<Longrightarrow> cells_text ins (new_cells ts off n) = take n (drop off (ins ts))"
  by (rule nth_equalityI) (simp_all add: cells_text_def new_cells_def)

lemma new_cells_append: "new_cells ts off m @ new_cells ts (off + m) n = new_cells ts off (m + n)"
proof -
  have "[off ..< off + m] @ [off + m ..< off + m + n] = [off ..< off + (m + n)]"
    using upt_add_eq_append [of off "off + m" n] by (simp add: add.assoc)
  then show ?thesis unfolding new_cells_def by (metis map_append add.assoc)
qed

definition insertion_fragment_of :: "lamport \<Rightarrow> nat \<Rightarrow> locator \<Rightarrow> nat \<Rightarrow> fragment" where
  "insertion_fragment_of ts off l n = \<lparr>fr_id = l, fr_timestamp = ts, insertion_offset = off, fr_len = n, fr_visible = True,
     fr_deletions = [], max_undos = global_new\<rparr>"

lemma insertion_fragment_of_cells: "fragment_cells (insertion_fragment_of ts off l n) = new_cells ts off n"
  by (simp add: insertion_fragment_of_def fragment_cells_def new_cells_def)

text \<open>A chunk of an insertion ends at a character boundary and is not empty.\<close>

lemma chunk_end_ok:
  assumes "utf8 t" "str_is_char_boundary t off" "off < length t"
  defines "target \<equiv> min (length t) (off + MAX_INSERTION_LEN)"
  defines "e \<equiv> (if target = length t then target else str_floor_char_boundary t target)"
  shows "off < e" "e \<le> length t" "str_is_char_boundary t e"
proof -
  have "off < e \<and> e \<le> length t \<and> str_is_char_boundary t e"
  proof (cases "target = length t")
    case True
    then show ?thesis using assms(3) by (simp add: e_def)
  next
    case False
    then have t: "target = off + MAX_INSERTION_LEN" "target < length t" by (auto simp: target_def)
    have "target \<le> boundary_below t target + 3" using boundary_below_near [OF assms(1), of target] t(2) by simp
    moreover have "4 \<le> MAX_INSERTION_LEN" by (simp add: MAX_INSERTION_LEN_def)
    ultimately show ?thesis using False t floor_ok(1,2) [of t target] by (auto simp: e_def str_floor_char_boundary_def)
  qed
  then show "off < e" "e \<le> length t" "str_is_char_boundary t e" by simp_all
qed

lemma insertion_loop_ok:
  assumes "wf_tree fragment_item (es_fragments st)" "utf8 t" "str_is_char_boundary t off"
    and "new_max_id st < nid" "last nid \<noteq> 0" "locator_min \<le> new_max_id st" "nid \<le> locator_max"
    and "take (length t - off) (drop (es_insertion_offset st) (ins ts)) = drop off t"
  shows "\<exists>fs gs. insertion_loop t ts nid ets off st =
      Some (st\<lparr>es_slices := es_slices st @ map (insertion_slice_from_fragment ets) gs, es_insertions := es_insertions st @ map insert_new gs,
        es_fragments := fs, es_insertion_offset := es_insertion_offset st + (length t - off)\<rparr>) \<and>
    wf_tree fragment_item fs \<and> tree_items fs = tree_items (es_fragments st) @ gs \<and>
    cells_of gs = new_cells ts (es_insertion_offset st) (length t - off) \<and> sorted_wrt (<) (map fr_id gs) \<and>
    (\<forall>g \<in> set gs. fragment_ok ins g \<and> id_ok (fr_id g) \<and> new_max_id st < fr_id g \<and> fr_id g < nid)"
  using assms
proof (induction t ts nid ets off st rule: insertion_loop.induct)
  case (1 t ts nid ets off st)
  show ?case
  proof (cases "length t \<le> off")
    case True
    then show ?thesis using 1(2) by (auto simp: insertion_loop.simps [of t] new_cells_def intro!: exI [of _ "es_fragments st"] exI [of _ "[]"])
  next
    case False
    define target where "target = min (length t) (off + MAX_INSERTION_LEN)"
    define e where "e = (if target = length t then target else str_floor_char_boundary t target)"
    have e: "off < e" "e \<le> length t" "str_is_char_boundary t e"
      using chunk_end_ok [OF 1(3,4)] False unfolding e_def target_def by auto
    let ?n = "e - off" and ?o = "es_insertion_offset st"
    define id where "id = between (new_max_id st) nid"
    have id: "new_max_id st < id" "id < nid" "last id \<noteq> 0" using between_ok [OF 1(5,6)] by (simp_all add: id_def)
    define g where "g = insertion_fragment_of ts ?o id ?n"
    obtain fs where fs: "tree_push fragment_item (es_fragments st) g = Some fs" "wf_tree fragment_item fs" "tree_items fs = tree_items (es_fragments st) @ [g]"
      using fragment_tree.push_ok [OF 1(2)] by blast
    define st1 where "st1 = st\<lparr>es_slices := es_slices st @ [insertion_slice_from_fragment ets g], es_insertions := es_insertions st @ [insert_new g],
      es_fragments := fs, es_insertion_offset := ?o + ?n\<rparr>"
    have push: "push_insertion_fragment ts nid ets ?n st = Some st1"
      using fs(1) by (simp add: push_insertion_fragment_def st1_def g_def insertion_fragment_of_def id_def Let_def)
    have max: "new_max_id st1 = id"
      using fragment_tree_max_id [OF fs(2)] fs(3) by (simp add: new_max_id_def st1_def g_def insertion_fragment_of_def)
    have split: "drop off t = take ?n (drop off t) @ drop e t" using e by (metis append_take_drop_id drop_drop le_add_diff_inverse2 less_imp_le)
    have rest: "take (length t - e) (drop (?o + ?n) (ins ts)) = drop e t"
    proof -
      have "drop ?n (take (length t - off) (drop ?o (ins ts))) = drop e t" unfolding 1(9) using e by simp
      then show ?thesis using e by (simp add: drop_take add.commute)
    qed
    have len: "?o + (length t - off) \<le> length (ins ts)"
      using arg_cong [OF 1(9), of length] False e by simp
    have "take ?n (drop ?o (ins ts)) = take ?n (drop off t)" unfolding 1(9) [symmetric] using e by simp
    then have gt: "cells_text ins (fragment_cells g) = take ?n (drop off t)"
      using new_cells_text [of ?o ?n ins ts] len e by (simp add: g_def insertion_fragment_of_cells)
    have "str_is_char_boundary (drop off t) ?n" using boundary_suffix [of t off ?n] e by simp
    then have "utf8 (take ?n (drop off t))" using utf8_split(2) [OF 1(3,4)] utf8_split(1) by blast
    then have gok: "fragment_ok ins g" using gt e len by (simp add: fragment_ok_def g_def insertion_fragment_of_def)
    have gid: "fr_id g = id" "id_ok id"
      using id le_less_trans [OF 1(7) id(1)] less_le_trans [OF id(2) 1(8)] by (simp_all add: g_def insertion_fragment_of_def id_ok_def)
    obtain fs' gs where IH: "insertion_loop t ts nid ets e st1 =
      Some (st1\<lparr>es_slices := es_slices st1 @ map (insertion_slice_from_fragment ets) gs, es_insertions := es_insertions st1 @ map insert_new gs,
        es_fragments := fs', es_insertion_offset := es_insertion_offset st1 + (length t - e)\<rparr>)"
      "wf_tree fragment_item fs'" "tree_items fs' = tree_items (es_fragments st1) @ gs"
      "cells_of gs = new_cells ts (es_insertion_offset st1) (length t - e)" "sorted_wrt (<) (map fr_id gs)"
      "\<forall>g \<in> set gs. fragment_ok ins g \<and> id_ok (fr_id g) \<and> id < fr_id g \<and> fr_id g < nid"
      using 1(1) [OF _ target_def e_def _ _ push] False e 1(3,6,8) fs(2) max id(2) rest order.strict_implies_order [OF le_less_trans [OF 1(7) id(1)]]
      by (auto simp: st1_def)
    have "insertion_loop t ts nid ets off st = insertion_loop t ts nid ets e st1"
      using False e(1) push unfolding insertion_loop.simps [of t ts nid ets off st] by (simp add: Let_def target_def [symmetric] e_def [symmetric])
    moreover have "cells_of (g # gs) = new_cells ts ?o (length t - off)"
      using IH(4) new_cells_append [of ts ?o ?n "length t - e"] e by (simp add: g_def insertion_fragment_of_cells st1_def)
    moreover have "sorted_wrt (<) (map fr_id (g # gs))" using IH(5,6) gid(1) by simp
    moreover have "\<forall>h \<in> set (g # gs). fragment_ok ins h \<and> id_ok (fr_id h) \<and> new_max_id st < fr_id h \<and> fr_id h < nid"
      using IH(6) gok gid id(1,2) less_trans [OF id(1)] by auto
    moreover have "?o + ?n + (length t - e) = ?o + (length t - off)" using e by simp
    ultimately show ?thesis using IH(1-3) fs(3) by (intro exI [of _ fs'] exI [of _ "g # gs"]) (simp add: st1_def)
  qed
qed

lemma emitted_insert:
  assumes em: "emitted ins V D st em R" and gs: "cells_of gs = new_cells ts off n" "cells_text ins (new_cells ts off n) = t" and t: "utf8 t"
    and fs: "wf_tree fragment_item fs" "tree_items fs = tree_items (es_fragments st) @ gs"
  shows "\<exists>b. builder_push_str (es_ropes st) t = Some b \<and>
    emitted ins V D (st\<lparr>es_slices := sls, es_insertions := es_insertions st @ map insert_new gs, es_fragments := fs, es_insertion_offset := m, es_ropes := b\<rparr>)
      (em @ map (Pair True) gs) R"
proof -
  have "map snd (em @ map (Pair True) gs) = map snd em @ gs" by (simp add: comp_def)
  then have "written (em @ map (Pair True) gs) = written em @ new_cells ts off n" using gs(1) by simp
  then show ?thesis
    using builder_push_str_ok [of "es_ropes st" V D _ _ _ _ t] em t gs(2) fs by (auto simp: emitted_def comp_def)
qed

lemma local_insert_ok:
  assumes at: "local_at ins s st em ys zs k" and t: "utf8 t" "take (length t) (drop (es_insertion_offset st) (ins ts)) = t"
  shows "\<exists>st' em'. local_insert ts t st = Some st' \<and> local_at ins s st' em' ys zs k \<and> es_start st' = es_start st \<and>
    written em' = written em @ new_cells ts (es_insertion_offset st) (length t) \<and> es_insertion_offset st' = es_insertion_offset st + length t \<and>
    es_patch st' = (if t = [] then es_patch st
      else patch_push (es_patch st) (mk_edit (es_start st) (es_start st) (length (vis (written em))) (length (vis (written em)) + length t))) \<and>
    logs ts st st' (map cell_id (new_cells ts (es_insertion_offset st) (length t)))"
proof (cases "t = []")
  case True
  then show ?thesis using at logs_none by (auto simp: local_insert_def new_cells_def)
next
  case False
  have cur: "local_cursor s st ys zs" and em: "emitted ins (visible_text s) (deleted_text s) st em (drop k (cells_of zs))"
    and tr: "trace_ok ins em ys zs k" and start: "es_start st = vlen ys + k" using at by (simp_all add: local_at_def)
  define nid where "nid = (case zs of [] \<Rightarrow> locator_max | f # _ \<Rightarrow> fr_id f)"
  have next_id: "next_fragment_id st = Some nid"
    using cursor_at_item(1) [of fragment_item fragment_text_dim "es_cursor st" ys zs] cur
    by (cases zs) (simp_all add: next_fragment_id_def nid_def local_cursor_def)
  have order: "order_ok em zs" using tr by (simp add: trace_ok_def)
  note bounds = max_id_bound [OF order, folded new_max_id_eq [OF em]]
  have nid: "new_max_id st < nid" "last nid \<noteq> 0" "nid \<le> locator_max"
    using bounds(3,4) order by (cases zs; auto simp: nid_def order_ok_def id_ok_def locator_max_def intro: less_imp_le)+
  have wf: "wf_tree fragment_item (es_fragments st)" using em by (simp add: emitted_def)
  obtain fs gs where gs: "insertion_loop t ts nid ts 0 st =
      Some (st\<lparr>es_slices := es_slices st @ map (insertion_slice_from_fragment ts) gs, es_insertions := es_insertions st @ map insert_new gs,
        es_fragments := fs, es_insertion_offset := es_insertion_offset st + length t\<rparr>)"
    "wf_tree fragment_item fs" "tree_items fs = tree_items (es_fragments st) @ gs"
    "cells_of gs = new_cells ts (es_insertion_offset st) (length t)" "sorted_wrt (<) (map fr_id gs)"
    "\<forall>g \<in> set gs. fragment_ok ins g \<and> id_ok (fr_id g) \<and> new_max_id st < fr_id g \<and> fr_id g < nid"
    using insertion_loop_ok [OF wf t(1) boundary_ends(1) nid(1,2) bounds(2) nid(3), of ins ts ts] t(2) by auto
  have tt: "cells_text ins (new_cells ts (es_insertion_offset st) (length t)) = t"
    using new_cells_text [of "es_insertion_offset st" "length t" ins ts] t(2) arg_cong [OF t(2), of length] False by fastforce
  let ?em = "em @ map (Pair True) gs"
  obtain b where b: "builder_push_str (es_ropes st) t = Some b"
    "emitted ins (visible_text s) (deleted_text s) (st\<lparr>es_slices := es_slices st @ map (insertion_slice_from_fragment ts) gs,
      es_insertions := es_insertions st @ map insert_new gs, es_fragments := fs, es_insertion_offset := es_insertion_offset st + length t, es_ropes := b\<rparr>)
      ?em (drop k (cells_of zs))"
    using emitted_insert [OF em gs(4) tt t(1) gs(2,3)] by blast
  have "trace_ok ins ?em ys zs k"
  proof (rule trace_insert [OF tr _ _ gs(5)])
    show "\<forall>g \<in> set gs. fragment_ok ins g \<and> id_ok (fr_id g)" using gs(6) by blast
    have "fr_id h < fr_id g" if "g \<in> set gs" "h \<in> set (map snd em)" for g h using gs(6) that bounds(1) le_less_trans by blast
    moreover have "fr_id g < fr_id h" if "g \<in> set gs" "h \<in> set zs" for g h
    proof -
      have "nid \<le> fr_id h" using that(2) order by (cases zs) (auto simp: nid_def order_ok_def sorted_wrt_append intro: less_imp_le)
      then show ?thesis using gs(6) that(1) less_le_trans by blast
    qed
    ultimately show "\<forall>g \<in> set gs. (\<forall>h \<in> set (map snd em). fr_id h < fr_id g) \<and> (\<forall>h \<in> set zs. fr_id g < fr_id h)" by blast
  qed
  moreover have "new_visible_len st = length (vis (written em))"
    using fragment_tree_text [OF wf] em by (simp add: new_visible_len_def emitted_def)
  moreover have "written ?em = written em @ new_cells ts (es_insertion_offset st) (length t)" using gs(4) by (simp add: comp_def)
  moreover have "slices_of ts (map (insertion_slice_from_fragment ts) gs) (map cell_id (new_cells ts (es_insertion_offset st) (length t)))"
    using slices_of_fragments [of gs ts] gs(4,6) by (simp add: fragment_ok_def)
  ultimately show ?thesis
    using False next_id gs(1) b cur start
    by (auto simp: logs_def local_insert_def push_fragments_for_insertion_def local_at_def local_cursor_def Let_def intro!: exI [of _ ?em])
qed

section \<open>Deleting a range\<close>

lemma kill_cells [simp]: "vis (map (kill ts) cs) = []" "length (dead (map (kill ts) cs)) = length cs"
  by (auto simp: kill_def filter_empty_conv filter_id_conv intro!: arg_cong [of _ _ length])

lemma kill_sel [simp]: "c_timestamp (kill ts c) = c_timestamp c" "c_offset (kill ts c) = c_offset c" "cell_id (kill ts c) = cell_id c"
  by (simp_all add: kill_def cell_id_def)

lemma kill_dead: "\<not> fr_visible f \<Longrightarrow> map (kill ts) (fragment_cells f) = fragment_cells f"
  by (auto simp: kill_def fragment_cells_vis intro!: map_idI)

text \<open>The part of a fragment that a deletion marks.\<close>

definition deleted_part :: "lamport \<Rightarrow> fragment \<Rightarrow> nat \<Rightarrow> nat \<Rightarrow> locator \<Rightarrow> fragment" where
  "deleted_part ts f k n l = (fragment_part f k n)\<lparr>fr_id := l, fr_deletions := fr_deletions f @ [ts], fr_visible := False\<rparr>"

lemma deleted_part_sel [simp]:
  "fr_timestamp (deleted_part ts f k n l) = fr_timestamp f" "insertion_offset (deleted_part ts f k n l) = insertion_offset f + k"
  "fr_len (deleted_part ts f k n l) = n" "fr_id (deleted_part ts f k n l) = l" "\<not> fr_visible (deleted_part ts f k n l)"
  by (simp_all add: deleted_part_def fragment_part_def)

lemma deleted_part_cells:
  "fr_visible f \<Longrightarrow> k + n \<le> fr_len f \<Longrightarrow> fragment_cells (deleted_part ts f k n l) = map (kill ts) (take n (drop k (fragment_cells f)))"
  by (simp add: deleted_part_def fragment_part_def fragment_cells_def take_map drop_map add.assoc kill_def)

lemma delete_visible_part:
  fixes ts :: lamport
  assumes at: "local_at ins s st em ys (f # fs) k" and tx: "text_of ins s" and f: "fr_visible f" "k + n \<le> fr_len f" and n: "0 < n"
    and cut: "utf8 (take n (drop k (cells_text ins (fragment_cells f))))" "utf8 (drop (k + n) (cells_text ins (fragment_cells f)))"
  defines "g \<equiv> deleted_part ts f k n (between (new_max_id st) (fr_id f))"
  shows "\<exists>st'. push_part g True st = Some st' \<and> local_at ins s (st'\<lparr>es_start := es_start st + n\<rparr>) (em @ [(True, g)]) ys (f # fs) (k + n) \<and> same_log st st' \<and>
    written (em @ [(True, g)]) = written em @ map (kill ts) (take n (drop k (fragment_cells f)))"
proof -
  have cur: "local_cursor s st ys (f # fs)" and em: "emitted ins (visible_text s) (deleted_text s) st em (drop k (cells_of (f # fs)))"
    and tr: "trace_ok ins em ys (f # fs) k" and start: "es_start st = vlen ys + k" using at by (simp_all add: local_at_def)
  note sl = tx [unfolded text_of_def, THEN conjunct2, THEN conjunct2, THEN conjunct2]
  have ids: "\<forall>h \<in> set (map snd em). fr_id h < fr_id g" "fr_id g < fr_id f" "id_ok (fr_id g)"
    using new_id_ok [OF em, of "f # fs" "fr_id f"] tr by (simp_all add: g_def trace_ok_def)
  have tr': "trace_ok ins (em @ [(True, g)]) ys (f # fs) (k + n)"
    using trace_part [OF tr f(1), of g] f(2) n cut ids by (simp add: g_def)
  have drop: "drop k (cells_of (f # fs)) = take n (drop k (fragment_cells f)) @ drop (k + n) (cells_of (f # fs))"
    using f(2) by simp (metis append_take_drop_id add.commute append.assoc drop_drop)
  have homog: "\<forall>c \<in> set (take n (drop k (fragment_cells f))). c_visible c = True"
    using fragment_cells_vis(1) [of _ f] f(1) by (meson in_set_dropD in_set_takeD)
  note R = rest_utf8 [OF tr' [unfolded trace_ok_def, THEN conjunct2, THEN conjunct1]]
  have gt: "cells_text ins (fragment_cells g) = cells_text ins (take n (drop k (fragment_cells f)))"
    using part_text [of g f k ins] f(2) by (simp add: g_def)
  obtain st1 where st1: "push_part g True st = Some st1"
    "emitted ins (visible_text s) (deleted_text s) st1 (em @ [(True, g)]) (drop (k + n) (cells_of (f # fs)))" "es_cursor st1 = es_cursor st" "same_log st st1"
    using push_part_ok [OF em [unfolded drop] conjunct1 [OF sl] conjunct2 [OF sl] homog gt] cut(1) R by (auto simp: same_log_def)
  moreover have "local_at ins s (st1\<lparr>es_start := es_start st + n\<rparr>) (em @ [(True, g)]) ys (f # fs) (k + n)"
    using cur st1(2,3) tr' start by (simp add: local_at_def local_cursor_def)
  moreover have "written (em @ [(True, g)]) = written em @ map (kill ts) (take n (drop k (fragment_cells f)))"
    using deleted_part_cells [OF f] by (simp add: g_def)
  ultimately show ?thesis by blast
qed

lemma local_at_next:
  assumes "local_at ins s st em ys (f # fs) (fr_len f)" "fr_visible f"
  shows "\<exists>c. local_next st = Some (st\<lparr>es_cursor := c\<rparr>) \<and> local_at ins s (st\<lparr>es_cursor := c\<rparr>) em (ys @ [f]) fs 0"
proof -
  obtain c where c: "local_next st = Some (st\<lparr>es_cursor := c\<rparr>)" "local_cursor s (st\<lparr>es_cursor := c\<rparr>) (ys @ [f]) fs"
    using local_next_ok [of s st ys "f # fs"] assms(1) by (auto simp: local_at_def)
  moreover have "trace_ok ins em (ys @ [f]) fs 0" using trace_next assms(1) by (simp add: local_at_def)
  ultimately show ?thesis using assms by (auto simp: local_at_def)
qed

definition deletes :: "lamport \<Rightarrow> local_state \<Rightarrow> local_state \<Rightarrow> cell list \<Rightarrow> cell list \<Rightarrow> bool" where
  "deletes ts st st' B W \<longleftrightarrow> es_insertion_offset st' = es_insertion_offset st \<and> logs ts st st' (map cell_id (vis B)) \<and>
     es_patch st' = (if vis B = [] then es_patch st
       else patch_push (es_patch st) (mk_edit (es_start st) (es_start st + length (vis B)) (length (vis W)) (length (vis W))))"

lemma patch_delete:
  assumes at: "local_at ins s st em ys zs k" "local_at ins s st' em' ys' zs' k'" and p: "patch_at ins s st em"
    and B: "drop k (cells_of zs) = B @ drop k' (cells_of zs')" "written em' = written em @ map (kill ts) B" "deletes ts st st' B (written em)"
  shows "patch_at ins s st' em'"
  using p B local_progress [OF at B(1)] upto_push [of "es_patch st" "es_start st" "length (vis (written em))" _ _ "es_start st'" "length (vis (written em))"]
  by (auto simp: patch_at_def deletes_def Let_def split: if_splits)

lemma delete_tombstone:
  assumes at: "local_at ins s st em ys (f # fs) k" and tx: "text_of ins s" and f: "\<not> fr_visible f" and re: "es_start st < re"
  shows "\<exists>st' em'. local_delete_step ts re st = Some st' \<and> local_at ins s st' em' (ys @ [f]) fs 0 \<and>
    drop k (cells_of (f # fs)) = fragment_cells f @ cells_of fs \<and> written em' = written em @ map (kill ts) (fragment_cells f) \<and>
    deletes ts st st' (fragment_cells f) (written em) \<and> es_start st' = es_start st"
proof -
  have cur: "local_cursor s st ys (f # fs)" and em: "emitted ins (visible_text s) (deleted_text s) st em (drop k (cells_of (f # fs)))"
    and tr: "trace_ok ins em ys (f # fs) k" and start: "es_start st = vlen ys + k" using at by (simp_all add: local_at_def)
  have k: "k = 0" "0 < fr_len f" "utf8 (cells_text ins (fragment_cells f))" "\<forall>g \<in> set fs. fragment_ok ins g"
    using tr f by (auto simp: trace_ok_def frags_ok_def fragment_ok_def)
  note facts = local_cursor_facts [OF cur]
  note sl = tx [unfolded text_of_def, THEN conjunct2, THEN conjunct2, THEN conjunct2]
  have em': "emitted ins (visible_text s) (deleted_text s) st em (fragment_cells f @ cells_of fs)" using em k(1) by simp
  have homog: "\<forall>c \<in> set (fragment_cells f). c_visible c = False" using f by (simp add: fragment_cells_vis)
  obtain st1 where st1: "push_part f False st = Some st1"
    "emitted ins (visible_text s) (deleted_text s) st1 (em @ [(True, f)]) (cells_of fs)" "es_cursor st1 = es_cursor st" "same_log st st1"
    using push_part_ok [OF em' conjunct1 [OF sl] conjunct2 [OF sl] homog refl k(3) utf8_cells [OF k(4)]] by (auto simp: same_log_def)
  let ?st = "st1\<lparr>es_start := es_start st\<rparr>"
  have cur1: "local_cursor s ?st ys (f # fs)" using cur st1(3) by (simp add: local_cursor_def)
  obtain c where c: "local_next ?st = Some (?st\<lparr>es_cursor := c\<rparr>)" "local_cursor s (?st\<lparr>es_cursor := c\<rparr>) (ys @ [f]) fs"
    using local_next_ok [OF cur1] by auto
  have order: "order_ok em (f # fs)" using tr by (simp add: trace_ok_def)
  have tr': "trace_ok ins (em @ [(True, f)]) (ys @ [f]) fs 0"
    using trace_finish [OF tr, of f] k order_ok_hd [OF order] by simp
  have "local_delete_step ts re st = Some (?st\<lparr>es_cursor := c\<rparr>)"
    using facts f k start re st1(1) c(1) by (simp add: local_delete_step_def room_def Let_def)
  moreover have "local_at ins s (?st\<lparr>es_cursor := c\<rparr>) (em @ [(True, f)]) (ys @ [f]) fs 0"
    using c(2) st1(2) tr' start k f by (simp add: local_at_def)
  moreover have "written (em @ [(True, f)]) = written em @ map (kill ts) (fragment_cells f)" using kill_dead [OF f] by simp
  moreover have "deletes ts st (?st\<lparr>es_cursor := c\<rparr>) (fragment_cells f) (written em)" using st1(4) f by (simp add: deletes_def same_log_def logs_none)
  moreover have "drop k (cells_of (f # fs)) = fragment_cells f @ cells_of fs" using k(1) by simp
  moreover have "es_start (?st\<lparr>es_cursor := c\<rparr>) = es_start st" by simp
  ultimately show ?thesis by blast
qed

lemma delete_visible:
  assumes at: "local_at ins s st em ys (f # fs) k" and tx: "text_of ins s" and f: "fr_visible f"
    and re: "es_start st < re" "str_is_char_boundary (rope_text (visible_text s)) re"
  shows "\<exists>st' em' ys' zs' k' B. local_delete_step ts re st = Some st' \<and> local_at ins s st' em' ys' zs' k' \<and>
    drop k (cells_of (f # fs)) = B @ drop k' (cells_of zs') \<and> written em' = written em @ map (kill ts) B \<and>
    deletes ts st st' B (written em) \<and> es_start st' \<le> re \<and> (es_start st' = re \<or> length zs' < length (f # fs)) \<and> vis B = B"
proof -
  have cur: "local_cursor s st ys (f # fs)" and em: "emitted ins (visible_text s) (deleted_text s) st em (drop k (cells_of (f # fs)))"
    and tr: "trace_ok ins em ys (f # fs) k" and start: "es_start st = vlen ys + k" using at by (simp_all add: local_at_def)
  have k: "k \<le> fr_len f" "utf8 (cells_text ins (drop k (fragment_cells f)))" using tr by (simp_all add: trace_ok_def frags_ok_def)
  note facts = local_cursor_facts [OF cur]
  have ends: "local_fragment_end st = Some (vlen ys + fr_len f)" using facts f by (simp add: room_def)
  define n where "n = min (re - es_start st) (fr_len f - k)"
  have iend: "min re (vlen ys + fr_len f) = es_start st + n" using start re(1) k(1) unfolding n_def by linarith
  show ?thesis
  proof (cases "n = 0")
    case True
    then have len: "k = fr_len f" using re k by (simp add: n_def)
    obtain c where c: "local_next st = Some (st\<lparr>es_cursor := c\<rparr>)" "local_at ins s (st\<lparr>es_cursor := c\<rparr>) em (ys @ [f]) fs 0"
      using local_at_next [OF at [unfolded len] f] by blast
    have "local_delete_step ts re st = Some (st\<lparr>es_cursor := c\<rparr>)"
      using facts ends f len start re iend True c(1) by (simp add: local_delete_step_def fragment_part_def Let_def)
    moreover have "drop k (cells_of (f # fs)) = [] @ drop 0 (cells_of fs)" "written em = written em @ map (kill ts) []" using len by simp_all
    moreover have "deletes ts st (st\<lparr>es_cursor := c\<rparr>) [] (written em)" "es_start (st\<lparr>es_cursor := c\<rparr>) \<le> re" "length fs < length (f # fs)" "vis [] = []"
      using re by (simp_all add: deletes_def logs_none)
    ultimately show ?thesis using c(2) by blast
  next
    case False
    then have n: "0 < n" "k + n \<le> fr_len f" using k(1) unfolding n_def by linarith+
    have cut: "utf8 (take n (drop k (cells_text ins (fragment_cells f))))" "utf8 (drop (k + n) (cells_text ins (fragment_cells f)))"
    proof -
      have "utf8 (take n (drop k (cells_text ins (fragment_cells f)))) \<and> utf8 (drop (k + n) (cells_text ins (fragment_cells f)))"
      proof (cases "n = re - es_start st")
        case True
        then show ?thesis using cut_fragment [OF at tx f _ n(2)] re by simp
      next
        case False
        then have "n = fr_len f - k" by (auto simp: n_def)
        then show ?thesis using k by simp
      qed
      then show "utf8 (take n (drop k (cells_text ins (fragment_cells f))))" "utf8 (drop (k + n) (cells_text ins (fragment_cells f)))" by simp_all
    qed
    define g where "g = deleted_part ts f k n (between (new_max_id st) (fr_id f))"
    let ?B = "take n (drop k (fragment_cells f))"
    define st0 where "st0 = st\<lparr>es_patch := patch_push (es_patch st) (mk_edit (es_start st) (es_start st + n) (new_visible_len st) (new_visible_len st)),
      es_slices := es_slices st @ [insertion_slice_from_fragment ts g]\<rparr>"
    have at0: "local_at ins s st0 em ys (f # fs) k" using at by (simp add: st0_def local_at_def local_cursor_def)
    have g0: "g = deleted_part ts f k n (between (new_max_id st0) (fr_id f))" by (simp add: g_def st0_def new_max_id_def)
    obtain st1 where st1: "push_part g True st0 = Some st1" "same_log st0 st1"
      "local_at ins s (st1\<lparr>es_start := es_start st + n\<rparr>) (em @ [(True, g)]) ys (f # fs) (k + n)"
      "written (em @ [(True, g)]) = written em @ map (kill ts) ?B"
      using delete_visible_part [OF at0 tx f n(2,1) cut, of ts, folded g0] by (auto simp: st0_def)
    let ?st = "st1\<lparr>es_start := es_start st + n\<rparr>"
    have inter: "(fragment_part f k n)\<lparr>fr_id := between (new_max_id st) (fr_id f), fr_deletions := fr_deletions f @ [ts], fr_visible := False\<rparr> = g"
      by (simp add: g_def deleted_part_def)
    have "es_start st + n - es_start st = n" "es_start st - vlen ys = k" using start by simp_all
    moreover have "fr_len g = n" "\<not> fr_visible g" by (simp_all add: g_def)
    ultimately have step: "local_delete_step ts re st = (if vlen ys + fr_len f \<le> re then local_next ?st else Some ?st)"
      using facts ends f iend inter st1(1) n(1) unfolding st0_def by (simp add: local_delete_step_def Let_def g_def [symmetric])
    have len: "new_visible_len st = length (vis (written em))" using fragment_tree_text em by (auto simp: new_visible_len_def emitted_def)
    have B: "vis ?B = ?B" "length ?B = n"
      using fragment_cells_vis(1) [of _ f] f n(2) by (auto simp: filter_id_conv dest!: in_set_takeD in_set_dropD)
    have gs: "slices_of ts [insertion_slice_from_fragment ts g] (map cell_id ?B)"
      using slices_of_fragments [of "[g]" ts] n(1) deleted_part_cells [OF f n(2), of ts] by (simp add: g_def comp_def)
    have del: "deletes ts st (?st\<lparr>es_cursor := c\<rparr>) ?B (written em)" "deletes ts st ?st ?B (written em)" for c
      using st1(2) B n(1) len gs by (auto simp: deletes_def same_log_def st0_def logs_def)
    have bound: "es_start st + n \<le> re" using re(1) by (simp add: n_def)
    have drop: "drop k (cells_of (f # fs)) = ?B @ drop (k + n) (cells_of (f # fs))"
      using n(2) by simp (metis append_take_drop_id add.commute append.assoc drop_drop)
    show ?thesis
    proof (cases "vlen ys + fr_len f \<le> re")
      case True
      then have kn: "k + n = fr_len f" using iend start by simp
      obtain c where c: "local_next ?st = Some (?st\<lparr>es_cursor := c\<rparr>)" "local_at ins s (?st\<lparr>es_cursor := c\<rparr>) (em @ [(True, g)]) (ys @ [f]) fs 0"
        using local_at_next [OF st1(3) [unfolded kn] f] by blast
      have "drop k (cells_of (f # fs)) = ?B @ drop 0 (cells_of fs)" using drop kn by simp
      moreover have "es_start (?st\<lparr>es_cursor := c\<rparr>) \<le> re" "length fs < length (f # fs)" using bound by simp_all
      ultimately show ?thesis using step True c st1(4) del(1) B(1) by (metis (no_types, lifting))
    next
      case False
      then have "es_start ?st = re" using iend by simp
      then show ?thesis using step False st1(3,4) del(2) B(1) drop by (metis (no_types, lifting) order_refl)
    qed
  qed
qed

lemma local_delete_ok:
  assumes "local_at ins s st em ys zs k" "text_of ins s" "es_start st \<le> re" "re \<le> vlen (tree_items (fragments s))"
    "str_is_char_boundary (rope_text (visible_text s)) re"
  shows "\<exists>st' em' ys' zs' k' B. local_delete ts re st = Some st' \<and> local_at ins s st' em' ys' zs' k' \<and> es_start st' = re \<and>
    drop k (cells_of zs) = B @ drop k' (cells_of zs') \<and> written em' = written em @ map (kill ts) B \<and>
    es_insertion_offset st' = es_insertion_offset st \<and> logs ts st st' (map cell_id (vis B)) \<and>
    (patch_at ins s st em \<longrightarrow> patch_at ins s st' em')"
  using assms
proof (induction "length zs" arbitrary: st em ys zs k rule: less_induct)
  case less
  show ?case
  proof (cases "es_start st = re")
    case True
    then have "local_delete ts re st = Some st" by (simp add: local_delete.simps)
    moreover have "drop k (cells_of zs) = [] @ drop k (cells_of zs)" "written em = written em @ map (kill ts) []" by simp_all
    moreover have "logs ts st st (map cell_id (vis []))" using logs_none [of st st ts] by simp
    ultimately show ?thesis using less.prems(1) True by blast
  next
    case False
    then have lt: "es_start st < re" using less.prems(3) by simp
    have items: "tree_items (fragments s) = ys @ zs" using less.prems(1) local_cursor_facts(5) by (auto simp: local_at_def)
    have "zs \<noteq> []" using items lt less.prems(1,4) by (auto simp: local_at_def trace_ok_def frags_ok_def)
    then obtain f fs where zs: "zs = f # fs" by (cases zs) auto
    obtain st1 em1 ys1 zs1 k1 B1 where st1: "local_delete_step ts re st = Some st1" "local_at ins s st1 em1 ys1 zs1 k1"
      "drop k (cells_of zs) = B1 @ drop k1 (cells_of zs1)" "written em1 = written em @ map (kill ts) B1"
      "deletes ts st st1 B1 (written em)" "es_start st1 \<le> re" "es_start st1 = re \<or> length zs1 < length zs"
    proof (cases "fr_visible f")
      case True
      from delete_visible [OF less.prems(1) [unfolded zs] less.prems(2) True lt less.prems(5), of ts] that zs show ?thesis by blast
    next
      case False
      from delete_tombstone [OF less.prems(1) [unfolded zs] less.prems(2) False lt, of ts] that [of _ _ "ys @ [f]" fs 0 "fragment_cells f"] zs lt
      show ?thesis by fastforce
    qed
    have unfold: "local_delete ts re st = local_delete ts re st1" using lt st1(1) by (simp add: local_delete.simps [of ts re st])
    show ?thesis
    proof (cases "es_start st1 = re")
      case True
      then have "local_delete ts re st1 = Some st1" by (simp add: local_delete.simps)
      with unfold True st1 patch_delete [OF less.prems(1) st1(2) _ st1(3,4,5)] show ?thesis unfolding deletes_def by metis
    next
      case False
      then have "length zs1 < length zs" using st1(7) by simp
      from less.hyps [OF this st1(2) less.prems(2) st1(6) less.prems(4,5)] obtain st2 em2 ys2 zs2 k2 B2 where
        "local_delete ts re st1 = Some st2" "local_at ins s st2 em2 ys2 zs2 k2" "es_start st2 = re"
        "drop k1 (cells_of zs1) = B2 @ drop k2 (cells_of zs2)" "written em2 = written em1 @ map (kill ts) B2"
        "es_insertion_offset st2 = es_insertion_offset st1" "logs ts st1 st2 (map cell_id (vis B2))" "patch_at ins s st1 em1 \<longrightarrow> patch_at ins s st2 em2" by blast
      moreover from this have "logs ts st st2 (map cell_id (vis (B1 @ B2)))" "drop k (cells_of zs) = (B1 @ B2) @ drop k2 (cells_of zs2)" "written em2 = written em @ map (kill ts) (B1 @ B2)"
        using st1(3-5) logs_trans [of ts st st1 _ st2] by (simp_all add: deletes_def)
      ultimately show ?thesis using unfold st1(5) patch_delete [OF less.prems(1) st1(2) _ st1(3,4,5)] unfolding deletes_def by metis
    qed
  qed
qed

end
