(* ===== verification/Buffer_Refine.thy ===== *)
theory Buffer_Refine
  imports Buffer_Edit
begin

text \<open>
  A local edit implements the abstract edit of a sequence of bytes: the specification keeps the bytes
  outside the ranges, puts new bytes before each range, and marks the visible bytes of the ranges as
  deleted.  It fixes everything but the place of an insertion among deleted bytes.
\<close>

section \<open>Specification\<close>

inductive local_spec ::
  "lamport \<Rightarrow> nat \<Rightarrow> nat \<Rightarrow> nat \<Rightarrow> cell list \<Rightarrow> (nat \<times> nat \<times> str) list \<Rightarrow> cell list \<Rightarrow> (full_offset \<times> full_offset) list \<Rightarrow> bool" for ts where
  spec_end: "local_spec ts pos off full R [] R []"
| spec_edit: "pos \<le> s \<Longrightarrow> length (vis A) = s - pos \<Longrightarrow> s \<le> e \<Longrightarrow> length (vis B) = e - s \<Longrightarrow>
    local_spec ts e (off + length t) (full + length A + length B) R es N rs \<Longrightarrow>
    local_spec ts pos off full (A @ B @ R) ((s, e, t) # es) (A @ new_cells ts off (length t) @ map (kill ts) B @ N)
      ((full + length A, full + length A + length B) # rs)"

inductive_cases local_spec_NilE: "local_spec ts pos off full R [] N rs"
inductive_cases local_spec_ConsE: "local_spec ts pos off full R (e # es) N rs"

text \<open>The text that a list of edits in order makes of a text.\<close>

fun spliced :: "nat \<Rightarrow> str \<Rightarrow> (nat \<times> nat \<times> str) list \<Rightarrow> str" where
  "spliced pos x [] = x"
| "spliced pos x ((s, e, t) # es) = take (s - pos) x @ t @ spliced e (drop (e - pos) x) es"

fun edits_ok :: "str \<Rightarrow> nat \<Rightarrow> (nat \<times> nat \<times> str) list \<Rightarrow> bool" where
  "edits_ok x pos [] \<longleftrightarrow> True"
| "edits_ok x pos ((s, e, t) # es) \<longleftrightarrow>
     pos \<le> s \<and> s \<le> e \<and> str_is_char_boundary x s \<and> str_is_char_boundary x e \<and> utf8 t \<and> edits_ok x e es"

abbreviation edit_texts :: "(nat \<times> nat \<times> str) list \<Rightarrow> str" where
  "edit_texts es \<equiv> concat (map (\<lambda>(_, _, t). t) es)"

lemma new_cells_eq:
  assumes "take (length t) (drop off (ins ts)) = t"
  shows "cells_text ins (new_cells ts off (length t)) = t"
proof (cases "t = []")
  case False
  then have "off + length t \<le> length (ins ts)" using arg_cong [OF assms, of length] by (cases t) auto
  then show ?thesis using new_cells_text assms by simp
qed (simp add: new_cells_def)

lemma spec_text:
  assumes "local_spec ts pos off full R es N rs" "take (length (edit_texts es)) (drop off (ins ts)) = edit_texts es"
  shows "cells_text ins (vis N) = spliced pos (cells_text ins (vis R)) es"
  using assms
proof (induction rule: local_spec.induct)
  case (spec_edit pos s A e B off t full R es N rs)
  let ?n = "length (edit_texts es)"
  have all: "take (length t + ?n) (drop off (ins ts)) = t @ edit_texts es" using spec_edit.prems by simp
  have t: "take (length t) (drop off (ins ts)) = t" using arg_cong [OF all, of "take (length t)"] by simp
  have "take ?n (drop (off + length t) (ins ts)) = edit_texts es"
    using arg_cong [OF all, of "drop (length t)"] by (simp add: drop_take add.commute)
  then have IH: "cells_text ins (vis N) = spliced e (cells_text ins (vis R)) es" by (rule spec_edit.IH)
  have new: "cells_text ins (new_cells ts off (length t)) = t" using t by (rule new_cells_eq)
  have ab: "e - pos = length (vis A) + length (vis B)" using spec_edit.hyps by simp
  then show ?case using IH new spec_edit.hyps(2) by simp
qed simp

text \<open>The old bytes stay in order, each at most marked as deleted, and the new ones carry the timestamp of the edit.\<close>

lemma spec_old:
  assumes "local_spec ts pos off full R es N rs" "\<forall>c \<in> set R. c_timestamp c \<noteq> ts"
  shows "list_all2 (\<lambda>c d. d = c \<or> d = kill ts c) R (filter (\<lambda>c. c_timestamp c \<noteq> ts) N)"
    and "filter (\<lambda>c. c_timestamp c = ts) N = new_cells ts off (length (edit_texts es))"
proof -
  have "list_all2 (\<lambda>c d. d = c \<or> d = kill ts c) R (filter (\<lambda>c. c_timestamp c \<noteq> ts) N) \<and>
    filter (\<lambda>c. c_timestamp c = ts) N = new_cells ts off (length (edit_texts es))"
    using assms
  proof (induction rule: local_spec.induct)
    case (spec_end pos off full R)
    then have "filter (\<lambda>c. c_timestamp c \<noteq> ts) R = R" "filter (\<lambda>c. c_timestamp c = ts) R = []"
      by (auto simp: filter_id_conv filter_empty_conv)
    then show ?case by (simp add: new_cells_def list_all2_refl)
  next
    case (spec_edit pos s A e B off t full R es N rs)
    have A: "filter (\<lambda>c. c_timestamp c \<noteq> ts) A = A" "filter (\<lambda>c. c_timestamp c = ts) A = []"
      using spec_edit.prems by (auto simp: filter_id_conv filter_empty_conv)
    have B: "filter (\<lambda>c. c_timestamp c \<noteq> ts) (map (kill ts) B) = map (kill ts) B" "filter (\<lambda>c. c_timestamp c = ts) (map (kill ts) B) = []"
      using spec_edit.prems by (auto simp: filter_id_conv filter_empty_conv)
    have C: "filter (\<lambda>c. c_timestamp c \<noteq> ts) (new_cells ts off n) = []" "filter (\<lambda>c. c_timestamp c = ts) (new_cells ts off n) = new_cells ts off n" for n
      by (auto simp: filter_id_conv filter_empty_conv new_cells_def)
    have "list_all2 (\<lambda>c d. d = c \<or> d = kill ts c) A A" "list_all2 (\<lambda>c d. d = c \<or> d = kill ts c) B (map (kill ts) B)"
      by (simp_all add: list_all2_conv_all_nth)
    then show ?case using spec_edit A B C new_cells_append [of ts off "length t"] by (simp add: list_all2_appendI)
  qed
  then show "list_all2 (\<lambda>c d. d = c \<or> d = kill ts c) R (filter (\<lambda>c. c_timestamp c \<noteq> ts) N)"
    "filter (\<lambda>c. c_timestamp c = ts) N = new_cells ts off (length (edit_texts es))" by simp_all
qed

section \<open>Line endings\<close>

lemma normalize_no_cr: "0x0D \<notin> set (line_ending_normalize s)"
  by (induction s rule: line_ending_normalize.induct) (auto split: list.splits)

lemma normalize_id: "0x0D \<notin> set s \<Longrightarrow> line_ending_normalize s = s"
  by (induction s rule: line_ending_normalize.induct) auto

lemma normalize_append: "0x0D \<notin> set c \<Longrightarrow> line_ending_normalize (c @ s) = c @ line_ending_normalize s"
  by (induction c) auto

lemma utf8_cr:
  assumes "utf8_char c" "0x0D \<in> set c"
  shows "c = [0x0D]"
proof (cases "length c = 1")
  case True
  then show ?thesis using assms(2) by (cases c) auto
next
  case False
  then have "\<forall>b \<in> set c. 0x80 \<le> b" using utf8_char_shape(1,7,8) [OF assms(1)] by (cases c) auto
  then show ?thesis using assms(2) by auto
qed

lemma normalize_utf8: "utf8 s \<Longrightarrow> utf8 (line_ending_normalize s)"
proof (induction s rule: utf8_induct)
  case (Char c s)
  show ?case
  proof (cases "0x0D \<in> set c")
    case False
    then show ?thesis using Char normalize_append by simp
  next
    case True
    then have c: "c = [0x0D]" using Char.hyps(1) utf8_cr by blast
    have "utf8 ([0x0A] @ line_ending_normalize s)" using Char.IH by (intro utf8_append) (simp_all add: utf8_single)
    then show ?thesis using Char.IH c by (cases s) (auto split: if_splits)
  qed
qed simp

section \<open>One edit\<close>

lemma local_full:
  assumes "local_at ins s st em ys zs k"
  shows "es_start st + fts_deleted (cursor_start (es_cursor st)) = length (cells_of ys) + k"
proof -
  have "vlen ys + dlen ys = length (cells_of ys)" by (rule sum_length_filter_compl)
  then show ?thesis using assms local_cursor_facts(1) [of s st ys zs] by (simp add: local_at_def)
qed

lemma local_full_progress:
  assumes "local_at ins s st em ys zs k" "local_at ins s st' em' ys' zs' k'" "drop k (cells_of zs) = A @ drop k' (cells_of zs')"
  shows "length (cells_of ys') + k' = length (cells_of ys) + k + length A"
proof -
  have le: "k \<le> length (cells_of zs)" if "local_at ins s st em ys zs k" for st em ys zs k
    using that by (cases zs) (auto simp: local_at_def trace_ok_def frags_ok_def)
  have "length (cells_of ys) + length (cells_of zs) = length (cells_of ys') + length (cells_of zs')"
    using local_total [of s st ys zs st' ys' zs'] assms(1,2) by (metis length_append local_at_def)
  then show ?thesis using arg_cong [OF assms(3), of length] le [OF assms(1)] le [OF assms(2)] by simp
qed

lemma patch_insert:
  assumes at: "patch_at ins s st em" and W: "written em' = written em @ new_cells ts off (length t)" "es_start st' = es_start st"
    and p: "es_patch st' = (if t = [] then es_patch st
      else patch_push (es_patch st) (mk_edit (es_start st) (es_start st) (length (vis (written em))) (length (vis (written em)) + length t)))"
  shows "patch_at ins s st' em'"
proof -
  let ?v = "cells_text ins (vis (written em))"
  have "patched_upto (rev (es_patch st)) (es_start st) (length ?v) (rope_text (visible_text s)) (?v @ cells_text ins (new_cells ts off (length t)))"
    using at upto_extend by (fastforce simp: patch_at_def Let_def)
  then show ?thesis using W p upto_push [of "es_patch st" "es_start st" "length ?v" _ _ "es_start st" "length ?v + length t"]
    by (auto simp: patch_at_def Let_def split: if_splits)
qed

lemma local_keep_ok:
  assumes at: "local_at ins s st em ys zs k" and tx: "text_of ins s"
    and rs: "es_start st \<le> rs" "str_is_char_boundary (rope_text (visible_text s)) rs"
  shows "\<exists>st1 st2 em2 ys2 zs2 k2 A. local_advance rs st = Some st1 \<and> local_prefix rs st1 = Some st2 \<and>
    local_at ins s st2 em2 ys2 zs2 k2 \<and> es_start st2 = rs \<and> cursor_start (es_cursor st1) = cursor_start (es_cursor st2) \<and>
    written em2 = written em @ A \<and> drop k (cells_of zs) = A @ drop k2 (cells_of zs2) \<and> same_log st st2"
proof -
  have sl: "sliceable (visible_text s)" "sliceable (deleted_text s)" using tx by (simp_all add: text_of_def)
  have "rs \<le> vlen (tree_items (fragments s))" using boundary_le [OF rs(2)] tx by (simp add: text_of_def)
  from local_advance_ok [OF at sl rs(1) this] obtain st1 em1 ys1 zs1 k1 A1 where
    st1: "local_advance rs st = Some st1" "local_at ins s st1 em1 ys1 zs1 k1" "written em1 = written em @ A1"
    "drop k (cells_of zs) = A1 @ drop k1 (cells_of zs1)" "same_log st st1" "es_start st1 \<le> rs" "rs \<le> es_start st1 + room zs1 k1" by blast
  from local_prefix_ok [OF st1(2) tx st1(6,7) rs(2)] obtain st2 em2 k2 A2 where
    st2: "local_prefix rs st1 = Some st2" "local_at ins s st2 em2 ys1 zs1 k2" "es_start st2 = rs" "written em2 = written em1 @ A2"
    "drop k1 (cells_of zs1) = A2 @ drop k2 (cells_of zs1)" "same_log st1 st2" by blast
  have "cursor_start (es_cursor st1) = cursor_start (es_cursor st2)"
    using st1(2) st2(2) local_cursor_facts(1) unfolding local_at_def by metis
  moreover have "written em2 = written em @ A1 @ A2" "drop k (cells_of zs) = (A1 @ A2) @ drop k2 (cells_of zs1)" "same_log st st2"
    using st1 st2 by (simp_all add: same_log_def)
  ultimately show ?thesis using st1(1) st2(1-3) by blast
qed

lemma local_edit_step_ok:
  assumes at: "local_at ins s st em ys zs k" and tx: "text_of ins s" and p: "patch_at ins s st em"
    and rs: "es_start st \<le> rs" "rs \<le> re" "str_is_char_boundary (rope_text (visible_text s)) rs" "str_is_char_boundary (rope_text (visible_text s)) re"
    and t: "utf8 t" "take (length (line_ending_normalize t)) (drop (es_insertion_offset st) (ins ts)) = line_ending_normalize t"
  defines "F \<equiv> length (cells_of ys) + k" and "n \<equiv> length (line_ending_normalize t)"
  shows "\<exists>st' em' ys' zs' k' A B. local_edit_step ts (rs, re, t) st = Some (st', (F + length A, F + length A + length B), line_ending_normalize t) \<and>
    local_at ins s st' em' ys' zs' k' \<and> es_start st' = re \<and> es_insertion_offset st' = es_insertion_offset st + n \<and>
    written em' = written em @ A @ new_cells ts (es_insertion_offset st) n @ map (kill ts) B \<and>
    drop k (cells_of zs) = A @ B @ drop k' (cells_of zs') \<and> length (vis A) = rs - es_start st \<and> length (vis B) = re - rs \<and>
    length (cells_of ys') + k' = F + length A + length B \<and>
    logs ts st st' (map cell_id (new_cells ts (es_insertion_offset st) n @ vis B)) \<and> patch_at ins s st' em'"
proof -
  let ?t = "line_ending_normalize t" and ?off = "es_insertion_offset st"
  obtain st1 st2 em2 ys2 zs2 k2 A where keep: "local_advance rs st = Some st1" "local_prefix rs st1 = Some st2"
    "local_at ins s st2 em2 ys2 zs2 k2" "es_start st2 = rs" "cursor_start (es_cursor st1) = cursor_start (es_cursor st2)"
    "written em2 = written em @ A" "drop k (cells_of zs) = A @ drop k2 (cells_of zs2)" "same_log st st2"
    using local_keep_ok [OF at tx rs(1,3)] by blast
  have p2: "patch_at ins s st2 em2" using patch_keep [OF at keep(3) tx p keep(7,6)] keep(8) by (simp add: same_log_def)
  have off: "es_insertion_offset st2 = ?off" using keep(8) by (simp add: same_log_def)
  obtain st3 em3 where st3: "local_insert ts ?t st2 = Some st3" "local_at ins s st3 em3 ys2 zs2 k2" "es_start st3 = es_start st2"
    "written em3 = written em2 @ new_cells ts ?off n" "es_insertion_offset st3 = ?off + n"
    "es_patch st3 = (if ?t = [] then es_patch st2
      else patch_push (es_patch st2) (mk_edit (es_start st2) (es_start st2) (length (vis (written em2))) (length (vis (written em2)) + length ?t)))"
    "logs ts st2 st3 (map cell_id (new_cells ts ?off n))"
    using local_insert_ok [OF keep(3) normalize_utf8 [OF t(1)], of ts] t(2) off n_def by metis
  have p3: "patch_at ins s st3 em3" using patch_insert [OF p2 st3(4) [unfolded n_def] st3(3,6)] .
  have re: "es_start st3 \<le> re" "re \<le> vlen (tree_items (fragments s))"
    using st3(3) keep(4) rs(2) boundary_le [OF rs(4)] tx by (simp_all add: text_of_def)
  obtain st4 em4 ys4 zs4 k4 B where st4: "local_delete ts re st3 = Some st4" "local_at ins s st4 em4 ys4 zs4 k4" "es_start st4 = re"
    "drop k2 (cells_of zs2) = B @ drop k4 (cells_of zs4)" "written em4 = written em3 @ map (kill ts) B"
    "es_insertion_offset st4 = es_insertion_offset st3" "logs ts st3 st4 (map cell_id (vis B))" "patch_at ins s st4 em4"
    using local_delete_ok [OF st3(2) tx re rs(4), of ts] p3 by blast
  have F2: "length (cells_of ys2) + k2 = F + length A" using local_full_progress [OF at keep(3,7)] by (simp add: F_def)
  then have F4: "length (cells_of ys4) + k4 = F + length A + length B" using local_full_progress [OF st3(2) st4(2,4)] by simp
  have "local_edit_step ts (rs, re, t) st = Some (st4, (F + length A, F + length A + length B), ?t)"
    using keep(1,2,4,5) st3(1) st4(1,3) local_full [OF keep(3)] local_full [OF st4(2)] F2 F4 by (simp add: local_edit_step_def)
  moreover have "length (vis A) = rs - es_start st" "length (vis B) = re - rs"
    using local_progress [OF at keep(3,7)] local_progress [OF st3(2) st4(2,4)] keep(4) st3(3) st4(3) by simp_all
  moreover have "drop k (cells_of zs) = A @ B @ drop k4 (cells_of zs4)" using keep(7) st4(4) by simp
  moreover have "written em4 = written em @ A @ new_cells ts ?off n @ map (kill ts) B" using keep(6) st3(4) st4(5) by simp
  moreover have "logs ts st st2 []" using keep(8) by (intro logs_none) (simp add: same_log_def)
  then have "logs ts st st4 (map cell_id (new_cells ts ?off n @ vis B))" using logs_trans [OF logs_trans [OF _ st3(7)] st4(7), of st "[]"] by simp
  ultimately show ?thesis using st4(2,3,6,8) st3(5) F4 by (metis (no_types, lifting))
qed

section \<open>The loop over the edits\<close>

abbreviation normal_edits :: "(nat \<times> nat \<times> str) list \<Rightarrow> (nat \<times> nat \<times> str) list" where
  "normal_edits es \<equiv> map (\<lambda>(s, e, t). (s, e, line_ending_normalize t)) es"

definition touched :: "lamport \<Rightarrow> cell \<Rightarrow> bool" where
  "touched ts c \<longleftrightarrow> c_timestamp c = ts \<or> ts \<in> set (c_deletions c)"

lemma touched_kill: "\<not> touched ts c \<Longrightarrow> touched ts (kill ts c) \<longleftrightarrow> c_visible c"
  by (simp add: touched_def kill_def)

lemma touched_killed:
  "\<forall>c \<in> set B. \<not> touched ts c \<Longrightarrow> map cell_id (filter (touched ts) (map (kill ts) B)) = map cell_id (vis B)"
  by (induction B) (auto simp: touched_kill)

lemma touched_new [simp]: "filter (touched ts) (new_cells ts off n) = new_cells ts off n"
  by (auto simp: filter_id_conv touched_def new_cells_def)

lemma local_edit_loop_ok:
  assumes "local_at ins s st em ys zs k" "text_of ins s" "patch_at ins s st em" "edits_ok (rope_text (visible_text s)) (es_start st) es"
    "take (length (edit_texts (normal_edits es))) (drop (es_insertion_offset st) (ins ts)) = edit_texts (normal_edits es)"
    "\<forall>c \<in> set (drop k (cells_of zs)). \<not> touched ts c"
  shows "\<exists>st' em' ys' zs' k' W rs. local_edit_loop ts es st = Some (st', rs, map (\<lambda>(_, _, t). line_ending_normalize t) es) \<and>
    local_at ins s st' em' ys' zs' k' \<and> written em' = written em @ W \<and>
    local_spec ts (es_start st) (es_insertion_offset st) (length (cells_of ys) + k) (drop k (cells_of zs)) (normal_edits es)
      (W @ drop k' (cells_of zs')) rs \<and>
    logs ts st st' (map cell_id (filter (touched ts) W)) \<and> patch_at ins s st' em'"
  using assms
proof (induction es arbitrary: st em ys zs k)
  case Nil
  have "logs ts st st []" by (rule logs_none) simp
  then show ?case using Nil(1,3) local_spec.spec_end [of ts]
    by (intro exI [of _ st] exI [of _ em] exI [of _ ys] exI [of _ zs] exI [of _ k] exI [of _ "[]"]) simp
next
  case (Cons e es)
  obtain rs re t where e: "e = (rs, re, t)" by (cases e)
  let ?t = "line_ending_normalize t" and ?off = "es_insertion_offset st" and ?T = "edit_texts (normal_edits es)"
  have ok: "es_start st \<le> rs" "rs \<le> re" "str_is_char_boundary (rope_text (visible_text s)) rs"
    "str_is_char_boundary (rope_text (visible_text s)) re" "utf8 t" "edits_ok (rope_text (visible_text s)) re es"
    using Cons.prems(4) e by simp_all
  have all: "take (length ?t + length ?T) (drop ?off (ins ts)) = ?t @ ?T" using Cons.prems(5) e by simp
  have t: "take (length ?t) (drop ?off (ins ts)) = ?t" using arg_cong [OF all, of "take (length ?t)"] by simp
  obtain st1 em1 ys1 zs1 k1 A B where st1:
    "local_edit_step ts (rs, re, t) st =
      Some (st1, (length (cells_of ys) + k + length A, length (cells_of ys) + k + length A + length B), ?t)"
    "local_at ins s st1 em1 ys1 zs1 k1" "es_start st1 = re" "es_insertion_offset st1 = ?off + length ?t"
    "written em1 = written em @ A @ new_cells ts ?off (length ?t) @ map (kill ts) B" "drop k (cells_of zs) = A @ B @ drop k1 (cells_of zs1)"
    "length (vis A) = rs - es_start st" "length (vis B) = re - rs" "length (cells_of ys1) + k1 = length (cells_of ys) + k + length A + length B"
    "logs ts st st1 (map cell_id (new_cells ts ?off (length ?t) @ vis B))" "patch_at ins s st1 em1"
    using local_edit_step_ok [OF Cons.prems(1-3) ok(1-5) t] by blast
  have T: "take (length ?T) (drop (es_insertion_offset st1) (ins ts)) = ?T"
    using arg_cong [OF all, of "drop (length ?t)"] st1(4) by (simp add: drop_take add.commute)
  have fresh: "\<forall>c \<in> set A. \<not> touched ts c" "\<forall>c \<in> set B. \<not> touched ts c" "\<forall>c \<in> set (drop k1 (cells_of zs1)). \<not> touched ts c"
    using Cons.prems(6) st1(6) by auto
  obtain st2 em2 ys2 zs2 k2 W rs' where IH: "local_edit_loop ts es st1 = Some (st2, rs', map (\<lambda>(_, _, t). line_ending_normalize t) es)"
    "local_at ins s st2 em2 ys2 zs2 k2" "written em2 = written em1 @ W"
    "local_spec ts re (?off + length ?t) (length (cells_of ys) + k + length A + length B) (drop k1 (cells_of zs1)) (normal_edits es)
      (W @ drop k2 (cells_of zs2)) rs'"
    "logs ts st1 st2 (map cell_id (filter (touched ts) W))" "patch_at ins s st2 em2"
    using Cons.IH [OF st1(2) Cons.prems(2) st1(11) _ T fresh(3)] ok(6) st1(3,4,9) by metis
  let ?W = "A @ new_cells ts ?off (length ?t) @ map (kill ts) B @ W"
  have "local_edit_loop ts (e # es) st =
    Some (st2, (length (cells_of ys) + k + length A, length (cells_of ys) + k + length A + length B) # rs', map (\<lambda>(_, _, t). line_ending_normalize t) (e # es))"
    using e st1(1) IH(1) by simp
  moreover have "written em2 = written em @ ?W" using IH(3) st1(5) by simp
  moreover have "local_spec ts (es_start st) ?off (length (cells_of ys) + k) (drop k (cells_of zs)) (normal_edits (e # es))
    (?W @ drop k2 (cells_of zs2)) ((length (cells_of ys) + k + length A, length (cells_of ys) + k + length A + length B) # rs')"
    using local_spec.spec_edit [OF ok(1) st1(7) ok(2) st1(8) IH(4)] e st1(6) by simp
  moreover have "filter (touched ts) A = []" using fresh(1) by (simp add: filter_empty_conv)
  then have "logs ts st st2 (map cell_id (filter (touched ts) ?W))"
    using logs_trans [OF st1(10) IH(5)] touched_killed [OF fresh(2)] by simp
  ultimately show ?case using IH(2,6) by blast
qed

section \<open>Start and end\<close>

lemma trace_start:
  assumes "order_ok [] fs" "\<forall>f \<in> set fs. fragment_ok ins f"
  shows "trace_ok ins [] [] fs 0"
  using assms by (cases fs) (auto simp: trace_ok_def frags_ok_def covered_def fragment_ok_def)

lemma local_start_ok:
  assumes tx: "text_of ins s" and ropes: "rope_ok (visible_text s)" "rope_ok (deleted_text s)"
    and wf: "wf_tree fragment_item (fragments s)" "node_height (fragments s) < STACK_CAP" and order: "order_ok [] (tree_items (fragments s))"
  shows "\<exists>st em ys zs. local_start s n = Some st \<and> local_at ins s st em ys zs 0 \<and> written em = cells_of ys \<and> tree_items (fragments s) = ys @ zs \<and>
    es_start st \<le> n \<and> es_insertion_offset st = 0 \<and> es_slices st = [] \<and> patch_at ins s st em"
proof -
  let ?items = "tree_items (fragments s)" and ?c = "cursor_new fragment_text_dim (fragments s)"
  have ok: "\<forall>f \<in> set ?items. fragment_ok ins f" and sl: "sliceable (visible_text s)" "sliceable (deleted_text s)" using tx by (simp_all add: text_of_def)
  have c: "cursor_at fragment_item fragment_text_dim ?c [] ?items" by (rule cursor_at_new [OF wf])
  have pos: "cursor_position ?c = fragment_text_zero" by (simp add: cursor_new_def)
  obtain ys zs where split: "seek_split fragment_item fragment_text_dim (\<lambda>d. fts_visible d \<le> n) fragment_text_zero ?items = (ys, zs)" by fastforce
  have sp: "?items = ys @ zs" "vlen ys \<le> n" using visible_split [OF split] by simp_all
  have not_less: "visible_target n fragment_text_zero \<noteq> Less" by (simp add: visible_target_def cmp_def)
  obtain c' u where u: "slice fragment_item fragment_text_dim (visible_target n) Right ?c = Some (c', u)" "wf_tree fragment_item u" "tree_items u = ys"
    "cursor_at fragment_item fragment_text_dim c' ys zs" "did_seek c'" "cursor_tree c' = cursor_tree ?c"
    using fragment_text.slice_ok [OF c, of "visible_target n" Right ys zs] visible_mono split pos not_less by auto
  obtain v d where vd: "rope_cursor_new (visible_text s) 0 = Some v" "rope_cursor_new (deleted_text s) 0 = Some d"
    "builder_at (builder_new v d) (visible_text s) (deleted_text s) (rope_text (visible_text s)) (rope_text (deleted_text s)) [] []"
    using builder_new_ok [OF ropes sl] by blast
  have oks: "\<forall>f \<in> set ys. fragment_ok ins f" "\<forall>f \<in> set zs. fragment_ok ins f" using ok sp(1) by auto
  let ?v = "cells_text ins (vis (cells_of ys))" and ?d = "cells_text ins (dead (cells_of ys))"
  have at: "builder_at (builder_new v d) (visible_text s) (deleted_text s)
    (?v @ cells_text ins (vis (cells_of zs))) (?d @ cells_text ins (dead (cells_of zs))) [] []"
    using vd(3) tx sp(1) by (simp add: text_of_def)
  obtain b where b: "builder_append (builder_new v d) (fs_text (node_summary u)) = Some b"
    "builder_at b (visible_text s) (deleted_text s) (cells_text ins (vis (cells_of zs))) (cells_text ins (dead (cells_of zs))) ?v ?d"
    using builder_append_ok [OF at sl utf8_cells(1) [OF oks(1)] utf8_cells(1) [OF oks(2)] utf8_cells(2) [OF oks(1)] utf8_cells(2) [OF oks(2)]]
      fragment_tree_text [OF u(2)] u(3) by auto
  let ?em = "map (Pair False) ys"
  let ?st = "\<lparr>es_cursor = c', es_fragments = u, es_ropes = b, es_insertions = [], es_slices = [], es_patch = patch_empty,
    es_start = fts_visible (cursor_start c'), es_insertion_offset = 0\<rparr>"
  have cur: "local_cursor s ?st ys zs" using u by (simp add: local_cursor_def cursor_new_def)
  have start: "es_start ?st = vlen ys" using local_cursor_facts(1) [OF cur] by simp
  have "trace_ok ins [] [] (ys @ zs) 0" using trace_start [OF order ok] sp(1) by simp
  then have "trace_ok ins ?em ys zs 0" using trace_slice [of ins "[]" "[]" ys zs] by simp
  moreover have "emitted ins (visible_text s) (deleted_text s) ?st ?em (cells_of zs)" using u b(2) by (simp add: emitted_def comp_def filter_empty_conv)
  ultimately have "local_at ins s ?st ?em ys zs 0" using cur start by (simp add: local_at_def)
  moreover have "local_start s n = Some ?st" using u(1) vd(1,2) b(1) by (simp add: local_start_def)
  moreover have "patch_at ins s ?st ?em" using start tx sp(1) by (simp add: patch_at_def patch_empty_def text_of_def comp_def)
  ultimately show ?thesis using sp start by (intro exI [of _ ?st] exI [of _ ?em] exI [of _ ys] exI [of _ zs]) (simp add: comp_def)
qed

lemma local_finish_ok:
  assumes at: "local_at ins s st em ys zs k" and tx: "text_of ins s"
  shows "\<exists>st' em' v d. local_finish st = Some (st', v, d) \<and> emitted ins (visible_text s) (deleted_text s) st' em' [] \<and>
    trace_ok ins em' (tree_items (fragments s)) [] 0 \<and> written em' = written em @ drop k (cells_of zs) \<and>
    writes v (cells_text ins (vis (written em'))) \<and> writes d (cells_text ins (dead (written em'))) \<and> same_log st st'"
proof -
  have sl: "sliceable (visible_text s)" "sliceable (deleted_text s)" using tx by (simp_all add: text_of_def)
  obtain st1 em1 ys1 zs1 A where st1: "local_finish_fragment st = Some st1" "local_cursor s st1 ys1 zs1"
    "emitted ins (visible_text s) (deleted_text s) st1 em1 (cells_of zs1)" "trace_ok ins em1 ys1 zs1 0"
    "written em1 = written em @ A" "drop k (cells_of zs) = A @ cells_of zs1" "same_log st st1"
    using local_finish_fragment_ok [OF at sl] by blast
  obtain c u where u: "suffix fragment_item fragment_text_dim (es_cursor st1) = Some (c, u)" "wf_tree fragment_item u" "tree_items u = zs1"
    using fragment_text.suffix_ok [of "es_cursor st1" ys1 zs1] st1(2) unfolding local_cursor_def by blast
  have oks: "\<forall>f \<in> set zs1. fragment_ok ins f" using st1(4) by (auto simp: trace_ok_def frags_ok_def)
  let ?em = "em1 @ map (Pair False) zs1"
  obtain b fs where b: "builder_append (es_ropes st1) (fs_text (node_summary u)) = Some b" "tree_append fragment_item (es_fragments st1) u = Some fs"
    "emitted ins (visible_text s) (deleted_text s) (st1\<lparr>es_ropes := b, es_fragments := fs\<rparr>) ?em []"
    using append_slice_ok [OF _ sl oks _ _ u(2,3), of st1 em1 "[]"] st1(3) by auto
  have "builder_at b (visible_text s) (deleted_text s) [] [] (cells_text ins (vis (written ?em))) (cells_text ins (dead (written ?em)))"
    using b(3) by (simp add: emitted_def)
  from builder_finish_ok [OF this sl] obtain v d where vd: "builder_finish b = Some (v, d)" "writes v (cells_text ins (vis (written ?em)))"
    "writes d (cells_text ins (dead (written ?em)))" by auto
  have "local_finish st = Some (st1\<lparr>es_cursor := c, es_ropes := b, es_fragments := fs\<rparr>, v, d)"
    using st1(1) u(1) b(1,2) vd(1) by (simp add: local_finish_def)
  moreover have "emitted ins (visible_text s) (deleted_text s) (st1\<lparr>es_cursor := c, es_ropes := b, es_fragments := fs\<rparr>) ?em []"
    using b(3) by (simp add: emitted_def)
  moreover have "trace_ok ins ?em (tree_items (fragments s)) [] 0"
    using trace_slice [of ins em1 ys1 zs1 "[]"] st1(4) local_cursor_facts(5) [OF st1(2)] by simp
  moreover have "written ?em = written em @ drop k (cells_of zs)" using st1(5,6) by (simp add: comp_def)
  moreover have "same_log st (st1\<lparr>es_cursor := c, es_ropes := b, es_fragments := fs\<rparr>)" using st1(7) by (simp add: same_log_def)
  ultimately show ?thesis using vd(2,3) by blast
qed

lemma spec_before:
  assumes "local_spec ts (pos + length (vis A)) off (full + length A) R es N rs"
  shows "local_spec ts pos off full (A @ R) es (A @ N) rs"
  using assms
proof (cases rule: local_spec.cases)
  case (spec_edit s C e B t R' es' N' rs')
  then have "local_spec ts pos off full ((A @ C) @ B @ R') ((s, e, t) # es') ((A @ C) @ new_cells ts off (length t) @ map (kill ts) B @ N')
    ((full + length (A @ C), full + length (A @ C) + length B) # rs')"
    by (intro local_spec.spec_edit) (auto simp: add.assoc)
  then show ?thesis using spec_edit by (simp add: add.assoc)
qed (simp add: local_spec.spec_end)

text \<open>After the loop the patch explains the whole of the new text: what follows is copied.\<close>

lemma patch_finish:
  assumes at: "local_at ins s st em ys zs k" and tx: "text_of ins s" and p: "patch_at ins s st em" and le: "es_start st \<le> length (rope_text (visible_text s))"
  shows "patched (es_patch st) 0 0 (rope_text (visible_text s)) (cells_text ins (vis (written em @ drop k (cells_of zs))))"
proof -
  let ?xs = "rope_text (visible_text s)" and ?v = "cells_text ins (vis (written em))" and ?r = "cells_text ins (vis (drop k (cells_of zs)))"
  have "patched_upto (rev (es_patch st)) (es_start st) (length ?v) ?xs (?v @ ?r)"
    using p by (intro upto_extend) (simp_all add: patch_at_def Let_def)
  moreover have "patched [] (es_start st) (length ?v) ?xs (?v @ ?r)" using local_rest [OF at tx] le by simp
  ultimately show ?thesis using upto_patched [of "rev (es_patch st)" _ _ ?xs "?v @ ?r" "[]"] by simp
qed

section \<open>Slices begin at fragments\<close>

text \<open>The first byte of every slice of an edit is the first byte of a fragment that is entered into the index.\<close>

definition slice_key :: "insertion_slice \<Rightarrow> insertion_fragment_key" where
  "slice_key sl = (is_insertion_id sl, is_start sl)"

definition sliced :: "'d edit_state \<Rightarrow> bool" where
  "sliced st \<longleftrightarrow> (\<forall>sl \<in> set (es_slices st). \<exists>g. insert_new g \<in> set (es_insertions st) \<and> fragment_key g = slice_key sl)"

lemma slice_key_fragment [simp]: "slice_key (insertion_slice_from_fragment ts g) = fragment_key g"
  by (simp add: slice_key_def insertion_slice_from_fragment_def is_insertion_id_def fragment_key_def)

lemma sliced_grow:
  assumes "sliced st" "es_slices st' = es_slices st @ map (insertion_slice_from_fragment ts) gs"
    and "set (es_insertions st) \<union> insert_new ` set gs \<subseteq> set (es_insertions st')"
  shows "sliced st'"
  using assms unfolding sliced_def by (auto 4 4)

lemma sliced_frame [simp]:
  "sliced (st\<lparr>es_cursor := c\<rparr>) = sliced st" "sliced (st\<lparr>es_fragments := f\<rparr>) = sliced st" "sliced (st\<lparr>es_ropes := r\<rparr>) = sliced st"
  "sliced (st\<lparr>es_patch := p\<rparr>) = sliced st" "sliced (st\<lparr>es_start := n\<rparr>) = sliced st" "sliced (st\<lparr>es_insertion_offset := n\<rparr>) = sliced st"
  by (simp_all add: sliced_def)

lemma push_part_log:
  assumes "push_part f w st = Some st'"
  shows "es_slices st' = es_slices st" "es_insertions st' = es_insertions st @ [insert_new f]"
  using assms by (auto simp: push_part_def split: bind_splits)

lemma push_part_sliced: "push_part f w st = Some st' \<Longrightarrow> sliced st \<Longrightarrow> sliced st'"
  using push_part_log [of f w st st'] sliced_grow [of st st' _ "[]"] by auto

lemma insertion_loop_sliced: "insertion_loop t ts nid ets off st = Some st' \<Longrightarrow> sliced st \<Longrightarrow> sliced st'"
proof (induction t ts nid ets off st rule: insertion_loop.induct)
  case (1 t ts nid ets off st)
  define target where "target = min (length t) (off + MAX_INSERTION_LEN)"
  define e where "e = (if target = length t then target else str_floor_char_boundary t target)"
  have eq: "insertion_loop t ts nid ets off st = (if length t \<le> off \<or> e = off then Some st else if e < off then None
    else push_insertion_fragment ts nid ets (e - off) st \<bind> insertion_loop t ts nid ets e)"
    unfolding insertion_loop.simps [of t ts nid ets off st] Let_def target_def [symmetric] e_def [symmetric] by simp
  show ?case
  proof (cases "length t \<le> off \<or> e = off")
    case True
    then show ?thesis using 1(2,3) eq by simp
  next
    case False
    then obtain st2 where st2: "\<not> e < off" "push_insertion_fragment ts nid ets (e - off) st = Some st2" "insertion_loop t ts nid ets e st2 = Some st'"
      using 1(2) eq by (auto split: if_splits bind_splits)
    have "sliced st2" using st2(2) sliced_grow [OF 1(3), of st2 ets "[_]"] by (fastforce simp: push_insertion_fragment_def Let_def split: bind_splits)
    then show ?thesis using 1(1) [OF _ target_def e_def _ _ st2(2,3)] False st2(1) by simp
  qed
qed

lemma local_next_log: "local_next st = Some st' \<Longrightarrow> sliced st \<Longrightarrow> sliced st'"
  by (auto simp: local_next_def sliced_def split: bind_splits)

lemma local_finish_fragment_sliced: "local_finish_fragment st = Some st' \<Longrightarrow> sliced st \<Longrightarrow> sliced st'"
  by (auto simp: local_finish_fragment_def split: if_splits bind_splits dest: push_part_sliced local_next_log)

lemma local_advance_sliced: "local_advance n st = Some st' \<Longrightarrow> sliced st \<Longrightarrow> sliced st'"
  by (auto simp: local_advance_def split: if_splits bind_splits dest!: local_finish_fragment_sliced)

lemma local_prefix_sliced: "local_prefix n st = Some st' \<Longrightarrow> sliced st \<Longrightarrow> sliced st'"
  by (auto simp: local_prefix_def Let_def split: if_splits bind_splits dest!: push_part_sliced)

lemma local_insert_sliced: "local_insert ts t st = Some st' \<Longrightarrow> sliced st \<Longrightarrow> sliced st'"
  by (auto simp: local_insert_def push_fragments_for_insertion_def Let_def split: if_splits bind_splits dest!: insertion_loop_sliced)

lemma local_delete_step_sliced:
  assumes "local_delete_step ts n st = Some st'" "sliced st"
  shows "sliced st'"
proof -
  have push: "sliced st2" if "push_part g w (st\<lparr>es_patch := p, es_slices := es_slices st @ [insertion_slice_from_fragment ts g]\<rparr>) = Some st2" for g w p st2
    using push_part_log [OF that] sliced_grow [OF assms(2), of st2 ts "[g]"] by auto
  show ?thesis using assms
    by (auto simp: local_delete_step_def Let_def split: if_splits bind_splits dest!: push push_part_sliced local_next_log)
qed

lemma local_delete_sliced:
  assumes "local_delete ts n st = Some st'"
  shows "sliced st \<longrightarrow> sliced st'"
  using assms
proof (rule local_delete.raw_induct [of "\<lambda>ts n st st'. sliced st \<longrightarrow> sliced st'", rotated])
  fix rec ts n and st st' :: local_state
  assume "\<And>ts n st st'. rec ts n st = Some st' \<Longrightarrow> sliced st \<longrightarrow> sliced st'"
    "(if es_start st < n then local_delete_step ts n st \<bind> rec ts n else Some st) = Some st'"
  then show "sliced st \<longrightarrow> sliced st'" using local_delete_step_sliced by (fastforce split: if_splits bind_splits)
qed

lemma local_edit_step_sliced: "local_edit_step ts e st = Some (st', r, t) \<Longrightarrow> sliced st \<Longrightarrow> sliced st'"
  using local_advance_sliced local_prefix_sliced local_insert_sliced local_delete_sliced
  by (fastforce simp: local_edit_step_def Let_def split: prod.splits bind_splits)

lemma local_edit_loop_sliced: "local_edit_loop ts es st = Some (st', rs, txs) \<Longrightarrow> sliced st \<Longrightarrow> sliced st'"
  by (induction es arbitrary: st rs txs) (auto split: bind_splits prod.splits dest: local_edit_step_sliced)

end
