(* ===== verification/Buffer_Invariant.thy ===== *)
theory Buffer_Invariant
  imports Buffer_Refine Rope_Find
begin

text \<open>
  The invariant of a buffer: the texts are those of the fragments, the identifiers of the fragments
  increase, every byte has one identity, the index of insertions has one entry per fragment, and the slices of an edit
  name every byte it inserted or deleted.  Local edits return and keep it.
\<close>

section \<open>Invariant\<close>

interpretation insertion_tree: keyed insertion_keyed
  by unfold_locales
    (auto simp: insertion_keyed_def insertion_item_def summary_dimension_def less_eq_prod_def)

abbreviation items :: "buffer_snapshot \<Rightarrow> fragment list" where
  "items s \<equiv> tree_items (fragments s)"

definition index_ok :: "buffer_snapshot \<Rightarrow> bool" where
  "index_ok s \<longleftrightarrow> wf_tree insertion_item (insertions s) \<and> key_sorted insertion_keyed (tree_items (insertions s)) \<and>
     set (tree_items (insertions s)) = insertion_fragment_new ` set (items s)"

text \<open>\<open>U\<close> is the set of the edits without slices: that of the text a buffer is made with.\<close>

definition slices_ok :: "lamport set \<Rightarrow> buffer_snapshot \<Rightarrow> bool" where
  "slices_ok U s \<longleftrightarrow> map_ok (insertion_slices s) \<and>
     (\<forall>c \<in> set (cells_of (items s)). \<forall>e. touched e c \<longrightarrow> e \<notin> U \<longrightarrow>
       (\<exists>sl \<in> dom (map_abs (insertion_slices s)). is_edit_id sl = e \<and> cell_id c \<in> set (slice_ids sl))) \<and>
     slice_key ` dom (map_abs (insertion_slices s)) \<subseteq> fragment_key ` set (items s)"

text \<open>A byte is visible when its insertion is not undone and all its deletions are.\<close>

definition undone :: "undo_map \<Rightarrow> lamport \<Rightarrow> bool" where
  "undone m e \<longleftrightarrow> odd (unat (max_count (tree_items m) e (\<lambda>_. True)))"

definition cell_visible :: "undo_map \<Rightarrow> cell \<Rightarrow> bool" where
  "cell_visible m c \<longleftrightarrow> \<not> undone m (c_timestamp c) \<and> (\<forall>d \<in> set (c_deletions c). undone m d)"

definition visibility_ok :: "buffer_snapshot \<Rightarrow> bool" where
  "visibility_ok s \<longleftrightarrow> undo_map_ok (snap_undo_map s) \<and> (\<forall>c \<in> set (cells_of (items s)). c_visible c = cell_visible (snap_undo_map s) c)"

definition snapshot_ok :: "lamport set \<Rightarrow> insertion_texts \<Rightarrow> buffer_snapshot \<Rightarrow> bool" where
  "snapshot_ok U ins s \<longleftrightarrow>
     rope_ok (visible_text s) \<and> rope_ok (deleted_text s) \<and>
     rope_text (visible_text s) = cells_text ins (vis (cells_of (items s))) \<and>
     rope_text (deleted_text s) = cells_text ins (dead (cells_of (items s))) \<and>
     wf_tree fragment_item (fragments s) \<and> (\<forall>f \<in> set (items s). fragment_ok ins f) \<and>
     order_ok [] (items s) \<and> distinct (map cell_id (cells_of (items s))) \<and> index_ok s \<and> slices_ok U s \<and> visibility_ok s \<and>
     ins lamport_MIN = []"

text \<open>The trees of a buffer fit the stack of a cursor.\<close>

definition snapshot_fits :: "buffer_snapshot \<Rightarrow> bool" where
  "snapshot_fits s \<longleftrightarrow> sliceable (visible_text s) \<and> sliceable (deleted_text s) \<and> node_height (fragments s) < STACK_CAP \<and>
     node_height (insertions s) < STACK_CAP \<and> node_height (insertion_slices s) < STACK_CAP \<and> node_height (snap_undo_map s) < STACK_CAP"

definition fresh :: "lamport \<Rightarrow> buffer_snapshot \<Rightarrow> bool" where
  "fresh ts s \<longleftrightarrow> (\<forall>c \<in> set (cells_of (items s)). \<not> touched ts c) \<and> \<not> undone (snap_undo_map s) ts \<and> ts \<noteq> lamport_MIN"

section \<open>Identities\<close>

lemma distinct_parts:
  assumes "distinct (map f (filter P xs))" "distinct (map f (filter (\<lambda>x. \<not> P x) xs))" "\<forall>x \<in> set xs. \<forall>y \<in> set xs. P x \<longrightarrow> f x = f y \<longrightarrow> P y"
  shows "distinct (map f xs)"
  using assms
proof (induction xs)
  case (Cons x xs)
  have "f x \<notin> f ` set xs"
  proof
    assume "f x \<in> f ` set xs"
    then obtain y where y: "y \<in> set xs" "f x = f y" by blast
    then have "P x \<longleftrightarrow> P y" using Cons.prems(3) by (metis list.set_intros(1,2))
    then show False using y Cons.prems(1,2) by (cases "P x") (auto simp: image_iff)
  qed
  moreover have "distinct (map f xs)"
  proof (rule Cons.IH)
    show "distinct (map f (filter P xs))" "distinct (map f (filter (\<lambda>x. \<not> P x) xs))" using Cons.prems(1,2) by (auto split: if_splits)
    show "\<forall>x \<in> set xs. \<forall>y \<in> set xs. P x \<longrightarrow> f x = f y \<longrightarrow> P y" using Cons.prems(3) by (meson list.set_intros(2))
  qed
  ultimately show ?case by simp
qed simp

lemma fragment_keys_distinct:
  "distinct (map cell_id (cells_of fs)) \<Longrightarrow> \<forall>f \<in> set fs. 0 < fr_len f \<Longrightarrow> distinct (map fragment_key fs)"
proof (induction fs)
  case (Cons f fs)
  have key: "fragment_key g \<in> cell_id ` set (fragment_cells g)" if "0 < fr_len g" for g
    using that by (force simp: fragment_key_def fragment_cells_def cell_id_def image_iff)
  have "fragment_key f \<notin> fragment_key ` set fs"
  proof
    assume "fragment_key f \<in> fragment_key ` set fs"
    then obtain g where "g \<in> set fs" "fragment_key f = fragment_key g" by blast
    then have "fragment_key f \<in> cell_id ` set (cells_of fs)" using key [of g] Cons.prems(2) by (force simp: cells_of_def)
    then show False using key [of f] Cons.prems by auto
  qed
  then show ?case using Cons by simp
qed simp

lemma new_cells_distinct: "distinct (map cell_id (new_cells ts off n))"
  by (simp add: new_cells_def cell_id_def distinct_map inj_on_def)

lemma spec_distinct:
  assumes "local_spec ts pos off full R es N rs" "\<forall>c \<in> set R. \<not> touched ts c" "distinct (map cell_id R)"
  shows "distinct (map cell_id N)"
proof -
  have fresh: "\<forall>c \<in> set R. c_timestamp c \<noteq> ts" using assms(2) by (auto simp: touched_def)
  note old = spec_old [OF assms(1) fresh]
  have "map cell_id (filter (\<lambda>c. c_timestamp c \<noteq> ts) N) = map cell_id R"
    using old(1) by (induction rule: list_all2_induct) auto
  then have d1: "distinct (map cell_id (filter (\<lambda>c. \<not> c_timestamp c = ts) N))" using assms(3) by simp
  have d2: "distinct (map cell_id (filter (\<lambda>c. c_timestamp c = ts) N))" unfolding old(2) by (rule new_cells_distinct)
  show ?thesis by (rule distinct_parts [OF d2 d1]) (simp add: cell_id_def)
qed

text \<open>A byte that an edit other than the new one touches was touched before.\<close>

lemma spec_touched:
  assumes "local_spec ts pos off full R es N rs" "c \<in> set N" "touched e c" "e \<noteq> ts"
  shows "\<exists>d \<in> set R. touched e d \<and> cell_id d = cell_id c"
  using assms
proof (induction rule: local_spec.induct)
  case (spec_edit pos s A e' B off t full R es N rs)
  have kill: "touched e (kill ts d) \<Longrightarrow> touched e d" for d using spec_edit.prems(3) by (auto simp: touched_def kill_def split: if_splits)
  have "\<exists>d \<in> set B. touched e d \<and> cell_id d = cell_id c" if "c \<in> set (map (kill ts) B)"
    using that spec_edit.prems(2) kill by fastforce
  moreover have "c \<notin> set (new_cells ts off (length t))" using spec_edit.prems(2,3) by (auto simp: new_cells_def touched_def)
  ultimately show ?case using spec_edit by auto
qed auto

lemma spec_visible:
  assumes "local_spec ts pos off full R es N rs" "\<forall>c \<in> set R. c_visible c = cell_visible m c" "\<not> undone m ts"
  shows "\<forall>c \<in> set N. c_visible c = cell_visible m c"
  using assms
proof (induction rule: local_spec.induct)
  case (spec_edit pos s A e B off t full R es N rs)
  have "c_visible (kill ts c) = cell_visible m (kill ts c)" if "c \<in> set B" for c
    using spec_edit.prems that by (auto simp: kill_def cell_visible_def)
  moreover have "c_visible c = cell_visible m c" if "c \<in> set (new_cells ts off (length t))" for c
    using spec_edit.prems(2) that by (auto simp: new_cells_def cell_visible_def)
  ultimately show ?case using spec_edit by auto
qed simp

section \<open>The indices\<close>

lemma insertion_keyed_simps [simp]:
  "keyed_item insertion_keyed = insertion_item" "item_key insertion_keyed = insertion_fragment_key"
  by (simp_all add: insertion_keyed_def)

lemma insertion_new_key [simp]: "insertion_fragment_key (insertion_fragment_new f) = fragment_key f"
  by (simp add: insertion_fragment_key_def insertion_fragment_new_def fragment_key_def)

lemma insert_new_key: "insert_new f = insert_new g \<Longrightarrow> fragment_key f = fragment_key g"
  by (simp add: insert_new_def fragment_key_def insertion_fragment_new_def)

lemma index_edit_ok:
  assumes index: "index_ok s" "node_height (insertions s) < STACK_CAP" and cov: "covered em (items s) [] 0"
    and keys: "distinct (map fragment_key (map snd em))"
  shows "\<exists>r old. tree_edit insertion_keyed (insertions s) (map (insert_new \<circ> snd) (filter fst em)) = Some (r, old) \<and>
    wf_tree insertion_item r \<and> key_sorted insertion_keyed (tree_items r) \<and> set (tree_items r) = insertion_fragment_new ` set (map snd em)"
proof -
  let ?es = "map (insert_new \<circ> snd) (filter fst em)" and ?key = "edit_key insertion_keyed"
  have "map ?key ?es = map (fragment_key \<circ> snd) (filter fst em)" by (simp add: insert_new_def)
  then have dist: "distinct (map ?key ?es)" using keys by (metis distinct_map_filter map_map)
  note sorted = insertion_tree.sort_edits [OF dist]
  obtain r old where r: "tree_edit insertion_keyed (insertions s) ?es = Some (r, old)" "wf_tree insertion_item r"
    "tree_items r = merge_edits insertion_keyed (sort_key ?key ?es) (tree_items (insertions s))"
    using insertion_tree.tree_edit_ok [of "insertions s" ?es] dist index by (auto simp: index_ok_def)
  have "key_sorted insertion_keyed (tree_items r)" using merge_edits_sorted [OF _ sorted] r(3) index(1) by (simp add: index_ok_def)
  moreover have "set (tree_items r) = insertion_fragment_new ` set (map snd em)"
  proof -
    have "set (tree_items r) = {x \<in> insertion_fragment_new ` set (items s). insertion_fragment_key x \<notin> ?key ` set ?es} \<union> {x. Insert x \<in> set ?es}"
      using merge_edits_set [OF _ sorted, of "tree_items (insertions s)"] index(1) r(3) by (simp add: index_ok_def)
    also have "{x. Insert x \<in> set ?es} = insertion_fragment_new ` {g. (True, g) \<in> set em}" by (force simp: insert_new_def)
    also have "?key ` set ?es = fragment_key ` {g. (True, g) \<in> set em}" by (force simp: insert_new_def)
    also have "{x \<in> insertion_fragment_new ` set (items s). insertion_fragment_key x \<notin> fragment_key ` {g. (True, g) \<in> set em}} =
      insertion_fragment_new ` {f \<in> set (items s). \<not> indexed em f}"
      by (auto simp: indexed_def image_iff) metis+
    also have "{f \<in> set (items s). \<not> indexed em f} = {f. (False, f) \<in> set em}"
    proof -
      have "\<not> indexed em f" if f: "(False, f) \<in> set em" for f
      proof
        assume "indexed em f"
        then obtain g where g: "(True, g) \<in> set em" "fragment_key g = fragment_key f" by (auto simp: indexed_def)
        have "inj_on (fragment_key \<circ> snd) (set em)" using keys by (simp add: distinct_map)
        from inj_onD [OF this _ f g(1)] g(2) show False by simp
      qed
      then show ?thesis using cov by (auto simp: covered_def)
    qed
    also have "insertion_fragment_new ` {f. (False, f) \<in> set em} \<union> insertion_fragment_new ` {g. (True, g) \<in> set em} =
      insertion_fragment_new ` ({f. (False, f) \<in> set em} \<union> {g. (True, g) \<in> set em})" by (rule image_Un [symmetric])
    also have "{f. (False, f) \<in> set em} \<union> {g. (True, g) \<in> set em} = set (map snd em)"
    proof -
      have "f \<in> snd ` set em \<longleftrightarrow> (\<exists>b. (b, f) \<in> set em)" for f by force
      then show ?thesis by (auto intro: ex_bool_eq [THEN iffD2]) (metis (full_types))
    qed
    finally show ?thesis .
  qed
  ultimately show ?thesis using r(1,2) by blast
qed

lemma slices_distinct:
  assumes "slices_of ts sls ids" "distinct ids"
  shows "distinct sls"
proof -
  have "slice_ids sl \<noteq> []" if "sl \<in> set sls" for sl using assms(1) that by (auto simp: slices_of_def slice_ids_def)
  moreover have "distinct (concat (map slice_ids sls))" using assms by (simp add: slices_of_def)
  ultimately show ?thesis
  proof (induction sls)
    case (Cons sl sls)
    then have "set (slice_ids sl) \<inter> set (concat (map slice_ids sls)) = {}" "slice_ids sl \<noteq> []" by auto
    then have "sl \<notin> set sls" by (cases "slice_ids sl") auto
    then show ?case using Cons by simp
  qed simp
qed

lemma slices_extend_ok:
  assumes "slices_ok U s" "node_height (insertion_slices s) < STACK_CAP" "slices_of ts sls ids" "distinct ids"
  shows "\<exists>r. set_extend (insertion_slices s) sls = Some r \<and> map_ok r \<and> dom (map_abs r) = dom (map_abs (insertion_slices s)) \<union> set sls"
proof -
  have "distinct (map fst (map (\<lambda>k. (k, ())) sls))" using slices_distinct [OF assms(3,4)] by (simp add: comp_def)
  from map_edit_correct [OF _ assms(2) this] assms(1) show ?thesis
    by (auto simp: set_extend_def slices_ok_def dom_map_of_conv_image_fst image_comp)
qed

section \<open>Offsets\<close>

lemma rope_assert_ok:
  assumes "rope_ok r"
  shows "rope_assert_char_boundary False r n = Some (str_is_char_boundary (rope_text r) n)"
proof (cases "tree_is_empty r")
  case True
  then have "rope_text r = []" using assms by (auto simp: rope_ok_def rope_text_def simp flip: tree_items_eq_Nil)
  then show ?thesis using True find_beyond [OF assms, of n] by (auto simp: rope_assert_char_boundary_def str_is_char_boundary_def)
next
  case False
  then show ?thesis using rope_is_char_boundary_ok [OF assms, of n]
    by (auto simp: rope_assert_char_boundary_def rope_is_char_boundary_def assert_char_boundary_def split: option.splits prod.splits)
qed

lemma usize_to_offset_ok:
  assumes "rope_ok r"
  shows "usize_to_offset r n = Some (str_floor_char_boundary (rope_text r) n)"
proof -
  have "str_floor_char_boundary (rope_text r) n = n" if "str_is_char_boundary (rope_text r) n"
    using boundary_le [OF that] by (intro str_floor_eq that) auto
  then show ?thesis by (auto simp: usize_to_offset_def rope_assert_ok [OF assms] rope_floor_char_boundary_ok [OF assms])
qed

abbreviation clip_edits :: "str \<Rightarrow> (nat \<times> nat \<times> str) list \<Rightarrow> (nat \<times> nat \<times> str) list" where
  "clip_edits x es \<equiv> map (\<lambda>(s, e, t). (str_floor_char_boundary x s, str_floor_char_boundary x e, t)) es"

lemma edits_to_offsets_ok:
  assumes "rope_ok r"
  shows "collect_options (map (edit_to_offsets r) es) = Some (clip_edits (rope_text r) es)"
  by (induction es) (auto simp: edit_to_offsets_def usize_to_offset_ok [OF assms])

section \<open>A new insertion\<close>

lemma cells_text_update: "\<forall>c \<in> set cs. c_timestamp c \<noteq> ts \<Longrightarrow> cells_text (ins(ts := x)) cs = cells_text ins cs"
  by (simp add: cells_text_def)

lemma fresh_fragment:
  assumes "fresh ts s" "f \<in> set (items s)" "0 < fr_len f"
  shows "fr_timestamp f \<noteq> ts"
proof -
  obtain c where c: "c \<in> set (fragment_cells f)" using assms(3) by (cases "fragment_cells f") (auto simp flip: length_fragment_cells)
  then have "c \<in> set (cells_of (items s))" using assms(2) by (auto simp: cells_of_def)
  then show ?thesis using assms(1) c fragment_cells_vis(2) by (auto simp: fresh_def touched_def)
qed

lemma fragment_ok_update:
  assumes "fragment_ok ins f" "fr_timestamp f \<noteq> ts"
  shows "fragment_ok (ins(ts := x)) f"
  using assms cells_text_update [of "fragment_cells f" ts ins x] by (auto simp: fragment_ok_def fragment_cells_vis)

lemma snapshot_ok_update:
  assumes "snapshot_ok U ins s" "fresh ts s"
  shows "snapshot_ok U (ins(ts := x)) s"
proof -
  have "\<forall>c \<in> set (cells_of (items s)). c_timestamp c \<noteq> ts" using assms(2) by (auto simp: fresh_def touched_def)
  then have "cells_text (ins(ts := x)) (vis (cells_of (items s))) = cells_text ins (vis (cells_of (items s)))"
    "cells_text (ins(ts := x)) (dead (cells_of (items s))) = cells_text ins (dead (cells_of (items s)))"
    by (simp_all add: cells_text_update)
  moreover have "fragment_ok (ins(ts := x)) f" if "f \<in> set (items s)" for f
    using fragment_ok_update [of ins f] fresh_fragment [OF assms(2) that] assms(1) that by (auto simp: snapshot_ok_def fragment_ok_def)
  moreover have "lamport_MIN \<noteq> ts" using assms(2) by (auto simp: fresh_def)
  ultimately show ?thesis using assms(1) by (simp add: snapshot_ok_def)
qed

lemma snapshot_text_of: "snapshot_ok U ins s \<Longrightarrow> snapshot_fits s \<Longrightarrow> text_of ins s"
  by (simp add: snapshot_ok_def snapshot_fits_def text_of_def)

section \<open>Local edits\<close>

lemma local_start_le:
  assumes "local_at ins s st em ys zs k" "text_of ins s"
  shows "es_start st \<le> length (rope_text (visible_text s))"
proof -
  have "items s = ys @ zs" using assms(1) local_cursor_facts(5) by (auto simp: local_at_def)
  moreover have "k \<le> vlen zs" using assms(1) by (cases zs) (auto simp: local_at_def trace_ok_def frags_ok_def)
  ultimately show ?thesis using assms by (simp add: local_at_def text_of_def)
qed

lemma store_edit_ok:
  assumes ok: "snapshot_ok U ins (snapshot b)" "snapshot_fits (snapshot b)" and topic: "topic_inv (buf_subscriptions b) (rope_text (visible_text (snapshot b))) base"
    and em: "emitted ins V D st em []" "trace_ok ins em (items (snapshot b)) [] 0" "distinct (map cell_id (written em))"
    and wr: "writes v (cells_text ins (vis (written em)))" "writes d (cells_text ins (dead (written em)))"
    and sls: "slices_of ts (es_slices st) (map cell_id (filter (touched ts) (written em)))"
    and old: "\<And>c e. c \<in> set (written em) \<Longrightarrow> touched e c \<Longrightarrow> e \<noteq> ts \<Longrightarrow> \<exists>a \<in> set (cells_of (items (snapshot b))). touched e a \<and> cell_id a = cell_id c"
    and vis: "\<forall>c \<in> set (written em). c_visible c = cell_visible (snap_undo_map (snapshot b)) c" and cut: "sliced st"
    and p: "patched (es_patch st) 0 0 (rope_text (visible_text (snapshot b))) (rope_text v)"
  shows "\<exists>s' subs. store_edit b st v d = Some (b\<lparr>snapshot := s', buf_subscriptions := subs\<rparr>) \<and> snapshot_ok U ins s' \<and>
    items s' = map snd em \<and> visible_text s' = v \<and> topic_inv subs (rope_text v) base \<and>
    (\<exists>i l. s' = (snapshot b)\<lparr>fragments := es_fragments st, insertions := i, visible_text := v, deleted_text := d, insertion_slices := l\<rparr>)"
proof -
  let ?s = "snapshot b" and ?gs = "map snd em"
  have frags: "\<forall>f \<in> set ?gs. fragment_ok ins f" "order_ok [] ?gs" "covered em (items ?s) [] 0"
    using em(2) by (auto simp: trace_ok_def frags_ok_def order_ok_def)
  have "distinct (map fragment_key ?gs)" by (rule fragment_keys_distinct [OF em(3)]) (use frags(1) in \<open>auto simp: fragment_ok_def\<close>)
  then obtain i old_entries where i: "tree_edit insertion_keyed (insertions ?s) (es_insertions st) = Some (i, old_entries)" "wf_tree insertion_item i"
    "key_sorted insertion_keyed (tree_items i)" "set (tree_items i) = insertion_fragment_new ` set ?gs"
    using index_edit_ok [OF _ _ frags(3)] ok em(1) unfolding snapshot_ok_def snapshot_fits_def emitted_def by metis
  obtain subs where subs: "publish (buf_subscriptions b) (es_patch st) = Some subs" "topic_inv subs (rope_text v) base"
    using publish_ok [OF topic p] by blast
  have ids: "distinct (map cell_id (filter (touched ts) (written em)))" by (rule distinct_map_filter [OF em(3)])
  obtain l where l: "set_extend (insertion_slices ?s) (es_slices st) = Some l" "map_ok l"
    "dom (map_abs l) = dom (map_abs (insertion_slices ?s)) \<union> set (es_slices st)"
    using slices_extend_ok [OF _ _ sls ids] ok unfolding snapshot_ok_def snapshot_fits_def by blast
  let ?s' = "?s\<lparr>fragments := es_fragments st, insertions := i, visible_text := v, deleted_text := d, insertion_slices := l\<rparr>"
  have items: "items ?s' = ?gs" "wf_tree fragment_item (es_fragments st)" using em(1) by (simp_all add: emitted_def)
  have cover: "\<exists>sl \<in> dom (map_abs l). is_edit_id sl = e \<and> cell_id c \<in> set (slice_ids sl)" if c: "c \<in> set (written em)" "touched e c" "e \<notin> U" for c e
  proof (cases "e = ts")
    case True
    have "cell_id c \<in> set (concat (map slice_ids (es_slices st)))" using c True sls by (auto simp: slices_of_def)
    then show ?thesis using sls True l(3) by (auto simp: slices_of_def)
  next
    case False
    from old [OF c(1,2) False] obtain a where "a \<in> set (cells_of (items ?s))" "touched e a" "cell_id a = cell_id c" by blast
    then show ?thesis using ok(1) l(3) c(3) unfolding snapshot_ok_def slices_ok_def by (metis UnCI)
  qed
  have keys: "slice_key ` dom (map_abs l) \<subseteq> fragment_key ` set ?gs"
  proof -
    have pair: "f \<in> set ?gs" if "(q, f) \<in> set em" for q f using that by force
    have new: "slice_key sl \<in> fragment_key ` set ?gs" if sl: "sl \<in> set (es_slices st)" for sl
    proof -
      obtain g where g: "insert_new g \<in> set (es_insertions st)" "fragment_key g = slice_key sl" using cut sl unfolding sliced_def by blast
      then obtain h where "(True, h) \<in> set em" "insert_new h = insert_new g" using em(1) by (auto simp: emitted_def)
      then show ?thesis using pair g(2) insert_new_key [of h g] by (metis imageI)
    qed
    have kept: "fragment_key f \<in> fragment_key ` set ?gs" if "f \<in> set (items ?s)" for f
      using frags(3) that pair unfolding covered_def indexed_def by (metis imageI)
    have old_keys: "slice_key ` dom (map_abs (insertion_slices ?s)) \<subseteq> fragment_key ` set (items ?s)"
      using ok(1) by (simp add: snapshot_ok_def slices_ok_def)
    show ?thesis unfolding l(3) image_Un
    proof (rule Un_least)
      show "slice_key ` dom (map_abs (insertion_slices ?s)) \<subseteq> fragment_key ` set ?gs"
        using kept by (intro subset_trans [OF old_keys] image_subsetI)
      show "slice_key ` set (es_slices st) \<subseteq> fragment_key ` set ?gs" using new by (intro image_subsetI)
    qed
  qed
  have "slices_ok U ?s'" using cover keys l(2) items(1) by (simp add: slices_ok_def)
  moreover have "visibility_ok ?s'" using vis items(1) ok(1) by (simp add: snapshot_ok_def visibility_ok_def)
  moreover have "index_ok ?s'" using i items(1) by (simp add: index_ok_def)
  moreover have "ins lamport_MIN = []" using ok(1) by (simp add: snapshot_ok_def)
  ultimately have "snapshot_ok U ins ?s'" using items frags(1,2) em(3) wr by (simp add: snapshot_ok_def writes_def)
  moreover have "store_edit b st v d = Some (b\<lparr>snapshot := ?s', buf_subscriptions := subs\<rparr>)"
    using i(1) subs(1) l(1) by (simp add: store_edit_def Let_def)
  ultimately show ?thesis using items(1) subs(2) by (intro exI [of _ ?s'] exI [of _ subs]) auto
qed

lemma local_finish_sliced: "local_finish st = Some (st', v, d) \<Longrightarrow> sliced st \<Longrightarrow> sliced st'"
  by (auto simp: local_finish_def split: bind_splits dest!: local_finish_fragment_sliced)

lemma local_run_ok:
  assumes ok: "snapshot_ok U ins s" "snapshot_fits s" and fresh: "fresh ts s" and es: "edits_ok (rope_text (visible_text s)) 0 es" "es \<noteq> []"
    and new: "ins ts = edit_texts (normal_edits es)"
  shows "\<exists>st1 st2 rs st em v d N. local_start s (fst (hd es)) = Some st1 \<and>
    local_edit_loop ts es st1 = Some (st2, rs, map (\<lambda>(_, _, t). line_ending_normalize t) es) \<and> local_finish st2 = Some (st, v, d) \<and>
    emitted ins (visible_text s) (deleted_text s) st em [] \<and> trace_ok ins em (items s) [] 0 \<and> written em = N \<and>
    writes v (cells_text ins (vis N)) \<and> writes d (cells_text ins (dead N)) \<and>
    slices_of ts (es_slices st) (map cell_id (filter (touched ts) N)) \<and> sliced st \<and>
    local_spec ts 0 0 0 (cells_of (items s)) (normal_edits es) N rs \<and> patched (es_patch st) 0 0 (rope_text (visible_text s)) (cells_text ins (vis N))"
proof -
  have tx: "text_of ins s" by (rule snapshot_text_of [OF ok])
  have start: "rope_ok (visible_text s)" "rope_ok (deleted_text s)" "wf_tree fragment_item (fragments s)" "node_height (fragments s) < STACK_CAP"
    "order_ok [] (items s)" using ok by (simp_all add: snapshot_ok_def snapshot_fits_def)
  obtain st1 em1 ys zs where st1: "local_start s (fst (hd es)) = Some st1" "local_at ins s st1 em1 ys zs 0" "written em1 = cells_of ys" "items s = ys @ zs"
    "es_start st1 \<le> fst (hd es)" "es_insertion_offset st1 = 0" "es_slices st1 = []" "patch_at ins s st1 em1"
    using local_start_ok [OF tx start] by blast
  have edits: "edits_ok (rope_text (visible_text s)) (es_start st1) es" using es st1(5) by (cases es) auto
  have untouched: "\<forall>c \<in> set (cells_of ys). \<not> touched ts c" "\<forall>c \<in> set (drop 0 (cells_of zs)). \<not> touched ts c"
    using fresh st1(4) by (auto simp: fresh_def)
  obtain st2 em2 ys2 zs2 k2 W rs where st2: "local_edit_loop ts es st1 = Some (st2, rs, map (\<lambda>(_, _, t). line_ending_normalize t) es)"
    "local_at ins s st2 em2 ys2 zs2 k2" "written em2 = written em1 @ W"
    "local_spec ts (es_start st1) 0 (length (cells_of ys) + 0) (drop 0 (cells_of zs)) (normal_edits es) (W @ drop k2 (cells_of zs2)) rs"
    "logs ts st1 st2 (map cell_id (filter (touched ts) W))" "patch_at ins s st2 em2"
    using local_edit_loop_ok [OF st1(2) tx st1(8) edits _ untouched(2)] new st1(6) by auto
  obtain st em v d where st: "local_finish st2 = Some (st, v, d)" "emitted ins (visible_text s) (deleted_text s) st em []"
    "trace_ok ins em (items s) [] 0" "written em = written em2 @ drop k2 (cells_of zs2)"
    "writes v (cells_text ins (vis (written em)))" "writes d (cells_text ins (dead (written em)))" "same_log st2 st"
    using local_finish_ok [OF st2(2) tx] by blast
  have N: "written em = cells_of ys @ W @ drop k2 (cells_of zs2)" using st(4) st2(3) st1(3) by simp
  have pos: "es_start st1 = length (vis (cells_of ys))" using st1(2) by (simp add: local_at_def)
  have spec: "local_spec ts 0 0 0 (cells_of (items s)) (normal_edits es) (written em) rs"
    using spec_before [of ts 0 "cells_of ys" 0 0] st2(4) pos st1(4) N by simp
  have rest: "filter (touched ts) (drop k2 (cells_of zs2)) = []"
  proof -
    have "set (cells_of zs2) \<subseteq> set (cells_of (items s))" using st2(2) local_cursor_facts(5) [of s st2 ys2 zs2] by (auto simp: local_at_def)
    then show ?thesis using fresh by (auto simp: fresh_def filter_empty_conv dest: in_set_dropD)
  qed
  have "filter (touched ts) (written em) = filter (touched ts) W" using N rest untouched(1) by (simp add: filter_empty_conv)
  then have "slices_of ts (es_slices st) (map cell_id (filter (touched ts) (written em)))"
    using st2(5) st(7) st1(7) by (simp add: logs_def same_log_def)
  moreover have "sliced st1" using st1(7) by (simp add: sliced_def)
  then have "sliced st" using local_edit_loop_sliced [OF st2(1)] local_finish_sliced [OF st(1)] by blast
  moreover have "patched (es_patch st) 0 0 (rope_text (visible_text s)) (cells_text ins (vis (written em)))"
    using patch_finish [OF st2(2) tx st2(6) local_start_le [OF st2(2) tx]] st(4,7) by (simp add: same_log_def)
  ultimately show ?thesis using st1(1) st2(1) st(1-3,5,6) spec by blast
qed

lemma normal_clip: "normal_edits (clip_edits x es) = map (\<lambda>(s, e, t). (str_floor_char_boundary x s, str_floor_char_boundary x e, line_ending_normalize t)) es"
  by auto

lemma apply_local_edit_ok:
  fixes b :: buffer and es :: "(nat \<times> nat \<times> str) list"
  defines "x \<equiv> rope_text (visible_text (snapshot b))"
  defines "es' \<equiv> map (\<lambda>(s, e, t). (str_floor_char_boundary x s, str_floor_char_boundary x e, line_ending_normalize t)) es"
  assumes ok: "snapshot_ok U ins (snapshot b)" "snapshot_fits (snapshot b)" and topic: "topic_inv (buf_subscriptions b) x base"
    and fresh: "fresh ts (snapshot b)" and es: "edits_ok x 0 (clip_edits x es)" "es \<noteq> []"
  shows "\<exists>s' subs rs. apply_local_edit b es ts = Some (b\<lparr>snapshot := s', buf_subscriptions := subs\<rparr>,
      \<lparr>op_timestamp = ts, op_version = snap_version (snapshot b), op_ranges = rs, op_new_text = map (\<lambda>(_, _, t). t) es'\<rparr>) \<and>
    snapshot_ok U (ins(ts := edit_texts es')) s' \<and> topic_inv subs (rope_text (visible_text s')) base \<and>
    local_spec ts 0 0 0 (cells_of (items (snapshot b))) es' (cells_of (items s')) rs \<and>
    rope_text (visible_text s') = spliced 0 x es' \<and>
    snap_version s' = snap_version (snapshot b) \<and> snap_undo_map s' = snap_undo_map (snapshot b) \<and> snap_line_ending s' = snap_line_ending (snapshot b)"
proof -
  let ?s = "snapshot b" and ?es = "clip_edits x es"
  define I where "I = ins(ts := edit_texts es')"
  have es': "normal_edits ?es = es'" unfolding es'_def by (rule normal_clip)
  have ok': "snapshot_ok U I ?s" unfolding I_def by (rule snapshot_ok_update [OF ok(1) fresh])
  have new: "I ts = edit_texts (normal_edits ?es)" unfolding es' by (simp add: I_def)
  have ne: "?es \<noteq> []" using es(2) by simp
  obtain st1 st2 rs st em v d N where run: "local_start ?s (fst (hd ?es)) = Some st1"
    "local_edit_loop ts ?es st1 = Some (st2, rs, map (\<lambda>(_, _, t). line_ending_normalize t) ?es)" "local_finish st2 = Some (st, v, d)"
    "emitted I (visible_text ?s) (deleted_text ?s) st em []" "trace_ok I em (items ?s) [] 0" "written em = N"
    "writes v (cells_text I (vis N))" "writes d (cells_text I (dead N))" "slices_of ts (es_slices st) (map cell_id (filter (touched ts) N))" "sliced st"
    "local_spec ts 0 0 0 (cells_of (items ?s)) es' N rs" "patched (es_patch st) 0 0 x (cells_text I (vis N))"
    using local_run_ok [OF ok' ok(2) fresh es(1) [unfolded x_def] ne [unfolded x_def] new [unfolded x_def]] unfolding x_def [symmetric] es' by blast
  have dist: "distinct (map cell_id (written em))"
    unfolding run(6) by (rule spec_distinct [OF run(11)]) (use ok(1) fresh in \<open>simp_all add: fresh_def snapshot_ok_def\<close>)
  have vis: "\<forall>c \<in> set (written em). c_visible c = cell_visible (snap_undo_map ?s) c"
    unfolding run(6) by (rule spec_visible [OF run(11)]) (use ok(1) fresh in \<open>simp_all add: fresh_def snapshot_ok_def visibility_ok_def\<close>)
  have vt: "rope_text v = cells_text I (vis N)" using run(7) by (simp add: writes_def)
  obtain s' subs where store: "store_edit b st v d = Some (b\<lparr>snapshot := s', buf_subscriptions := subs\<rparr>)" "snapshot_ok U I s'"
    "items s' = map snd em" "visible_text s' = v" "topic_inv subs (rope_text v) base"
    "\<exists>i l. s' = ?s\<lparr>fragments := es_fragments st, insertions := i, visible_text := v, deleted_text := d, insertion_slices := l\<rparr>"
    using store_edit_ok [OF ok' ok(2) topic [unfolded x_def] run(4,5) dist run(7) [folded run(6)] run(8) [folded run(6)] run(9) [folded run(6)]
      spec_touched [OF run(11)] vis run(10) run(12) [unfolded x_def, folded vt]] run(6) by blast
  have "apply_local_edit b es ts = Some (b\<lparr>snapshot := s', buf_subscriptions := subs\<rparr>,
      \<lparr>op_timestamp = ts, op_version = snap_version ?s, op_ranges = rs, op_new_text = map (\<lambda>(_, _, t). t) es'\<rparr>)"
  proof -
    have "rope_ok (visible_text ?s)" using ok(1) by (simp add: snapshot_ok_def)
    from edits_to_offsets_ok [OF this, of es] have "collect_options (map (edit_to_offsets (visible_text ?s)) es) = Some ?es" by (simp add: x_def)
    moreover obtain p q where "list_first ?es = Some (fst (hd ?es), p, q)" using es(2) by (cases es) (auto simp: list_first_def)
    moreover have "map (\<lambda>(_, _, t). line_ending_normalize t) ?es = map (\<lambda>(_, _, t). t) es'" by (auto simp: es'_def)
    ultimately show ?thesis using run(1-3) store(1) by (simp add: apply_local_edit_def)
  qed
  moreover have "cells_text I (vis N) = spliced 0 x es'"
    using spec_text [OF run(11), of I] ok'(1) by (simp add: I_def snapshot_ok_def x_def)
  moreover have "snap_version s' = snap_version ?s" "snap_undo_map s' = snap_undo_map ?s" "snap_line_ending s' = snap_line_ending ?s"
    using store(6) by (elim exE; simp)+
  ultimately show ?thesis using store(2-5) run(6,11) vt unfolding I_def by (intro exI [of _ s'] exI [of _ subs] exI [of _ rs]) simp
qed

end
