(* ===== verification/Buffer_Ids.thy ===== *)
theory Buffer_Ids
  imports Buffer_Invariant Buffer_Undo
begin

text \<open>
  \<open>fragment_ids_for_edits\<close> finds, in order and once each, the fragments whose first byte lies in a slice of one of the edits;
  under the invariant of a buffer those include every fragment with a byte that one of the edits inserted or deleted.
\<close>

section \<open>Entries of a slice\<close>

definition in_slice :: "insertion_slice \<Rightarrow> insertion_fragment \<Rightarrow> bool" where
  "in_slice sl x \<longleftrightarrow> if_timestamp x = is_insertion_id sl \<and> is_start sl \<le> if_split_offset x \<and> if_split_offset x < is_end sl"

abbreviation in_slices :: "insertion_slice list \<Rightarrow> insertion_fragment \<Rightarrow> bool" where
  "in_slices sls x \<equiv> (\<exists>sl \<in> set sls. in_slice sl x)"

abbreviation ikey :: "insertion_fragment \<Rightarrow> insertion_fragment_key" where
  "ikey \<equiv> insertion_fragment_key"

abbreviation index_at :: "buffer_snapshot \<Rightarrow> insertion_cursor \<Rightarrow> insertion_fragment list \<Rightarrow> insertion_fragment list \<Rightarrow> bool" where
  "index_at s c ys zs \<equiv> cursor_at insertion_item (key_dim insertion_keyed) c ys zs \<and> cursor_tree c = insertions s"

lemma key_le: "(a, b) \<le> (c, d) \<longleftrightarrow> a < c \<or> a = c \<and> b \<le> d" for a c :: "'a::linorder" and b d :: "'b::linorder"
  by (auto simp: less_eq_prod_def)

lemma ikey_le: "ikey x \<le> ikey y \<longleftrightarrow> if_timestamp x < if_timestamp y \<or> if_timestamp x = if_timestamp y \<and> if_split_offset x \<le> if_split_offset y"
  by (auto simp: insertion_fragment_key_def)

lemma slice_le_ikey: "slice_key sl \<le> ikey x \<longleftrightarrow> is_insertion_id sl < if_timestamp x \<or> is_insertion_id sl = if_timestamp x \<and> is_start sl \<le> if_split_offset x"
  by (auto simp: insertion_fragment_key_def slice_key_def)

lemma ikey_less: "ikey x < slice_key sl \<Longrightarrow> \<not> in_slice sl x \<and> if_timestamp x \<le> is_insertion_id sl"
  by (auto simp: in_slice_def insertion_fragment_key_def slice_key_def intro: less_imp_le)

lemma index_sorted: "index_ok s \<Longrightarrow> index_at s c ys zs \<Longrightarrow> sorted_wrt (\<lambda>x y. ikey x < ikey y) (ys @ zs)"
  unfolding index_ok_def cursor_at_def by (metis insertion_keyed_simps(2))

lemma index_position:
  assumes "index_ok s" "index_at s c ys zs"
  shows "cursor_position c = (if ys = [] then (lamport_MIN, 0) else ikey (last ys))"
proof -
  have "dim_zero (key_dim insertion_keyed) = (lamport_MIN, 0)" by (simp add: insertion_keyed_def insertion_item_def summary_dimension_def)
  then show ?thesis
    using insertion_tree.pos_after_key [of ys "dim_zero (key_dim insertion_keyed)"] insertion_tree.zero_least index_sorted [OF assms] assms(2)
    by (simp add: cursor_at_def sorted_wrt_append)
qed

lemma slice_items_ok:
  fixes sl :: insertion_slice
  assumes "cursor_at insertion_item (key_dim insertion_keyed) c ys zs" "did_seek c" "cursor_tree c = t"
  defines "P \<equiv> \<lambda>x. if_timestamp x = is_insertion_id sl \<and> if_split_offset x < is_end sl"
  shows "\<exists>c'. slice_items sl c ids = Some (c', ids @ map if_fragment_id (takeWhile P zs)) \<and>
    cursor_at insertion_item (key_dim insertion_keyed) c' (ys @ takeWhile P zs) (dropWhile P zs) \<and> did_seek c' \<and> cursor_tree c' = t"
  using assms(1-3)
proof (induction zs arbitrary: c ys ids)
  case Nil
  then show ?case using cursor_at_item(1) [of insertion_item "key_dim insertion_keyed" c ys "[]"] by (simp add: slice_items.simps [of sl c])
next
  case (Cons z zs)
  have item: "cursor_item c = Some (Some z)" using cursor_at_item(1) [OF Cons.prems(1,2)] by simp
  show ?case
  proof (cases "P z")
    case False
    then show ?thesis using item Cons.prems by (auto simp: slice_items.simps [of sl c] P_def not_less)
  next
    case True
    obtain c' where c': "cursor_next (key_dim insertion_keyed) c = Some c'" "did_seek c'" "cursor_tree c' = t"
      "cursor_at insertion_item (key_dim insertion_keyed) c' (ys @ [z]) zs"
      using insertion_tree.cursor_next_ok [unfolded insertion_keyed_simps, OF Cons.prems(1,2)] Cons.prems(3) by auto
    have "slice_items sl c ids = slice_items sl c' (ids @ [if_fragment_id z])"
      using item True c'(1) by (simp add: slice_items.simps [of sl c] P_def)
    then show ?thesis using Cons.IH [OF c'(4,2,3), of "ids @ [if_fragment_id z]"] True by simp
  qed
qed

section \<open>The loop over the slices\<close>

text \<open>
  \<open>done\<close> are the slices so far.  The entries before the cursor from the key \<open>lo\<close> on were all collected, and \<open>lo\<close> is not
  after the last slice; so a later slice that begins before the cursor misses nothing.
\<close>

definition ids_inv :: "buffer_snapshot \<Rightarrow> insertion_slice list \<Rightarrow> insertion_cursor \<Rightarrow> locator list \<Rightarrow> bool" where
  "ids_inv s ds c ids \<longleftrightarrow> (\<exists>ys zs lo. index_at s c ys zs \<and> ids = map if_fragment_id (filter (in_slices ds) ys) \<and>
     (\<forall>x \<in> set zs. \<not> in_slices ds x) \<and> (\<forall>x \<in> set ys. lo \<le> ikey x \<longrightarrow> in_slices ds x) \<and>
     (if ds = [] then ys = [] else did_seek c \<and> lo \<le> slice_key (last ds) \<and> (\<forall>y \<in> set ys. if_timestamp y \<le> is_insertion_id (last ds))))"

lemma rest_outside:
  assumes "sorted_wrt (\<lambda>x y. ikey x < ikey y) bs" "\<forall>x \<in> set bs. slice_key sl \<le> ikey x"
    and "x \<in> set (dropWhile (\<lambda>x. if_timestamp x = is_insertion_id sl \<and> if_split_offset x < is_end sl) bs)"
  shows "\<not> in_slice sl x"
  using assms
proof (induction bs)
  case (Cons b bs)
  show ?case
  proof (cases "if_timestamp b = is_insertion_id sl \<and> if_split_offset b < is_end sl")
    case True
    then show ?thesis using Cons by simp
  next
    case False
    then have "x \<in> set (b # bs)" using Cons.prems(3) by (simp only: dropWhile.simps if_False)
    then have "x = b \<or> ikey b < ikey x" using Cons.prems(1) by (simp only: sorted_wrt.simps set_simps) blast
    then have "ikey b \<le> ikey x" by (elim disjE) simp_all
    moreover have "slice_key sl \<le> ikey b" using Cons.prems(2) by simp
    ultimately show ?thesis using False unfolding in_slice_def ikey_le slice_le_ikey by (metis le_less_trans less_asym)
  qed
qed simp

lemma ids_extend:
  assumes s: "index_ok s" and at: "index_at s c (ys @ as) bs" "did_seek c"
    and zs: "\<forall>x \<in> set (as @ bs). \<not> in_slices ds x" and ys: "\<forall>y \<in> set ys. in_slice sl y \<longrightarrow> in_slices ds y"
    and as: "\<forall>x \<in> set as. \<not> in_slice sl x" and bs: "\<forall>x \<in> set bs. slice_key sl \<le> ikey x"
    and lo: "\<forall>x \<in> set (ys @ as). lo \<le> ikey x \<longrightarrow> in_slices ds x" "lo \<le> slice_key sl"
    and id: "\<forall>y \<in> set (ys @ as). if_timestamp y \<le> is_insertion_id sl"
  shows "\<exists>c' ids'. slice_items sl c (map if_fragment_id (filter (in_slices ds) ys)) = Some (c', ids') \<and> ids_inv s (ds @ [sl]) c' ids'"
proof -
  let ?P = "\<lambda>x. if_timestamp x = is_insertion_id sl \<and> if_split_offset x < is_end sl"
  let ?ws = "takeWhile ?P bs" and ?ids = "map if_fragment_id (filter (in_slices ds) ys)"
  obtain c' where c': "slice_items sl c ?ids = Some (c', ?ids @ map if_fragment_id ?ws)" "index_at s c' ((ys @ as) @ ?ws) (dropWhile ?P bs)" "did_seek c'"
    using slice_items_ok [of c "ys @ as" bs "insertions s" sl ?ids] at by auto
  have ws: "\<forall>x \<in> set ?ws. in_slice sl x"
  proof
    fix x assume "x \<in> set ?ws"
    then have "x \<in> set bs" "?P x" by (auto dest: set_takeWhileD)
    moreover from this(1) have "slice_key sl \<le> ikey x" using bs by blast
    ultimately show "in_slice sl x" by (auto simp: in_slice_def slice_le_ikey)
  qed
  have "filter (in_slices (ds @ [sl])) ys = filter (in_slices ds) ys" using ys by (intro filter_cong) auto
  moreover have "filter (in_slices (ds @ [sl])) as = []" using zs as by (auto simp: filter_empty_conv)
  moreover have "filter (in_slices (ds @ [sl])) ?ws = ?ws" using ws by (auto simp: filter_id_conv)
  ultimately have ids: "?ids @ map if_fragment_id ?ws = map if_fragment_id (filter (in_slices (ds @ [sl])) ((ys @ as) @ ?ws))" by simp
  have sorted: "sorted_wrt (\<lambda>x y. ikey x < ikey y) bs" using index_sorted [OF s at(1)] by (simp add: sorted_wrt_append)
  have "\<not> in_slices (ds @ [sl]) x" if "x \<in> set (dropWhile ?P bs)" for x
    using rest_outside [OF sorted bs that] zs set_dropWhileD [OF that] by auto
  moreover have "in_slices (ds @ [sl]) x" if "x \<in> set ((ys @ as) @ ?ws)" "lo \<le> ikey x" for x using that lo(1) ws by auto
  moreover have "if_timestamp y \<le> is_insertion_id sl" if "y \<in> set ((ys @ as) @ ?ws)" for y using that id by (auto dest: set_takeWhileD)
  ultimately have "ids_inv s (ds @ [sl]) c' (?ids @ map if_fragment_id ?ws)"
    unfolding ids_inv_def using c'(2,3) ids lo(2) by (intro exI [of _ "(ys @ as) @ ?ws"] exI [of _ "dropWhile ?P bs"] exI [of _ lo]) simp
  then show ?thesis using c'(1) by blast
qed

lemma slice_fragments_ok:
  assumes inv: "ids_inv s ds c ids" and s: "index_ok s" and sl: "is_insertion_id sl \<noteq> lamport_MIN" "ds \<noteq> [] \<Longrightarrow> slice_key (last ds) \<le> slice_key sl"
  shows "\<exists>c' ids'. slice_fragments sl (c, ids) = Some (c', ids') \<and> ids_inv s (ds @ [sl]) c' ids'"
proof -
  obtain ys zs lo where at: "index_at s c ys zs" "ids = map if_fragment_id (filter (in_slices ds) ys)" and zs: "\<forall>x \<in> set zs. \<not> in_slices ds x"
    and ys: "\<forall>x \<in> set ys. lo \<le> ikey x \<longrightarrow> in_slices ds x"
    and ds: "if ds = [] then ys = [] else did_seek c \<and> lo \<le> slice_key (last ds) \<and> (\<forall>y \<in> set ys. if_timestamp y \<le> is_insertion_id (last ds))"
    using inv unfolding ids_inv_def by blast
  define p where "p = cursor_position c"
  have p: "p = (if ys = [] then (lamport_MIN, 0) else ikey (last ys))" unfolding p_def by (rule index_position [OF s at(1)])
  have sorted: "sorted_wrt (\<lambda>x y. ikey x < ikey y) (ys @ zs)" by (rule index_sorted [OF s at(1)])
  have ys_le: "ikey y \<le> p" if "y \<in> set ys" for y
    using that sorted p by (cases ys rule: rev_cases) (auto simp: sorted_wrt_append intro: less_imp_le)
  have zs_gt: "p \<le> ikey z" if "z \<in> set zs" for z
    using that sorted p by (cases ys rule: rev_cases) (auto simp: sorted_wrt_append key_le insertion_fragment_key_def intro: less_imp_le)
  have le_sl: "is_insertion_id (last ds) \<le> is_insertion_id sl" if "ds \<noteq> []" using sl(2) [OF that] by (auto simp: slice_key_def key_le)
  have ids_le: "\<forall>y \<in> set ys. if_timestamp y \<le> is_insertion_id sl" using ds le_sl by (cases "ds = []") (auto intro: order_trans)
  show ?thesis
  proof (cases "is_insertion_id sl \<noteq> fst p \<or> snd p < is_start sl")
    case False
    have "ys \<noteq> []" using False sl(1) p by auto
    then have ds': "ds \<noteq> []" "did_seek c" "lo \<le> slice_key (last ds)" using ds by (auto split: if_splits)
    have lo: "lo \<le> slice_key sl" using order_trans [OF ds'(3) sl(2) [OF ds'(1)]] .
    have sp: "slice_key sl \<le> p" using False by (cases p) (auto simp: slice_key_def key_le)
    have "in_slices ds y" if "y \<in> set ys" "in_slice sl y" for y
    proof -
      have "slice_key sl \<le> ikey y" using that(2) by (simp add: in_slice_def slice_le_ikey)
      then show ?thesis using ys that(1) order_trans [OF lo] by blast
    qed
    moreover have "\<forall>x \<in> set zs. slice_key sl \<le> ikey x" using zs_gt sp by (auto intro: order_trans)
    ultimately have "\<exists>c' ids'. slice_items sl c ids = Some (c', ids') \<and> ids_inv s (ds @ [sl]) c' ids'"
      unfolding at(2) using ids_extend [OF s, of c ys "[]" zs ds sl lo] at(1) ds'(2) zs ys lo ids_le by simp
    moreover have "slice_fragments sl (c, ids) = slice_items sl c ids" using False by (simp add: slice_fragments_def cursor_start_def p_def)
    ultimately show ?thesis by simp
  next
    case True
    have lt: "p < slice_key sl"
    proof (cases "ys = []")
      case True
      have "lamport_MIN < is_insertion_id sl" using sl(1) lamport_MIN_least [of "is_insertion_id sl"] by (metis order.not_eq_order_implies_strict)
      then show ?thesis using True p by (simp add: slice_key_def less_prod_def)
    next
      case False
      then have "fst p \<le> is_insertion_id sl" using ids_le p by (simp add: insertion_fragment_key_def)
      then show ?thesis using True by (cases p) (auto simp: slice_key_def less_prod_def)
    qed
    let ?t = "ord_target (slice_key sl)" and ?D = "key_dim insertion_keyed"
    have from_p: "sorted_wrt (\<lambda>x y. ikey x < ikey y) zs \<and> (\<forall>x \<in> set zs. p \<le> ikey x)" using sorted zs_gt by (simp add: sorted_wrt_append)
    let ?as = "takeWhile (\<lambda>x. ikey x < slice_key sl) zs" and ?bs = "dropWhile (\<lambda>x. ikey x < slice_key sl) zs"
    have split: "seek_split insertion_item ?D (target_past ?t Left) p zs = (?as, ?bs)"
      using insertion_tree.seek_split_key [of zs p "target_past ?t Left"] from_p by (simp add: insertion_tree.past_left)
    have mono: "seek_mono insertion_item ?D (target_past ?t Left) p zs"
      using insertion_tree.key_seek_mono [of zs p "slice_key sl" Left] from_p by simp
    have not_less: "?t p \<noteq> Less" using lt by (auto simp: ord_target_def cmp_def)
    obtain c1 q where c1: "seek_forward ?D ?t Left c = Some (c1, q)" "index_at s c1 (ys @ ?as) ?bs" "did_seek c1"
      using insertion_tree.seek_forward_ok [unfolded insertion_keyed_simps, of c ys zs ?t Left ?as ?bs] at(1) mono split not_less
      unfolding p_def by metis
    have bs: "\<forall>x \<in> set ?bs. slice_key sl \<le> ikey x"
      using from_p by (induction zs) (auto simp: not_less intro: less_imp_le order_trans)
    have as: "\<forall>x \<in> set ?as. ikey x < slice_key sl" by (auto dest: set_takeWhileD)
    have before: "\<forall>x \<in> set (ys @ ?as). ikey x < slice_key sl" using as ys_le lt by (auto intro: le_less_trans)
    have low: "\<forall>x \<in> set (ys @ ?as). slice_key sl \<le> ikey x \<longrightarrow> in_slices ds x" using before leD by blast
    have outside: "\<forall>x \<in> set (ys @ ?as). \<not> in_slice sl x" "\<forall>x \<in> set (ys @ ?as). if_timestamp x \<le> is_insertion_id sl"
      using before ikey_less by blast+
    have "\<forall>x \<in> set (?as @ ?bs). \<not> in_slices ds x" using zs by simp
    then have "\<exists>c' ids'. slice_items sl c1 ids = Some (c', ids') \<and> ids_inv s (ds @ [sl]) c' ids'"
      unfolding at(2) using ids_extend [OF s c1(2,3), of ds sl "slice_key sl"] bs outside low by simp
    moreover have "slice_fragments sl (c, ids) = slice_items sl c1 ids"
      using True c1(1) by (simp add: slice_fragments_def cursor_start_def p_def slice_key_def)
    ultimately show ?thesis by simp
  qed
qed

lemma slices_loop_ok:
  assumes "ids_inv s ds c ids" "index_ok s" "\<forall>sl \<in> set sls. is_insertion_id sl \<noteq> lamport_MIN"
    "sorted_wrt (\<lambda>a b. slice_key a \<le> slice_key b) (ds @ sls)"
  shows "\<exists>c' ids'. slices_loop sls (c, ids) = Some (c', ids') \<and> ids_inv s (ds @ sls) c' ids'"
  using assms
proof (induction sls arbitrary: ds c ids)
  case (Cons sl sls)
  have le: "slice_key (last ds) \<le> slice_key sl" if "ds \<noteq> []" using Cons.prems(4) last_in_set [OF that] by (simp add: sorted_wrt_append)
  obtain c1 ids1 where c1: "slice_fragments sl (c, ids) = Some (c1, ids1)" "ids_inv s (ds @ [sl]) c1 ids1"
    using slice_fragments_ok [OF Cons.prems(1,2) _ le] Cons.prems(3) by auto
  have "\<exists>c' ids'. slices_loop sls (c1, ids1) = Some (c', ids') \<and> ids_inv s ((ds @ [sl]) @ sls) c' ids'"
    by (rule Cons.IH [OF c1(2) Cons.prems(2)]) (use Cons.prems(3,4) in simp_all)
  then show ?case using c1(1) by simp
qed simp

section \<open>The fragments\<close>

lemma same_fragment:
  assumes "distinct (map cell_id (cells_of fs))" "f \<in> set fs" "g \<in> set fs" "k \<in> cell_id ` set (fragment_cells f)" "k \<in> cell_id ` set (fragment_cells g)"
  shows "f = g"
  using assms
proof (induction fs)
  case (Cons h fs)
  have disj: "\<not> (k \<in> cell_id ` set (fragment_cells h) \<and> k \<in> cell_id ` set (fragment_cells x))" if "x \<in> set fs" for x
  proof -
    have "cell_id ` set (fragment_cells h) \<inter> cell_id ` set (cells_of fs) = {}" using Cons.prems(1) by simp
    moreover have "set (fragment_cells x) \<subseteq> set (cells_of fs)" using that by (auto simp: cells_of_def)
    ultimately show ?thesis by blast
  qed
  have "distinct (map cell_id (cells_of fs))" using Cons.prems(1) by simp
  then show ?case using Cons.IH Cons.prems(2-5) disj by (metis set_ConsD)
qed simp

lemma ids_start: "index_ok s \<Longrightarrow> node_height (insertions s) < STACK_CAP \<Longrightarrow> ids_inv s [] (cursor_new (key_dim insertion_keyed) (insertions s)) []"
  unfolding ids_inv_def using cursor_at_new [of insertion_item "insertions s" "key_dim insertion_keyed"]
  by (intro exI [of _ "[]"] exI [of _ "tree_items (insertions s)"]) (auto simp: index_ok_def cursor_new_def)

lemma slice_sort:
  "sorted_wrt (\<lambda>a b. slice_key a \<le> slice_key b) (sort_key slice_sort_key sls)"
proof -
  have "sorted (map slice_sort_key (sort_key slice_sort_key sls))" by simp
  then have "sorted_wrt (\<lambda>a b. slice_sort_key a \<le> slice_sort_key b) (sort_key slice_sort_key sls)" by (simp add: sorted_map)
  then show ?thesis by (rule sorted_wrt_mono_rel [rotated]) (auto simp: slice_sort_key_def slice_key_def)
qed

lemma slices_for_edit_ok:
  assumes "map_ok (insertion_slices s)" "node_height (insertion_slices s) < STACK_CAP"
  shows "\<exists>sls. slices_for_edit s e = Some sls \<and> set sls = {sl \<in> dom (map_abs (insertion_slices s)). is_edit_id sl = e}"
proof -
  define k where "k = InsertionSlice (lamport_value e) (lamport_replica e) (lamport_value lamport_MIN) (lamport_replica lamport_MIN) 0 0"
  have sel: "is_edit_id k = e" "is_insertion_id k = lamport_MIN" "is_start k = 0" "is_end k = 0"
    by (simp_all add: k_def is_edit_id_def is_insertion_id_def)
  have le: "a \<le> b \<longleftrightarrow> insertion_slice_key a \<le> insertion_slice_key b" for a b
    by (auto simp: less_eq_insertion_slice_def insertion_slice_cmp_key cmp_def not_less)
  have k_le: "k \<le> sl \<longleftrightarrow> e \<le> is_edit_id sl" for sl
    unfolding le insertion_slice_key_def sel by (auto intro: less_imp_le)
  obtain kvs where kvs: "iter_from (insertion_slices s) k (Suc (length (tree_items (insertion_slices s)))) = Some kvs" "sorted_wrt (<) (map fst kvs)"
    "map_of kvs = (\<lambda>x. if k \<le> x then map_abs (insertion_slices s) x else None)"
    using iter_from_spec [OF assms, of "Suc (length (tree_items (insertion_slices s)))" k] by auto
  have set: "set (map fst kvs) = {sl \<in> dom (map_abs (insertion_slices s)). e \<le> is_edit_id sl}"
    using arg_cong [OF kvs(3), of dom] k_le by (auto simp: dom_map_of_conv_image_fst split: if_splits)
  have "takeWhile (\<lambda>sl. is_edit_id sl = e) xs = filter (\<lambda>sl. is_edit_id sl = e) xs"
    if "sorted_wrt (<) xs" "\<forall>x \<in> set xs. e \<le> is_edit_id x" for xs
    using that
  proof (induction xs)
    case (Cons x xs)
    have mono: "is_edit_id x \<le> is_edit_id y" if "y \<in> set xs" for y
      using Cons.prems(1) that le [of x y] by (auto simp: insertion_slice_key_def less_le)
    show ?case
    proof (cases "is_edit_id x = e")
      case False
      then have "is_edit_id y \<noteq> e" if "y \<in> set xs" for y using mono [OF that] Cons.prems(2) by auto
      then have "filter (\<lambda>sl. is_edit_id sl = e) xs = []" by (auto simp: filter_empty_conv)
      then show ?thesis using False by simp
    qed (use Cons in simp)
  qed simp
  then have "takeWhile (\<lambda>sl. is_edit_id sl = e) (map fst kvs) = filter (\<lambda>sl. is_edit_id sl = e) (map fst kvs)" using kvs(2) set by blast
  then have "set (takeWhile (\<lambda>sl. is_edit_id sl = e) (map fst kvs)) = {sl \<in> dom (map_abs (insertion_slices s)). is_edit_id sl = e}"
    using set by (simp only: set_filter) auto
  then show ?thesis using kvs(1) by (auto simp: slices_for_edit_def set_iter_from_def Let_def k_def [symmetric])
qed

lemma all_slices_ok:
  assumes "map_ok (insertion_slices s)" "node_height (insertion_slices s) < STACK_CAP"
  shows "\<exists>xs. collect_options (map (slices_for_edit s) es) = Some xs \<and>
    set (concat xs) = {sl \<in> dom (map_abs (insertion_slices s)). is_edit_id sl \<in> set es}"
proof (induction es)
  case (Cons e es)
  then show ?case using slices_for_edit_ok [OF assms, of e] by auto
qed simp

text \<open>A fragment that holds a byte of a slice begins in the slice, since the slice begins with a fragment.\<close>

lemma slice_start:
  assumes "snapshot_ok U ins s" "sl \<in> dom (map_abs (insertion_slices s))"
  shows "\<exists>f \<in> set (items s). fragment_key f = slice_key sl"
proof -
  have "slice_key ` dom (map_abs (insertion_slices s)) \<subseteq> fragment_key ` set (items s)" using assms(1) by (simp add: snapshot_ok_def slices_ok_def)
  then have "slice_key sl \<in> fragment_key ` set (items s)" using assms(2) by (meson imageI subsetD)
  then show ?thesis by (metis imageE)
qed

lemma slice_fragment:
  assumes ok: "snapshot_ok U ins s" and sl: "sl \<in> dom (map_abs (insertion_slices s))"
    and f: "f \<in> set (items s)" "c \<in> set (fragment_cells f)" "cell_id c \<in> set (slice_ids sl)"
  shows "in_slice sl (insertion_fragment_new f)"
proof -
  obtain g where g: "g \<in> set (items s)" "fragment_key g = slice_key sl" using slice_start [OF ok sl] by (elim bexE)
  have len: "0 < fr_len g" using ok g(1) by (simp add: snapshot_ok_def fragment_ok_def)
  have c: "c_timestamp c = fr_timestamp f" "insertion_offset f \<le> c_offset c" "c_offset c < insertion_offset f + fr_len f"
    using f(2) by (auto simp: fragment_cells_def)
  have ids: "is_insertion_id sl = fr_timestamp f" "is_start sl \<le> c_offset c" "c_offset c < is_end sl"
    using f(3) c(1) by (auto simp: slice_ids_def cell_id_def)
  have "is_start sl \<le> insertion_offset f"
  proof (rule ccontr)
    assume "\<not> is_start sl \<le> insertion_offset f"
    then have "slice_key sl \<in> cell_id ` set (fragment_cells f)"
      using ids c by (auto simp: slice_key_def fragment_cells_def cell_id_def image_iff)
    moreover have "slice_key sl \<in> cell_id ` set (fragment_cells g)"
      using len unfolding g(2) [symmetric] by (auto simp: fragment_key_def fragment_cells_def cell_id_def image_iff)
    moreover have "distinct (map cell_id (cells_of (items s)))" using ok by (simp add: snapshot_ok_def)
    ultimately have "f = g" using same_fragment f(1) g(1) by metis
    then show False using \<open>\<not> is_start sl \<le> insertion_offset f\<close> g(2) by (simp add: fragment_key_def slice_key_def)
  qed
  then show ?thesis using ids c(2) by (simp add: in_slice_def insertion_fragment_new_def)
qed

theorem fragment_ids_ok:
  assumes ok: "snapshot_ok U ins s" "snapshot_fits s"
  shows "\<exists>ids. fragment_ids_for_edits s es = Some ids \<and> sorted_wrt (<) ids \<and> set ids \<subseteq> fr_id ` set (items s) \<and>
    (\<forall>f \<in> set (items s). \<forall>c \<in> set (fragment_cells f). \<forall>e \<in> set es. e \<notin> U \<longrightarrow> touched e c \<longrightarrow> fr_id f \<in> set ids)"
proof -
  have index: "index_ok s" "node_height (insertions s) < STACK_CAP" and sl: "slices_ok U s" "node_height (insertion_slices s) < STACK_CAP"
    using ok by (simp_all add: snapshot_ok_def snapshot_fits_def)
  obtain xs where xs: "collect_options (map (slices_for_edit s) es) = Some xs"
    "set (concat xs) = {sl \<in> dom (map_abs (insertion_slices s)). is_edit_id sl \<in> set es}"
    using all_slices_ok [of s es] sl by (auto simp: slices_ok_def)
  let ?sls = "sort_key slice_sort_key (concat xs)"
  have no_min: "is_insertion_id x \<noteq> lamport_MIN" if x: "x \<in> set ?sls" for x
  proof -
    obtain f where f: "f \<in> set (items s)" "fragment_key f = slice_key x" using slice_start [OF ok(1), of x] xs(2) x by auto
    then have "fragment_ok ins f" "ins lamport_MIN = []" using ok(1) by (simp_all add: snapshot_ok_def)
    then show ?thesis using f(2) by (auto simp: fragment_ok_def fragment_key_def slice_key_def)
  qed
  obtain c ids where loop: "slices_loop ?sls (cursor_new (key_dim insertion_keyed) (insertions s), []) = Some (c, ids)" "ids_inv s ?sls c ids"
    using slices_loop_ok [OF ids_start [OF index] index(1), of ?sls] slice_sort [of "concat xs"] no_min by auto
  obtain ys zs where at: "index_at s c ys zs" "ids = map if_fragment_id (filter (in_slices ?sls) ys)" "\<forall>x \<in> set zs. \<not> in_slices ?sls x"
    using loop(2) unfolding ids_inv_def by blast
  have L: "set (ys @ zs) = insertion_fragment_new ` set (items s)" using at(1) index(1) by (metis cursor_at_def index_ok_def)
  have "fr_id f \<in> set ids" if a: "f \<in> set (items s)" "x \<in> set (fragment_cells f)" "e \<in> set es" "e \<notin> U" "touched e x" for f x e
  proof -
    have "x \<in> set (cells_of (items s))" using a(1,2) by (auto simp: cells_of_def)
    then obtain sl' where s': "sl' \<in> dom (map_abs (insertion_slices s))" "is_edit_id sl' = e" "cell_id x \<in> set (slice_ids sl')"
      using sl(1) a(4,5) unfolding slices_ok_def by blast
    then have "in_slices ?sls (insertion_fragment_new f)" using slice_fragment [OF ok(1) s'(1) a(1,2) s'(3)] xs(2) a(3) by auto
    moreover have "insertion_fragment_new f \<in> set (ys @ zs)" unfolding L using a(1) by (rule imageI)
    ultimately have "insertion_fragment_new f \<in> set (filter (in_slices ?sls) ys)" using at(3) by auto
    then have "if_fragment_id (insertion_fragment_new f) \<in> set ids" unfolding at(2) set_map by (rule imageI)
    then show ?thesis by (simp add: insertion_fragment_new_def)
  qed
  moreover have "set ids \<subseteq> fr_id ` set (items s)"
  proof -
    have "set ids \<subseteq> if_fragment_id ` set (ys @ zs)" unfolding at(2) by auto
    also have "\<dots> = fr_id ` set (items s)" unfolding L image_image by (simp add: insertion_fragment_new_def)
    finally show ?thesis .
  qed
  moreover have "distinct ids"
  proof -
    have "sorted_wrt (<) (map fr_id (items s))" using ok(1) by (simp add: snapshot_ok_def order_ok_def)
    then have ids: "inj_on fr_id (set (items s))" by (simp add: strict_sorted_iff distinct_map)
    have "inj_on if_fragment_id (insertion_fragment_new ` set (items s))"
    proof (rule inj_onI)
      fix x y assume xy: "x \<in> insertion_fragment_new ` set (items s)" "y \<in> insertion_fragment_new ` set (items s)" "if_fragment_id x = if_fragment_id y"
      then obtain f g where "f \<in> set (items s)" "g \<in> set (items s)" "x = insertion_fragment_new f" "y = insertion_fragment_new g" by (elim imageE)
      moreover from this xy(3) have "fr_id f = fr_id g" by (simp add: insertion_fragment_new_def)
      ultimately show "x = y" using inj_onD [OF ids] by blast
    qed
    then have inj: "inj_on if_fragment_id (set (filter (in_slices ?sls) ys))" by (rule inj_on_subset) (use L in auto)
    have "sorted_wrt (<) (map ikey (ys @ zs))" using index_sorted [OF index(1) at(1)] unfolding sorted_wrt_map .
    then have "distinct (ys @ zs)" using distinct_map strict_sorted_iff by blast
    then show ?thesis unfolding at(2) distinct_map using inj by simp
  qed
  then have "sorted_wrt (<) (sort ids)" by (simp add: strict_sorted_iff)
  ultimately show ?thesis using xs(1) loop(1) by (intro exI [of _ "sort ids"]) (simp add: fragment_ids_for_edits_def)
qed

end
