(* ===== verification/Buffer_Undo_Correct.thy ===== *)
theory Buffer_Undo_Correct
  imports Buffer_Ids
begin

text \<open>
  Applying an undo operation: the fragments of the undone edits are written again with the visibility that the new undo map gives
  them; every byte of the buffer then has the visibility of the undo map, and the texts follow.
\<close>

section \<open>Undo counts\<close>

lemma foldl_max: "foldl max a xs = Max (insert a (set xs))" for a :: "'a::linorder"
proof (induction xs arbitrary: a)
  case (Cons x xs)
  then show ?case by (cases "xs = []") (auto simp: ac_simps)
qed simp

lemma counts_of:
  "{n. \<exists>u. seen u \<and> \<lparr>ume_key = (e, u), ume_count = n\<rparr> \<in> set xs} = ume_count ` {x \<in> set xs. fst (ume_key x) = e \<and> seen (snd (ume_key x))}"
proof (intro set_eqI iffI)
  fix n assume "n \<in> {n. \<exists>u. seen u \<and> \<lparr>ume_key = (e, u), ume_count = n\<rparr> \<in> set xs}"
  then obtain u where "seen u" "\<lparr>ume_key = (e, u), ume_count = n\<rparr> \<in> set xs" by blast
  then show "n \<in> ume_count ` {x \<in> set xs. fst (ume_key x) = e \<and> seen (snd (ume_key x))}"
    by (intro image_eqI [of _ _ "\<lparr>ume_key = (e, u), ume_count = n\<rparr>"]) simp_all
next
  fix n assume "n \<in> ume_count ` {x \<in> set xs. fst (ume_key x) = e \<and> seen (snd (ume_key x))}"
  then obtain x where x: "x \<in> set xs" "fst (ume_key x) = e" "seen (snd (ume_key x))" "n = ume_count x" by blast
  have "x = \<lparr>ume_key = (e, snd (ume_key x)), ume_count = n\<rparr>" using x(2,4) by (intro undo_map_entry.equality) (auto simp: prod_eq_iff)
  then show "n \<in> {n. \<exists>u. seen u \<and> \<lparr>ume_key = (e, u), ume_count = n\<rparr> \<in> set xs}" using x(1,3) by (metis (mono_tags, lifting) mem_Collect_eq)
qed

lemma max_count_abs:
  assumes "undo_map_ok m"
  shows "max_count (tree_items m) e seen = Max (insert 0 {n. \<exists>u. seen u \<and> undo_map_abs m e u = Some n})"
  unfolding undo_map_abs_Some [OF assms] counts_of by (simp add: max_count_def foldl_max)

lemma finite_counts: "undo_map_ok m \<Longrightarrow> finite {n. \<exists>u. seen u \<and> undo_map_abs m e u = Some n}"
  by (simp add: undo_map_abs_Some counts_of)

lemma is_undone_ok: "undo_map_ok m \<Longrightarrow> node_height m < STACK_CAP \<Longrightarrow> is_undone m e = Some (undone m e)"
  by (simp add: is_undone_def undo_count_def undo_scan_correct word_odd_mod undone_def)

lemma fragment_is_visible_ok:
  assumes "undo_map_ok m" "node_height m < STACK_CAP"
  shows "fragment_is_visible f m = Some (\<not> undone m (fr_timestamp f) \<and> (\<forall>d \<in> set (fr_deletions f). undone m d))"
proof -
  have "all_option (is_undone m) ds = Some (\<forall>d \<in> set ds. undone m d)" for ds
    by (induction ds) (simp_all add: is_undone_ok [OF assms])
  then show ?thesis by (simp add: fragment_is_visible_def is_undone_ok [OF assms])
qed

text \<open>Undone again with the next count, an edit changes from undone to not undone and back.\<close>

lemma undo_count_next:
  assumes ok: "undo_map_ok m" "undo_map_ok m'" and "undo_map_abs m' e = (undo_map_abs m e)(u \<mapsto> n)" "undo_map_abs m e u = None"
    and n: "n = max_count (tree_items m) e (\<lambda>_. True) + 1" "max_count (tree_items m) e (\<lambda>_. True) \<noteq> - 1"
  shows "max_count (tree_items m') e (\<lambda>_. True) = max_count (tree_items m) e (\<lambda>_. True) + 1"
proof -
  let ?S = "{n. \<exists>u. undo_map_abs m e u = Some n}" and ?k = "max_count (tree_items m) e (\<lambda>_. True)"
  have k: "?k = Max (insert 0 ?S)" using max_count_abs [OF ok(1), of e "\<lambda>_. True"] by simp
  have fin: "finite ?S" using finite_counts [OF ok(1), of "\<lambda>_. True" e] by simp
  have lt: "?k < n" unfolding n(1) by (rule word_less_Suc [OF n(2)])
  have "{n. \<exists>u. undo_map_abs m' e u = Some n} = insert n ?S" using assms(3,4) by (auto split: if_splits) (metis option.distinct(1))
  then have "max_count (tree_items m') e (\<lambda>_. True) = Max (insert n (insert 0 ?S))"
    using max_count_abs [OF ok(2), of e "\<lambda>_. True"] by (simp add: insert_commute)
  also have "\<dots> = max n ?k" using fin k by simp
  also have "\<dots> = n" using lt by simp
  finally show ?thesis using n(1) by simp
qed

lemma undo_toggle:
  assumes "max_count (tree_items m') e (\<lambda>_. True) = max_count (tree_items m) e (\<lambda>_. True) + 1" "max_count (tree_items m) e (\<lambda>_. True) \<noteq> - 1"
  shows "undone m' e \<longleftrightarrow> \<not> undone m e"
proof -
  let ?k = "max_count (tree_items m) e (\<lambda>_. True)"
  have "?k + 1 \<noteq> 0" using assms(2) by (metis add.commute add_minus_cancel minus_add_cancel add.right_neutral)
  then have "unat (?k + 1) = Suc (unat ?k)" using unatSuc [of ?k] by (simp add: add.commute)
  then show ?thesis using assms(1) by (simp add: undone_def)
qed

section \<open>Fragments in the order of their identifiers\<close>

interpretation undo_seek: measured fragment_item undo_fragment_dim
  by unfold_locales (simp_all add: undo_fragment_dim_def fragment_locator_dim_def visible_dim_def dimensions2_def split: prod.splits)

lemma undo_dim_add [simp]: "dim_add undo_fragment_dim d (fragment_summarize f) = (Some (fr_id f), snd d + (if fr_visible f then fr_len f else 0))"
  by (cases d) (simp add: undo_fragment_dim_def fragment_locator_dim_def visible_dim_def dimensions2_def)

abbreviation id_past :: "locator \<Rightarrow> locator option \<times> nat \<Rightarrow> bool" where
  "id_past l \<equiv> (\<lambda>p. target_past (ord_target (Some l)) Left (fst p))"

lemma id_past [simp]: "target_past (ord_target (Some l)) Left (Some k) \<longleftrightarrow> k < l" for k l :: locator
  using less_linear [of k l] by (auto simp: target_past_def ord_target_def cmp_def)

lemma undo_pos:
  "pos_after fragment_item undo_fragment_dim d fs = (if fs = [] then d else (Some (fr_id (last fs)), snd d + vlen fs))"
  by (induction fs arbitrary: d) auto

lemma undo_split:
  "seek_split fragment_item undo_fragment_dim (id_past l) d fs = (takeWhile (\<lambda>f. fr_id f < l) fs, dropWhile (\<lambda>f. fr_id f < l) fs)"
  by (induction fs arbitrary: d) (simp_all add: Let_def)

lemma undo_mono:
  assumes "sorted_wrt (<) (map fr_id fs)"
  shows "seek_mono fragment_item undo_fragment_dim (id_past l) d fs"
  unfolding seek_mono_def
proof (intro allI impI)
  fix ys zs us vs
  assume *: "fs = ys @ zs" "ys \<noteq> []" "zs = us @ vs" "id_past l (pos_after fragment_item undo_fragment_dim d (ys @ us))"
  have "fr_id (last ys) \<le> fr_id (last (ys @ us))"
  proof (cases "us = []")
    case False
    then have "fr_id (last ys) < fr_id (last us)" using assms *(1-3) by (auto simp: sorted_wrt_append)
    then show ?thesis using False by simp
  qed simp
  moreover have "fr_id (last (ys @ us)) < l" using *(2,4) unfolding undo_pos by simp
  ultimately show "id_past l (pos_after fragment_item undo_fragment_dim d ys)" using *(2) by (simp add: undo_pos)
qed

section \<open>The loop over the fragments\<close>

text \<open>\<open>gs\<close> are the fragments written for the consumed fragments \<open>ys\<close>.\<close>

definition undo_at :: "insertion_texts \<Rightarrow> buffer_snapshot \<Rightarrow> undo_state \<Rightarrow> fragment list \<Rightarrow> fragment list \<Rightarrow> fragment list \<Rightarrow> bool" where
  "undo_at ins s st gs ys zs \<longleftrightarrow>
     cursor_at fragment_item undo_fragment_dim (es_cursor st) ys zs \<and> cursor_tree (es_cursor st) = fragments s \<and>
     emitted ins (visible_text s) (deleted_text s) st (map (Pair False) gs) (cells_of zs) \<and>
     patched_upto (rev (es_patch st)) (vlen ys) (vlen gs) (rope_text (visible_text s)) (cells_text ins (vis (cells_of gs)))"

definition revise :: "undo_map \<Rightarrow> lamport \<Rightarrow> locator set \<Rightarrow> fragment \<Rightarrow> fragment" where
  "revise m ts L f =
     (if fr_id f \<in> L
      then f\<lparr>fr_visible := \<not> undone m (fr_timestamp f) \<and> (\<forall>d \<in> set (fr_deletions f). undone m d), max_undos := global_observe (max_undos f) ts\<rparr>
      else f)"

lemma revise_sel [simp]:
  "fr_id (revise m ts L f) = fr_id f" "fr_timestamp (revise m ts L f) = fr_timestamp f" "insertion_offset (revise m ts L f) = insertion_offset f"
  "fr_len (revise m ts L f) = fr_len f" "fr_deletions (revise m ts L f) = fr_deletions f"
  by (simp_all add: revise_def)

lemma revise_text: "cells_text ins (fragment_cells (revise m ts L f)) = cells_text ins (fragment_cells f)"
  by (simp add: cells_text_def fragment_cells_def)

lemma emitted_keep:
  assumes em: "emitted ins V D st (map (Pair False) gs) (cells_of as @ R)" and sl: "sliceable V" "sliceable D" and as: "\<forall>f \<in> set as. fragment_ok ins f"
    and R: "utf8 (cells_text ins (vis R))" "utf8 (cells_text ins (dead R))" and u: "wf_tree fragment_item u" "tree_items u = as"
  shows "\<exists>b fs. builder_append (es_ropes st) (fs_text (node_summary u)) = Some b \<and> tree_append fragment_item (es_fragments st) u = Some fs \<and>
    emitted ins V D (st\<lparr>es_fragments := fs, es_ropes := b\<rparr>) (map (Pair False) (gs @ as)) R"
  using append_slice_ok [OF em sl as R u] by (auto simp: emitted_def)

lemma emitted_push:
  assumes em: "emitted ins V D st (map (Pair False) gs) (fragment_cells f @ R)" and sl: "sliceable V" "sliceable D" and f: "fragment_ok ins f"
    and g: "cells_text ins (fragment_cells g) = cells_text ins (fragment_cells f)" and R: "utf8 (cells_text ins (vis R))" "utf8 (cells_text ins (dead R))"
  shows "\<exists>b fs. builder_push_fragment (es_ropes st) g (fr_visible f) = Some b \<and> tree_push fragment_item (es_fragments st) g = Some fs \<and>
    emitted ins V D (st\<lparr>es_fragments := fs, es_ropes := b\<rparr>) (map (Pair False) (gs @ [g])) R"
proof -
  have homog: "\<forall>c \<in> set (fragment_cells f). c_visible c = fr_visible f" by (simp add: fragment_cells_vis)
  have "utf8 (cells_text ins (fragment_cells f))" using f by (simp add: fragment_ok_def)
  then obtain st' where st': "push_part g (fr_visible f) st = Some st'" "emitted ins V D st' (map (Pair False) gs @ [(True, g)]) R"
    using push_part_ok [OF em sl homog g _ R] by blast
  then obtain b fs where b: "builder_push_fragment (es_ropes st) g (fr_visible f) = Some b" "tree_push fragment_item (es_fragments st) g = Some fs"
    "st' = st\<lparr>es_insertions := es_insertions st @ [insert_new g], es_ropes := b, es_fragments := fs\<rparr>"
    by (auto simp: push_part_def split: bind_splits)
  then show ?thesis using st'(2) em by (auto simp: emitted_def)
qed

lemma patch_copy:
  assumes "patched_upto P i (length v) xs v" "drop i xs = a @ r"
  shows "patched_upto P (i + length a) (length v + length a) xs (v @ a)"
proof -
  have "seg xs i (i + length a) = seg (v @ a) (length v) (length v + length a)" using assms(2) by (simp add: seg_def)
  then show ?thesis using upto_step [of P i "length v" xs "v @ a" "length a"] upto_extend [OF assms(1)] by simp
qed

lemma undo_rest:
  assumes "undo_at ins s st gs ys zs" "text_of ins s"
  shows "items s = ys @ zs" "drop (vlen ys) (rope_text (visible_text s)) = cells_text ins (vis (cells_of zs))"
    "cursor_position (es_cursor st) = (if ys = [] then (None, 0) else (Some (fr_id (last ys)), vlen ys))" "new_visible_len st = vlen gs"
proof -
  have "cursor_at fragment_item undo_fragment_dim (es_cursor st) ys zs" "cursor_tree (es_cursor st) = fragments s"
    using assms(1) by (simp_all add: undo_at_def)
  then show items: "items s = ys @ zs" by (simp add: cursor_at_def)
  then show "drop (vlen ys) (rope_text (visible_text s)) = cells_text ins (vis (cells_of zs))" using assms(2) by (simp add: text_of_def)
  have "cursor_position (es_cursor st) = pos_after fragment_item undo_fragment_dim (dim_zero undo_fragment_dim) ys"
    using assms(1) by (simp add: undo_at_def cursor_at_def)
  then show "cursor_position (es_cursor st) = (if ys = [] then (None, 0) else (Some (fr_id (last ys)), vlen ys))"
    unfolding undo_pos by (simp add: undo_fragment_dim_def dimensions2_def fragment_locator_dim_def visible_dim_def)
  show "new_visible_len st = vlen gs"
    using assms(1) fragment_tree_text by (auto simp: undo_at_def emitted_def new_visible_len_def comp_def)
qed

lemma undo_keep_ok:
  assumes at: "undo_at ins s st gs ys zs" and tx: "text_of ins s" and sorted: "sorted_wrt (<) (map fr_id (items s))"
    and l: "l \<in> fr_id ` set zs"
  shows "\<exists>c u b fs as f bs. slice fragment_item undo_fragment_dim (fst_target (ord_target (Some l))) Left (es_cursor st) = Some (c, u) \<and>
    builder_append (es_ropes st) (fs_text (node_summary u)) = Some b \<and> tree_append fragment_item (es_fragments st) u = Some fs \<and>
    undo_at ins s (st\<lparr>es_cursor := c, es_fragments := fs, es_ropes := b\<rparr>) (gs @ as) (ys @ as) (f # bs) \<and> zs = as @ f # bs \<and> fr_id f = l \<and>
    (\<forall>a \<in> set as. fr_id a < l) \<and> did_seek c"
proof -
  note rest = undo_rest [OF at tx]
  let ?t = "fst_target (ord_target (Some l)) :: locator option \<times> nat \<Rightarrow> ordering"
  let ?as = "takeWhile (\<lambda>f. fr_id f < l) zs" and ?bs = "dropWhile (\<lambda>f. fr_id f < l) zs"
  have zs: "sorted_wrt (<) (map fr_id zs)" using sorted rest(1) by (simp add: sorted_wrt_append)
  obtain g where g: "g \<in> set zs" "fr_id g = l" using l by blast
  have not_less: "?t (cursor_position (es_cursor st)) \<noteq> Less"
  proof (cases "ys = []")
    case False
    then have "fr_id (last ys) < l" using sorted g unfolding rest(1) by (auto simp: sorted_wrt_append)
    then show ?thesis using False rest(3) less_asym by (auto simp: fst_target_def ord_target_def cmp_def)
  qed (simp add: rest(3) fst_target_def ord_target_def cmp_def)
  obtain c u where u: "slice fragment_item undo_fragment_dim ?t Left (es_cursor st) = Some (c, u)" "wf_tree fragment_item u" "tree_items u = ?as"
    "cursor_at fragment_item undo_fragment_dim c (ys @ ?as) ?bs" "did_seek c" "cursor_tree c = fragments s"
    using undo_seek.slice_ok [of "es_cursor st" ys zs ?t Left ?as ?bs] at not_less undo_mono [OF zs] undo_split by (auto simp: undo_at_def)
  obtain f bs where fb: "?bs = f # bs" using g by (cases ?bs) (auto simp: dropWhile_eq_Nil_conv)
  have f: "fr_id f = l"
  proof -
    have "\<not> fr_id f < l" using fb by (metis hd_dropWhile list.discI list.sel(1))
    moreover have "g \<in> set (f # bs)" using g fb by (metis Un_iff set_append set_takeWhileD takeWhile_dropWhile_id less_irrefl)
    moreover have "sorted_wrt (<) (map fr_id (f # bs))" using zs fb by (metis map_append sorted_wrt_append takeWhile_dropWhile_id)
    ultimately show ?thesis using g(2) by auto
  qed
  have oks: "\<forall>f \<in> set ?as. fragment_ok ins f" "\<forall>f \<in> set (f # bs). fragment_ok ins f"
    using tx unfolding text_of_def rest(1) fb [symmetric] by (auto dest: set_takeWhileD set_dropWhileD)
  have sl: "sliceable (visible_text s)" "sliceable (deleted_text s)" using tx by (simp_all add: text_of_def)
  have cells: "cells_of zs = cells_of ?as @ cells_of (f # bs)" unfolding fb [symmetric] by (metis cells_simps(3) takeWhile_dropWhile_id)
  obtain b fs where b: "builder_append (es_ropes st) (fs_text (node_summary u)) = Some b" "tree_append fragment_item (es_fragments st) u = Some fs"
    "emitted ins (visible_text s) (deleted_text s) (st\<lparr>es_fragments := fs, es_ropes := b\<rparr>) (map (Pair False) (gs @ ?as)) (cells_of (f # bs))"
    using emitted_keep [OF _ sl oks(1) utf8_cells [OF oks(2)] u(2,3), of st gs] at cells by (auto simp: undo_at_def)
  let ?st = "st\<lparr>es_cursor := c, es_fragments := fs, es_ropes := b\<rparr>"
  have "patched_upto (rev (es_patch st)) (vlen ys + vlen ?as) (vlen gs + vlen ?as) (rope_text (visible_text s))
    (cells_text ins (vis (cells_of gs)) @ cells_text ins (vis (cells_of ?as)))"
    using patch_copy [of _ _ "cells_text ins (vis (cells_of gs))" _ "cells_text ins (vis (cells_of ?as))"] at rest(2) cells by (simp add: undo_at_def)
  then have "undo_at ins s ?st (gs @ ?as) (ys @ ?as) (f # bs)" using u(4,6) b(3) fb by (simp add: undo_at_def emitted_def)
  moreover have "zs = ?as @ f # bs" unfolding fb [symmetric] by simp
  ultimately show ?thesis using u(1,5) b(1,2) f by (metis (no_types, lifting) set_takeWhileD)
qed

lemma undo_patch_fragment:
  assumes p: "patched_upto (rev p) i (length v) xs v" and f: "drop i xs = (if w then a else []) @ r"
  defines "n \<equiv> length a"
  shows "patched_upto (rev (if w \<and> \<not> w' then patch_push p (mk_edit i (i + n) (length v) (length v))
      else if \<not> w \<and> w' then patch_push p (mk_edit i i (length v) (length v + n)) else p))
    (i + (if w then n else 0)) (length v + (if w' then n else 0)) xs (v @ (if w' then a else []))"
proof (cases "w = w'")
  case True
  then show ?thesis using patch_copy [OF p, of a r] p f by (cases w) (simp_all add: n_def)
next
  case False
  have "patched_upto (rev p) i (length v) xs (v @ a)" using upto_extend [OF p] by simp
  then show ?thesis using False p upto_push [of p i "length v" xs v "i + n" "length v"] upto_push [of p i "length v" xs "v @ a" i "length v + n"]
    by (cases w) simp_all
qed

lemma undo_fragment_ok:
  assumes at: "undo_at ins s st gs ys (f # bs)" "did_seek (es_cursor st)" and tx: "text_of ins s" and m: "undo_map_ok m" "node_height m < STACK_CAP"
    and L: "fr_id f \<in> L"
  shows "\<exists>st'. undo_fragment m ts f st = Some st' \<and> undo_at ins s st' (gs @ [revise m ts L f]) (ys @ [f]) bs"
proof -
  note rest = undo_rest [OF at(1) tx]
  define w where "w \<longleftrightarrow> \<not> undone m (fr_timestamp f) \<and> (\<forall>d \<in> set (fr_deletions f). undone m d)"
  have w: "fragment_is_visible f m = Some w" using fragment_is_visible_ok [OF m] by (simp add: w_def)
  let ?g = "revise m ts L f" and ?a = "cells_text ins (fragment_cells f)" and ?v = "cells_text ins (vis (cells_of gs))"
  have g: "f\<lparr>fr_visible := w, max_undos := global_observe (max_undos f) ts\<rparr> = ?g" "fr_visible ?g = w" using L by (simp_all add: revise_def w_def)
  have oks: "fragment_ok ins f" "\<forall>h \<in> set bs. fragment_ok ins h" and sl: "sliceable (visible_text s)" "sliceable (deleted_text s)"
    using tx unfolding text_of_def rest(1) by auto
  obtain b fs where b: "builder_push_fragment (es_ropes st) ?g (fr_visible f) = Some b" "tree_push fragment_item (es_fragments st) ?g = Some fs"
    "emitted ins (visible_text s) (deleted_text s) (st\<lparr>es_fragments := fs, es_ropes := b\<rparr>) (map (Pair False) (gs @ [?g])) (cells_of bs)"
    using emitted_push [OF _ sl oks(1) revise_text utf8_cells [OF oks(2)], of st gs m ts L] at(1) by (auto simp: undo_at_def)
  have cur: "cursor_at fragment_item undo_fragment_dim (es_cursor st) ys (f # bs)" using at(1) by (simp add: undo_at_def)
  obtain c where c: "cursor_next undo_fragment_dim (es_cursor st) = Some c" "cursor_tree c = cursor_tree (es_cursor st)"
    "cursor_at fragment_item undo_fragment_dim c (ys @ [f]) bs"
    using undo_seek.cursor_next_ok [OF cur at(2)] by auto
  have start: "snd (cursor_start (es_cursor st)) = vlen ys" using rest(3) by (simp add: cursor_start_def)
  define p where "p = (if fr_visible f \<and> \<not> w then patch_push (es_patch st) (mk_edit (vlen ys) (vlen ys + fr_len f) (vlen gs) (vlen gs))
    else if \<not> fr_visible f \<and> w then patch_push (es_patch st) (mk_edit (vlen ys) (vlen ys) (vlen gs) (vlen gs + fr_len f)) else es_patch st)"
  let ?st = "st\<lparr>es_cursor := c, es_fragments := fs, es_ropes := b, es_patch := p\<rparr>"
  have "patched_upto (rev p) (vlen (ys @ [f])) (vlen (gs @ [?g])) (rope_text (visible_text s)) (cells_text ins (vis (cells_of (gs @ [?g]))))"
  proof -
    have p0: "patched_upto (rev (es_patch st)) (vlen ys) (length ?v) (rope_text (visible_text s)) ?v" using at(1) by (simp add: undo_at_def)
    have r0: "drop (vlen ys) (rope_text (visible_text s)) = (if fr_visible f then ?a else []) @ cells_text ins (vis (cells_of bs))"
      using rest(2) by simp
    have "cells_text ins (vis (cells_of (gs @ [?g]))) = ?v @ (if w then ?a else [])" using g(2) revise_text [of ins m ts L f] by simp
    moreover have "vlen (gs @ [?g]) = vlen gs + (if w then fr_len f else 0)" "vlen (ys @ [f]) = vlen ys + (if fr_visible f then fr_len f else 0)"
      using g(2) by simp_all
    ultimately show ?thesis using undo_patch_fragment [OF p0 r0, of w] unfolding p_def by (simp only: cells_text_simps(3) length_fragment_cells)
  qed
  moreover have "undo_fragment m ts f st = Some ?st"
    using w b(1,2) c(1) start rest(4) by (simp add: undo_fragment_def g(1) [unfolded revise_sel] Let_def p_def)
  ultimately show ?thesis using at(1) b(3) c(2,3) by (auto simp: undo_at_def emitted_def)
qed

lemma undo_fragments_ok:
  assumes "undo_at ins s st gs ys zs" "text_of ins s" "sorted_wrt (<) (map fr_id (items s))" "undo_map_ok m" "node_height m < STACK_CAP"
    "sorted_wrt (<) ls" "set ls \<subseteq> fr_id ` set zs"
  shows "\<exists>st' as bs. undo_loop_fragments m ts ls st = Some st' \<and> zs = as @ bs \<and> undo_at ins s st' (gs @ map (revise m ts (set ls)) as) (ys @ as) bs \<and>
    (\<forall>b \<in> set bs. fr_id b \<notin> set ls)"
  using assms
proof (induction ls arbitrary: st gs ys zs)
  case Nil
  have "undo_loop_fragments m ts [] st = Some st" by simp
  then show ?case using Nil(1) by (intro exI [of _ st] exI [of _ "[]"] exI [of _ zs]) simp
next
  case (Cons l ls)
  have l: "l \<in> fr_id ` set zs" using Cons.prems(7) by simp
  obtain c u b fs as f bs where keep: "slice fragment_item undo_fragment_dim (fst_target (ord_target (Some l))) Left (es_cursor st) = Some (c, u)"
    "builder_append (es_ropes st) (fs_text (node_summary u)) = Some b" "tree_append fragment_item (es_fragments st) u = Some fs"
    "undo_at ins s (st\<lparr>es_cursor := c, es_fragments := fs, es_ropes := b\<rparr>) (gs @ as) (ys @ as) (f # bs)" "zs = as @ f # bs" "fr_id f = l"
    "\<forall>a \<in> set as. fr_id a < l" "did_seek c"
    using undo_keep_ok [OF Cons.prems(1-3) l] by blast
  let ?st = "st\<lparr>es_cursor := c, es_fragments := fs, es_ropes := b\<rparr>" and ?L = "set (l # ls)"
  obtain st1 where st1: "undo_fragment m ts f ?st = Some st1" "undo_at ins s st1 ((gs @ as) @ [revise m ts ?L f]) ((ys @ as) @ [f]) bs"
    using undo_fragment_ok [OF keep(4) _ Cons.prems(2,4,5), of ?L ts] keep(6,8) by auto
  have item: "cursor_item c = Some (Some f)"
    using cursor_at_item(1) [of fragment_item undo_fragment_dim c "ys @ as" "f # bs"] keep(4,8) by (simp add: undo_at_def)
  have step: "undo_step m ts l st = Some st1" using keep(1-3) item st1(1) by (simp add: undo_step_def Let_def)
  have above: "\<forall>x \<in> set ls. l < x" using Cons.prems(6) by simp
  have sub: "set ls \<subseteq> fr_id ` set bs"
  proof
    fix x assume x: "x \<in> set ls"
    then obtain h where h: "h \<in> set zs" "fr_id h = x" using Cons.prems(7) by auto
    have "l < x" using above x by blast
    then have "h \<noteq> f" "h \<notin> set as" using h(2) keep(6,7) less_asym by blast+
    then show "x \<in> fr_id ` set bs" using h keep(5) by auto
  qed
  have sorted: "sorted_wrt (<) ls" using Cons.prems(6) by simp
  obtain st' as' bs' where IH: "undo_loop_fragments m ts ls st1 = Some st'" "bs = as' @ bs'"
    "undo_at ins s st' (((gs @ as) @ [revise m ts ?L f]) @ map (revise m ts (set ls)) as') (((ys @ as) @ [f]) @ as') bs'" "\<forall>b \<in> set bs'. fr_id b \<notin> set ls"
    using Cons.IH [OF st1(2) Cons.prems(2-5) sorted sub] by blast
  have ids: "sorted_wrt (<) (map fr_id (as @ f # bs))"
    using Cons.prems(3) undo_rest(1) [OF Cons.prems(1,2)] keep(5) by (simp add: sorted_wrt_append)
  have "revise m ts ?L a = a" if "a \<in> set as" for a
  proof -
    have "fr_id a < l" using keep(7) that by blast
    then have "fr_id a \<notin> ?L" using above less_asym less_trans by (metis less_irrefl set_ConsD)
    then show ?thesis by (simp add: revise_def)
  qed
  then have as: "map (revise m ts ?L) as = as" by (simp add: map_idI)
  have after: "fr_id b \<noteq> l" if "b \<in> set bs" for b using ids keep(6) that by (auto simp: sorted_wrt_append)
  have "revise m ts ?L b = revise m ts (set ls) b" if "b \<in> set as'" for b using after [of b] that IH(2) by (simp add: revise_def)
  then have as': "map (revise m ts ?L) as' = map (revise m ts (set ls)) as'" by simp
  have "undo_loop_fragments m ts (l # ls) st = Some st'" using step IH(1) by simp
  moreover have "zs = (as @ f # as') @ bs'" using keep(5) IH(2) by simp
  moreover have "undo_at ins s st' (gs @ map (revise m ts ?L) (as @ f # as')) (ys @ as @ f # as') bs'"
    using IH(3) unfolding as' [symmetric] by (simp only: map_append list.map as append.assoc append.simps)
  moreover have "\<forall>b \<in> set bs'. fr_id b \<notin> ?L" using IH(2,4) after by auto
  ultimately show ?case by blast
qed

section \<open>Start and end\<close>

lemma undo_start_ok:
  assumes "snapshot_ok U ins s" "snapshot_fits s"
  shows "\<exists>st. undo_start (s\<lparr>snap_undo_map := m\<rparr>) = Some st \<and> undo_at ins s st [] [] (items s)"
proof -
  have s: "rope_ok (visible_text s)" "rope_ok (deleted_text s)" "sliceable (visible_text s)" "sliceable (deleted_text s)"
    "wf_tree fragment_item (fragments s)" "node_height (fragments s) < STACK_CAP" using assms by (simp_all add: snapshot_ok_def snapshot_fits_def)
  obtain v d where vd: "rope_cursor_new (visible_text s) 0 = Some v" "rope_cursor_new (deleted_text s) 0 = Some d"
    "builder_at (builder_new v d) (visible_text s) (deleted_text s) (rope_text (visible_text s)) (rope_text (deleted_text s)) [] []"
    using builder_new_ok [OF s(1-4)] by blast
  have "cursor_at fragment_item undo_fragment_dim (cursor_new undo_fragment_dim (fragments s)) [] (items s)" by (rule cursor_at_new [OF s(5,6)])
  moreover have "tree_items (tree_new fragment_item) = []" "wf_tree fragment_item (tree_new fragment_item)"
    by (simp_all add: tree_new_def summary_sum_def)
  ultimately show ?thesis using vd assms(1)
    by (simp add: undo_start_def undo_at_def emitted_def cursor_new_def patch_empty_def snapshot_ok_def)
qed

lemma undo_finish_ok:
  assumes at: "undo_at ins s st gs ys zs" and tx: "text_of ins s"
  shows "\<exists>st' v d. undo_finish st = Some (st', v, d) \<and> wf_tree fragment_item (es_fragments st') \<and> tree_items (es_fragments st') = gs @ zs \<and>
    writes v (cells_text ins (vis (cells_of (gs @ zs)))) \<and> writes d (cells_text ins (dead (cells_of (gs @ zs)))) \<and>
    patched (es_patch st') 0 0 (rope_text (visible_text s)) (rope_text v)"
proof -
  note rest = undo_rest [OF at tx]
  have sl: "sliceable (visible_text s)" "sliceable (deleted_text s)" and oks: "\<forall>f \<in> set zs. fragment_ok ins f"
    using tx unfolding text_of_def rest(1) by auto
  have cur: "cursor_at fragment_item undo_fragment_dim (es_cursor st) ys zs" using at by (simp add: undo_at_def)
  obtain c u where u: "suffix fragment_item undo_fragment_dim (es_cursor st) = Some (c, u)" "wf_tree fragment_item u" "tree_items u = zs"
    using undo_seek.suffix_ok [OF cur] by blast
  obtain b fs where b: "builder_append (es_ropes st) (fs_text (node_summary u)) = Some b" "tree_append fragment_item (es_fragments st) u = Some fs"
    "emitted ins (visible_text s) (deleted_text s) (st\<lparr>es_fragments := fs, es_ropes := b\<rparr>) (map (Pair False) (gs @ zs)) []"
    using emitted_keep [OF _ sl oks _ _ u(2,3), of st gs "[]"] at by (auto simp: undo_at_def)
  let ?N = "cells_of (gs @ zs)"
  have "builder_at b (visible_text s) (deleted_text s) [] [] (cells_text ins (vis ?N)) (cells_text ins (dead ?N))"
    using b(3) by (simp add: emitted_def comp_def)
  from builder_finish_ok [OF this sl] obtain v d where vd: "builder_finish b = Some (v, d)" "writes v (cells_text ins (vis ?N))"
    "writes d (cells_text ins (dead ?N))" by auto
  let ?v = "cells_text ins (vis (cells_of gs))" and ?r = "cells_text ins (vis (cells_of zs))"
  have "patched_upto (rev (es_patch st)) (vlen ys) (length ?v) (rope_text (visible_text s)) (?v @ ?r)"
    using at by (intro upto_extend) (simp_all add: undo_at_def)
  moreover have "patched [] (vlen ys) (length ?v) (rope_text (visible_text s)) (?v @ ?r)"
    using rest(1,2) tx by (simp add: text_of_def)
  ultimately have "patched (es_patch st) 0 0 (rope_text (visible_text s)) (rope_text v)"
    using upto_patched [of "rev (es_patch st)" _ _ "rope_text (visible_text s)" "?v @ ?r" "[]"] vd(2) by (simp add: writes_def)
  moreover have "undo_finish st = Some (st\<lparr>es_cursor := c, es_ropes := b, es_fragments := fs\<rparr>, v, d)"
    using u(1) b(1,2) vd(1) by (simp add: undo_finish_def)
  ultimately show ?thesis using b(3) vd(2,3) by (auto simp: emitted_def comp_def)
qed

section \<open>The invariant\<close>

definition core :: "cell \<Rightarrow> lamport \<times> nat \<times> lamport list" where
  "core c = (c_timestamp c, c_offset c, c_deletions c)"

lemma core_sel: "core c = core d \<Longrightarrow> cell_id c = cell_id d \<and> touched e c = touched e d \<and> cell_visible m c = cell_visible m d"
  by (simp add: core_def cell_id_def touched_def cell_visible_def)

lemma revise_core: "map core (cells_of (map (revise m ts L) fs)) = map core (cells_of fs)"
  by (induction fs) (simp_all add: fragment_cells_def core_def)

lemma core_text:
  "map core xs = map core ys \<Longrightarrow> \<forall>c \<in> set xs. c_visible c = cell_visible m c \<Longrightarrow>
    cells_text ins (vis xs) = cells_text ins (filter (cell_visible m) ys)"
proof (induction xs arbitrary: ys)
  case (Cons x xs)
  then obtain y ys' where ys: "ys = y # ys'" by (cases ys) auto
  then have "cell_visible m x = cell_visible m y" using Cons.prems(1) core_sel [of x y] by simp
  then show ?case using Cons ys by (auto simp: cells_text_def core_def)
qed simp

lemma core_ids: "map core xs = map core ys \<Longrightarrow> map cell_id xs = map cell_id ys"
proof -
  have "cell_id = (\<lambda>(a, b, _). (a, b)) \<circ> core" by (simp add: fun_eq_iff cell_id_def core_def)
  then show "map core xs = map core ys \<Longrightarrow> map cell_id xs = map cell_id ys" by (metis map_map)
qed

lemma core_in: "map core xs = map core ys \<Longrightarrow> c \<in> set xs \<Longrightarrow> \<exists>d \<in> set ys. core d = core c"
proof -
  assume eq: "map core xs = map core ys" and c: "c \<in> set xs"
  have "core ` set xs = core ` set ys" using arg_cong [OF eq, of set] by (simp only: set_map)
  then have "core c \<in> core ` set ys" using c by blast
  then show ?thesis by (metis imageE)
qed

lemma undone_other:
  assumes "undo_map_ok m" "undo_map_ok m'" "undo_map_abs m' e = undo_map_abs m e"
  shows "undone m' e = undone m e"
  by (simp add: undone_def max_count_abs [OF assms(1)] max_count_abs [OF assms(2)] assms(3))

lemma fragment_cell_sel:
  "c \<in> set (fragment_cells g) \<Longrightarrow> c_visible c = fr_visible g \<and> c_timestamp c = fr_timestamp g \<and> c_deletions c = fr_deletions g"
  by (auto simp: fragment_cells_def)

lemma undo_visibility:
  assumes ok: "snapshot_ok U ins s" and m: "undo_map_ok m'" "\<And>e. e \<notin> set es \<Longrightarrow> undo_map_abs m' e = undo_map_abs (snap_undo_map s) e" "set es \<inter> U = {}"
    and L: "\<forall>f \<in> set (items s). \<forall>c \<in> set (fragment_cells f). \<forall>e \<in> set es. e \<notin> U \<longrightarrow> touched e c \<longrightarrow> fr_id f \<in> L"
  shows "\<forall>c \<in> set (cells_of (map (revise m' ts L) (items s))). c_visible c = cell_visible m' c"
proof
  fix c assume "c \<in> set (cells_of (map (revise m' ts L) (items s)))"
  then obtain f where f: "f \<in> set (items s)" "c \<in> set (fragment_cells (revise m' ts L f))" by (auto simp: cells_of_def)
  show "c_visible c = cell_visible m' c"
  proof (cases "fr_id f \<in> L")
    case True
    then show ?thesis using fragment_cell_sel [OF f(2)] by (simp add: cell_visible_def revise_def)
  next
    case False
    then have c: "c \<in> set (fragment_cells f)" using f(2) by (simp add: revise_def)
    have "undone m' e = undone (snap_undo_map s) e" if "touched e c" for e
    proof -
      have "e \<notin> set es" using L f(1) c that False m(3) by blast
      then show ?thesis using undone_other [OF _ m(1) m(2)] ok by (simp add: snapshot_ok_def visibility_ok_def)
    qed
    then have "cell_visible m' c = cell_visible (snap_undo_map s) c" by (auto simp: cell_visible_def touched_def)
    moreover have "c \<in> set (cells_of (items s))" using c f(1) by (auto simp: cells_of_def)
    ultimately show ?thesis using ok by (simp add: snapshot_ok_def visibility_ok_def)
  qed
qed

lemma undo_snapshot_ok:
  assumes ok: "snapshot_ok U ins s" and m: "undo_map_ok m'"
    and vis: "\<forall>c \<in> set (cells_of (map (revise m' ts L) (items s))). c_visible c = cell_visible m' c"
    and fs: "wf_tree fragment_item fs" "tree_items fs = map (revise m' ts L) (items s)"
    and v: "writes v (cells_text ins (vis (cells_of (tree_items fs))))" and d: "writes d (cells_text ins (dead (cells_of (tree_items fs))))"
  shows "snapshot_ok U ins (s\<lparr>snap_undo_map := m', fragments := fs, visible_text := v, deleted_text := d\<rparr>)" (is "snapshot_ok U ins ?s")
proof -
  have eq: "map core (cells_of (tree_items fs)) = map core (cells_of (items s))" unfolding fs(2) by (rule revise_core)
  have slices: "slices_ok U s" and index: "index_ok s" and order: "order_ok [] (items s)" and frag: "\<forall>f \<in> set (items s). fragment_ok ins f"
    using ok by (simp_all add: snapshot_ok_def)
  have "\<exists>sl \<in> dom (map_abs (insertion_slices s)). is_edit_id sl = e \<and> cell_id c \<in> set (slice_ids sl)"
    if c: "c \<in> set (cells_of (tree_items fs))" "touched e c" "e \<notin> U" for c e
  proof -
    obtain a where a: "a \<in> set (cells_of (items s))" "core a = core c" using core_in [OF eq c(1)] by blast
    then show ?thesis using slices c(2,3) core_sel [OF a(2)] unfolding slices_ok_def by metis
  qed
  moreover have "fragment_key ` set (tree_items fs) = fragment_key ` set (items s)" unfolding fs(2) by (simp add: fragment_key_def image_image)
  ultimately have "slices_ok U ?s" using slices unfolding slices_ok_def by simp
  moreover have "index_ok ?s" using index unfolding index_ok_def by (simp add: fs(2) insertion_fragment_new_def image_image)
  moreover have "order_ok [] (tree_items fs)" using order unfolding order_ok_def fs(2) by (simp add: comp_def)
  moreover have "\<forall>f \<in> set (tree_items fs). fragment_ok ins f" using frag unfolding fs(2) by (simp add: fragment_ok_def revise_text)
  moreover have "distinct (map cell_id (cells_of (tree_items fs)))" using ok unfolding core_ids [OF eq] by (simp add: snapshot_ok_def)
  moreover have "visibility_ok ?s" using vis m fs(2) by (simp add: visibility_ok_def)
  ultimately show ?thesis using ok fs(1) v d by (simp add: snapshot_ok_def writes_def)
qed

theorem apply_undo_ok:
  assumes ok: "snapshot_ok U ins (snapshot b)" "snapshot_fits (snapshot b)"
    and topic: "topic_inv (buf_subscriptions b) (rope_text (visible_text (snapshot b))) base"
    and counts: "distinct (map fst (undo_counts undo))" "fst ` set (undo_counts undo) \<inter> U = {}"
    and fits: "\<And>m. undo_map_insert (snap_undo_map (snapshot b)) undo = Some m \<Longrightarrow> node_height m < STACK_CAP"
  shows "\<exists>m s' subs. undo_map_insert (snap_undo_map (snapshot b)) undo = Some m \<and>
    apply_undo b undo = Some (b\<lparr>snapshot := s', buf_subscriptions := subs\<rparr>) \<and> snapshot_ok U ins s' \<and> snap_undo_map s' = m \<and>
    snap_version s' = snap_version (snapshot b) \<and> topic_inv subs (rope_text (visible_text s')) base \<and>
    map core (cells_of (items s')) = map core (cells_of (items (snapshot b))) \<and>
    rope_text (visible_text s') = cells_text ins (filter (cell_visible m) (cells_of (items (snapshot b))))"
proof -
  let ?s = "snapshot b" and ?es = "map fst (undo_counts undo)" and ?ts = "undo_timestamp undo"
  have tx: "text_of ins ?s" by (rule snapshot_text_of [OF ok])
  have old: "undo_map_ok (snap_undo_map ?s)" "node_height (snap_undo_map ?s) < STACK_CAP" "sorted_wrt (<) (map fr_id (items ?s))"
    using ok by (simp_all add: snapshot_ok_def snapshot_fits_def visibility_ok_def order_ok_def)
  obtain m where m: "undo_map_insert (snap_undo_map ?s) undo = Some m" "undo_map_ok m"
    "\<forall>e u. undo_map_abs m e u = (if u = ?ts then (case map_of (undo_counts undo) e of Some n \<Rightarrow> Some n | None \<Rightarrow> undo_map_abs (snap_undo_map ?s) e u)
      else undo_map_abs (snap_undo_map ?s) e u)"
    using undo_map_insert_correct [OF old(1,2) counts(1)] by blast
  have other: "undo_map_abs m e = undo_map_abs (snap_undo_map ?s) e" if "e \<notin> set ?es" for e
    using m(3) that by (auto simp: fun_eq_iff map_of_eq_None_iff [THEN iffD2])
  obtain st where st: "undo_start (?s\<lparr>snap_undo_map := m\<rparr>) = Some st" "undo_at ins ?s st [] [] (items ?s)" using undo_start_ok [OF ok] by blast
  obtain ids where ids: "fragment_ids_for_edits ?s ?es = Some ids" "sorted_wrt (<) ids" "set ids \<subseteq> fr_id ` set (items ?s)"
    "\<forall>f \<in> set (items ?s). \<forall>c \<in> set (fragment_cells f). \<forall>e \<in> set ?es. e \<notin> U \<longrightarrow> touched e c \<longrightarrow> fr_id f \<in> set ids"
    using fragment_ids_ok [OF ok, of ?es] by blast
  have "slices_for_edit (?s\<lparr>snap_undo_map := m\<rparr>) = slices_for_edit ?s" by (simp add: fun_eq_iff slices_for_edit_def)
  then have same: "fragment_ids_for_edits (?s\<lparr>snap_undo_map := m\<rparr>) ?es = Some ids"
    using ids(1) by (simp add: fragment_ids_for_edits_def)
  obtain st1 as bs where st1: "undo_loop_fragments m ?ts ids st = Some st1" "items ?s = as @ bs"
    "undo_at ins ?s st1 (map (revise m ?ts (set ids)) as) as bs" "\<forall>x \<in> set bs. fr_id x \<notin> set ids"
    using undo_fragments_ok [OF st(2) tx old(3) m(2) fits [OF m(1)] ids(2,3), of ?ts] by auto
  have N: "map (revise m ?ts (set ids)) (items ?s) = map (revise m ?ts (set ids)) as @ bs"
    using st1(2,4) by (simp add: revise_def map_idI)
  obtain st2 v d where st2: "undo_finish st1 = Some (st2, v, d)" "wf_tree fragment_item (es_fragments st2)"
    "tree_items (es_fragments st2) = map (revise m ?ts (set ids)) (items ?s)" "writes v (cells_text ins (vis (cells_of (tree_items (es_fragments st2)))))"
    "writes d (cells_text ins (dead (cells_of (tree_items (es_fragments st2)))))" "patched (es_patch st2) 0 0 (rope_text (visible_text ?s)) (rope_text v)"
    using undo_finish_ok [OF st1(3) tx] unfolding N by metis
  obtain subs where subs: "publish (buf_subscriptions b) (es_patch st2) = Some subs" "topic_inv subs (rope_text v) base"
    using publish_ok [OF topic st2(6)] by blast
  let ?s' = "?s\<lparr>snap_undo_map := m, fragments := es_fragments st2, visible_text := v, deleted_text := d\<rparr>"
  have vis: "\<forall>c \<in> set (cells_of (map (revise m ?ts (set ids)) (items ?s))). c_visible c = cell_visible m c"
    by (rule undo_visibility [OF ok(1) m(2) other _ ids(4)]) (use counts(2) in simp_all)
  have "snapshot_ok U ins ?s'" by (rule undo_snapshot_ok [OF ok(1) m(2) vis st2(2-5)])
  moreover have "apply_undo b undo = Some (b\<lparr>snapshot := ?s', buf_subscriptions := subs\<rparr>)"
    using m(1) st(1) same st1(1) st2(1) subs(1) by (simp add: apply_undo_def Let_def)
  moreover have "rope_text v = cells_text ins (filter (cell_visible m) (cells_of (items ?s)))"
    using st2(4) core_text [OF revise_core vis] unfolding st2(3) by (simp add: writes_def)
  ultimately show ?thesis using m(1) subs(2) st2(3) revise_core by (intro exI [of _ m] exI [of _ ?s'] exI [of _ subs]) simp
qed

end
