(* ===== verification/Buffer_Start.thy ===== *)
theory Buffer_Start
  imports Buffer_Ops Buffer_Undo_Correct
begin

text \<open>
  A new buffer satisfies the invariant: the loop of \<open>new_normalized\<close> returns and cuts the base text into fragments with
  increasing identifiers that together spell the text.
\<close>

section \<open>The loop over the base text\<close>

definition base_at :: "insertion_texts \<Rightarrow> lamport \<Rightarrow> str \<Rightarrow> nat \<Rightarrow> new_state \<Rightarrow> bool" where
  "base_at ins ts t off st \<longleftrightarrow>
     wf_tree fragment_item (ns_fragments st) \<and> wf_tree insertion_item (ns_insertions st) \<and>
     tree_items (ns_insertions st) = map insertion_fragment_new (tree_items (ns_fragments st)) \<and>
     ns_insertion_offset st = off \<and> str_is_char_boundary t off \<and> cells_of (tree_items (ns_fragments st)) = new_cells ts 0 off \<and>
     locator_min \<le> ns_prev_locator st \<and> ns_prev_locator st < locator_max \<and>
     sorted_wrt (<) (map fr_id (tree_items (ns_fragments st))) \<and> sorted_wrt (<) (map fragment_key (tree_items (ns_fragments st))) \<and>
     (\<forall>f \<in> set (tree_items (ns_fragments st)).
        fragment_ok ins f \<and> id_ok (fr_id f) \<and> fr_id f \<le> ns_prev_locator st \<and> fragment_key f < (ts, off))"

lemma locator_bounds: "locator_min < locator_max" "last locator_max \<noteq> 0"
  by (simp_all add: locator_min_def locator_max_def word_gt_0)

lemma push_base_ok:
  assumes "base_at ins ts t off st" "utf8 t" "ins ts = t" "off < e" "str_is_char_boundary t e"
  shows "\<exists>st'. push_base_fragment ts (e - off) st = Some st' \<and> base_at ins ts t e st'"
proof -
  let ?fs = "tree_items (ns_fragments st)" and ?f = "base_fragment ts (e - off) st" and ?p = "ns_prev_locator st"
  note st = assms(1) [unfolded base_at_def]
  have e: "e \<le> length t" by (rule boundary_le [OF assms(5)])
  obtain fs where fs: "tree_push fragment_item (ns_fragments st) ?f = Some fs" "wf_tree fragment_item fs" "tree_items fs = ?fs @ [?f]"
    using fragment_tree.push_ok st by blast
  obtain ix where ix: "tree_push insertion_item (ns_insertions st) (insertion_fragment_new ?f) = Some ix" "wf_tree insertion_item ix"
    "tree_items ix = tree_items (ns_insertions st) @ [insertion_fragment_new ?f]"
    using insertion_tree.push_ok [of "ns_insertions st" "insertion_fragment_new ?f"] st by auto
  have sel: "fr_timestamp ?f = ts" "insertion_offset ?f = off" "fr_len ?f = e - off" "fr_id ?f = between ?p locator_max"
    using st by (simp_all add: base_fragment_def)
  have p: "?p < fr_id ?f" "fr_id ?f < locator_max" "last (fr_id ?f) \<noteq> 0"
    unfolding sel using between_ok [of ?p locator_max] st locator_bounds(2) by simp_all
  then have idok: "id_ok (fr_id ?f)" using st by (auto simp: id_ok_def)
  have cells: "fragment_cells ?f = new_cells ts off (e - off)"
    using st by (simp add: fragment_cells_def new_cells_def base_fragment_def)
  have tx: "cells_text ins (fragment_cells ?f) = take (e - off) (drop off t)"
    using new_cells_text [of off "e - off" ins ts] e assms(3,4) by (simp add: cells)
  have "str_is_char_boundary (drop off t) (e - off)" using boundary_suffix [of t off "e - off"] assms(4,5) e by simp
  then have "utf8 (take (e - off) (drop off t))" using utf8_split st assms(2) by blast
  then have fok: "fragment_ok ins ?f" using tx assms(3,4) e sel by (simp add: fragment_ok_def)
  have key: "fragment_key ?f = (ts, off)" using sel by (simp add: fragment_key_def)
  let ?st' = "\<lparr>ns_fragments = fs, ns_insertions = ix, ns_insertion_offset = e, ns_prev_locator = fr_id ?f\<rparr>"
  have "push_base_fragment ts (e - off) st = Some ?st'"
    using fs(1) ix(1) st assms(4) by (simp add: push_base_fragment_def Let_def)
  moreover have "cells_of (?fs @ [?f]) = new_cells ts 0 e" using st cells new_cells_append [of ts 0 off "e - off"] assms(4) by simp
  moreover have "(ts, off) < (ts, e)" using assms(4) by simp
  moreover have "\<forall>f \<in> set ?fs. fr_id f < fr_id ?f \<and> fragment_key f < (ts, e)"
    using st p(1) \<open>(ts, off) < (ts, e)\<close> by (meson le_less_trans less_trans)
  moreover have "locator_min \<le> fr_id ?f" using st p(1) by (meson le_less_trans less_imp_le)
  ultimately show ?thesis using st fs ix p fok idok key assms(5)
    by (intro exI [of _ ?st']) (simp add: base_at_def sorted_wrt_append order.strict_implies_order)
qed

lemma new_loop_ok:
  assumes "base_at ins ts t off st" "rope_ok r" "rope_text r = t" "ins ts = t"
  shows "\<exists>st'. new_loop r ts off st = Some st' \<and> base_at ins ts t (length t) st'"
  using assms(1)
proof (induction "length t - off" arbitrary: off st rule: less_induct)
  case less
  have b: "str_is_char_boundary t off" using less.prems by (simp add: base_at_def)
  have len: "rope_len r = length t" and u: "utf8 t" using rope_len_ok [OF assms(2)] rope_utf8 [OF assms(2)] assms(3) by simp_all
  show ?case
  proof (cases "off < length t")
    case False
    then show ?thesis using less.prems boundary_le [OF b] len by (simp add: new_loop.simps)
  next
    case True
    define target where "target = min (length t) (off + MAX_INSERTION_LEN)"
    define e where "e = (if target = length t then target else str_floor_char_boundary t target)"
    have e: "off < e" "e \<le> length t" "str_is_char_boundary t e" using chunk_end_ok [OF u b True] unfolding e_def target_def by auto
    obtain st1 where st1: "push_base_fragment ts (e - off) st = Some st1" "base_at ins ts t e st1"
      using push_base_ok [OF less.prems u assms(4) e(1,3)] by blast
    have "target \<le> length t" by (simp add: target_def)
    then have "(if target = length t then target else rope_floor_char_boundary r target) = e"
      using rope_floor_char_boundary_ok [OF assms(2), of target] assms(3) by (simp add: e_def)
    then have "new_loop r ts off st = new_loop r ts e st1"
      using True len e(1) st1(1) by (subst new_loop.simps) (simp add: target_def [symmetric] assert_that_def)
    then show ?thesis using less.hyps [OF _ st1(2)] e True by simp
  qed
qed

lemma new_state_empty_ok: "base_at ins ts t 0 new_state_empty"
  using locator_bounds(1) by (simp add: base_at_def new_state_empty_def new_cells_def tree_new_def)

section \<open>A new buffer\<close>

definition base_edits :: "str \<Rightarrow> lamport set" where
  "base_edits t = (if t = [] then {} else {lamport_new LOCAL})"

definition base_texts :: "str \<Rightarrow> insertion_texts" where
  "base_texts t = (\<lambda>_. [])(lamport_new LOCAL := t)"

lemma new_cells_sel:
  "vis (new_cells ts off n) = new_cells ts off n" "dead (new_cells ts off n) = []"
  "c \<in> set (new_cells ts off n) \<Longrightarrow> c_visible c \<and> c_timestamp c = ts \<and> c_deletions c = []"
  by (auto simp: new_cells_def)

lemma undo_map_default_ok: "undo_map_ok undo_map_default" "tree_items undo_map_default = []" "\<not> undone undo_map_default e"
  by (simp_all add: undo_map_ok_def undo_map_default_def undone_def max_count_def tree_new_def)

lemma map_default_ok: "map_ok map_default" "map_abs map_default = Map.empty" "tree_items map_default = []"
  by (simp_all add: map_ok_def map_abs_def map_default_def tree_new_def)

lemma new_normalized_ok:
  assumes "rope_ok r"
  shows "\<exists>s h clock. new_normalized replica bid le r = Some \<lparr>snapshot = s, buf_history = history_new r,
      deferred_ops = queue_new operation_timestamp, deferred_replicas = {}, lamport_clock = clock,
      buf_subscriptions = topic_default, edit_id_resolvers = [], wait_for_version_txs = [], notified = []\<rparr> \<and>
    snapshot_ok (base_edits (rope_text r)) (base_texts (rope_text r)) s \<and> visible_text s = r \<and> snap_line_ending s = le \<and>
    cells_of (items s) = new_cells (lamport_new LOCAL) 0 (length (rope_text r)) \<and> snap_undo_map s = undo_map_default \<and>
    clock = (if rope_text r = [] then lamport_new replica else lamport_observe (lamport_new replica) (lamport_new LOCAL))"
proof -
  let ?t = "rope_text r" and ?ts = "lamport_new LOCAL"
  let ?ins = "base_texts ?t"
  have emp: "rope_is_empty r \<longleftrightarrow> ?t = []" by (simp add: rope_is_empty_def rope_len_ok [OF assms])
  have ins: "?ins ?ts = ?t" "?ins lamport_MIN = []" by (simp_all add: base_texts_def lamport_new_def lamport_MIN_def)
  obtain st where st: "(if rope_is_empty r then Some new_state_empty else new_loop r ?ts 0 new_state_empty) = Some st"
    "base_at ?ins ?ts ?t (length ?t) st"
    using new_loop_ok [of ?ins ?ts ?t 0 new_state_empty r, OF new_state_empty_ok assms refl ins(1)] new_state_empty_ok [of ?ins ?ts ?t] emp by (cases "?t = []") auto
  obtain s where s: "s = \<lparr>visible_text = r, deleted_text = rope_new, fragments = ns_fragments st, insertions = ns_insertions st,
    insertion_slices = map_default, snap_undo_map = undo_map_default, snap_version = (if rope_is_empty r then global_new else global_observe global_new ?ts),
    remote_id = bid, snap_replica_id = replica, snap_line_ending = le\<rparr>" by blast
  note st' = st(2) [unfolded base_at_def]
  have cells: "cells_of (items s) = new_cells ?ts 0 (length ?t)" using st' s by simp
  have tx: "cells_text ?ins (new_cells ?ts 0 (length ?t)) = ?t" by (rule new_cells_eq) (simp add: ins(1))
  have "index_ok s" using st' s by (simp add: index_ok_def sorted_wrt_map)
  moreover have "slices_ok (base_edits ?t) s"
  proof -
    have touch: "e \<in> base_edits ?t" if "c \<in> set (new_cells ?ts 0 (length ?t))" "touched e c" for c e
      using that new_cells_sel(3) [OF that(1)] by (cases "?t = []") (simp_all add: touched_def base_edits_def new_cells_def)
    have slices: "insertion_slices s = map_default" by (simp add: s)
    show ?thesis unfolding slices_ok_def cells slices using touch by (simp add: map_default_ok)
  qed
  moreover have "visibility_ok s" unfolding visibility_ok_def cells
    using new_cells_sel(3) by (auto simp: s undo_map_default_ok cell_visible_def)
  moreover have "order_ok [] (items s)" using st' s by (simp add: order_ok_def)
  moreover have "distinct (map cell_id (cells_of (items s)))" unfolding cells by (rule new_cells_distinct)
  ultimately have "snapshot_ok (base_edits ?t) ?ins s"
    using st' s assms cells tx ins(2) by (simp add: snapshot_ok_def new_cells_sel rope_new_ok)
  then show ?thesis using st(1) s cells emp by (intro exI [of _ s]) (simp add: new_normalized_def Let_def)
qed

end
