(* ===== verification/Buffer_Session.thy ===== *)
theory Buffer_Session
  imports Buffer_Start
begin

text \<open>
  The methods of a buffer together: the invariant of a buffer with its history and its clock, that \<open>new\<close>, \<open>edit\<close>, \<open>undo\<close> and \<open>redo\<close>
  return and keep it, and what they do to the text.
\<close>

section \<open>Invariant\<close>

abbreviation buffer_text :: "buffer \<Rightarrow> str" where "buffer_text b \<equiv> rope_text (visible_text (snapshot b))"

abbreviation buffer_cells :: "buffer \<Rightarrow> cell list" where "buffer_cells b \<equiv> cells_of (items (snapshot b))"

definition seen_edits :: "buffer_snapshot \<Rightarrow> lamport set" where
  "seen_edits s = {e. (\<exists>c \<in> set (cells_of (items s)). touched e c) \<or> (\<exists>u. undo_map_abs (snap_undo_map s) e u \<noteq> None \<or> undo_map_abs (snap_undo_map s) u e \<noteq> None)}"

definition history_edits :: "'r history \<Rightarrow> lamport set" where
  "history_edits h = set (stack_edits (undo_stack h)) \<union> set (stack_edits (redo_stack h))"

text \<open>The clock of a replica is ahead of every timestamp of that replica in the buffer.\<close>

definition below :: "lamport \<Rightarrow> lamport \<Rightarrow> bool" where
  "below clock e \<longleftrightarrow> lamport_replica e = lamport_replica clock \<longrightarrow> lamport_value e < lamport_value clock"

definition buffer_ok :: "lamport set \<Rightarrow> insertion_texts \<Rightarrow> (nat \<Rightarrow> str) \<Rightarrow> buffer \<Rightarrow> bool" where
  "buffer_ok U ins base b \<longleftrightarrow> snapshot_ok U ins (snapshot b) \<and> topic_inv (buf_subscriptions b) (buffer_text b) base \<and>
     map_ok (operations (buf_history b)) \<and> 0 < lamport_value (lamport_clock b) \<and>
     (\<forall>e \<in> seen_edits (snapshot b) \<union> U \<union> history_edits (buf_history b). below (lamport_clock b) e) \<and> history_edits (buf_history b) \<inter> U = {}"

definition buffer_fits :: "buffer \<Rightarrow> bool" where
  "buffer_fits b \<longleftrightarrow> snapshot_fits (snapshot b) \<and> node_height (operations (buf_history b)) < STACK_CAP"

lemma snapshot_ok_version [simp]: "snapshot_ok U ins (s\<lparr>snap_version := v\<rparr>) = snapshot_ok U ins s"
  by (simp add: snapshot_ok_def index_ok_def slices_ok_def visibility_ok_def)

lemma snapshot_fits_version [simp]: "snapshot_fits (s\<lparr>snap_version := v\<rparr>) = snapshot_fits s"
  by (simp add: snapshot_fits_def)

lemma seen_edits_version [simp]: "seen_edits (s\<lparr>snap_version := v\<rparr>) = seen_edits s"
  by (simp add: seen_edits_def)

lemma fresh_version [simp]: "fresh ts (s\<lparr>snap_version := v\<rparr>) = fresh ts s"
  by (simp add: fresh_def)

lemma below_tick:
  assumes "lamport_value clock \<noteq> - 1"
  shows "below clock e \<Longrightarrow> below (Lamport (lamport_value clock + 1) (lamport_replica clock)) e"
    "below (Lamport (lamport_value clock + 1) (lamport_replica clock)) clock"
  using word_less_Suc [OF assms] by (auto simp: below_def)

lemma undone_None: "undo_map_ok m \<Longrightarrow> (\<And>u. undo_map_abs m e u = None) \<Longrightarrow> max_count (tree_items m) e (\<lambda>_. True) = 0 \<and> \<not> undone m e"
  by (simp add: undone_def max_count_abs)

text \<open>A timestamp that the clock has not reached is new to the buffer.\<close>

lemma clock_fresh:
  assumes "snapshot_ok U ins s" "\<forall>e \<in> seen_edits s. below clock e" "lamport_replica ts = lamport_replica clock" "lamport_value clock \<le> lamport_value ts" "0 < lamport_value clock"
  shows "fresh ts s" "\<And>u. undo_map_abs (snap_undo_map s) ts u = None" "\<And>e. undo_map_abs (snap_undo_map s) e ts = None"
proof -
  have new: "ts \<notin> seen_edits s" using assms(2-4) by (auto simp: below_def)
  then show none: "undo_map_abs (snap_undo_map s) ts u = None" "undo_map_abs (snap_undo_map s) e ts = None" for u e
    unfolding seen_edits_def by blast+
  have "undo_map_ok (snap_undo_map s)" using assms(1) by (simp add: snapshot_ok_def visibility_ok_def)
  then have "\<not> undone (snap_undo_map s) ts" using undone_None none(1) by blast
  moreover have "ts \<noteq> lamport_MIN" using assms(4,5) by (auto simp: lamport_MIN_def)
  moreover have "\<forall>c \<in> set (cells_of (items s)). \<not> touched ts c" using new unfolding seen_edits_def by blast
  ultimately show "fresh ts s" unfolding fresh_def by blast
qed

section \<open>A new buffer\<close>

lemma buffer_new_ok:
  assumes "utf8 t"
  defines "x \<equiv> line_ending_normalize t"
  shows "\<exists>b. buffer_new replica bid t = Some b \<and> buffer_ok (base_edits x) (base_texts x) (\<lambda>_. []) b \<and> buffer_text b = x \<and>
    snap_line_ending (snapshot b) = line_ending_detect t \<and> transaction_depth (buf_history b) = 0 \<and>
    undo_stack (buf_history b) = [] \<and> redo_stack (buf_history b) = [] \<and> buf_subscriptions b = topic_default"
proof -
  obtain r where r: "rope_from_str x = Some r" "rope_ok r" "rope_text r = x"
    using rope_from_str_ok [of x] normalize_utf8 [OF assms(1)] by (auto simp: x_def)
  obtain s h clock where s: "new_normalized replica bid (line_ending_detect t) r = Some \<lparr>snapshot = s, buf_history = history_new r,
      deferred_ops = queue_new operation_timestamp, deferred_replicas = {}, lamport_clock = clock,
      buf_subscriptions = topic_default, edit_id_resolvers = [], wait_for_version_txs = [], notified = []\<rparr>"
    "snapshot_ok (base_edits x) (base_texts x) s" "visible_text s = r" "snap_line_ending s = line_ending_detect t"
    "cells_of (items s) = new_cells (lamport_new LOCAL) 0 (length x)" "snap_undo_map s = undo_map_default"
    "clock = (if x = [] then lamport_new replica else lamport_observe (lamport_new replica) (lamport_new LOCAL))"
    using new_normalized_ok [OF r(2), of replica bid "line_ending_detect t"] r(3) by auto
  have c: "lamport_value clock = (if x = [] then 1 else 2)" "lamport_replica clock = replica"
    unfolding s(7) by (simp_all add: lamport_new_def lamport_observe_def)
  have "undo_map_abs undo_map_default e u = None" for e u
    by (simp add: undo_map_abs_def undo_map_default_ok list_lookup_def)
  moreover have "e \<in> base_edits x" if "c \<in> set (new_cells (lamport_new LOCAL) 0 (length x))" "touched e c" for e c
    using that new_cells_sel(3) [OF that(1)] by (cases "x = []") (simp_all add: touched_def base_edits_def new_cells_def)
  ultimately have seen: "seen_edits s \<subseteq> base_edits x" unfolding seen_edits_def s(5,6) by (simp add: subset_iff) metis
  have "\<forall>e \<in> base_edits x. below clock e" using c by (simp add: base_edits_def below_def lamport_new_def)
  then have "\<forall>e \<in> seen_edits s \<union> base_edits x. below clock e" using seen by blast
  moreover have "topic_inv topic_default (rope_text r) (\<lambda>_. [])" by (simp add: topic_inv_def topic_default_def)
  ultimately show ?thesis using r s(1-4) c
    by (simp add: buffer_new_def x_def [symmetric] buffer_ok_def history_edits_def history_new_def map_default_ok)
qed

section \<open>Edits\<close>

text \<open>The transaction of an edit is not merged with the one before it.\<close>

definition ungrouped :: "'r history \<Rightarrow> instant \<Rightarrow> bool" where
  "ungrouped h now \<longleftrightarrow>
     (case list_last (undo_stack h) of None \<Rightarrow> True | Some e \<Rightarrow> suppress_grouping e \<or> group_interval h \<le> now - last_edit_at e)"

lemma ungrouped_group:
  assumes "ungrouped h now" "undo_stack h' = undo_stack h @ [e]" "group_interval h' = group_interval h" "first_edit_at e = now"
  shows "\<exists>e'. group h' = Some (h'\<lparr>undo_stack := undo_stack h @ [e']\<rparr>, Some (entry_id e)) \<and> edit_ids (transaction_of e') = edit_ids (transaction_of e)"
proof -
  have "group_count (group_interval h') e (rev (undo_stack h)) = 0"
    using assms by (cases "undo_stack h" rule: rev_cases) (auto simp: ungrouped_def list_last_def)
  then have "group h' = group_trailing h' (length ([] :: history_entry list))" using assms(2) by (simp add: group_def)
  then show ?thesis using group_trailing_ok [of h' "undo_stack h" e "[]"] assms(2) by auto
qed

lemma edit_history:
  assumes h: "transaction_depth h = 0" "map_ok (operations h)" "node_height (operations h) < STACK_CAP"
    and start: "start_transaction h version now clock = (h1, clock', tid)"
  shows "\<exists>h2 h3 h4 entry h5 t. history_push h1 (EditOp op) = Some h2 \<and> push_undo h2 (op_timestamp op) = Some h3 \<and>
    end_transaction h3 later = Some (h4, Some entry) \<and> group h4 = Some (h5, Some t) \<and> clock' = fst (tick clock) \<and>
    stack_edits (undo_stack h5) = stack_edits (undo_stack h) @ [op_timestamp op] \<and> redo_stack h5 = [] \<and> transaction_depth h5 = 0 \<and>
    map_ok (operations h5) \<and> map_abs (operations h5) = (map_abs (operations h))(op_timestamp op \<mapsto> EditOp op) \<and>
    (ungrouped h now \<longrightarrow> (\<exists>e. undo_stack h5 = undo_stack h @ [e] \<and> edit_ids (transaction_of e) = [op_timestamp op]))"
proof -
  define entry0 where "entry0 = new_entry \<lparr>tr_id = clock, edit_ids = [], tr_start = version\<rparr> now"
  define entry where "entry = entry0\<lparr>transaction_of := (transaction_of entry0)\<lparr>edit_ids := [op_timestamp op]\<rparr>, last_edit_at := later\<rparr>"
  have h1: "h1 = h\<lparr>transaction_depth := 1, undo_stack := undo_stack h @ [entry0]\<rparr>" "clock' = fst (tick clock)"
    using h(1) start by (auto simp: start_transaction_def Let_def tick_def entry0_def)
  obtain ops where ops: "map_insert (operations h) (op_timestamp op) (EditOp op) = Some ops" "map_ok ops"
    "map_abs ops = (map_abs (operations h))(op_timestamp op \<mapsto> EditOp op)"
    using map_insert_correct [OF h(2,3)] by blast
  have get: "map_get ops (op_timestamp op) = Some (EditOp op)" using map_get_correct [OF ops(2)] ops(3) by simp
  let ?h2 = "h1\<lparr>operations := ops\<rparr>"
  let ?h3 = "?h2\<lparr>undo_stack := undo_stack h @ [entry0\<lparr>transaction_of := (transaction_of entry0)\<lparr>edit_ids := [op_timestamp op]\<rparr>\<rparr>]\<rparr>"
  let ?h4 = "?h3\<lparr>transaction_depth := 0, redo_stack := [], undo_stack := undo_stack h @ [entry]\<rparr>"
  have run: "history_push h1 (EditOp op) = Some ?h2" "push_undo ?h2 (op_timestamp op) = Some ?h3"
    "end_transaction ?h3 later = Some (?h4, Some entry)"
    using ops(1) get by (simp_all add: h1 history_push_def push_undo_def end_transaction_def entry_def entry0_def new_entry_def Let_def)
  have ids: "edit_ids (transaction_of entry) = [op_timestamp op]" "first_edit_at entry = now"
    by (simp_all add: entry_def entry0_def new_entry_def)
  show ?thesis
  proof (cases "ungrouped h now")
    case True
    obtain e' where "group ?h4 = Some (?h4\<lparr>undo_stack := undo_stack h @ [e']\<rparr>, Some (entry_id entry))" "edit_ids (transaction_of e') = [op_timestamp op]"
      using ungrouped_group [OF True, of ?h4 entry] ids by (auto simp: h1)
    then show ?thesis using run h1(2) ops(2,3) by (simp add: h1(1))
  next
    case False
    obtain keep e merge e' where g: "undo_stack ?h4 = keep @ e # merge" "group ?h4 = Some (?h4\<lparr>undo_stack := keep @ [e']\<rparr>, Some (entry_id e))"
      "edit_ids (transaction_of e') = stack_edits (e # merge)"
    proof -
      have "undo_stack ?h4 \<noteq> []" by simp
      from group_ok [OF this] show ?thesis using that by (elim exE conjE) assumption
    qed
    have "stack_edits (keep @ [e']) = stack_edits (undo_stack ?h4)" unfolding g(1) using g(3) by simp
    also have "\<dots> = stack_edits (undo_stack h) @ [op_timestamp op]" using ids by simp
    finally show ?thesis using run h1(2) ops(2,3) g(2) False by (simp add: h1(1))
  qed
qed

abbreviation normal_clip_edits :: "str \<Rightarrow> (nat \<times> nat \<times> str) list \<Rightarrow> (nat \<times> nat \<times> str) list" where
  "normal_clip_edits x es \<equiv> map (\<lambda>(s, e, t). (str_floor_char_boundary x s, str_floor_char_boundary x e, line_ending_normalize t)) es"

text \<open>The timestamp of the next edit outside a transaction: the clock issues the one before it to the transaction.\<close>

definition edit_timestamp :: "buffer \<Rightarrow> lamport" where
  "edit_timestamp b = fst (tick (lamport_clock b))"

lemma clock_room:
  assumes "v < (- 2 :: u32)"
  shows "v \<noteq> - 1" "v + 1 \<noteq> - 1"
proof -
  show "v \<noteq> - 1" using assms by (metis word_order.extremum_strict)
  show "v + 1 \<noteq> - 1"
  proof
    assume "v + 1 = - 1"
    then have "v = - 2" by (simp add: eq_diff_eq [symmetric])
    then show False using assms by simp
  qed
qed

lemma edit_seen:
  assumes "local_spec ts 0 0 0 (cells_of (items s)) es (cells_of (items s')) rs" "snap_undo_map s' = snap_undo_map s"
  shows "seen_edits s' \<subseteq> insert ts (seen_edits s)"
proof
  fix e assume e: "e \<in> seen_edits s'"
  show "e \<in> insert ts (seen_edits s)"
  proof (cases "\<exists>c \<in> set (cells_of (items s')). touched e c")
    case True
    then obtain c where "c \<in> set (cells_of (items s'))" "touched e c" by blast
    then show ?thesis using spec_touched [OF assms(1)] unfolding seen_edits_def by blast
  next
    case False
    then show ?thesis using e assms(2) by (simp add: seen_edits_def)
  qed
qed

lemma buffer_edit_ok:
  fixes b :: buffer and es :: "(nat \<times> nat \<times> str) list"
  defines "x \<equiv> buffer_text b"
  defines "es' \<equiv> normal_clip_edits x es" and "ts \<equiv> edit_timestamp b"
  assumes ok: "buffer_ok U ins base b" "buffer_fits b" "transaction_depth (buf_history b) = 0" and clock: "lamport_value (lamport_clock b) < - 2"
    and es: "edits_ok x 0 (clip_edits x es)" "es \<noteq> []"
  shows "\<exists>b' op. buffer_edit now later es b = Some (b', EditOp op) \<and> op_timestamp op = ts \<and> op_version op = snap_version (snapshot b) \<and>
    op_new_text op = map (\<lambda>(_, _, t). t) es' \<and> buffer_ok U (ins(ts := edit_texts es')) base b' \<and> buffer_text b' = spliced 0 x es' \<and>
    local_spec ts 0 0 0 (buffer_cells b) es' (buffer_cells b') (op_ranges op) \<and> snap_undo_map (snapshot b') = snap_undo_map (snapshot b) \<and>
    snap_version (snapshot b') = global_observe (snap_version (snapshot b)) ts \<and> lamport_clock b' = fst (tick ts) \<and>
    transaction_depth (buf_history b') = 0 \<and> redo_stack (buf_history b') = [] \<and>
    stack_edits (undo_stack (buf_history b')) = stack_edits (undo_stack (buf_history b)) @ [ts] \<and>
    map_abs (operations (buf_history b')) = (map_abs (operations (buf_history b)))(ts \<mapsto> EditOp op) \<and>
    (ungrouped (buf_history b) now \<longrightarrow>
      (\<exists>e. undo_stack (buf_history b') = undo_stack (buf_history b) @ [e] \<and> edit_ids (transaction_of e) = [ts]))"
proof -
  let ?c = "lamport_clock b" and ?h = "buf_history b" and ?s = "snapshot b"
  note bk = ok(1) [unfolded buffer_ok_def]
  obtain h1 c1 tid where start: "start_transaction ?h (snap_version ?s) now ?c = (h1, c1, tid)" by (metis prod_cases3)
  have "map_ok (operations ?h)" "node_height (operations ?h) < STACK_CAP" using bk ok(2) by (simp_all add: buffer_fits_def)
  note hist = edit_history [OF ok(3) this start]
  have c1: "c1 = ts" using start ok(3) by (auto simp: ts_def edit_timestamp_def start_transaction_def Let_def tick_def)
  have tsv: "lamport_replica ts = lamport_replica ?c" "lamport_value ts = lamport_value ?c + 1" by (simp_all add: ts_def edit_timestamp_def tick_def)
  have lt: "lamport_value ?c < lamport_value ts" "lamport_value ts < lamport_value ts + 1"
    unfolding tsv(2) by (rule word_less_Suc, rule clock_room [OF clock])+
  let ?b = "b\<lparr>buf_history := h1, lamport_clock := fst (tick ts)\<rparr>"
  have fr: "fresh ts ?s" using clock_fresh(1) [of U ins ?s ?c ts] bk tsv(1) lt(1) by simp
  obtain s' subs rs where run: "apply_local_edit ?b es ts = Some (?b\<lparr>snapshot := s', buf_subscriptions := subs\<rparr>,
      \<lparr>op_timestamp = ts, op_version = snap_version ?s, op_ranges = rs, op_new_text = map (\<lambda>(_, _, t). t) es'\<rparr>)"
    "snapshot_ok U (ins(ts := edit_texts es')) s'" "topic_inv subs (rope_text (visible_text s')) base"
    "local_spec ts 0 0 0 (buffer_cells b) es' (cells_of (items s')) rs" "rope_text (visible_text s') = spliced 0 x es'"
    "snap_version s' = snap_version ?s" "snap_undo_map s' = snap_undo_map ?s"
    using apply_local_edit_ok [of U ins ?b base ts es] bk ok(2) fr es unfolding x_def es'_def by (auto simp: buffer_fits_def)
  define op where "op = \<lparr>op_timestamp = ts, op_version = snap_version ?s, op_ranges = rs, op_new_text = map (\<lambda>(_, _, t). t) es'\<rparr>"
  obtain h2 h3 h4 entry h5 t where h: "history_push h1 (EditOp op) = Some h2" "push_undo h2 ts = Some h3"
    "end_transaction h3 later = Some (h4, Some entry)" "group h4 = Some (h5, Some t)"
    "stack_edits (undo_stack h5) = stack_edits (undo_stack ?h) @ [ts]" "redo_stack h5 = []" "transaction_depth h5 = 0"
    "map_ok (operations h5)" "map_abs (operations h5) = (map_abs (operations ?h))(ts \<mapsto> EditOp op)"
    "ungrouped ?h now \<longrightarrow> (\<exists>e. undo_stack h5 = undo_stack ?h @ [e] \<and> edit_ids (transaction_of e) = [ts])"
    using hist [of op later] by (auto simp: op_def)
  let ?b' = "b\<lparr>buf_history := h5, lamport_clock := fst (tick ts), snapshot := s'\<lparr>snap_version := global_observe (snap_version ?s) ts\<rparr>, buf_subscriptions := subs\<rparr>"
  have "buffer_edit now later es b = Some (?b', EditOp op)"
    using run(1,6) start c1 h(1-4) by (simp add: buffer_edit_def start_transaction_at_def end_transaction_at_def observe_version_def tick_def op_def)
  moreover have "buffer_ok U (ins(ts := edit_texts es')) base ?b'"
  proof -
    have "\<forall>e \<in> insert ts (seen_edits ?s \<union> U \<union> history_edits ?h). below (fst (tick ts)) e"
      using bk tsv lt by (auto simp: below_def tick_def intro: less_trans)
    moreover have "seen_edits s' \<subseteq> insert ts (seen_edits ?s)" by (rule edit_seen [OF run(4,7)])
    moreover have he: "history_edits h5 \<subseteq> insert ts (history_edits ?h)" using h(5,6) by (auto simp: history_edits_def)
    ultimately have "\<forall>e \<in> seen_edits s' \<union> U \<union> history_edits h5. below (fst (tick ts)) e" by blast
    moreover have "ts \<notin> U" using bk tsv lt(1) by (auto simp: below_def)
    then have "history_edits h5 \<inter> U = {}" using he bk by blast
    moreover have "0 < lamport_value ts + 1" using lt(2) by (metis word_not_simps(1) word_gt_0)
    ultimately show ?thesis using run(2,3) h(8) by (simp add: buffer_ok_def tick_def)
  qed
  ultimately show ?thesis using run(4,5,7) h(5-7,9,10) by (intro exI [of _ ?b'] exI [of _ op]) (simp add: op_def)
qed

section \<open>Undo and redo\<close>

text \<open>The operation that undoes or redoes a transaction.\<close>

definition undo_op_of :: "transaction \<Rightarrow> buffer \<Rightarrow> undo_operation" where
  "undo_op_of t b = \<lparr>undo_timestamp = lamport_clock b, undo_version = snap_version (snapshot b),
     undo_counts = map (\<lambda>e. (e, saturating_inc (max_count (tree_items (snap_undo_map (snapshot b))) e (\<lambda>_. True)))) (remdups (edit_ids t))\<rparr>"

definition undo_fits :: "transaction \<Rightarrow> buffer \<Rightarrow> bool" where
  "undo_fits t b \<longleftrightarrow> (\<forall>m. undo_map_insert (snap_undo_map (snapshot b)) (undo_op_of t b) = Some m \<longrightarrow> node_height m < STACK_CAP)"

text \<open>The counts of the edits of a transaction are below the greatest value by a margin.\<close>

definition counts_below :: "u32 \<Rightarrow> transaction \<Rightarrow> buffer \<Rightarrow> bool" where
  "counts_below n t b \<longleftrightarrow> (\<forall>e \<in> set (edit_ids t). max_count (tree_items (snap_undo_map (snapshot b))) e (\<lambda>_. True) < n)"

lemma collect_counts:
  assumes "undo_map_ok m" "node_height m < STACK_CAP"
  shows "collect_options (map (next_undo_count m) es) = Some (map (\<lambda>e. (e, saturating_inc (max_count (tree_items m) e (\<lambda>_. True)))) es)"
  using undo_scan_correct [OF assms] by (induction es) (simp_all add: next_undo_count_def undo_count_def)

lemma undo_seen:
  assumes "map core (cells_of (items s')) = map core (cells_of (items s))"
    and "\<And>e u. undo_map_abs (snap_undo_map s') e u \<noteq> None \<Longrightarrow> undo_map_abs (snap_undo_map s) e u \<noteq> None \<or> e \<in> E \<and> u = v"
  shows "seen_edits s' \<subseteq> insert v (seen_edits s \<union> E)"
proof
  fix e assume e: "e \<in> seen_edits s'"
  show "e \<in> insert v (seen_edits s \<union> E)"
  proof (cases "\<exists>c \<in> set (cells_of (items s')). touched e c")
    case True
    then obtain c where c: "c \<in> set (cells_of (items s'))" "touched e c" by blast
    then obtain d where "d \<in> set (cells_of (items s))" "core d = core c" using core_in [OF assms(1)] by blast
    then show ?thesis using core_sel [of d c e] c(2) unfolding seen_edits_def by blast
  next
    case False
    then show ?thesis using e assms(2) unfolding seen_edits_def by blast
  qed
qed

text \<open>What \<open>undo_or_redo\<close> guarantees: the invariant, the bytes, and the edits of the transaction undone where they were not and not where they were.\<close>

definition toggles :: "lamport set \<Rightarrow> insertion_texts \<Rightarrow> (nat \<Rightarrow> str) \<Rightarrow> transaction \<Rightarrow> buffer \<Rightarrow> buffer \<Rightarrow> bool" where
  "toggles U ins base t b b' \<longleftrightarrow> buffer_ok U ins base b' \<and> map core (buffer_cells b') = map core (buffer_cells b) \<and>
     (\<forall>e \<in> set (edit_ids t). max_count (tree_items (snap_undo_map (snapshot b'))) e (\<lambda>_. True) =
        max_count (tree_items (snap_undo_map (snapshot b))) e (\<lambda>_. True) + 1) \<and>
     (\<forall>e. undone (snap_undo_map (snapshot b')) e =
        (if e \<in> set (edit_ids t) then \<not> undone (snap_undo_map (snapshot b)) e else undone (snap_undo_map (snapshot b)) e)) \<and>
     buffer_text b' = cells_text ins (filter (cell_visible (snap_undo_map (snapshot b'))) (buffer_cells b)) \<and>
     snap_version (snapshot b') = global_observe (snap_version (snapshot b)) (lamport_clock b) \<and> lamport_clock b' = fst (tick (lamport_clock b))"

lemma toggles_history [simp]: "toggles U ins base t (b\<lparr>buf_history := h\<rparr>) b' = toggles U ins base t b b'"
  by (simp add: toggles_def cong: if_cong)

lemma undo_or_redo_ok:
  fixes b :: buffer
  defines "m \<equiv> snap_undo_map (snapshot b)"
  assumes ok: "buffer_ok U ins base b" "buffer_fits b" and t: "set (edit_ids t) \<subseteq> history_edits (buf_history b)" "undo_fits t b"
    and room: "lamport_value (lamport_clock b) \<noteq> - 1" "counts_below (- 1) t b"
  shows "\<exists>b'. undo_or_redo t b = Some (b', UndoOp (undo_op_of t b)) \<and> toggles U ins base t b b' \<and>
    (\<exists>ops. buf_history b' = (buf_history b)\<lparr>operations := ops\<rparr> \<and>
      map_abs ops = (map_abs (operations (buf_history b)))(lamport_clock b \<mapsto> UndoOp (undo_op_of t b)))"
proof -
  let ?c = "lamport_clock b" and ?h = "buf_history b" and ?s = "snapshot b" and ?u = "undo_op_of t b"
  note bk = ok(1) [unfolded buffer_ok_def]
  have m: "undo_map_ok m" "node_height m < STACK_CAP"
    using bk ok(2) by (simp_all add: m_def snapshot_ok_def visibility_ok_def buffer_fits_def snapshot_fits_def)
  have fst_counts: "map fst (undo_counts ?u) = remdups (edit_ids t)" by (simp add: undo_op_of_def comp_def)
  have counts: "distinct (map fst (undo_counts ?u))" "fst ` set (undo_counts ?u) \<inter> U = {}"
  proof -
    show "distinct (map fst (undo_counts ?u))" by (simp add: fst_counts)
    have "fst ` set (undo_counts ?u) = set (edit_ids t)" using arg_cong [OF fst_counts, of set] by simp
    then show "fst ` set (undo_counts ?u) \<inter> U = {}" using t(1) bk by blast
  qed
  let ?b = "observe_version ?c (b\<lparr>lamport_clock := fst (tick ?c)\<rparr>)"
  have b: "snapshot ?b = ?s\<lparr>snap_version := global_observe (snap_version ?s) ?c\<rparr>" "buf_subscriptions ?b = buf_subscriptions b"
    by (simp_all add: observe_version_def)
  obtain m' s' subs where run: "undo_map_insert m ?u = Some m'" "apply_undo ?b ?u = Some (?b\<lparr>snapshot := s', buf_subscriptions := subs\<rparr>)"
    "snapshot_ok U ins s'" "snap_undo_map s' = m'" "snap_version s' = global_observe (snap_version ?s) ?c"
    "topic_inv subs (rope_text (visible_text s')) base" "map core (cells_of (items s')) = map core (buffer_cells b)"
    "rope_text (visible_text s') = cells_text ins (filter (cell_visible m') (buffer_cells b))"
    using apply_undo_ok [of U ins ?b base ?u] bk ok(2) counts t(2) unfolding m_def b undo_fits_def by (auto simp: buffer_fits_def)
  have m': "undo_map_ok m'" "\<And>e u. undo_map_abs m' e u =
    (if u = ?c then (case map_of (undo_counts ?u) e of Some n \<Rightarrow> Some n | None \<Rightarrow> undo_map_abs m e u) else undo_map_abs m e u)"
    using undo_map_insert_correct [OF m counts(1)] run(1) by (auto simp: undo_op_of_def)
  have lookup: "map_of (undo_counts ?u) e = (if e \<in> set (edit_ids t) then Some (saturating_inc (max_count (tree_items m) e (\<lambda>_. True))) else None)" for e
    by (auto simp: undo_op_of_def m_def map_of_map_keys comp_def map_of_eq_None_iff)
  have none: "undo_map_abs m e ?c = None" for e using clock_fresh(3) [of U ins ?s ?c ?c] bk unfolding m_def by blast
  have next_count: "max_count (tree_items m') e (\<lambda>_. True) = max_count (tree_items m) e (\<lambda>_. True) + 1 \<and> (undone m' e \<longleftrightarrow> \<not> undone m e)"
    if e: "e \<in> set (edit_ids t)" for e
  proof -
    let ?k = "max_count (tree_items m) e (\<lambda>_. True)"
    have k: "?k \<noteq> - 1" using room(2) e by (auto simp: counts_below_def m_def)
    have "undo_map_abs m' e = (undo_map_abs m e)(?c \<mapsto> ?k + 1)" using m'(2) lookup e k by (simp add: fun_eq_iff saturating_inc_def)
    then have "max_count (tree_items m') e (\<lambda>_. True) = ?k + 1" by (rule undo_count_next [OF m(1) m'(1) _ none refl k])
    then show ?thesis using undo_toggle k by blast
  qed
  have other: "undone m' e = undone m e" if "e \<notin> set (edit_ids t)" for e
    by (rule undone_other [OF m(1) m'(1)]) (simp add: fun_eq_iff m'(2) lookup that)
  obtain ops where ops: "map_insert (operations ?h) ?c (UndoOp ?u) = Some ops" "map_ok ops" "map_abs ops = (map_abs (operations ?h))(?c \<mapsto> UndoOp ?u)"
    using map_insert_correct [of "operations ?h"] bk ok(2) unfolding buffer_fits_def by blast
  let ?b' = "?b\<lparr>snapshot := s', buf_subscriptions := subs, buf_history := ?h\<lparr>operations := ops\<rparr>\<rparr>"
  have ts: "undo_timestamp ?u = ?c" by (simp add: undo_op_of_def)
  have "collect_options (map (next_undo_count m) (remdups (edit_ids t))) = Some (undo_counts ?u)"
    using collect_counts [OF m] by (simp add: undo_op_of_def m_def)
  moreover have "undo_operations (undo_counts ?u) b = Some (?b\<lparr>snapshot := s', buf_subscriptions := subs\<rparr>, UndoOp ?u)"
    using run(2) by (simp add: undo_operations_def tick_def undo_op_of_def)
  ultimately have "undo_or_redo t b = Some (?b', UndoOp ?u)"
    using ops(1) ts by (simp add: undo_or_redo_def m_def history_push_def observe_version_def)
  moreover have "buffer_ok U ins base ?b'"
  proof -
    have "seen_edits s' \<subseteq> insert ?c (seen_edits ?s \<union> set (edit_ids t))"
    proof (rule undo_seen [OF run(7)])
      fix e u assume "undo_map_abs (snap_undo_map s') e u \<noteq> None"
      then show "undo_map_abs (snap_undo_map ?s) e u \<noteq> None \<or> e \<in> set (edit_ids t) \<and> u = ?c"
        unfolding run(4) m'(2) m_def [symmetric] by (auto simp: lookup split: if_splits)
    qed
    then have "\<forall>e \<in> seen_edits s' \<union> U \<union> history_edits ?h. e = ?c \<or> below ?c e" using bk t(1) by blast
    then have "\<forall>e \<in> seen_edits s' \<union> U \<union> history_edits ?h. below (fst (tick ?c)) e"
      using below_tick [OF room(1)] unfolding tick_def fst_conv by metis
    moreover have "0 < lamport_value ?c + 1" using word_less_Suc [OF room(1)] by (metis word_not_simps(1) word_gt_0)
    ultimately show ?thesis using run(3,6) bk ops(2)
      by (simp add: buffer_ok_def observe_version_def history_edits_def tick_def)
  qed
  moreover have "\<forall>e. undone (snap_undo_map (snapshot ?b')) e = (if e \<in> set (edit_ids t) then \<not> undone m e else undone m e)"
    using next_count other run(4) by simp
  ultimately have "toggles U ins base t b ?b'" unfolding toggles_def m_def [symmetric]
    using run(4,5,7,8) next_count by (simp add: observe_version_def)
  then show ?thesis using \<open>undo_or_redo t b = Some (?b', UndoOp ?u)\<close> ops(3)
    by (intro exI [of _ ?b']) (simp add: observe_version_def, blast)
qed

lemma buffer_ok_history:
  "buffer_ok U ins base b \<Longrightarrow> operations h = operations (buf_history b) \<Longrightarrow> history_edits h = history_edits (buf_history b) \<Longrightarrow>
    buffer_ok U ins base (b\<lparr>buf_history := h\<rparr>)"
  by (simp add: buffer_ok_def)

lemma undo_entry_ok:
  assumes ok: "buffer_ok U ins base b" "buffer_fits b" and t: "undo_fits (transaction_of e) b" "counts_below (- 1) (transaction_of e) b"
    and clock: "lamport_value (lamport_clock b) \<noteq> - 1"
    and h: "operations h = operations (buf_history b)" "history_edits h = history_edits (buf_history b)" "set (edit_ids (transaction_of e)) \<subseteq> history_edits h"
  shows "\<exists>b'. undo_entry (Some e) (b\<lparr>buf_history := h\<rparr>) = Some (b', Some (entry_id e, UndoOp (undo_op_of (transaction_of e) b))) \<and>
    toggles U ins base (transaction_of e) b b' \<and> undo_stack (buf_history b') = undo_stack h \<and> redo_stack (buf_history b') = redo_stack h \<and>
    transaction_depth (buf_history b') = transaction_depth h"
proof -
  let ?b = "b\<lparr>buf_history := h\<rparr>" and ?t = "transaction_of e"
  have b: "buffer_ok U ins base ?b" "buffer_fits ?b" "undo_op_of ?t ?b = undo_op_of ?t b" "undo_fits ?t ?b" "counts_below (- 1) ?t ?b"
    using buffer_ok_history [OF ok(1) h(1,2)] ok(2) t h(1) by (simp_all add: buffer_fits_def undo_op_of_def undo_fits_def counts_below_def)
  obtain b' where "undo_or_redo ?t ?b = Some (b', UndoOp (undo_op_of ?t b))" "toggles U ins base ?t b b'" "\<exists>ops. buf_history b' = h\<lparr>operations := ops\<rparr>"
    using undo_or_redo_ok [OF b(1,2) _ b(4) _ b(5)] clock h(3) unfolding b(3) by auto
  then show ?thesis by (auto simp: undo_entry_def)
qed

lemma buffer_undo_ok:
  assumes ok: "buffer_ok U ins base b" "buffer_fits b" and t: "undo_fits (transaction_of e) b" "counts_below (- 1) (transaction_of e) b"
    and clock: "lamport_value (lamport_clock b) \<noteq> - 1" and h: "transaction_depth (buf_history b) = 0" "undo_stack (buf_history b) = us @ [e]"
  shows "\<exists>b'. buffer_undo b = Some (b', Some (entry_id e, UndoOp (undo_op_of (transaction_of e) b))) \<and> toggles U ins base (transaction_of e) b b' \<and>
    undo_stack (buf_history b') = us \<and> redo_stack (buf_history b') = redo_stack (buf_history b) @ [e] \<and> transaction_depth (buf_history b') = 0"
proof -
  let ?h = "(buf_history b)\<lparr>undo_stack := us, redo_stack := redo_stack (buf_history b) @ [e]\<rparr>"
  have "on_history pop_undo b = Some (b\<lparr>buf_history := ?h\<rparr>, Some e)"
    using h by (simp add: on_history_def pop_undo_def list_last_def)
  moreover have "history_edits ?h = history_edits (buf_history b)" "set (edit_ids (transaction_of e)) \<subseteq> history_edits ?h"
    using h(2) by (auto simp: history_edits_def)
  ultimately show ?thesis using undo_entry_ok [OF ok t clock, of ?h] h(1) by (simp add: buffer_undo_def)
qed

lemma buffer_redo_ok:
  assumes ok: "buffer_ok U ins base b" "buffer_fits b" and t: "undo_fits (transaction_of e) b" "counts_below (- 1) (transaction_of e) b"
    and clock: "lamport_value (lamport_clock b) \<noteq> - 1" and h: "transaction_depth (buf_history b) = 0" "redo_stack (buf_history b) = rs @ [e]"
  shows "\<exists>b'. buffer_redo b = Some (b', Some (entry_id e, UndoOp (undo_op_of (transaction_of e) b))) \<and> toggles U ins base (transaction_of e) b b' \<and>
    undo_stack (buf_history b') = undo_stack (buf_history b) @ [e] \<and> redo_stack (buf_history b') = rs \<and> transaction_depth (buf_history b') = 0"
proof -
  let ?h = "(buf_history b)\<lparr>redo_stack := rs, undo_stack := undo_stack (buf_history b) @ [e]\<rparr>"
  have "on_history pop_redo b = Some (b\<lparr>buf_history := ?h\<rparr>, Some e)"
    using h by (simp add: on_history_def pop_redo_def list_last_def)
  moreover have "history_edits ?h = history_edits (buf_history b)" "set (edit_ids (transaction_of e)) \<subseteq> history_edits ?h"
    using h(2) by (auto simp: history_edits_def)
  ultimately show ?thesis using undo_entry_ok [OF ok t clock, of ?h] h(1) by (simp add: buffer_redo_def)
qed

section \<open>Undoing and redoing restores the text\<close>

lemma core_visible_text:
  "map core xs = map core ys \<Longrightarrow> cells_text ins (filter (cell_visible m) xs) = cells_text ins (filter (cell_visible m) ys)"
proof (induction xs arbitrary: ys)
  case (Cons x xs)
  then obtain y ys' where ys: "ys = y # ys'" by (cases ys) auto
  then have "cell_visible m x = cell_visible m y" using Cons.prems core_sel [of x y] by simp
  then show ?case using Cons ys by (auto simp: cells_text_def core_def)
qed simp

lemma buffer_text_visible:
  assumes "buffer_ok U ins base b"
  shows "buffer_text b = cells_text ins (filter (cell_visible (snap_undo_map (snapshot b))) (buffer_cells b))"
proof -
  have "buffer_text b = cells_text ins (vis (buffer_cells b))" "\<forall>c \<in> set (buffer_cells b). c_visible c = cell_visible (snap_undo_map (snapshot b)) c"
    using assms by (simp_all add: buffer_ok_def snapshot_ok_def visibility_ok_def)
  then show ?thesis using filter_cong [OF refl, of "buffer_cells b" c_visible] by metis
qed

lemma toggle_twice:
  assumes "buffer_ok U ins base b" "toggles U ins base t b b1" "toggles U ins base t b1 b2"
  shows "buffer_text b2 = buffer_text b"
proof -
  have "undone (snap_undo_map (snapshot b2)) = undone (snap_undo_map (snapshot b))"
    using assms(2,3) by (simp add: toggles_def fun_eq_iff)
  then have "cell_visible (snap_undo_map (snapshot b2)) = cell_visible (snap_undo_map (snapshot b))" by (simp add: cell_visible_def fun_eq_iff)
  moreover have tx: "buffer_text b2 = cells_text ins (filter (cell_visible (snap_undo_map (snapshot b2))) (buffer_cells b1))"
    and eq: "map core (buffer_cells b1) = map core (buffer_cells b)" using assms(2,3) by (simp_all add: toggles_def)
  ultimately show ?thesis unfolding buffer_text_visible [OF assms(1)] tx using core_visible_text [OF eq] by simp
qed

lemma untouched_visible:
  assumes "\<not> touched ts c" "\<And>e. e \<noteq> ts \<Longrightarrow> undone m' e = undone m e"
  shows "cell_visible m' c = cell_visible m c"
  using assms unfolding cell_visible_def touched_def by metis

lemma spec_undone_text:
  assumes "local_spec ts pos off full R es N rs" "\<forall>c \<in> set R. \<not> touched ts c \<and> c_visible c = cell_visible m c"
    and "undone m' ts" "\<And>e. e \<noteq> ts \<Longrightarrow> undone m' e = undone m e"
  shows "cells_text ins (filter (cell_visible m') N) = cells_text ins (vis R)"
  using assms(1,2)
proof (induction rule: local_spec.induct)
  case (spec_end pos off full R)
  have "cell_visible m' c = c_visible c" if "c \<in> set R" for c
    using spec_end that untouched_visible [OF _ assms(4)] by blast
  then show ?case using filter_cong [OF refl, of R] by metis
next
  case (spec_edit pos s A e B off t full R es N rs)
  have same: "cell_visible m' c = c_visible c" if "c \<in> set A" for c
    using spec_edit.prems that untouched_visible [OF _ assms(4)] by auto
  have kill: "cell_visible m' (kill ts c) = c_visible c" if "c \<in> set B" for c
  proof -
    have "\<not> touched ts c" "c_visible c = cell_visible m c" using spec_edit.prems that by auto
    moreover from this(1) have "cell_visible m' c = cell_visible m c" by (rule untouched_visible [OF _ assms(4)])
    ultimately show ?thesis using assms(3) by (auto simp: cell_visible_def kill_def)
  qed
  have B: "cells_text ins (filter (cell_visible m') (map (kill ts) B)) = cells_text ins (vis B)"
    using kill by (induction B) (auto simp: cells_text_def kill_def)
  have A: "filter (cell_visible m') A = vis A" by (rule filter_cong [OF refl same])
  have "filter (cell_visible m') (new_cells ts off (length t)) = []" using assms(3) by (auto simp: filter_empty_conv new_cells_def cell_visible_def)
  then show ?case using A B spec_edit by simp
qed

lemma undo_redo_ok:
  assumes ok: "buffer_ok U ins base b" "buffer_fits b" and t: "undo_fits (transaction_of e) b" "counts_below (- 2) (transaction_of e) b"
    and clock: "lamport_value (lamport_clock b) < - 2" and h: "transaction_depth (buf_history b) = 0" "undo_stack (buf_history b) = us @ [e]"
  shows "\<exists>b1. buffer_undo b = Some (b1, Some (entry_id e, UndoOp (undo_op_of (transaction_of e) b))) \<and> toggles U ins base (transaction_of e) b b1 \<and>
    undo_stack (buf_history b1) = us \<and> redo_stack (buf_history b1) = redo_stack (buf_history b) @ [e] \<and>
    (buffer_fits b1 \<and> undo_fits (transaction_of e) b1 \<longrightarrow>
      (\<exists>b2. buffer_redo b1 = Some (b2, Some (entry_id e, UndoOp (undo_op_of (transaction_of e) b1))) \<and> toggles U ins base (transaction_of e) b1 b2 \<and>
        buffer_text b2 = buffer_text b \<and> undo_stack (buf_history b2) = undo_stack (buf_history b) \<and> redo_stack (buf_history b2) = redo_stack (buf_history b)))"
proof -
  let ?t = "transaction_of e" and ?n = "\<lambda>b x. max_count (tree_items (snap_undo_map (snapshot b))) x (\<lambda>_. True)"
  have room: "counts_below (- 1) ?t b" using t(2) clock_room(1) unfolding counts_below_def by (meson word_order.not_eq_extremum)
  obtain b1 where b1: "buffer_undo b = Some (b1, Some (entry_id e, UndoOp (undo_op_of ?t b)))" "toggles U ins base ?t b b1"
    "undo_stack (buf_history b1) = us" "redo_stack (buf_history b1) = redo_stack (buf_history b) @ [e]" "transaction_depth (buf_history b1) = 0"
    using buffer_undo_ok [OF ok t(1) room clock_room(1) [OF clock] h] by blast
  have "?n b1 x = ?n b x + 1" if "x \<in> set (edit_ids ?t)" for x using b1(2) that by (simp add: toggles_def)
  then have counts: "counts_below (- 1) ?t b1"
    using t(2) clock_room(2) unfolding counts_below_def by (metis word_order.not_eq_extremum)
  have c1: "lamport_value (lamport_clock b1) \<noteq> - 1" "buffer_ok U ins base b1"
    using b1(2) clock_room(2) [OF clock] by (simp_all add: toggles_def tick_def)
  have "\<exists>b2. buffer_redo b1 = Some (b2, Some (entry_id e, UndoOp (undo_op_of ?t b1))) \<and> toggles U ins base ?t b1 b2 \<and>
        buffer_text b2 = buffer_text b \<and> undo_stack (buf_history b2) = undo_stack (buf_history b) \<and> redo_stack (buf_history b2) = redo_stack (buf_history b)"
    if fits: "buffer_fits b1 \<and> undo_fits ?t b1"
  proof -
    obtain b2 where b2: "buffer_redo b1 = Some (b2, Some (entry_id e, UndoOp (undo_op_of ?t b1)))" "toggles U ins base ?t b1 b2"
      "undo_stack (buf_history b2) = undo_stack (buf_history b1) @ [e]" "redo_stack (buf_history b2) = redo_stack (buf_history b)"
      using buffer_redo_ok [OF c1(2) _ _ counts c1(1) b1(5,4)] fits by blast
    then show ?thesis using toggle_twice [OF ok(1) b1(2) b2(2)] b1(3) h(2) by simp
  qed
  then show ?thesis using b1 by blast
qed

lemma edit_undo_ok:
  fixes b :: buffer and es :: "(nat \<times> nat \<times> str) list"
  defines "x \<equiv> buffer_text b"
  defines "es' \<equiv> normal_clip_edits x es" and "ts \<equiv> edit_timestamp b"
  assumes ok: "buffer_ok U ins base b" "buffer_fits b" "transaction_depth (buf_history b) = 0" and clock: "lamport_value (lamport_clock b) < - 3"
    and es: "edits_ok x 0 (clip_edits x es)" "es \<noteq> []" and group: "ungrouped (buf_history b) now"
  shows "\<exists>b1 op e. buffer_edit now later es b = Some (b1, EditOp op) \<and> buffer_text b1 = spliced 0 x es' \<and>
    undo_stack (buf_history b1) = undo_stack (buf_history b) @ [e] \<and> edit_ids (transaction_of e) = [ts] \<and>
    (buffer_fits b1 \<and> undo_fits (transaction_of e) b1 \<longrightarrow>
      (\<exists>b2. buffer_undo b1 = Some (b2, Some (entry_id e, UndoOp (undo_op_of (transaction_of e) b1))) \<and>
        buffer_ok U (ins(ts := edit_texts es')) base b2 \<and> buffer_text b2 = x \<and>
        undo_stack (buf_history b2) = undo_stack (buf_history b) \<and> redo_stack (buf_history b2) = [e]))"
proof -
  let ?s = "snapshot b" and ?I = "ins(ts := edit_texts es')"
  have room: "lamport_value (lamport_clock b) < - 2" "lamport_value (lamport_clock b) + 2 \<noteq> - 1"
  proof -
    show "lamport_value (lamport_clock b) < - 2" by (rule less_trans [OF clock]) simp
    show "lamport_value (lamport_clock b) + 2 \<noteq> - 1"
    proof
      assume "lamport_value (lamport_clock b) + 2 = - 1"
      then have "lamport_value (lamport_clock b) = - 3" by (simp add: eq_diff_eq [symmetric])
      then show False using clock by simp
    qed
  qed
  obtain b1 op e where b1: "buffer_edit now later es b = Some (b1, EditOp op)" "buffer_ok U ?I base b1" "buffer_text b1 = spliced 0 x es'"
    "local_spec ts 0 0 0 (buffer_cells b) es' (buffer_cells b1) (op_ranges op)" "snap_undo_map (snapshot b1) = snap_undo_map ?s"
    "lamport_clock b1 = fst (tick ts)" "transaction_depth (buf_history b1) = 0" "redo_stack (buf_history b1) = []"
    "undo_stack (buf_history b1) = undo_stack (buf_history b) @ [e]" "edit_ids (transaction_of e) = [ts]"
    using buffer_edit_ok [OF ok room(1), of es now later] es group unfolding x_def es'_def ts_def by blast
  note bk = ok(1) [unfolded buffer_ok_def]
  have tsv: "lamport_replica ts = lamport_replica (lamport_clock b)" "lamport_value ts = lamport_value (lamport_clock b) + 1"
    by (simp_all add: ts_def edit_timestamp_def tick_def)
  have le: "lamport_value (lamport_clock b) \<le> lamport_value ts" unfolding tsv(2) using word_less_Suc [OF clock_room(1) [OF room(1)]] by simp
  have fresh: "fresh ts ?s" "\<And>u. undo_map_abs (snap_undo_map ?s) ts u = None" using clock_fresh [of U ins ?s "lamport_clock b" ts] bk tsv(1) le by auto
  have snap: "snapshot_ok U ?I ?s" using snapshot_ok_update [of U ins ?s ts] bk fresh(1) by blast
  then have vis: "x = cells_text ?I (vis (buffer_cells b))" "\<forall>c \<in> set (buffer_cells b). \<not> touched ts c \<and> c_visible c = cell_visible (snap_undo_map ?s) c"
    "undo_map_ok (snap_undo_map ?s)" using fresh(1) by (simp_all add: x_def snapshot_ok_def visibility_ok_def fresh_def)
  have zero: "max_count (tree_items (snap_undo_map ?s)) ts (\<lambda>_. True) = 0" "\<not> undone (snap_undo_map ?s) ts"
    using undone_None [OF vis(3) fresh(2)] by simp_all
  have "counts_below (- 1) (transaction_of e) b1" using zero(1) b1(5,10) by (simp add: counts_below_def word_gt_0)
  moreover have "lamport_value (lamport_clock b1) \<noteq> - 1" using room(2) by (simp add: b1(6) tick_def tsv(2) add.assoc)
  ultimately have "\<exists>b2. buffer_undo b1 = Some (b2, Some (entry_id e, UndoOp (undo_op_of (transaction_of e) b1))) \<and>
        buffer_ok U ?I base b2 \<and> buffer_text b2 = x \<and>
        undo_stack (buf_history b2) = undo_stack (buf_history b) \<and> redo_stack (buf_history b2) = [e]"
    if fits: "buffer_fits b1 \<and> undo_fits (transaction_of e) b1"
  proof -
    obtain b2 where b2: "buffer_undo b1 = Some (b2, Some (entry_id e, UndoOp (undo_op_of (transaction_of e) b1)))"
      "toggles U ?I base (transaction_of e) b1 b2" "undo_stack (buf_history b2) = undo_stack (buf_history b)" "redo_stack (buf_history b2) = [e]"
      using buffer_undo_ok [OF b1(2) _ _ _ _ b1(7,9)] fits \<open>counts_below (- 1) (transaction_of e) b1\<close> \<open>lamport_value (lamport_clock b1) \<noteq> - 1\<close> b1(8) by auto
    let ?m = "snap_undo_map (snapshot b2)"
    have "undone ?m ts" "\<And>x. x \<noteq> ts \<Longrightarrow> undone ?m x = undone (snap_undo_map ?s) x" using b2(2) b1(5,10) zero(2) by (simp_all add: toggles_def)
    then have "buffer_text b2 = x" using b2(2) spec_undone_text [OF b1(4) vis(2), of ?m ?I] unfolding vis(1) toggles_def by simp
    then show ?thesis using b2 unfolding toggles_def by blast
  qed
  then show ?thesis using b1(1,3,9,10) by (intro exI [of _ b1] exI [of _ op] exI [of _ e]) blast
qed

end
