(* ===== verification/Buffer_Delivery.thy ===== *)
theory Buffer_Delivery
  imports Buffer_Session
begin

text \<open>
  Operations of other replicas that change nothing: those the buffer has seen already, and those that wait for operations
  it has not seen.  The former are dropped, the latter stay in the queue.
\<close>

definition inert :: "global \<Rightarrow> operation \<Rightarrow> bool" where
  "inert v op \<longleftrightarrow> global_observed v (operation_timestamp op) \<or> \<not> observed_all v (operation_version op)"

abbreviation buffer_version :: "buffer \<Rightarrow> global" where "buffer_version b \<equiv> snap_version (snapshot b)"

abbreviation stamps :: "buffer \<Rightarrow> lamport set" where "stamps b \<equiv> operation_timestamp ` set (tree_items (deferred_ops b))"

text \<open>The parts of a buffer that operations of the two kinds leave alone.\<close>

definition same_state :: "buffer \<Rightarrow> buffer \<Rightarrow> bool" where
  "same_state b b' \<longleftrightarrow> snapshot b' = snapshot b \<and> buf_history b' = buf_history b \<and> deferred_ops b' = deferred_ops b \<and>
     buf_subscriptions b' = buf_subscriptions b \<and> lamport_clock b' = lamport_clock b"

lemma same_state_trans: "same_state a b \<Longrightarrow> same_state b c \<Longrightarrow> same_state a c"
  by (simp add: same_state_def)

lemma apply_seen_op: "global_observed (buffer_version b) (operation_timestamp op) \<Longrightarrow> apply_op op b = Some (notify_version b)"
  by (cases op) (simp_all add: apply_op_def)

text \<open>
  Which of a list of operations still wait: those the version does not cover, and those that follow a waiting operation of
  the same replica.
\<close>

fun still_waiting :: "global \<Rightarrow> replica_id set \<Rightarrow> operation list \<Rightarrow> operation list" where
  "still_waiting v R [] = []"
| "still_waiting v R (op # ops) =
     (if operation_replica_id op \<notin> R \<and> observed_all v (operation_version op) then still_waiting v R ops
      else op # still_waiting v (insert (operation_replica_id op) R) ops)"

lemma still_waiting_subset: "set (still_waiting v R ops) \<subseteq> set ops"
  by (induction v R ops rule: still_waiting.induct) auto

lemma still_waiting_sorted:
  "sorted_wrt (<) (map f ops) \<Longrightarrow> sorted_wrt (<) (map f (still_waiting v R ops))" for f :: "operation \<Rightarrow> lamport"
proof (induction v R ops rule: still_waiting.induct)
  case (2 v R op ops)
  then show ?case using still_waiting_subset [of v "insert (operation_replica_id op) R" ops] by auto
qed simp

lemma apply_or_defer_inert:
  assumes "inert (buffer_version b) op"
  shows "\<exists>b'. apply_or_defer op (b, d) = Some (b', d @ still_waiting (buffer_version b) (deferred_replicas b) [op]) \<and> same_state b b' \<and>
    deferred_replicas b' = deferred_replicas b \<union> operation_replica_id ` set (still_waiting (buffer_version b) (deferred_replicas b) [op])"
proof (cases "can_apply_op b op")
  case True
  then have "apply_op op b = Some (notify_version b)" using assms apply_seen_op by (simp add: inert_def can_apply_op_def split: if_splits)
  then show ?thesis using True by (simp add: apply_or_defer_def same_state_def notify_version_def Let_def can_apply_op_def split: if_splits)
next
  case False
  then show ?thesis by (auto simp: apply_or_defer_def same_state_def can_apply_op_def split: if_splits)
qed

lemma flush_loop_inert:
  assumes "\<forall>op \<in> set ops. inert (buffer_version b) op"
  shows "\<exists>b'. flush_loop ops (b, d) = Some (b', d @ still_waiting (buffer_version b) (deferred_replicas b) ops) \<and> same_state b b' \<and>
    deferred_replicas b' = deferred_replicas b \<union> operation_replica_id ` set (still_waiting (buffer_version b) (deferred_replicas b) ops)"
  using assms
proof (induction ops arbitrary: b d)
  case Nil
  then show ?case by (simp add: same_state_def)
next
  case (Cons op ops)
  let ?v = "buffer_version b" and ?R = "deferred_replicas b"
  obtain b1 where b1: "apply_or_defer op (b, d) = Some (b1, d @ still_waiting ?v ?R [op])" "same_state b b1"
    "deferred_replicas b1 = ?R \<union> operation_replica_id ` set (still_waiting ?v ?R [op])"
    using apply_or_defer_inert [of b op d] Cons.prems by auto
  have v: "buffer_version b1 = ?v" using b1(2) by (simp add: same_state_def)
  obtain b2 where b2: "flush_loop ops (b1, d @ still_waiting ?v ?R [op]) =
      Some (b2, (d @ still_waiting ?v ?R [op]) @ still_waiting ?v (deferred_replicas b1) ops)" "same_state b1 b2"
    "deferred_replicas b2 = deferred_replicas b1 \<union> operation_replica_id ` set (still_waiting ?v (deferred_replicas b1) ops)"
    using Cons.IH [of b1 "d @ still_waiting ?v ?R [op]"] Cons.prems v by auto
  show ?case using b1 b2 same_state_trans [OF b1(2) b2(2)] by (intro exI [of _ b2]) (auto split: if_splits)
qed

lemma flush_inert:
  assumes q: "queue_ok operation_timestamp (deferred_ops b)" "node_height (deferred_ops b) < STACK_CAP"
    and inert: "\<forall>op \<in> set (tree_items (deferred_ops b)). inert (buffer_version b) op"
  shows "\<exists>b'. flush_deferred_ops b = Some b' \<and> snapshot b' = snapshot b \<and> buf_history b' = buf_history b \<and>
    buf_subscriptions b' = buf_subscriptions b \<and> lamport_clock b' = lamport_clock b \<and> queue_ok operation_timestamp (deferred_ops b') \<and>
    tree_items (deferred_ops b') = still_waiting (buffer_version b) {} (tree_items (deferred_ops b)) \<and>
    deferred_replicas b' = operation_replica_id ` set (tree_items (deferred_ops b'))"
proof -
  let ?q = "deferred_ops b" and ?new = "queue_new operation_timestamp" and ?b = "b\<lparr>deferred_replicas := {}, deferred_ops := queue_new operation_timestamp\<rparr>"
  let ?d = "still_waiting (buffer_version b) {} (tree_items ?q)"
  have iter: "queue_iter ?q (Suc (queue_len ?q)) = Some (tree_items ?q)"
    using queue_iter_ok [OF q] queue_len_ok [of operation_timestamp ?q] q(1) by (simp add: queue_ok_def)
  obtain b1 where b1: "flush_loop (tree_items ?q) (?b, []) = Some (b1, ?d)" "same_state ?b b1"
    "deferred_replicas b1 = operation_replica_id ` set ?d"
    using flush_loop_inert [of "tree_items ?q" ?b "[]"] inert by auto
  have new: "node_height ?new < STACK_CAP" by (simp add: queue_new_def tree_new_def STACK_CAP_def)
  have above: "\<forall>op \<in> set ?d. lamport_MIN < operation_timestamp op"
    using q(1) still_waiting_subset [of "buffer_version b" "{}" "tree_items ?q"] by (auto simp: queue_ok_def)
  have "sorted_wrt (<) (map operation_timestamp ?d)" using q(1) by (intro still_waiting_sorted) (simp add: queue_ok_def sorted_wrt_map)
  then obtain q' where q': "queue_insert operation_timestamp ?new ?d = Some q'" "queue_ok operation_timestamp q'" "tree_items q' = ?d"
    using queue_insert_ok [OF queue_new_ok(1) new above] by (auto simp: queue_new_ok(2) queued_sorted)
  have "flush_deferred_ops b = Some (b1\<lparr>deferred_ops := q'\<rparr>)"
    using iter b1(1,2) q'(1) by (simp add: flush_deferred_ops_def queue_drain_def insert_deferred_def same_state_def)
  then show ?thesis using b1(2,3) q'(2,3) by (intro exI [of _ "b1\<lparr>deferred_ops := q'\<rparr>"]) (simp add: same_state_def)
qed

text \<open>The queue when a delivered operation has been applied or deferred, before the queue is flushed.\<close>

definition queue_with :: "buffer \<Rightarrow> operation \<Rightarrow> operation list" where
  "queue_with b op = queued operation_timestamp (still_waiting (buffer_version b) (deferred_replicas b) [op]) (tree_items (deferred_ops b))"

lemma apply_inert_op:
  assumes h: "map_ok (operations (buf_history b))" "node_height (operations (buf_history b)) < STACK_CAP"
    and q: "queue_ok operation_timestamp (deferred_ops b)" "node_height (deferred_ops b) < STACK_CAP"
    and fits: "\<And>q. queue_insert operation_timestamp (deferred_ops b) [op] = Some q \<Longrightarrow> node_height q < STACK_CAP"
    and inert: "\<forall>x \<in> insert op (set (tree_items (deferred_ops b))). inert (buffer_version b) x"
    and above: "lamport_MIN < operation_timestamp op"
  shows "\<exists>b' h. apply_ops [op] b = Some b' \<and> history_push (buf_history b) op = Some h \<and> buf_history b' = h \<and> snapshot b' = snapshot b \<and>
    buf_subscriptions b' = buf_subscriptions b \<and> lamport_clock b' = lamport_clock b \<and> queue_ok operation_timestamp (deferred_ops b') \<and>
    tree_items (deferred_ops b') = still_waiting (buffer_version b) {} (queue_with b op) \<and>
    deferred_replicas b' = operation_replica_id ` set (tree_items (deferred_ops b'))"
proof -
  obtain ops where ops: "map_insert (operations (buf_history b)) (operation_timestamp op) op = Some ops"
    using map_insert_correct [OF h] by blast
  define hist where "hist = (buf_history b)\<lparr>operations := ops\<rparr>"
  have push: "history_push (buf_history b) op = Some hist" using ops by (simp add: history_push_def hist_def)
  let ?b = "b\<lparr>buf_history := hist\<rparr>" and ?d = "still_waiting (buffer_version b) (deferred_replicas b) [op]"
  have iop: "inert (buffer_version b) op" using inert by simp
  obtain b1 where b1: "apply_or_defer op (?b, []) = Some (b1, ?d)" "same_state ?b b1"
    using apply_or_defer_inert [of ?b op "[]"] iop by auto
  have d: "?d \<in> {[], [op]}" by simp
  have b1q: "deferred_ops b1 = deferred_ops b" "snapshot b1 = snapshot b" using b1(2) by (simp_all add: same_state_def)
  have "\<forall>x \<in> set ?d. lamport_MIN < operation_timestamp x" using above by simp
  then obtain q' where q': "queue_insert operation_timestamp (deferred_ops b) ?d = Some q'" "queue_ok operation_timestamp q'"
    "set (tree_items q') \<subseteq> set (tree_items (deferred_ops b)) \<union> set ?d" "tree_items q' = queue_with b op"
    using queue_insert_ok [OF q] unfolding queue_with_def by blast
  have q'h: "node_height q' < STACK_CAP"
  proof (cases "?d = []")
    case True
    then show ?thesis using q'(1) q(2) by (simp add: queue_insert_def tree_edit_def assert_that_def split: if_splits)
  next
    case False
    with d have "?d = [op]" by blast
    then show ?thesis using q'(1) fits by metis
  qed
  let ?b1 = "b1\<lparr>deferred_ops := q'\<rparr>"
  have "\<forall>x \<in> set (tree_items q'). inert (buffer_version b) x" using q'(3) d inert by (auto split: if_splits)
  then have in1: "\<forall>x \<in> set (tree_items (deferred_ops ?b1)). inert (buffer_version ?b1) x" using b1q by simp
  have ok1: "queue_ok operation_timestamp (deferred_ops ?b1)" "node_height (deferred_ops ?b1) < STACK_CAP" using q'(2) q'h by simp_all
  obtain b2 where b2: "flush_deferred_ops ?b1 = Some b2" "snapshot b2 = snapshot b" "buf_history b2 = hist"
    "buf_subscriptions b2 = buf_subscriptions b" "lamport_clock b2 = lamport_clock b" "queue_ok operation_timestamp (deferred_ops b2)"
    "tree_items (deferred_ops b2) = still_waiting (buffer_version b) {} (queue_with b op)"
    "deferred_replicas b2 = operation_replica_id ` set (tree_items (deferred_ops b2))"
    using flush_inert [OF ok1 in1] b1(2) b1q q'(4) by (auto simp: same_state_def)
  have "apply_ops [op] b = Some b2" using push b1(1) q'(1) b1q b2(1) by (simp add: apply_ops_def insert_deferred_def)
  then show ?thesis using push b2 by blast
qed

text \<open>What waits stays: no operation that the version does not cover leaves the queue, unless the new one has its timestamp.\<close>

lemma still_waiting_keeps: "x \<in> set ops \<Longrightarrow> \<not> observed_all v (operation_version x) \<Longrightarrow> x \<in> set (still_waiting v R ops)"
  by (induction v R ops rule: still_waiting.induct) auto

lemma queue_with_keeps:
  assumes "queue_ok operation_timestamp (deferred_ops b)"
  shows "\<forall>x \<in> set (tree_items (deferred_ops b)). operation_timestamp x \<noteq> operation_timestamp op \<longrightarrow> x \<in> set (queue_with b op)"
    and "\<not> observed_all (buffer_version b) (operation_version op) \<longrightarrow> op \<in> set (queue_with b op)"
proof -
  have "sorted_wrt (<) (map operation_timestamp (tree_items (deferred_ops b)))" using assms by (simp add: queue_ok_def sorted_wrt_map)
  from queued_props(2) [OF this] show
    "\<forall>x \<in> set (tree_items (deferred_ops b)). operation_timestamp x \<noteq> operation_timestamp op \<longrightarrow> x \<in> set (queue_with b op)"
    "\<not> observed_all (buffer_version b) (operation_version op) \<longrightarrow> op \<in> set (queue_with b op)"
    by (auto simp: queue_with_def)
qed

lemma history_push_abs:
  assumes "map_ok (operations h)" "node_height (operations h) < STACK_CAP" "history_push h op = Some h'"
  shows "map_abs (operations h') = (map_abs (operations h))(operation_timestamp op \<mapsto> op)"
  using map_insert_correct [OF assms(1,2), of "operation_timestamp op" op] assms(3) by (auto simp: history_push_def)

end
