(* ===== verification/Buffer_Properties.thy ===== *)
theory Buffer_Properties
  imports Buffer_Delivery Rope_Properties
begin

text \<open>
  The properties of a buffer, each with a witness.  The witnesses start from an empty buffer made by \<open>Buffer::new\<close>.
\<close>

section \<open>An empty buffer\<close>

context keyed
begin

lemma tree_edit_single_height:
  assumes "tree_edit K (tree_new I) [Insert x] = Some (r, old)"
  shows "node_height r = 0"
proof -
  have wf: "wf_tree I (tree_new I)" "node_height (tree_new I) < STACK_CAP" by (simp_all add: tree_new_def STACK_CAP_def)
  have "ord_target (dim_zero D) (dim_zero D) \<noteq> Less" by (simp add: ord_target_def cmp_def)
  then obtain c b where c: "seek D (ord_target (dim_zero D)) Left (cursor_new D (tree_new I)) = Some (c, b)" "did_seek c" "cursor_at I D c [] []"
    using seek_ok [OF cursor_at_new [OF wf], of "ord_target (dim_zero D)" Left] by (auto simp: wf_tree_new seek_mono_def)
  have item: "cursor_item c = Some None" using cursor_at_item(1) [OF c(3,2)] by simp
  then have step: "edit_step K (Insert x) c (tree_new I) [] [] = Some (c, tree_new I, [x], [])"
    by (simp add: edit_step_def skip_key_def Let_def)
  obtain c' w where w: "suffix I D c = Some (c', w)" "wf_tree I w" "tree_items w = []" using suffix_ok [OF c(3)] by blast
  then have "tree_is_empty w" using tree_items_eq_Nil by blast
  then have "tree_append I u w = Some u \<or> tree_append I u w = Some w" for u by (cases w) (simp_all add: tree_append_def)
  moreover obtain u where "tree_extend I (tree_new I) [x] = Some u" "node_height u = 0"
    by (simp add: tree_extend_def from_iter_def chunks.simps [of _ "[x]"] build_levels.simps leaf_of_chunk_def tree_append_def tree_new_def
      arr_collect_def TREE_BASE_def assert_that_def list_last_def)
  moreover have "node_height w = 0" using \<open>tree_is_empty w\<close> by (cases w) simp_all
  ultimately show ?thesis using assms c(1) step w(1) unfolding tree_edit_def by (simp add: Let_def) (metis option.inject)
qed

end

lemma push_empty_str: "rope_push rope_new [] = Some rope_new"
  by (simp add: rope_push_def update_last_capturing_def rope_new_def tree_new_def tree_last_def update_last_def)

lemma rope_new_sliceable: "sliceable rope_new"
proof -
  have at: "rope_cursor_at c [] []" if "rope_cursor_ok c" "rc_rope c = rope_new" for c
    using that rope_cursor_at_facts(5) [of c] rope_new_ok unfolding rope_cursor_ok_def by (metis append_is_Nil_conv rope_empty_iff)
  have "node_height t < STACK_CAP"
    if c: "rope_cursor_ok c" "rc_rope c = rope_new" and k: "cursor_next offset_dim (rc_chunks c) = Some k"
      and n: "cursor_position k \<le> n" and t: "slice chunk_item offset_dim (ord_target n) Right k = Some (k', t)" for c n k k' t
  proof -
    have "cursor_at chunk_item offset_dim k [] []"
      using rope_offset.cursor_next_ok [of "rc_chunks c" "[]" "[]"] at [OF c] k by (auto simp: rope_cursor_at_def)
    from rope_offset.slice_ok [OF this, of "ord_target n" Right] have "wf_tree chunk_item t" "tree_items t = []"
      using n t by (auto simp: seek_mono_def)
    then have "tree_is_empty t" using tree_items_eq_Nil by blast
    then show ?thesis by (cases t) (simp_all add: STACK_CAP_def)
  qed
  moreover have "node_height u < STACK_CAP"
    if c: "rope_cursor_ok c" "rc_rope c = rope_new" and u: "rope_cursor_slice c n = Some (c', u)" for c n c' u
  proof -
    have "rope_len (rc_rope c) = 0" using rope_new_ok rope_len_ok c(2) by simp
    then have "u = rope_new" using u rope_cursor_at_facts(1-3) [OF at [OF c]]
      by (auto simp: rope_cursor_slice_def assert_that_def Let_def split: if_splits option.splits bind_splits)
    then show ?thesis by (simp add: rope_new_def tree_new_def STACK_CAP_def)
  qed
  moreover have "node_height rope_new < STACK_CAP" by (simp add: rope_new_def tree_new_def STACK_CAP_def)
  ultimately show ?thesis unfolding sliceable_def by blast
qed

definition sample_buffer :: buffer where
  "sample_buffer =
     \<lparr>snapshot = \<lparr>visible_text = rope_new, deleted_text = rope_new, fragments = tree_new fragment_item, insertions = tree_new insertion_item,
         insertion_slices = map_default, snap_undo_map = undo_map_default, snap_version = global_new, remote_id = 1,
         snap_replica_id = 0, snap_line_ending = Unix\<rparr>,
       buf_history = history_new rope_new, deferred_ops = queue_new operation_timestamp, deferred_replicas = {}, lamport_clock = lamport_new 0,
       buf_subscriptions = topic_default, edit_id_resolvers = [], wait_for_version_txs = [], notified = []\<rparr>"

lemma sample_buffer_new: "buffer_new 0 1 [] = Some sample_buffer"
  by (simp add: buffer_new_def rope_from_str_def push_empty_str new_normalized_def sample_buffer_def Let_def rope_is_empty_def rope_len_ok
    rope_new_ok new_state_empty_def line_ending_detect_def line_ending_default_def)

lemma sample_buffer_ok: "buffer_ok {} (base_texts []) (\<lambda>_. []) sample_buffer" "buffer_text sample_buffer = []"
  using buffer_new_ok [of "[]" 0 1] sample_buffer_new by (simp_all add: base_edits_def)

lemma sample_buffer_sel:
  "buf_history sample_buffer = history_new rope_new" "lamport_clock sample_buffer = Lamport 1 0" "deferred_ops sample_buffer = queue_new operation_timestamp"
  "snap_undo_map (snapshot sample_buffer) = undo_map_default" "buffer_version sample_buffer = global_new"
  by (simp_all add: sample_buffer_def lamport_new_def)

lemma sample_clock [simp]: "(1 :: u32) < - 2" "(1 :: u32) < - 3"
  by code_simp+

lemma sample_buffer_fits: "buffer_fits sample_buffer"
  using rope_new_sliceable
  by (simp add: buffer_fits_def snapshot_fits_def sample_buffer_def history_new_def map_default_def undo_map_default_def tree_new_def STACK_CAP_def)

text \<open>The empty buffer with a transaction on its undo stack.\<close>

definition sample_transaction :: transaction where
  "sample_transaction = \<lparr>tr_id = Lamport 4 7, edit_ids = [Lamport 5 7], tr_start = global_new\<rparr>"

definition sample_session :: buffer where
  "sample_session = sample_buffer\<lparr>buf_history := (history_new rope_new)\<lparr>undo_stack := [new_entry sample_transaction 0]\<rparr>\<rparr>"

lemma sample_session_ok: "buffer_ok {} (base_texts []) (\<lambda>_. []) sample_session" "buffer_fits sample_session"
  using sample_buffer_ok(1) sample_buffer_fits
  by (simp_all add: buffer_ok_def buffer_fits_def sample_session_def history_edits_def history_new_def new_entry_def sample_transaction_def
    sample_buffer_sel below_def)

lemma sample_session_undo: "undo_fits sample_transaction sample_session" "counts_below (- 2) sample_transaction sample_session"
proof -
  have "max_count (tree_items undo_map_default) e (\<lambda>_. True) = 0" for e by (simp add: undo_map_default_ok max_count_def)
  then show "counts_below (- 2) sample_transaction sample_session"
    by (simp add: counts_below_def sample_session_def sample_buffer_sel word_gt_0)
  show "undo_fits sample_transaction sample_session"
    using undo_tree.tree_edit_single_height
    by (auto simp: undo_fits_def undo_map_insert_def undo_op_of_def sample_transaction_def sample_session_def sample_buffer_sel
      undo_map_default_def STACK_CAP_def split: bind_splits)
qed

section \<open>Properties\<close>

text \<open>C1: \<open>Buffer::edit\<close> refines replacement of text: for edits in order, their offsets clipped to characters, it returns; the text
  becomes the old text with every range replaced by the new text, its line endings normalized; the bytes of the buffer change as
  the specification says, where the new text comes before what it replaces and replaced bytes are marked deleted, not removed; the
  operation carries the ranges in the full text; the edit is on top of the undo stack, observed by the version and stored; and the
  invariant of the buffer holds again.\<close>

theorem buffer_edit_splices:
  assumes "buffer_ok U ins base b" "buffer_fits b" "transaction_depth (buf_history b) = 0" "lamport_value (lamport_clock b) < - 2"
    and "edits_ok (buffer_text b) 0 (clip_edits (buffer_text b) es)" "es \<noteq> []"
  shows "\<exists>b' op. buffer_edit now later es b = Some (b', EditOp op) \<and> op_timestamp op = edit_timestamp b \<and>
    op_version op = buffer_version b \<and> op_new_text op = map (\<lambda>(_, _, t). line_ending_normalize t) es \<and>
    buffer_text b' = spliced 0 (buffer_text b) (normal_clip_edits (buffer_text b) es) \<and>
    local_spec (edit_timestamp b) 0 0 0 (buffer_cells b) (normal_clip_edits (buffer_text b) es) (buffer_cells b') (op_ranges op) \<and>
    buffer_ok U (ins(edit_timestamp b := edit_texts (normal_clip_edits (buffer_text b) es))) base b' \<and>
    buffer_version b' = global_observe (buffer_version b) (edit_timestamp b) \<and> redo_stack (buf_history b') = [] \<and>
    stack_edits (undo_stack (buf_history b')) = stack_edits (undo_stack (buf_history b)) @ [edit_timestamp b] \<and>
    map_abs (operations (buf_history b')) = (map_abs (operations (buf_history b)))(edit_timestamp b \<mapsto> EditOp op)"
proof -
  have "map (\<lambda>(_, _, t). t) (normal_clip_edits (buffer_text b) es) = map (\<lambda>(_, _, t). line_ending_normalize t) es" by auto
  then show ?thesis using buffer_edit_ok [OF assms(1-6), of now later] by metis
qed

theorem buffer_edit_splices_witness:
  "\<exists>b' op. buffer_edit 0 1 [(0, 0, [0x61])] sample_buffer = Some (b', EditOp op) \<and> buffer_text b' = [0x61] \<and> redo_stack (buf_history b') = []"
proof -
  have clip: "clip_edits [] [(0, 0, [0x61])] = [(0, 0, [0x61])]" "normal_clip_edits [] [(0, 0, [0x61])] = [(0, 0, [0x61])]"
    by (simp_all add: str_floor_char_boundary_def)
  have "utf8 [0x61]" by (simp add: utf8_def)
  then show ?thesis
    using buffer_edit_splices [OF sample_buffer_ok(1) sample_buffer_fits, of "[(0, 0, [0x61])]" 0 1] clip
    by (simp add: sample_buffer_ok(2) sample_buffer_sel history_new_def) metis
qed

text \<open>C3: undoing an edit restores the text: an edit whose transaction is not merged with an earlier one, followed by \<open>undo\<close>, gives
  the text and the undo stack from before it, moves the transaction to the redo stack, and keeps the invariant.\<close>

theorem edit_then_undo:
  assumes "buffer_ok U ins base b" "buffer_fits b" "transaction_depth (buf_history b) = 0" "lamport_value (lamport_clock b) < - 3"
    and "edits_ok (buffer_text b) 0 (clip_edits (buffer_text b) es)" "es \<noteq> []" "ungrouped (buf_history b) now"
  shows "\<exists>b1 op e. buffer_edit now later es b = Some (b1, EditOp op) \<and>
    buffer_text b1 = spliced 0 (buffer_text b) (normal_clip_edits (buffer_text b) es) \<and>
    undo_stack (buf_history b1) = undo_stack (buf_history b) @ [e] \<and>
    (buffer_fits b1 \<and> undo_fits (transaction_of e) b1 \<longrightarrow>
      (\<exists>b2 ins'. buffer_undo b1 = Some (b2, Some (entry_id e, UndoOp (undo_op_of (transaction_of e) b1))) \<and> buffer_ok U ins' base b2 \<and>
        buffer_text b2 = buffer_text b \<and> undo_stack (buf_history b2) = undo_stack (buf_history b) \<and> redo_stack (buf_history b2) = [e]))"
  using edit_undo_ok [OF assms, of later] by blast

theorem edit_then_undo_witness:
  "\<exists>b1 op e. buffer_edit 0 1 [(0, 0, [0x61])] sample_buffer = Some (b1, EditOp op) \<and> buffer_text b1 = [0x61] \<and> undo_stack (buf_history b1) = [e]"
proof -
  have clip: "clip_edits [] [(0, 0, [0x61])] = [(0, 0, [0x61])]" "normal_clip_edits [] [(0, 0, [0x61])] = [(0, 0, [0x61])]"
    by (simp_all add: str_floor_char_boundary_def)
  have "utf8 [0x61]" by (simp add: utf8_def)
  then show ?thesis
    using edit_then_undo [OF sample_buffer_ok(1) sample_buffer_fits, of "[(0, 0, [0x61])]" 0 1] clip
    by (simp add: sample_buffer_ok(2) sample_buffer_sel history_new_def ungrouped_def) metis
qed

text \<open>C2: \<open>undo\<close> returns and turns the edits of the last transaction from not undone to undone, or back, and the text to that of
  the bytes whose insertion is not undone and whose deletions all are; \<open>redo\<close> after it restores the text and both stacks.\<close>

theorem undo_then_redo:
  assumes "buffer_ok U ins base b" "buffer_fits b" "undo_fits (transaction_of e) b" "counts_below (- 2) (transaction_of e) b"
    and "lamport_value (lamport_clock b) < - 2" "transaction_depth (buf_history b) = 0" "undo_stack (buf_history b) = us @ [e]"
  shows "\<exists>b1. buffer_undo b = Some (b1, Some (entry_id e, UndoOp (undo_op_of (transaction_of e) b))) \<and> toggles U ins base (transaction_of e) b b1 \<and>
    undo_stack (buf_history b1) = us \<and> redo_stack (buf_history b1) = redo_stack (buf_history b) @ [e] \<and>
    (buffer_fits b1 \<and> undo_fits (transaction_of e) b1 \<longrightarrow>
      (\<exists>b2. buffer_redo b1 = Some (b2, Some (entry_id e, UndoOp (undo_op_of (transaction_of e) b1))) \<and>
        buffer_ok U ins base b2 \<and> buffer_text b2 = buffer_text b \<and>
        undo_stack (buf_history b2) = undo_stack (buf_history b) \<and> redo_stack (buf_history b2) = redo_stack (buf_history b)))"
  using undo_redo_ok [OF assms] unfolding toggles_def by blast

theorem undo_then_redo_witness:
  "\<exists>b1 op. buffer_undo sample_session = Some (b1, Some (Lamport 4 7, op)) \<and> undo_stack (buf_history b1) = [] \<and>
    undone (snap_undo_map (snapshot b1)) (Lamport 5 7)"
proof -
  have e: "transaction_of (new_entry sample_transaction 0) = sample_transaction" "entry_id (new_entry sample_transaction 0) = Lamport 4 7"
    by (simp_all add: new_entry_def entry_id_def sample_transaction_def)
  have s: "lamport_clock sample_session = Lamport 1 0" "transaction_depth (buf_history sample_session) = 0"
    "undo_stack (buf_history sample_session) = [] @ [new_entry sample_transaction 0]" "\<not> undone (snap_undo_map (snapshot sample_session)) (Lamport 5 7)"
    by (simp_all add: sample_session_def sample_buffer_sel history_new_def undo_map_default_ok)
  have "Lamport 5 7 \<in> set (edit_ids sample_transaction)" by (simp add: sample_transaction_def)
  then show ?thesis
    using undo_then_redo [OF sample_session_ok, of "new_entry sample_transaction 0" "[]"] sample_session_undo e s
    by (auto simp: toggles_def)
qed

text \<open>C4: a new buffer holds the given text with its line endings normalized and remembers which they were; the loop that cuts the
  text into fragments returns; the buffer satisfies the invariant and has nothing to undo.\<close>

theorem buffer_new_holds_text:
  assumes "utf8 t"
  shows "\<exists>b. buffer_new replica bid t = Some b \<and> buffer_text b = line_ending_normalize t \<and>
    buffer_ok (base_edits (line_ending_normalize t)) (base_texts (line_ending_normalize t)) (\<lambda>_. []) b \<and>
    snap_line_ending (snapshot b) = line_ending_detect t \<and> 0x0D \<notin> set (buffer_text b) \<and>
    undo_stack (buf_history b) = [] \<and> redo_stack (buf_history b) = []"
  using buffer_new_ok [OF assms, of replica bid] normalize_no_cr [of t] by metis

theorem buffer_new_holds_text_witness:
  "\<exists>b. buffer_new 0 1 [0x61, 0x0D, 0x0A] = Some b \<and> buffer_text b = [0x61, 0x0A]"
proof -
  have "utf8 [0x61, 0x0D, 0x0A]" by (simp add: utf8_def) code_simp
  then show ?thesis using buffer_new_holds_text [of "[0x61, 0x0D, 0x0A]" 0 1] by auto
qed

text \<open>C5: an operation of another replica that the buffer has seen, or that depends on operations the buffer has not seen, leaves the
  text, the version and the clock as they are; it is stored in the history.  Afterwards the queue of deferred operations holds exactly
  those of the old queue and the new operation that still wait, in timestamp order: the ones the version does not cover and the later
  ones of the same replica.  In particular no queued operation that the version does not cover is lost, unless the new one has its
  timestamp, and the new one is queued if the version does not cover it.\<close>

theorem inert_operations:
  assumes "map_ok (operations (buf_history b))" "node_height (operations (buf_history b)) < STACK_CAP"
    and "queue_ok operation_timestamp (deferred_ops b)" "node_height (deferred_ops b) < STACK_CAP"
    and "\<And>q. queue_insert operation_timestamp (deferred_ops b) [op] = Some q \<Longrightarrow> node_height q < STACK_CAP"
    and "\<forall>x \<in> insert op (set (tree_items (deferred_ops b))). inert (buffer_version b) x" "lamport_MIN < operation_timestamp op"
  shows "\<exists>b'. apply_ops [op] b = Some b' \<and> snapshot b' = snapshot b \<and> buf_subscriptions b' = buf_subscriptions b \<and>
    lamport_clock b' = lamport_clock b \<and> map_abs (operations (buf_history b')) = (map_abs (operations (buf_history b)))(operation_timestamp op \<mapsto> op) \<and>
    queue_ok operation_timestamp (deferred_ops b') \<and>
    tree_items (deferred_ops b') = still_waiting (buffer_version b) {} (queue_with b op) \<and>
    deferred_replicas b' = operation_replica_id ` set (tree_items (deferred_ops b')) \<and>
    (\<forall>x \<in> set (tree_items (deferred_ops b)). \<not> observed_all (buffer_version b) (operation_version x) \<longrightarrow>
      operation_timestamp x \<noteq> operation_timestamp op \<longrightarrow> x \<in> set (tree_items (deferred_ops b'))) \<and>
    (\<not> observed_all (buffer_version b) (operation_version op) \<longrightarrow> op \<in> set (tree_items (deferred_ops b')))"
proof -
  obtain b' h where b': "apply_ops [op] b = Some b'" "history_push (buf_history b) op = Some h" "buf_history b' = h" "snapshot b' = snapshot b"
    "buf_subscriptions b' = buf_subscriptions b" "lamport_clock b' = lamport_clock b" "queue_ok operation_timestamp (deferred_ops b')"
    "tree_items (deferred_ops b') = still_waiting (buffer_version b) {} (queue_with b op)"
    "deferred_replicas b' = operation_replica_id ` set (tree_items (deferred_ops b'))"
    using apply_inert_op [OF assms] by blast
  note with_op = queue_with_keeps [OF assms(3), of op]
  show ?thesis using b' with_op still_waiting_keeps history_push_abs [OF assms(1,2) b'(2)] by (intro exI [of _ b']) auto
qed

theorem inert_operations_witness:
  "\<exists>b'. apply_ops [UndoOp \<lparr>undo_timestamp = Lamport 2 1, undo_version = [0, 1], undo_counts = []\<rparr>] sample_buffer = Some b' \<and>
    snapshot b' = snapshot sample_buffer \<and> deferred_replicas b' = {1} \<and>
    tree_items (deferred_ops b') = [UndoOp \<lparr>undo_timestamp = Lamport 2 1, undo_version = [0, 1], undo_counts = []\<rparr>]"
proof -
  let ?op = "UndoOp \<lparr>undo_timestamp = Lamport 2 1, undo_version = [0, 1], undo_counts = []\<rparr>"
  have fits: "node_height q < STACK_CAP" if "queue_insert operation_timestamp (deferred_ops sample_buffer) [?op] = Some q" for q
    using that queue_tree.tree_edit_single_height [of operation_timestamp ?op]
    by (auto simp: sample_buffer_sel queue_insert_def queue_new_def STACK_CAP_def split: bind_splits)
  have miss: "\<not> observed_all global_new [0, 1]" by (simp add: observed_all_def global_new_def)
  have items: "tree_items (deferred_ops sample_buffer) = []" by (simp add: sample_buffer_sel queue_new_ok)
  have inert: "\<forall>x \<in> insert ?op (set (tree_items (deferred_ops sample_buffer))). inert (buffer_version sample_buffer) x"
    unfolding items using miss by (simp add: inert_def sample_buffer_sel)
  have ok: "map_ok (operations (buf_history sample_buffer))" "node_height (operations (buf_history sample_buffer)) < STACK_CAP"
    "queue_ok operation_timestamp (deferred_ops sample_buffer)" "node_height (deferred_ops sample_buffer) < STACK_CAP"
    by (simp_all add: sample_buffer_sel history_new_def map_default_ok queue_new_ok) (simp_all add: map_default_def queue_new_def tree_new_def STACK_CAP_def)
  have above: "lamport_MIN < operation_timestamp ?op" by (simp add: lamport_MIN_def lamport_less_iff)
  have "queue_with sample_buffer ?op = [?op]" using miss by (simp add: queue_with_def queue_new_ok queued_sorted sample_buffer_sel)
  then show ?thesis using inert_operations [OF ok fits inert above] miss by (auto simp: sample_buffer_sel)
qed

end
