(* ===== verification/Anchor.thy ===== *)
theory Anchor
  imports Buffer_Ops
begin

text \<open>
  Anchors of \<open>crates/text/src/anchor.rs\<close> and their resolution in \<open>crates/text/src/text.rs\<close>.  An anchor names a position by the insertion that its byte came with and the offset in
  that insertion.  Offsets are natural numbers, debug assertions are off, and \<open>None\<close> is a panic.
\<close>

section \<open>Anchors\<close>

record anchor =
  timestamp_replica_id :: replica_id
  timestamp_value :: seq
  anchor_offset :: nat
  anchor_bias :: bias
  anchor_buffer_id :: buffer_id

definition u32_MAX :: nat where "u32_MAX = 2 ^ 32 - 1"

definition anchor_new :: "lamport \<Rightarrow> nat \<Rightarrow> bias \<Rightarrow> buffer_id \<Rightarrow> anchor" where
  "anchor_new timestamp offset b bid =
     \<lparr>timestamp_replica_id = lamport_replica timestamp, timestamp_value = lamport_value timestamp, anchor_offset = offset,
      anchor_bias = b, anchor_buffer_id = bid\<rparr>"

definition min_for_buffer :: "buffer_id \<Rightarrow> anchor" where
  "min_for_buffer bid =
     \<lparr>timestamp_replica_id = lamport_replica lamport_MIN, timestamp_value = lamport_value lamport_MIN, anchor_offset = 0,
      anchor_bias = Left, anchor_buffer_id = bid\<rparr>"

definition max_for_buffer :: "buffer_id \<Rightarrow> anchor" where
  "max_for_buffer bid =
     \<lparr>timestamp_replica_id = lamport_replica lamport_MAX, timestamp_value = lamport_value lamport_MAX, anchor_offset = u32_MAX,
      anchor_bias = Right, anchor_buffer_id = bid\<rparr>"

definition min_min_range_for_buffer :: "buffer_id \<Rightarrow> anchor \<times> anchor" where
  "min_min_range_for_buffer bid = (min_for_buffer bid, min_for_buffer bid)"

definition max_max_range_for_buffer :: "buffer_id \<Rightarrow> anchor \<times> anchor" where
  "max_max_range_for_buffer bid = (max_for_buffer bid, max_for_buffer bid)"

definition min_max_range_for_buffer :: "buffer_id \<Rightarrow> anchor \<times> anchor" where
  "min_max_range_for_buffer bid = (min_for_buffer bid, max_for_buffer bid)"

definition anchor_timestamp :: "anchor \<Rightarrow> lamport" where
  "anchor_timestamp a = Lamport (timestamp_value a) (timestamp_replica_id a)"

definition anchor_is_min :: "anchor \<Rightarrow> bool" where
  "anchor_is_min a \<longleftrightarrow> anchor_timestamp a = lamport_MIN \<and> anchor_offset a = 0 \<and> anchor_bias a = Left"

definition anchor_is_max :: "anchor \<Rightarrow> bool" where
  "anchor_is_max a \<longleftrightarrow> anchor_timestamp a = lamport_MAX \<and> anchor_offset a = u32_MAX \<and> anchor_bias a = Right"

text \<open>The bytes that identify an anchor in a message: its fields in little-endian order, the bias and a zero byte.\<close>

definition le_bytes :: "nat \<Rightarrow> 'a::len word \<Rightarrow> u8 list" where
  "le_bytes n w = map (\<lambda>i. ucast (drop_bit (8 * i) w)) [0 ..< n]"

definition bias_u8 :: "bias \<Rightarrow> u8" where
  "bias_u8 b = (case b of Left \<Rightarrow> 0 | Right \<Rightarrow> 1)"

definition opaque_id :: "anchor \<Rightarrow> u8 list" where
  "opaque_id a = le_bytes 8 (anchor_buffer_id a) @ le_bytes 4 (of_nat (anchor_offset a) :: u32) @ le_bytes 4 (timestamp_value a) @
     le_bytes 2 (timestamp_replica_id a) @ [bias_u8 (anchor_bias a), 0]"

section \<open>Resolving anchors\<close>

definition try_find_fragment :: "buffer_snapshot \<Rightarrow> anchor \<Rightarrow> insertion_fragment option option" where
  "try_find_fragment s a = do {
     let anchor_key = (anchor_timestamp a, anchor_offset a);
     r \<leftarrow> find_with_prev (key_dim insertion_keyed) (ord_target anchor_key) (anchor_bias a) (insertions s);
     (case r of
        (_, _, Some (prev, insertion)) \<Rightarrow>
          let comparison = cmp (insertion_fragment_key insertion) anchor_key in
          Some (if comparison = Greater \<or> anchor_bias a = Left \<and> comparison = Equal \<and> 0 < anchor_offset a
            then prev else Some insertion)
      | _ \<Rightarrow> tree_last (insertions s)) }"

definition try_fragment_id_for_anchor :: "buffer_snapshot \<Rightarrow> anchor \<Rightarrow> locator option option" where
  "try_fragment_id_for_anchor s a =
     (if anchor_is_min a then Some (Some locator_min)
      else if anchor_is_max a then Some (Some locator_max)
      else do { item \<leftarrow> try_find_fragment s a; Some (map_option if_fragment_id item) })"

definition fragment_id_for_anchor :: "buffer_snapshot \<Rightarrow> anchor \<Rightarrow> locator option" where
  "fragment_id_for_anchor s a = do { l \<leftarrow> try_fragment_id_for_anchor s a; l }"

definition find_by_id :: "buffer_snapshot \<Rightarrow> locator \<Rightarrow> (locator option \<times> nat) \<times> (locator option \<times> nat) \<times> fragment option" where
  "find_by_id s l = find undo_fragment_dim (fst_target (ord_target (Some l))) Left (fragments s)"

definition offset_for_anchor :: "buffer_snapshot \<Rightarrow> anchor \<Rightarrow> nat option" where
  "offset_for_anchor s a =
     (if anchor_is_min a then Some 0
      else if anchor_is_max a then Some (rope_len (visible_text s))
      else do {
        item \<leftarrow> try_find_fragment s a;
        insertion \<leftarrow> item;
        assert_that (if_timestamp insertion = anchor_timestamp a);
        let (start, _, item) = find_by_id s (if_fragment_id insertion);
        fragment \<leftarrow> item;
        Some (if fr_visible fragment then snd start + (anchor_offset a - if_split_offset insertion) else snd start) })"

definition text_summary_for_range :: "'d text_dimension \<Rightarrow> buffer_snapshot \<Rightarrow> nat \<Rightarrow> nat \<Rightarrow> 'd option" where
  "text_summary_for_range T s start end = do {
     start \<leftarrow> usize_to_offset (visible_text s) start;
     c \<leftarrow> rope_cursor_new (visible_text s) start;
     end \<leftarrow> usize_to_offset (visible_text s) end;
     (_, d) \<leftarrow> rope_cursor_summary T c end;
     Some d }"

definition summary_for_anchor :: "'d text_dimension \<Rightarrow> buffer_snapshot \<Rightarrow> anchor \<Rightarrow> 'd option" where
  "summary_for_anchor T s a = do { n \<leftarrow> offset_for_anchor s a; text_summary_for_range T s 0 n }"

definition anchor_to_offset :: "buffer_snapshot \<Rightarrow> anchor \<Rightarrow> nat option" where
  "anchor_to_offset s a = summary_for_anchor offset_td s a"

definition anchor_to_point :: "buffer_snapshot \<Rightarrow> anchor \<Rightarrow> point option" where
  "anchor_to_point s a = summary_for_anchor point_td s a"

definition anchor_to_point_utf16 :: "buffer_snapshot \<Rightarrow> anchor \<Rightarrow> point_utf16 option" where
  "anchor_to_point_utf16 s a = summary_for_anchor point_utf16_td s a"

definition anchor_to_offset_utf16 :: "buffer_snapshot \<Rightarrow> anchor \<Rightarrow> offset_utf16 option" where
  "anchor_to_offset_utf16 s a = summary_for_anchor offset_utf16_td s a"

text \<open>
  \<open>summaries_for_anchors_with_payload\<close> resolves many anchors with one cursor on the fragments and one on the text; its closure is
  a step on the two cursors and the position.
\<close>

record 'd anchors_state =
  as_fragment_cursor :: "(fragment, fragment_summary, locator option \<times> nat) cursor"
  as_text_cursor :: rope_cursor
  as_position :: 'd

definition anchors_step :: "'d text_dimension \<Rightarrow> buffer_snapshot \<Rightarrow> anchor \<Rightarrow> 'd anchors_state \<Rightarrow> ('d anchors_state \<times> 'd) option" where
  "anchors_step T s a st =
     (if anchor_is_min a then Some (st, dim_zero (td_dim T))
      else if anchor_is_max a then Some (st, td_from_text_summary T (rope_summary (visible_text s)))
      else do {
        item \<leftarrow> try_find_fragment s a;
        insertion \<leftarrow> item;
        assert_that (if_timestamp insertion = anchor_timestamp a);
        (c, _) \<leftarrow> seek_forward undo_fragment_dim (fst_target (ord_target (Some (if_fragment_id insertion)))) Left (as_fragment_cursor st);
        item \<leftarrow> cursor_item c;
        fragment \<leftarrow> item;
        let start = snd (cursor_start c);
        let fragment_offset = (if fr_visible fragment then start + (anchor_offset a - if_split_offset insertion) else start);
        (text_cursor, d) \<leftarrow> rope_cursor_summary T (as_text_cursor st) fragment_offset;
        let position = td_add T (as_position st) d;
        Some (\<lparr>as_fragment_cursor = c, as_text_cursor = text_cursor, as_position = position\<rparr>, position) })"

fun anchors_loop :: "'d text_dimension \<Rightarrow> buffer_snapshot \<Rightarrow> (anchor \<times> 'p) list \<Rightarrow> 'd anchors_state \<Rightarrow> ('d \<times> 'p) list option" where
  "anchors_loop T s [] st = Some []"
| "anchors_loop T s ((a, payload) # as) st = do {
     (st, d) \<leftarrow> anchors_step T s a st;
     ds \<leftarrow> anchors_loop T s as st;
     Some ((d, payload) # ds) }"

definition summaries_for_anchors_with_payload :: "'d text_dimension \<Rightarrow> buffer_snapshot \<Rightarrow> (anchor \<times> 'p) list \<Rightarrow> ('d \<times> 'p) list option" where
  "summaries_for_anchors_with_payload T s as = do {
     text_cursor \<leftarrow> rope_cursor_new (visible_text s) 0;
     anchors_loop T s as \<lparr>as_fragment_cursor = cursor_new undo_fragment_dim (fragments s), as_text_cursor = text_cursor,
       as_position = dim_zero (td_dim T)\<rparr> }"

definition summaries_for_anchors :: "'d text_dimension \<Rightarrow> buffer_snapshot \<Rightarrow> anchor list \<Rightarrow> 'd list option" where
  "summaries_for_anchors T s as = map_option (map fst) (summaries_for_anchors_with_payload T s (map (\<lambda>a. (a, ())) as))"

section \<open>Making anchors\<close>

definition anchor_at_offset :: "buffer_snapshot \<Rightarrow> nat \<Rightarrow> bias \<Rightarrow> anchor option" where
  "anchor_at_offset s offset b =
     (if b = Left \<and> offset = 0 then Some (min_for_buffer (remote_id s))
      else if b = Right \<and> rope_len (visible_text s) \<le> offset then Some (max_for_buffer (remote_id s))
      else do {
        ok \<leftarrow> rope_assert_char_boundary False (visible_text s) offset;
        let offset = (if ok then offset
          else (case b of Left \<Rightarrow> rope_floor_char_boundary (visible_text s) offset
                | Right \<Rightarrow> rope_ceil_char_boundary (visible_text s) offset));
        (case find visible_dim (ord_target offset) b (fragments s) of
           (start, _, Some fragment) \<Rightarrow>
             Some (anchor_new (fr_timestamp fragment) (insertion_offset fragment + (offset - start)) b (remote_id s))
         | (_, _, None) \<Rightarrow> Some (max_for_buffer (remote_id s))) })"

definition anchor_at :: "buffer_snapshot \<Rightarrow> nat \<Rightarrow> bias \<Rightarrow> anchor option" where
  "anchor_at s position b = do { n \<leftarrow> usize_to_offset (visible_text s) position; anchor_at_offset s n b }"

definition anchor_before :: "buffer_snapshot \<Rightarrow> nat \<Rightarrow> anchor option" where
  "anchor_before s position = anchor_at s position Left"

definition anchor_after :: "buffer_snapshot \<Rightarrow> nat \<Rightarrow> anchor option" where
  "anchor_after s position = anchor_at s position Right"

definition anchor_range_inside :: "buffer_snapshot \<Rightarrow> nat \<Rightarrow> nat \<Rightarrow> (anchor \<times> anchor) option" where
  "anchor_range_inside s start end = do { a \<leftarrow> anchor_after s start; b \<leftarrow> anchor_before s end; Some (a, b) }"

definition anchor_range_outside :: "buffer_snapshot \<Rightarrow> nat \<Rightarrow> nat \<Rightarrow> (anchor \<times> anchor) option" where
  "anchor_range_outside s start end = do { a \<leftarrow> anchor_before s start; b \<leftarrow> anchor_after s end; Some (a, b) }"

definition can_resolve :: "buffer_snapshot \<Rightarrow> anchor \<Rightarrow> bool" where
  "can_resolve s a \<longleftrightarrow> anchor_is_min a \<or> anchor_is_max a \<or>
     remote_id s = anchor_buffer_id a \<and> global_observed (snap_version s) (anchor_timestamp a)"

text \<open>The position of an anchor as an argument of \<open>anchor_before\<close> and \<open>anchor_after\<close>.\<close>

definition bias_left :: "buffer_snapshot \<Rightarrow> anchor \<Rightarrow> anchor option" where
  "bias_left s a = (case anchor_bias a of Left \<Rightarrow> Some a
     | Right \<Rightarrow> do { n \<leftarrow> anchor_to_offset s a; anchor_at_offset s n Left })"

definition bias_right :: "buffer_snapshot \<Rightarrow> anchor \<Rightarrow> anchor option" where
  "bias_right s a = (case anchor_bias a of Left \<Rightarrow> do { n \<leftarrow> anchor_to_offset s a; anchor_at_offset s n Right }
     | Right \<Rightarrow> Some a)"

definition with_bias :: "buffer_snapshot \<Rightarrow> anchor \<Rightarrow> bias \<Rightarrow> anchor option" where
  "with_bias s a b = (case b of Left \<Rightarrow> bias_left s a | Right \<Rightarrow> bias_right s a)"

definition anchor_is_valid :: "buffer_snapshot \<Rightarrow> anchor \<Rightarrow> bool option" where
  "anchor_is_valid s a =
     (if anchor_is_min a \<or> anchor_is_max a then Some True
      else if anchor_buffer_id a \<noteq> remote_id s then Some False
      else do {
        fragment_id \<leftarrow> try_fragment_id_for_anchor s a;
        Some (case fragment_id of
           None \<Rightarrow> False
         | Some l \<Rightarrow> (case find_by_id s l of (_, _, Some f) \<Rightarrow> fr_visible f | _ \<Rightarrow> False)) })"

section \<open>Comparing anchors\<close>

definition anchor_cmp :: "buffer_snapshot \<Rightarrow> anchor \<Rightarrow> anchor \<Rightarrow> ordering option" where
  "anchor_cmp s a b = do {
     fragment_id_comparison \<leftarrow>
       (if anchor_timestamp a = anchor_timestamp b then Some Equal
        else do { l \<leftarrow> fragment_id_for_anchor s a; r \<leftarrow> fragment_id_for_anchor s b; Some (cmp l r) });
     Some (then_with (then_with fragment_id_comparison (cmp (anchor_offset a) (anchor_offset b)))
       (cmp (bias_u8 (anchor_bias a)) (bias_u8 (anchor_bias b)))) }"

definition anchor_min :: "buffer_snapshot \<Rightarrow> anchor \<Rightarrow> anchor \<Rightarrow> anchor option" where
  "anchor_min s a b = do { c \<leftarrow> anchor_cmp s a b; Some (if c \<noteq> Greater then a else b) }"

definition anchor_max :: "buffer_snapshot \<Rightarrow> anchor \<Rightarrow> anchor \<Rightarrow> anchor option" where
  "anchor_max s a b = do { c \<leftarrow> anchor_cmp s a b; Some (if c \<noteq> Less then a else b) }"

definition anchor_range_cmp :: "buffer_snapshot \<Rightarrow> anchor \<times> anchor \<Rightarrow> anchor \<times> anchor \<Rightarrow> ordering option" where
  "anchor_range_cmp s a b = do {
     c \<leftarrow> anchor_cmp s (fst a) (fst b);
     if c = Equal then anchor_cmp s (snd b) (snd a) else Some c }"

definition anchor_range_overlaps :: "buffer_snapshot \<Rightarrow> anchor \<times> anchor \<Rightarrow> anchor \<times> anchor \<Rightarrow> bool option" where
  "anchor_range_overlaps s a b = do {
     c \<leftarrow> anchor_cmp s (fst a) (snd b);
     if c = Less then do { d \<leftarrow> anchor_cmp s (fst b) (snd a); Some (d = Less) } else Some False }"

definition contains_anchor :: "buffer_snapshot \<Rightarrow> anchor \<times> anchor \<Rightarrow> anchor \<Rightarrow> bool option" where
  "contains_anchor s r a = do {
     c \<leftarrow> anchor_cmp s (fst r) a;
     if c \<noteq> Greater then do { d \<leftarrow> anchor_cmp s (snd r) a; Some (d \<noteq> Less) } else Some False }"

section \<open>Ranges of anchors\<close>

definition range_to_offset :: "buffer_snapshot \<Rightarrow> anchor \<times> anchor \<Rightarrow> (nat \<times> nat) option" where
  "range_to_offset s r = do { start \<leftarrow> anchor_to_offset s (fst r); end \<leftarrow> anchor_to_offset s (snd r); Some (start, end) }"

definition range_to_point :: "buffer_snapshot \<Rightarrow> anchor \<times> anchor \<Rightarrow> (point \<times> point) option" where
  "range_to_point s r = do {
     start \<leftarrow> anchor_to_offset s (fst r);
     end \<leftarrow> anchor_to_offset s (snd r);
     Some (rope_offset_to_point (visible_text s) start, rope_offset_to_point (visible_text s) end) }"

definition range_to_point_utf16 :: "buffer_snapshot \<Rightarrow> anchor \<times> anchor \<Rightarrow> (point_utf16 \<times> point_utf16) option" where
  "range_to_point_utf16 s r = do {
     start \<leftarrow> anchor_to_offset s (fst r);
     end \<leftarrow> anchor_to_offset s (snd r);
     Some (rope_offset_to_point_utf16 (visible_text s) start, rope_offset_to_point_utf16 (visible_text s) end) }"

section \<open>Waiting for anchors\<close>

fun wait_for_anchors :: "anchor list \<Rightarrow> nat \<Rightarrow> buffer \<Rightarrow> buffer \<times> nat list" where
  "wait_for_anchors [] channel b = (b, [])"
| "wait_for_anchors (a # as) channel b =
     (if \<not> global_observed (snap_version (snapshot b)) (anchor_timestamp a) \<and> \<not> anchor_is_max a \<and> \<not> anchor_is_min a
      then let (b, futures) = wait_for_anchors as (Suc channel)
             (b\<lparr>edit_id_resolvers := add_resolver (anchor_timestamp a) channel (edit_id_resolvers b)\<rparr>)
           in (b, channel # futures)
      else wait_for_anchors as channel b)"

end
