(* ===== verification/Anchor_Correct.thy ===== *)
theory Anchor_Correct
  imports Anchor Buffer_Session
begin

text \<open>
  Anchors in terms of the bytes of a buffer: an anchor made at a position names the byte after the position, or before it for an
  anchor that leans left, and it resolves to where that byte is, whether visible or deleted.
\<close>

section \<open>Finding the fragment of an anchor\<close>

lemma list_last_takeWhile:
  assumes "sorted_wrt (\<lambda>x y. k x < k y) xs" "x \<in> set xs" "Q x" "\<And>y. y \<in> set xs \<Longrightarrow> k y < k x \<Longrightarrow> Q y"
    and "\<And>y. y \<in> set xs \<Longrightarrow> k x < k y \<Longrightarrow> \<not> Q y"
  shows "list_last (takeWhile Q xs) = Some x"
proof -
  obtain as bs where xs: "xs = as @ x # bs" using split_list [OF assms(2)] by blast
  have "\<forall>y \<in> set as. Q y" using assms(1,4) xs by (auto simp: sorted_wrt_append)
  then have "takeWhile Q xs = as @ x # takeWhile Q bs" using assms(3) xs by simp
  moreover have "takeWhile Q bs = []" using assms(1,5) xs by (cases bs) (auto simp: sorted_wrt_append)
  ultimately show ?thesis by simp
qed

lemma anchor_new_sel [simp]:
  "anchor_timestamp (anchor_new ts n b bid) = ts" "anchor_offset (anchor_new ts n b bid) = n" "anchor_bias (anchor_new ts n b bid) = b"
  "anchor_buffer_id (anchor_new ts n b bid) = bid"
  by (cases ts; simp add: anchor_timestamp_def anchor_new_def)+

lemma try_find_fragment_scan:
  assumes "index_ok s" "b = Left \<Longrightarrow> 0 < n"
  shows "try_find_fragment s (anchor_new ts n b bid) =
    Some (list_last (takeWhile (\<lambda>x. target_past (ord_target (ts, n)) b (ikey x)) (tree_items (insertions s))))"
proof -
  let ?P = "target_past (ord_target (ts, n)) b" and ?xs = "tree_items (insertions s)" and ?D = "key_dim insertion_keyed"
  let ?ys = "takeWhile (\<lambda>x. ?P (ikey x)) ?xs" and ?zs = "dropWhile (\<lambda>x. ?P (ikey x)) ?xs"
  have wf: "wf_tree insertion_item (insertions s)" and sorted: "key_sorted insertion_keyed ?xs" using assms(1) by (simp_all add: index_ok_def)
  have from0: "insertion_tree.sorted_from (dim_zero ?D) ?xs" using sorted insertion_tree.zero_least by simp
  have split: "seek_split insertion_item ?D ?P (dim_zero ?D) ?xs = (?ys, ?zs)"
    using insertion_tree.seek_split_key [OF from0, of ?P] by simp
  note found = insertion_tree.find_with_prev_ok [unfolded insertion_keyed_simps, OF wf
    insertion_tree.key_seek_mono [unfolded insertion_keyed_simps, OF from0 [unfolded insertion_keyed_simps]], of "(ts, n)" b]
  show ?thesis
  proof (cases ?zs)
    case Nil
    then have "?ys = ?xs" by (metis append_Nil2 takeWhile_dropWhile_id)
    moreover have "tree_last (insertions s) = Some (list_last ?xs)" using insertion_tree.tree_last_ok [unfolded insertion_keyed_simps, OF wf] .
    ultimately have last: "tree_last (insertions s) = Some (list_last ?ys)" by metis
    have "try_find_fragment s (anchor_new ts n b bid) = tree_last (insertions s)"
      using found split Nil by (simp add: try_find_fragment_def scan_prev_def)
    then show ?thesis using last by (rule trans)
  next
    case (Cons z zs)
    then have z: "\<not> ?P (ikey z)" by (metis dropWhile_eq_Cons_conv)
    have "cmp (ikey z) (ts, n) = Greater \<or> b = Left \<and> cmp (ikey z) (ts, n) = Equal \<and> 0 < n"
      using z assms(2) by (cases b) (auto simp: insertion_tree.past_left insertion_tree.past_right cmp_def)
    then show ?thesis using found split Cons by (auto simp: try_find_fragment_def scan_prev_def Let_def)
  qed
qed

text \<open>The entry of the index that an anchor in a fragment finds is that of the fragment.\<close>

definition attached :: "fragment \<Rightarrow> nat \<Rightarrow> bias \<Rightarrow> bool" where
  "attached f n b \<longleftrightarrow> (case b of Left \<Rightarrow> insertion_offset f < n \<and> n \<le> insertion_offset f + fr_len f
     | Right \<Rightarrow> insertion_offset f \<le> n \<and> n < insertion_offset f + fr_len f)"

lemma fragment_ranges_disjoint:
  assumes "distinct (map cell_id (cells_of fs))" "f \<in> set fs" "g \<in> set fs" "0 < fr_len g" "fr_timestamp g = fr_timestamp f"
    and "insertion_offset f < insertion_offset g"
  shows "insertion_offset f + fr_len f \<le> insertion_offset g"
proof (rule ccontr)
  assume "\<not> ?thesis"
  then have mem: "fragment_key g \<in> cell_id ` set (fragment_cells h)" if "h \<in> {f, g}" for h
    using that assms(4-6) by (force simp: fragment_key_def fragment_cells_def cell_id_def image_iff)
  obtain as bs where fs: "fs = as @ f # bs" using split_list [OF assms(2)] by blast
  have "f \<noteq> g" using assms(6) by auto
  then have "g \<in> set as \<union> set bs" using assms(3) fs by auto
  then have "fragment_key g \<in> cell_id ` set (cells_of as) \<union> cell_id ` set (cells_of bs)" using mem [of g] by (auto simp: cells_of_def)
  moreover have "(cell_id ` set (cells_of as) \<union> cell_id ` set (cells_of bs)) \<inter> cell_id ` set (fragment_cells f) = {}"
    using assms(1) unfolding fs cells_simps map_append distinct_append set_append set_map by blast
  ultimately show False using mem [of f] by blast
qed

lemma try_find_fragment_ok:
  assumes ok: "snapshot_ok U ins s" and f: "f \<in> set (items s)" "attached f n b"
  shows "try_find_fragment s (anchor_new (fr_timestamp f) n b bid) = Some (Some (insertion_fragment_new f))"
proof -
  let ?Q = "\<lambda>x. target_past (ord_target (fr_timestamp f, n)) b (ikey x)" and ?xs = "tree_items (insertions s)"
  have ix: "index_ok s" and d: "distinct (map cell_id (cells_of (items s)))" and frs: "\<forall>f \<in> set (items s). fragment_ok ins f"
    using ok by (simp_all add: snapshot_ok_def)
  then have sorted: "sorted_wrt (\<lambda>x y. ikey x < ikey y) ?xs" and set: "set ?xs = insertion_fragment_new ` set (items s)"
    by (simp_all add: index_ok_def)
  have Q: "?Q x \<longleftrightarrow> if_timestamp x < fr_timestamp f \<or> if_timestamp x = fr_timestamp f \<and> (case b of Left \<Rightarrow> if_split_offset x < n | Right \<Rightarrow> if_split_offset x \<le> n)"
    for x by (cases b) (auto simp: insertion_tree.past_left insertion_tree.past_right insertion_fragment_key_def)
  have "list_last (takeWhile ?Q ?xs) = Some (insertion_fragment_new f)"
  proof (rule list_last_takeWhile [OF sorted])
    show "insertion_fragment_new f \<in> set ?xs" using set f(1) by simp
    show "?Q (insertion_fragment_new f)" unfolding Q using f(2) by (cases b) (simp_all add: insertion_fragment_new_def attached_def)
    show "?Q y" if "ikey y < ikey (insertion_fragment_new f)" for y
      using that f(2) unfolding Q by (cases b) (auto simp: insertion_fragment_key_def insertion_fragment_new_def attached_def)
    show "\<not> ?Q y" if y: "y \<in> set ?xs" "ikey (insertion_fragment_new f) < ikey y" for y
    proof -
      obtain g where g: "g \<in> set (items s)" "y = insertion_fragment_new g" using y(1) set by blast
      have "fr_timestamp f < fr_timestamp g \<or> fr_timestamp g = fr_timestamp f \<and> insertion_offset f < insertion_offset g"
        using y(2) g(2) by (auto simp: insertion_fragment_key_def insertion_fragment_new_def)
      moreover have "0 < fr_len g" using g(1) frs by (simp add: fragment_ok_def)
      ultimately show ?thesis
        using fragment_ranges_disjoint [OF d f(1) g(1)] f(2) g(2) unfolding Q
        by (cases b) (auto simp: insertion_fragment_new_def attached_def)
    qed
  qed
  moreover have "b = Left \<Longrightarrow> 0 < n" using f(2) by (simp add: attached_def)
  ultimately show ?thesis using try_find_fragment_scan [OF ix, of b n] by simp
qed

lemma find_by_id_ok:
  assumes ok: "snapshot_ok U ins s" and f: "items s = ys @ f # zs"
  shows "\<exists>start e. find_by_id s (fr_id f) = (start, e, Some f) \<and> snd start = vlen ys"
proof -
  let ?t = "fst_target (ord_target (Some (fr_id f))) :: locator option \<times> nat \<Rightarrow> ordering"
  have wf: "wf_tree fragment_item (fragments s)" and sorted: "sorted_wrt (<) (map fr_id (items s))" using ok by (simp_all add: snapshot_ok_def order_ok_def)
  have P: "target_past ?t Left = id_past (fr_id f)" by (simp add: target_past_def fst_target_def fun_eq_iff)
  have "\<not> tree_is_empty (fragments s)" using f tree_items_eq_Nil [OF wf] by auto
  then have "find_by_id s (fr_id f) = (case scan_result fragment_item undo_fragment_dim (id_past (fr_id f)) (dim_zero undo_fragment_dim) (items s) of
      (p, Some (x, e)) \<Rightarrow> (p, e, Some x) | (p, None) \<Rightarrow> (p, p, None))"
    using undo_seek.find_nonempty [OF wf, of ?t Left] undo_mono [OF sorted] unfolding P find_by_id_def by blast
  moreover have "takeWhile (\<lambda>g. fr_id g < fr_id f) (items s) = ys" "dropWhile (\<lambda>g. fr_id g < fr_id f) (items s) = f # zs"
    using sorted f by (simp_all add: sorted_wrt_append)
  moreover have "snd (dim_zero undo_fragment_dim) = 0" by (simp add: undo_fragment_dim_def dimensions2_def visible_dim_def)
  ultimately show ?thesis by (simp add: scan_result_def undo_split undo_pos del: pos_after_simps)
qed

section \<open>Resolving an anchor at a byte\<close>

text \<open>The anchor that leans to the byte \<open>c\<close>: to its left end when the anchor leans right, to its right end when it leans left.\<close>

definition cell_anchor :: "buffer_id \<Rightarrow> cell \<Rightarrow> bias \<Rightarrow> anchor" where
  "cell_anchor bid c b = anchor_new (c_timestamp c) (c_offset c + (if b = Left then 1 else 0)) b bid"

lemma cell_in_fragment:
  assumes "cells_of fs = P @ c # Q"
  obtains ys f zs P' Q' where "fs = ys @ f # zs" "P = cells_of ys @ P'" "fragment_cells f = P' @ c # Q'" "Q = Q' @ cells_of zs"
  using assms
proof (induction fs arbitrary: P thesis)
  case (Cons f fs)
  obtain us where "fragment_cells f = P @ us \<and> us @ cells_of fs = c # Q \<or> fragment_cells f @ us = P \<and> cells_of fs = us @ c # Q"
    using Cons.prems(2) unfolding cells_simps append_eq_append_conv2 by blast
  then consider us' where "fragment_cells f = P @ c # us'" "Q = us' @ cells_of fs"
    | P' where "P = fragment_cells f @ P'" "cells_of fs = P' @ c # Q"
    by (cases us) auto
  then show ?case
  proof cases
    case 1
    then show ?thesis using Cons.prems(1) [of "[]" f fs P us'] by simp
  next
    case 2
    obtain ys g zs P'' Q' where "fs = ys @ g # zs" "P' = cells_of ys @ P''" "fragment_cells g = P'' @ c # Q'" "Q = Q' @ cells_of zs"
      using Cons.IH [OF _ 2(2)] by blast
    then show ?thesis using Cons.prems(1) [of "f # ys" g zs P'' Q'] 2(1) by simp
  qed
qed simp

lemma cell_of_fragment:
  assumes "fragment_cells f = P @ c # Q"
  shows "c_timestamp c = fr_timestamp f" "c_offset c = insertion_offset f + length P" "c_visible c = fr_visible f" "length P < fr_len f"
    "vis P = (if fr_visible f then P else [])"
proof -
  have len: "fr_len f = length P + 1 + length Q" using arg_cong [OF assms, of length] by simp
  then show "length P < fr_len f" by simp
  have "c = fragment_cells f ! length P" using assms by simp
  also have "\<dots> = \<lparr>c_timestamp = fr_timestamp f, c_offset = insertion_offset f + length P, c_visible = fr_visible f,
      c_deletions = fr_deletions f, c_undos = max_undos f\<rparr>"
    using len by (simp add: fragment_cells_def del: upt_Suc)
  finally show "c_timestamp c = fr_timestamp f" "c_offset c = insertion_offset f + length P" "c_visible c = fr_visible f" by simp_all
  have "\<forall>d \<in> set P. c_visible d = fr_visible f" using fragment_cells_vis(1) assms by (metis Un_iff set_append)
  then show "vis P = (if fr_visible f then P else [])" using filter_all by blast
qed

lemma cell_anchor_ends:
  "\<not> anchor_is_min (cell_anchor bid c b)" "c_timestamp c \<noteq> lamport_MAX \<Longrightarrow> \<not> anchor_is_max (cell_anchor bid c b)"
  if "b = Left \<or> c_timestamp c \<noteq> lamport_MIN"
  using that by (cases b; simp add: anchor_is_min_def anchor_is_max_def cell_anchor_def)+

lemma no_min_cell: "snapshot_ok U ins s \<Longrightarrow> c \<in> set (cells_of (items s)) \<Longrightarrow> c_timestamp c \<noteq> lamport_MIN"
  by (force simp: snapshot_ok_def fragment_ok_def cells_of_def fragment_cells_def)

lemma resolve_cell:
  assumes ok: "snapshot_ok U ins s" and c: "cells_of (items s) = P @ c # Q" "c_timestamp c \<noteq> lamport_MAX"
  shows "offset_for_anchor s (cell_anchor bid c b) = Some (length (vis (if b = Left then P @ [c] else P)))"
proof -
  obtain ys f zs P' Q' where f: "items s = ys @ f # zs" "P = cells_of ys @ P'" "fragment_cells f = P' @ c # Q'"
    using cell_in_fragment [OF c(1)] by metis
  note cf = cell_of_fragment [OF f(3)]
  let ?n = "c_offset c + (if b = Left then 1 else 0)"
  have att: "attached f ?n b" using cf(2,4) by (cases b) (simp_all add: attached_def)
  have "try_find_fragment s (cell_anchor bid c b) = Some (Some (insertion_fragment_new f))"
    using try_find_fragment_ok [OF ok _ att, of bid] f(1) cf(1) by (simp add: cell_anchor_def)
  moreover obtain start e where "find_by_id s (fr_id f) = (start, e, Some f)" "snd start = vlen ys" using find_by_id_ok [OF ok f(1)] by blast
  moreover have "c_timestamp c \<noteq> lamport_MIN" using no_min_cell [OF ok] c(1) by simp
  ultimately show ?thesis
    using cell_anchor_ends [of b c bid] c(2) cf(1-3,5) f(2)
    by (simp add: offset_for_anchor_def insertion_fragment_new_def assert_that_def cell_anchor_def)
qed

section \<open>Making an anchor\<close>

lemma visible_pos: "pos_after fragment_item visible_dim d fs = d + vlen fs"
  by (induction fs arbitrary: d) (simp_all add: visible_dim_def)

lemma visible_dim_mono: "seek_mono fragment_item visible_dim (target_past (ord_target n) b) d fs"
  unfolding seek_mono_def visible_pos
  by (cases b) (auto simp: target_past_def ord_target_def cmp_def split: if_splits)

lemma seek_split_ends:
  assumes "seek_split I D P d xs = (ys, zs)"
  shows "ys \<noteq> [] \<Longrightarrow> P (pos_after I D d ys)" "zs \<noteq> [] \<Longrightarrow> \<not> P (pos_after I D d (ys @ [hd zs]))"
  using assms
proof (induction xs arbitrary: d ys)
  case (Cons x xs)
  {
    case 1
    then show ?case using Cons.IH(1) [where d = "dim_add D d (item_summary I x)"]
      by (cases "tl ys = []") (auto simp: Let_def split: if_splits prod.splits)
  next
    case 2
    then show ?case using Cons.IH(2) [where d = "dim_add D d (item_summary I x)"]
      by (auto simp: Let_def split: if_splits prod.splits)
  }
qed simp_all

lemma find_visible:
  assumes wf: "wf_tree fragment_item t" and n: "n \<le> vlen (tree_items t)" "b = Left \<Longrightarrow> 0 < n" "b = Right \<Longrightarrow> n < vlen (tree_items t)"
  obtains ys f zs e where "tree_items t = ys @ f # zs" "find visible_dim (ord_target n) b t = (vlen ys, e, Some f)" "fr_visible f"
    "vlen ys \<le> n" "n \<le> vlen ys + fr_len f" "b = Left \<Longrightarrow> vlen ys < n" "b = Right \<Longrightarrow> n < vlen ys + fr_len f"
proof -
  let ?P = "target_past (ord_target n) b"
  have P: "?P p \<longleftrightarrow> (case b of Left \<Rightarrow> p < n | Right \<Rightarrow> p \<le> n)" for p
    by (cases b) (auto simp: target_past_def ord_target_def cmp_def)
  have zero: "dim_zero visible_dim = 0" by (simp add: visible_dim_def)
  obtain ys zs where split: "seek_split fragment_item visible_dim ?P 0 (tree_items t) = (ys, zs)" by (cases "seek_split fragment_item visible_dim ?P 0 (tree_items t)")
  note ends = seek_split_ends [OF split, unfolded visible_pos P]
  have items: "tree_items t = ys @ zs" using seek_split_append [OF split] .
  have "zs \<noteq> []" using ends(1) items n by (cases b; cases ys) auto
  then obtain f fs where zs: "zs = f # fs" by (cases zs) auto
  have vf: "fr_visible f" using ends zs n by (cases b; cases "ys = []") (auto split: if_splits)
  have "find visible_dim (ord_target n) b t = (vlen ys, vlen (ys @ [f]), Some f)"
    using fragment_visible.find_ok [OF wf visible_dim_mono, of n b] split zs by (simp add: scan_result_def zero visible_pos del: pos_after_simps)
  moreover have "vlen ys \<le> n" "n \<le> vlen ys + fr_len f" "b = Left \<Longrightarrow> vlen ys < n" "b = Right \<Longrightarrow> n < vlen ys + fr_len f"
    using ends zs vf n by (cases b; cases "ys = []"; simp)+
  ultimately show thesis using that [of ys f fs] items zs vf by blast
qed

lemma anchor_at_cell:
  assumes ok: "snapshot_ok U ins s" and n: "str_is_char_boundary (rope_text (visible_text s)) n"
    and inner: "b = Left \<Longrightarrow> 0 < n" "b = Right \<Longrightarrow> n < length (rope_text (visible_text s))"
  shows "\<exists>P c Q. cells_of (items s) = P @ c # Q \<and> c_visible c \<and> length (vis (if b = Left then P @ [c] else P)) = n \<and>
    anchor_at_offset s n b = Some (cell_anchor (remote_id s) c b)"
proof -
  have s: "rope_ok (visible_text s)" "length (rope_text (visible_text s)) = vlen (items s)" "wf_tree fragment_item (fragments s)"
    using ok by (simp_all add: snapshot_ok_def)
  have le: "n \<le> vlen (items s)" using boundary_le [OF n] s(2) by simp
  obtain ys f zs e where f: "items s = ys @ f # zs" "find visible_dim (ord_target n) b (fragments s) = (vlen ys, e, Some f)" "fr_visible f"
    "vlen ys \<le> n" "n \<le> vlen ys + fr_len f" "b = Left \<Longrightarrow> vlen ys < n" "b = Right \<Longrightarrow> n < vlen ys + fr_len f"
    using find_visible [OF s(3) le] inner s(2) by metis
  define i where "i = (if b = Left then n - vlen ys - 1 else n - vlen ys)"
  have i: "i < fr_len f" "vlen ys + i + (if b = Left then 1 else 0) = n" using f(4-7) by (cases b; simp add: i_def)+
  let ?xs = "fragment_cells f"
  have split: "?xs = take i ?xs @ ?xs ! i # drop (Suc i) ?xs" using i(1) by (intro id_take_nth_drop) simp
  note cf = cell_of_fragment [OF split]
  have "cells_of (items s) = (cells_of ys @ take i ?xs) @ ?xs ! i # drop (Suc i) ?xs @ cells_of zs" using f(1) split by simp
  moreover have "length (vis (if b = Left then (cells_of ys @ take i ?xs) @ [?xs ! i] else cells_of ys @ take i ?xs)) = n"
    using cf(3,5) f(3) i by (cases b) simp_all
  moreover have "insertion_offset f + (n - vlen ys) = c_offset (?xs ! i) + (if b = Left then 1 else 0)" using cf(2) i by (cases b) auto
  then have "anchor_at_offset s n b = Some (cell_anchor (remote_id s) (?xs ! i) b)"
    using inner f(2) cf(1) rope_assert_ok [OF s(1), of n] n rope_len_ok [OF s(1)]
    by (cases b) (simp_all add: anchor_at_offset_def cell_anchor_def)
  ultimately show ?thesis using cf(3) f(3) by (intro exI [of _ "cells_of ys @ take i ?xs"] exI [of _ "?xs ! i"] exI [of _ "drop (Suc i) ?xs @ cells_of zs"]) simp
qed

text \<open>The ends of the buffer have anchors of their own.\<close>

lemma min_max_anchors [simp]:
  "anchor_is_min (min_for_buffer bid)" "anchor_is_max (max_for_buffer bid)" "\<not> anchor_is_min (max_for_buffer bid)"
  by (simp_all add: anchor_is_min_def anchor_is_max_def min_for_buffer_def max_for_buffer_def anchor_timestamp_def lamport_MIN_def lamport_MAX_def)

lemma anchor_at_ends:
  "anchor_at_offset s 0 Left = Some (min_for_buffer (remote_id s))" "offset_for_anchor s (min_for_buffer bid) = Some 0"
  "rope_ok (visible_text s) \<Longrightarrow> anchor_at_offset s (length (rope_text (visible_text s))) Right = Some (max_for_buffer (remote_id s))"
  "rope_ok (visible_text s) \<Longrightarrow> offset_for_anchor s (max_for_buffer bid) = Some (length (rope_text (visible_text s)))"
  by (simp_all add: anchor_at_offset_def offset_for_anchor_def rope_len_ok)

definition no_max_cell :: "buffer_snapshot \<Rightarrow> bool" where
  "no_max_cell s \<longleftrightarrow> (\<forall>c \<in> set (cells_of (items s)). c_timestamp c \<noteq> lamport_MAX)"

lemma anchor_at_resolves:
  assumes ok: "snapshot_ok U ins s" and n: "str_is_char_boundary (rope_text (visible_text s)) n" and m: "no_max_cell s"
  shows "\<exists>a. anchor_at_offset s n b = Some a \<and> offset_for_anchor s a = Some n"
proof -
  have rope: "rope_ok (visible_text s)" using ok by (simp add: snapshot_ok_def)
  consider "b = Left" "n = 0" | "b = Right" "n = length (rope_text (visible_text s))"
    | "b = Left \<Longrightarrow> 0 < n" "b = Right \<Longrightarrow> n < length (rope_text (visible_text s))"
    using boundary_le [OF n] by (cases b) force+
  then show ?thesis
  proof cases
    case 3
    then obtain P c Q where c: "cells_of (items s) = P @ c # Q" "length (vis (if b = Left then P @ [c] else P)) = n"
      "anchor_at_offset s n b = Some (cell_anchor (remote_id s) c b)"
      using anchor_at_cell [OF ok n] by blast
    then have "c_timestamp c \<noteq> lamport_MAX" using m by (simp add: no_max_cell_def)
    then show ?thesis using resolve_cell [OF ok c(1)] c(2,3) by simp
  qed (simp_all add: anchor_at_ends rope)
qed

section \<open>Anchors and edits\<close>

text \<open>
  Where an anchor at \<open>n\<close> is after a list of edits, counted from \<open>pos\<close>: in place before the first edit; behind the new text of an edit
  it is not before, and at the end of that text if its byte was deleted.
\<close>

fun follow :: "bias \<Rightarrow> nat \<Rightarrow> nat \<Rightarrow> (nat \<times> nat \<times> str) list \<Rightarrow> nat" where
  "follow b pos n [] = n - pos"
| "follow b pos n ((s, e, t) # es) = (if n < s \<or> n = s \<and> b = Left then n - pos else (s - pos) + length t + follow b e n es)"

lemma follow_before: "local_spec ts pos off full R es N rs \<Longrightarrow> n < pos \<or> n = pos \<and> b = Left \<Longrightarrow> follow b pos n es = 0"
  by (cases rule: local_spec.cases) auto

lemma kill_invisible [simp]: "\<not> c_visible (kill ts c)"
  by (simp add: kill_def)

lemma follow_end: "local_spec ts pos off full R es N rs \<Longrightarrow> length (vis N) = follow Right pos (pos + length (vis R)) es"
proof (induction rule: local_spec.induct)
  case (spec_edit pos s A e B off t full R es N rs)
  have "pos + length (vis (A @ B @ R)) = e + length (vis R)" using spec_edit(1-4) by simp
  then show ?case using spec_edit by (simp add: new_cells_sel)
qed simp

lemma follow_cell:
  assumes "local_spec ts pos off full R es N rs" "R = P @ c # Q" "c_visible c"
  shows "\<exists>P' c' Q'. N = P' @ c' # Q' \<and> cell_id c' = cell_id c \<and>
    length (vis (if b = Left then P' @ [c'] else P')) = follow b pos (pos + length (vis (if b = Left then P @ [c] else P))) es"
  using assms
proof (induction arbitrary: P rule: local_spec.induct)
  case (spec_end pos off full R)
  then show ?case by (intro exI [of _ P] exI [of _ c] exI [of _ Q]) simp
next
  case (spec_edit pos s A e B off t full R es N rs)
  let ?n = "pos + length (vis (if b = Left then P @ [c] else P))"
  let ?N = "A @ new_cells ts off (length t) @ map (kill ts) B @ N"
  consider (kept) Q1 where "A = P @ c # Q1" | (deleted) P1 Q1 where "P = A @ P1" "B = P1 @ c # Q1" | (later) P1 where "P = A @ B @ P1" "R = P1 @ c # Q"
    using spec_edit.prems(1) by (auto simp: append_eq_append_conv2 append_eq_Cons_conv Cons_eq_append_conv)
  then show ?case
  proof cases
    case kept
    have "length (vis P) < s - pos" using spec_edit(2) kept spec_edit.prems(2) by simp
    then have "follow b pos ?n ((s, e, t) # es) = ?n - pos" using spec_edit.prems(2) by (cases b) auto
    moreover have "?N = P @ c # Q1 @ new_cells ts off (length t) @ map (kill ts) B @ N" using kept by simp
    ultimately show ?thesis by (intro exI [of _ P] exI [of _ c] exI [of _ "Q1 @ new_cells ts off (length t) @ map (kill ts) B @ N"]) simp
  next
    case deleted
    let ?P = "A @ new_cells ts off (length t) @ map (kill ts) P1"
    have n: "?n = s + length (vis P1) + (if b = Left then 1 else 0)" using spec_edit(1,2) deleted(1) spec_edit.prems(2) by (cases b) simp_all
    moreover have "length (vis P1) < e - s" using spec_edit(4) deleted(2) spec_edit.prems(2) by simp
    ultimately have "?n < e \<or> ?n = e \<and> b = Left" by (cases b) auto
    then have "follow b pos ?n ((s, e, t) # es) = (s - pos) + length t" using follow_before [OF spec_edit(5)] n by (cases b) auto
    moreover have "?N = ?P @ kill ts c # map (kill ts) Q1 @ N" using deleted(2) by simp
    ultimately show ?thesis using spec_edit(2)
      by (intro exI [of _ ?P] exI [of _ "kill ts c"] exI [of _ "map (kill ts) Q1 @ N"]) (simp add: new_cells_sel)
  next
    case later
    obtain P' c' Q' where IH: "N = P' @ c' # Q'" "cell_id c' = cell_id c"
      "length (vis (if b = Left then P' @ [c'] else P')) = follow b e (e + length (vis (if b = Left then P1 @ [c] else P1))) es"
      using spec_edit.IH [OF later(2) spec_edit.prems(2)] by blast
    let ?P = "A @ new_cells ts off (length t) @ map (kill ts) B @ P'"
    have n: "?n = e + length (vis (if b = Left then P1 @ [c] else P1))" using spec_edit(1-4) later(1) by (cases b) simp_all
    have "\<not> (?n < s \<or> ?n = s \<and> b = Left)" unfolding n using spec_edit(3) spec_edit.prems(2) by (cases b) auto
    then have "follow b pos ?n ((s, e, t) # es) = (s - pos) + length t + follow b e ?n es" by (simp only: follow.simps if_False)
    moreover have "length (vis (if b = Left then ?P @ [c'] else ?P)) = (s - pos) + length t + length (vis (if b = Left then P' @ [c'] else P'))"
      using spec_edit(2) by (simp add: new_cells_sel)
    ultimately show ?thesis using IH n by (intro exI [of _ ?P] exI [of _ c'] exI [of _ Q']) simp
  qed
qed

lemma cell_anchor_id: "cell_id c = cell_id c' \<Longrightarrow> cell_anchor bid c b = cell_anchor bid c' b \<and> c_timestamp c = c_timestamp c'"
  by (simp add: cell_anchor_def cell_id_def)

lemma anchor_follow:
  assumes ok: "snapshot_ok U ins s" "snapshot_ok U' ins' s'" and spec: "local_spec ts 0 off full (cells_of (items s)) es (cells_of (items s')) rs"
    and n: "str_is_char_boundary (rope_text (visible_text s)) n" and m: "no_max_cell s"
  shows "\<exists>a. anchor_at_offset s n b = Some a \<and> offset_for_anchor s' a = Some (follow b 0 n es)"
proof -
  have rope: "rope_ok (visible_text s)" "rope_ok (visible_text s')" "length (rope_text (visible_text s)) = vlen (items s)"
    "length (rope_text (visible_text s')) = vlen (items s')"
    using ok by (simp_all add: snapshot_ok_def)
  consider (start) "b = Left" "n = 0" | (stop) "b = Right" "n = length (rope_text (visible_text s))"
    | (inner) "b = Left \<Longrightarrow> 0 < n" "b = Right \<Longrightarrow> n < length (rope_text (visible_text s))"
    using boundary_le [OF n] by (cases b) force+
  then show ?thesis
  proof cases
    case start
    then show ?thesis using follow_before [OF spec, of 0 Left] by (simp add: anchor_at_ends)
  next
    case stop
    then have "anchor_at_offset s n b = Some (max_for_buffer (remote_id s))" using anchor_at_ends(3) [OF rope(1)] by simp
    moreover have "offset_for_anchor s' (max_for_buffer (remote_id s)) = Some (follow b 0 n es)"
      using stop follow_end [OF spec] rope(3,4) anchor_at_ends(4) [OF rope(2)] by simp
    ultimately show ?thesis by blast
  next
    case inner
    then obtain P c Q where c: "cells_of (items s) = P @ c # Q" "c_visible c" "length (vis (if b = Left then P @ [c] else P)) = n"
      "anchor_at_offset s n b = Some (cell_anchor (remote_id s) c b)"
      using anchor_at_cell [OF ok(1) n] by blast
    obtain P' c' Q' where c': "cells_of (items s') = P' @ c' # Q'" "cell_id c' = cell_id c"
      "length (vis (if b = Left then P' @ [c'] else P')) = follow b 0 (0 + length (vis (if b = Left then P @ [c] else P))) es"
      using follow_cell [OF spec c(1,2)] by blast
    have "c_timestamp c \<noteq> lamport_MAX" using m c(1) by (simp add: no_max_cell_def)
    then show ?thesis using resolve_cell [OF ok(2) c'(1), of "remote_id s" b] cell_anchor_id [OF c'(2)] c'(3) c(3,4) by simp
  qed
qed

end
