(* ===== verification/Anchor_Order.thy ===== *)
theory Anchor_Order
  imports Anchor_Correct
begin

text \<open>
  The positions of anchors in the sequence of bytes: comparing anchors is comparing positions, and resolving anchors in the order of
  their positions with one pair of cursors gives what resolving each of them gives.
\<close>

section \<open>Places\<close>

text \<open>Place \<open>2 * i\<close> is the left end of the byte \<open>i\<close>, deleted bytes counted, and \<open>2 * i + 1\<close> its right end.\<close>

definition place_bias :: "nat \<Rightarrow> bias" where
  "place_bias k = (if odd k then Left else Right)"

definition place_anchor :: "buffer_snapshot \<Rightarrow> nat \<Rightarrow> anchor" where
  "place_anchor s k = cell_anchor (remote_id s) (cells_of (items s) ! (k div 2)) (place_bias k)"

definition place_offset :: "buffer_snapshot \<Rightarrow> nat \<Rightarrow> nat" where
  "place_offset s k = length (vis (take ((k + 1) div 2) (cells_of (items s))))"

abbreviation place_in :: "buffer_snapshot \<Rightarrow> nat \<Rightarrow> bool" where
  "place_in s k \<equiv> k div 2 < length (cells_of (items s))"

text \<open>The fragment of a place, and where the place is in it.\<close>

lemma place_fragment:
  assumes "place_in s k"
  obtains ys f zs i where "items s = ys @ f # zs" "k div 2 = length (cells_of ys) + i" "i < fr_len f"
    "cells_of (items s) ! (k div 2) = fragment_cells f ! i"
    "place_offset s k = vlen ys + (if fr_visible f then i + (if odd k then 1 else 0) else 0)"
proof -
  let ?C = "cells_of (items s)"
  obtain ys f zs P' Q' where f: "items s = ys @ f # zs" "take (k div 2) ?C = cells_of ys @ P'" "fragment_cells f = P' @ ?C ! (k div 2) # Q'"
    using cell_in_fragment [OF id_take_nth_drop [OF assms]] by metis
  note cf = cell_of_fragment [OF f(3)]
  have len: "k div 2 = length (cells_of ys) + length P'" using arg_cong [OF f(2), of length] assms by simp
  have "take ((k + 1) div 2) ?C = (if odd k then take (k div 2) ?C @ [?C ! (k div 2)] else take (k div 2) ?C)"
    using assms by (simp add: take_Suc_conv_app_nth)
  then have "place_offset s k = vlen ys + (if fr_visible f then length P' + (if odd k then 1 else 0) else 0)"
    using cf(3,5) f(2) by (simp add: place_offset_def)
  moreover have "?C ! (k div 2) = fragment_cells f ! length P'" using f(3) by simp
  ultimately show thesis using that f(1) len cf(4) by blast
qed

lemma place_resolves:
  assumes "snapshot_ok U ins s" "no_max_cell s" "place_in s k"
  shows "offset_for_anchor s (place_anchor s k) = Some (place_offset s k)" "\<not> anchor_is_min (place_anchor s k)" "\<not> anchor_is_max (place_anchor s k)"
proof -
  let ?C = "cells_of (items s)"
  have mem: "?C ! (k div 2) \<in> set ?C" using assms(3) by simp
  have max: "c_timestamp (?C ! (k div 2)) \<noteq> lamport_MAX" using mem assms(2) unfolding no_max_cell_def by blast
  have "take ((k + 1) div 2) ?C = (if odd k then take (k div 2) ?C @ [?C ! (k div 2)] else take (k div 2) ?C)"
    using assms(3) by (simp add: take_Suc_conv_app_nth)
  then show "offset_for_anchor s (place_anchor s k) = Some (place_offset s k)"
    using resolve_cell [OF assms(1) id_take_nth_drop [OF assms(3)] max, of "remote_id s" "place_bias k"]
    by (simp add: place_anchor_def place_bias_def place_offset_def)
  show "\<not> anchor_is_min (place_anchor s k)" "\<not> anchor_is_max (place_anchor s k)"
    using cell_anchor_ends max no_min_cell [OF assms(1) mem] unfolding place_anchor_def by blast+
qed

lemma place_offset_mono: "j \<le> k \<Longrightarrow> place_offset s j \<le> place_offset s k"
proof -
  assume "j \<le> k"
  then have "(j + 1) div 2 \<le> (k + 1) div 2" by (simp add: div_le_mono)
  then obtain d where d: "(k + 1) div 2 = (j + 1) div 2 + d" using le_Suc_ex by blast
  show ?thesis unfolding place_offset_def d take_add by simp
qed

lemma place_find:
  assumes ok: "snapshot_ok U ins s" and f: "items s = ys @ f # zs" "k div 2 = length (cells_of ys) + i" "i < fr_len f"
    "cells_of (items s) ! (k div 2) = fragment_cells f ! i"
  shows "try_find_fragment s (place_anchor s k) = Some (Some (insertion_fragment_new f))" "anchor_timestamp (place_anchor s k) = fr_timestamp f"
    "anchor_offset (place_anchor s k) = insertion_offset f + i + (if odd k then 1 else 0)"
proof -
  have c: "fragment_cells f = take i (fragment_cells f) @ fragment_cells f ! i # drop (Suc i) (fragment_cells f)"
    using f(3) by (intro id_take_nth_drop) simp
  note cf = cell_of_fragment [OF c]
  have i: "length (take i (fragment_cells f)) = i" using f(3) by simp
  have eq: "place_anchor s k = anchor_new (fr_timestamp f) (insertion_offset f + i + (if odd k then 1 else 0)) (place_bias k) (remote_id s)"
    using cf(1,2) unfolding i by (simp add: place_anchor_def cell_anchor_def f(4) place_bias_def)
  show "anchor_timestamp (place_anchor s k) = fr_timestamp f" "anchor_offset (place_anchor s k) = insertion_offset f + i + (if odd k then 1 else 0)"
    by (simp_all add: eq)
  have "attached f (insertion_offset f + i + (if odd k then 1 else 0)) (place_bias k)" using f(3) by (simp add: attached_def place_bias_def)
  then show "try_find_fragment s (place_anchor s k) = Some (Some (insertion_fragment_new f))"
    unfolding eq using try_find_fragment_ok [OF ok, of f] f(1) by simp
qed

section \<open>Comparing anchors\<close>

text \<open>The bytes of an insertion stay in order.\<close>

definition in_order :: "cell list \<Rightarrow> bool" where
  "in_order cs \<longleftrightarrow> sorted_wrt (\<lambda>c d. c_timestamp c = c_timestamp d \<longrightarrow> c_offset c < c_offset d) cs"

lemma fragment_before:
  assumes "ys @ f # zs = ys' @ zs'" "length (cells_of ys') \<le> length (cells_of ys) + i" "i < fr_len f"
  obtains us where "ys = ys' @ us" "zs' = us @ f # zs"
proof -
  obtain us where "ys = ys' @ us \<and> us @ f # zs = zs' \<or> ys @ us = ys' \<and> f # zs = us @ zs'"
    using assms(1) unfolding append_eq_append_conv2 by blast
  then show thesis using that [of us] that [of "[]"] assms(2,3) by (cases us) auto
qed

lemma place_keys:
  "anchor_timestamp (place_anchor s k) = c_timestamp (cells_of (items s) ! (k div 2))"
  "anchor_offset (place_anchor s k) = c_offset (cells_of (items s) ! (k div 2)) + k mod 2"
  "bias_u8 (anchor_bias (place_anchor s k)) = (if odd k then 0 else 1)"
  by (simp_all add: place_anchor_def cell_anchor_def place_bias_def bias_u8_def odd_iff_mod_2_eq_one)

lemma same_insertion_less:
  assumes order: "in_order (cells_of (items s))" and k: "j < k" "place_in s k"
    and same: "anchor_timestamp (place_anchor s j) = anchor_timestamp (place_anchor s k)"
  shows "anchor_offset (place_anchor s j) < anchor_offset (place_anchor s k) \<or>
    anchor_offset (place_anchor s j) = anchor_offset (place_anchor s k) \<and> odd j \<and> even k"
proof (cases "j div 2 = k div 2")
  case True
  then have "j mod 2 < k mod 2" using k(1) by (metis div_mult_mod_eq nat_add_left_cancel_less)
  then show ?thesis using True by (simp add: place_keys)
next
  case False
  then have "j div 2 < k div 2" using div_le_mono [of j k 2] k(1) by simp
  then have "c_offset (cells_of (items s) ! (j div 2)) < c_offset (cells_of (items s) ! (k div 2))"
    using order k(2) same by (simp add: in_order_def sorted_wrt_iff_nth_less place_keys)
  moreover have "j mod 2 \<le> 1" "odd j \<longleftrightarrow> j mod 2 = 1" "even k \<longleftrightarrow> k mod 2 = 0" by (simp_all add: odd_iff_mod_2_eq_one even_iff_mod_2_eq_zero)
  ultimately show ?thesis unfolding place_keys(2) by linarith
qed

lemma other_insertion_less:
  assumes ok: "snapshot_ok U ins s" and m: "no_max_cell s" and k: "j < k" "place_in s k"
    and other: "anchor_timestamp (place_anchor s j) \<noteq> anchor_timestamp (place_anchor s k)"
  shows "\<exists>l r. fragment_id_for_anchor s (place_anchor s j) = Some l \<and> fragment_id_for_anchor s (place_anchor s k) = Some r \<and> l < r"
proof -
  let ?C = "cells_of (items s)" and ?a = "place_anchor s j" and ?b = "place_anchor s k"
  have le: "j div 2 \<le> k div 2" using k div_le_mono [of j k 2] by simp
  then have j: "place_in s j" using k(2) by simp
  obtain ys f zs i where f: "items s = ys @ f # zs" "j div 2 = length (cells_of ys) + i" "i < fr_len f" "?C ! (j div 2) = fragment_cells f ! i"
    using place_fragment [OF j] by metis
  obtain ys' f' zs' i' where f': "items s = ys' @ f' # zs'" "k div 2 = length (cells_of ys') + i'" "i' < fr_len f'" "?C ! (k div 2) = fragment_cells f' ! i'"
    using place_fragment [OF k(2)] by metis
  note a = place_find [OF ok f] and b = place_find [OF ok f']
  have "\<not> anchor_is_min ?a" "\<not> anchor_is_max ?a" "\<not> anchor_is_min ?b" "\<not> anchor_is_max ?b"
    using place_resolves(2,3) [OF ok m] j k(2) by blast+
  then have ids: "fragment_id_for_anchor s ?a = Some (fr_id f)" "fragment_id_for_anchor s ?b = Some (fr_id f')"
    using a(1) b(1) by (simp_all add: fragment_id_for_anchor_def try_fragment_id_for_anchor_def insertion_fragment_new_def)
  have eq: "ys' @ f' # zs' = ys @ f # zs" using f(1) f'(1) by simp
  have "length (cells_of ys) \<le> length (cells_of ys') + i'" using le f(2) f'(2) by simp
  then obtain us where us: "ys' = ys @ us" "f # zs = us @ f' # zs'" using fragment_before [OF eq _ f'(3)] by blast
  have "f \<noteq> f'" using other a(2) b(2) by auto
  then have "f \<in> set us" using us(2) by (cases us) auto
  moreover have "sorted_wrt (<) (map fr_id (items s))" using ok by (simp add: snapshot_ok_def order_ok_def)
  ultimately have "fr_id f < fr_id f'" unfolding f'(1) us(1) by (auto simp: sorted_wrt_append)
  then show ?thesis using ids by blast
qed

lemma place_cmp_less:
  assumes ok: "snapshot_ok U ins s" and m: "no_max_cell s" and order: "in_order (cells_of (items s))" and k: "j < k" "place_in s k"
  shows "anchor_cmp s (place_anchor s j) (place_anchor s k) = Some Less" "anchor_cmp s (place_anchor s k) (place_anchor s j) = Some Greater"
proof -
  let ?a = "place_anchor s j" and ?b = "place_anchor s k"
  have "anchor_cmp s ?a ?b = Some Less \<and> anchor_cmp s ?b ?a = Some Greater"
  proof (cases "anchor_timestamp ?a = anchor_timestamp ?b")
    case True
    then show ?thesis using same_insertion_less [OF order k True] by (auto simp: anchor_cmp_def cmp_def place_keys(3))
  next
    case False
    obtain l r where "fragment_id_for_anchor s ?a = Some l" "fragment_id_for_anchor s ?b = Some r" "l < r"
      using other_insertion_less [OF ok m k False] by blast
    then show ?thesis using False less_asym [of l r] less_imp_neq [of l r] by (simp add: anchor_cmp_def cmp_def [of l] cmp_def [of r])
  qed
  then show "anchor_cmp s ?a ?b = Some Less" "anchor_cmp s ?b ?a = Some Greater" by simp_all
qed

lemma place_cmp:
  assumes "snapshot_ok U ins s" "no_max_cell s" "in_order (cells_of (items s))" "place_in s j" "place_in s k"
  shows "anchor_cmp s (place_anchor s j) (place_anchor s k) = Some (cmp j k)"
proof -
  consider "j < k" | "j = k" | "k < j" by linarith
  then show ?thesis
  proof cases
    case 2
    then show ?thesis by (simp add: anchor_cmp_def cmp_def)
  qed (use place_cmp_less [OF assms(1-3)] assms(4,5) in \<open>simp_all add: cmp_def\<close>)
qed

text \<open>Edits keep the bytes of every insertion in order.\<close>

lemma sorted_wrt_parts:
  assumes "sorted_wrt P (filter Q xs)" "sorted_wrt P (filter (\<lambda>x. \<not> Q x) xs)" "\<And>x y. Q x \<noteq> Q y \<Longrightarrow> P x y"
  shows "sorted_wrt P xs"
  using assms(1,2)
proof (induction xs)
  case (Cons x xs)
  have "P x y" if "y \<in> set xs" for y using Cons.prems that assms(3) [of x y] by (cases "Q x"; cases "Q y") auto
  moreover have "sorted_wrt P xs" using Cons by (cases "Q x") auto
  ultimately show ?case by simp
qed simp

lemma in_order_new_cells: "in_order (new_cells ts off n)"
  by (simp add: in_order_def new_cells_def sorted_wrt_map sorted_wrt_iff_nth_less)

lemma in_order_edit:
  assumes "local_spec ts pos off full R es N rs" "\<forall>c \<in> set R. c_timestamp c \<noteq> ts" "in_order R"
  shows "in_order N"
proof -
  note old = spec_old [OF assms(1,2)]
  have ids: "map cell_id (filter (\<lambda>c. c_timestamp c \<noteq> ts) N) = map cell_id R"
    using old(1) by (induction rule: list_all2_induct) auto
  have conv: "in_order cs \<longleftrightarrow> sorted_wrt (\<lambda>x y. fst x = fst y \<longrightarrow> snd x < snd y) (map cell_id cs)" for cs
    by (simp add: in_order_def sorted_wrt_map cell_id_def)
  have "in_order (filter (\<lambda>c. \<not> c_timestamp c = ts) N)" using assms(3) ids unfolding conv by simp
  moreover have "in_order (filter (\<lambda>c. c_timestamp c = ts) N)" unfolding old(2) by (rule in_order_new_cells)
  ultimately show ?thesis unfolding in_order_def by (intro sorted_wrt_parts [of _ "\<lambda>c. c_timestamp c = ts" N]) auto
qed

section \<open>Resolving anchors in one pass\<close>

text \<open>The cursors have passed nothing that belongs to place \<open>k\<close> or a later one.\<close>

definition anchors_at :: "'d text_dimension \<Rightarrow> buffer_snapshot \<Rightarrow> nat \<Rightarrow> 'd anchors_state \<Rightarrow> bool" where
  "anchors_at T s k st \<longleftrightarrow>
     (\<exists>ys zs. cursor_at fragment_item undo_fragment_dim (as_fragment_cursor st) ys zs \<and> length (cells_of ys) \<le> k div 2) \<and>
     cursor_tree (as_fragment_cursor st) = fragments s \<and> rope_cursor_ok (as_text_cursor st) \<and> rc_rope (as_text_cursor st) = visible_text s \<and>
     rc_offset (as_text_cursor st) \<le> place_offset s k \<and> str_is_char_boundary (rope_text (visible_text s)) (rc_offset (as_text_cursor st)) \<and>
     as_position st = td_from_text_summary T (from_str (take (rc_offset (as_text_cursor st)) (rope_text (visible_text s))))"

lemma anchors_at_later:
  assumes "anchors_at T s j st" "j \<le> k"
  shows "anchors_at T s k st"
proof -
  have "j div 2 \<le> k div 2" using assms(2) by (rule div_le_mono)
  moreover have "place_offset s j \<le> place_offset s k" using assms(2) by (rule place_offset_mono)
  ultimately show ?thesis using assms(1) unfolding anchors_at_def by (meson le_trans)
qed

lemma seek_place:
  assumes ok: "snapshot_ok U ins s" and at: "cursor_at fragment_item undo_fragment_dim c ys zs" "cursor_tree c = fragments s"
    and f: "items s = ys' @ f # zs'" "length (cells_of ys) \<le> length (cells_of ys') + i" "i < fr_len f"
  shows "\<exists>c' q. seek_forward undo_fragment_dim (fst_target (ord_target (Some (fr_id f)))) Left c = Some (c', q) \<and>
    cursor_at fragment_item undo_fragment_dim c' ys' (f # zs') \<and> cursor_tree c' = fragments s \<and> cursor_item c' = Some (Some f) \<and>
    snd (cursor_start c') = vlen ys'"
proof -
  let ?t = "fst_target (ord_target (Some (fr_id f))) :: locator option \<times> nat \<Rightarrow> ordering"
  have sorted: "sorted_wrt (<) (map fr_id (items s))" using ok by (simp add: snapshot_ok_def order_ok_def)
  have items: "items s = ys @ zs" using at by (simp add: cursor_at_def)
  then have eq: "ys' @ f # zs' = ys @ zs" using f(1) by simp
  obtain us where us: "ys' = ys @ us" "zs = us @ f # zs'" using fragment_before [OF eq f(2,3)] by blast
  have pos: "cursor_position c = (if ys = [] then (None, 0) else (Some (fr_id (last ys)), vlen ys))"
    using at(1) unfolding cursor_at_def undo_pos by (simp add: undo_fragment_dim_def dimensions2_def fragment_locator_dim_def visible_dim_def)
  have below: "\<forall>g \<in> set ys'. fr_id g < fr_id f" using sorted unfolding f(1) by (auto simp: sorted_wrt_append)
  have not_less: "?t (cursor_position c) \<noteq> Less"
  proof (cases "ys = []")
    case False
    then have "fr_id (last ys) < fr_id f" using below us(1) by simp
    then show ?thesis using False less_asym by (auto simp: pos fst_target_def ord_target_def cmp_def)
  qed (simp add: pos fst_target_def ord_target_def cmp_def)
  have split: "takeWhile (\<lambda>g. fr_id g < fr_id f) zs = us" "dropWhile (\<lambda>g. fr_id g < fr_id f) zs = f # zs'" using below us by simp_all
  have P: "target_past ?t Left = id_past (fr_id f)" by (simp add: target_past_def fst_target_def fun_eq_iff)
  have zs: "sorted_wrt (<) (map fr_id zs)" using sorted items by (simp add: sorted_wrt_append)
  obtain c' q where c': "seek_forward undo_fragment_dim ?t Left c = Some (c', q)" "cursor_at fragment_item undo_fragment_dim c' ys' (f # zs')" "did_seek c'"
    "cursor_tree c' = fragments s"
    using undo_seek.seek_forward_ok [OF at(1), of ?t Left us "f # zs'"] undo_mono [OF zs] undo_split split not_less at(2) us(1) unfolding P by metis
  have "cursor_item c' = Some (Some f)" using cursor_at_item(1) [OF c'(2,3)] by simp
  moreover have "snd (cursor_start c') = vlen ys'" using c'(2) unfolding cursor_at_def cursor_start_def undo_pos
    by (simp add: undo_fragment_dim_def dimensions2_def fragment_locator_dim_def visible_dim_def)
  ultimately show ?thesis using c' by blast
qed

abbreviation place_ok :: "buffer_snapshot \<Rightarrow> nat \<Rightarrow> bool" where
  "place_ok s k \<equiv> place_in s k \<and> str_is_char_boundary (rope_text (visible_text s)) (place_offset s k)"

lemma utf8_between:
  assumes "utf8 x" "str_is_char_boundary x i" "str_is_char_boundary x j" "i \<le> j"
  shows "utf8 (take (j - i) (drop i x))"
proof -
  note parts = utf8_split(1,2) [OF assms(1,2)]
  have "str_is_char_boundary (drop i x) (j - i)"
    using boundary_append [OF parts, of j] assms(3,4) boundary_le [OF assms(2)] by (cases "i = j") auto
  then show ?thesis by (rule utf8_split(1) [OF parts(2)])
qed

context text_dim
begin

lemma anchors_step_ok:
  assumes ok: "snapshot_ok U ins s" "no_max_cell s" and k: "place_ok s k" and at: "anchors_at T s k st"
  shows "\<exists>st'. anchors_step T s (place_anchor s k) st = Some (st', measure (take (place_offset s k) (rope_text (visible_text s)))) \<and>
    anchors_at T s k st'"
proof -
  let ?x = "rope_text (visible_text s)" and ?tc = "as_text_cursor st" and ?n = "place_offset s k"
  obtain ys f zs i where f: "items s = ys @ f # zs" "k div 2 = length (cells_of ys) + i" "i < fr_len f"
    "cells_of (items s) ! (k div 2) = fragment_cells f ! i" "?n = vlen ys + (if fr_visible f then i + (if odd k then 1 else 0) else 0)"
    using place_fragment [of k s] k by metis
  note found = place_find [OF ok(1) f(1-4)] and ends = place_resolves(2,3) [OF ok, of k]
  obtain c q where c: "seek_forward undo_fragment_dim (fst_target (ord_target (Some (fr_id f)))) Left (as_fragment_cursor st) = Some (c, q)"
    "cursor_at fragment_item undo_fragment_dim c ys (f # zs)" "cursor_tree c = fragments s" "cursor_item c = Some (Some f)" "snd (cursor_start c) = vlen ys"
    using seek_place [OF ok(1) _ _ f(1) _ f(3)] at f(2) unfolding anchors_at_def by metis
  have tc: "rope_cursor_ok ?tc" "rc_rope ?tc = visible_text s" "rc_offset ?tc \<le> ?n" "str_is_char_boundary ?x (rc_offset ?tc)"
    "as_position st = measure (take (rc_offset ?tc) ?x)"
    using at by (simp_all add: anchors_at_def)
  let ?d = "take (?n - rc_offset ?tc) (drop (rc_offset ?tc) ?x)"
  obtain tc' where tc': "rope_cursor_summary T ?tc ?n = Some (tc', measure ?d)" "rope_cursor_ok tc'" "rc_rope tc' = visible_text s" "rc_offset tc' = ?n"
    using rope_cursor_summary_ok [OF tc(1), of ?n] tc(2-4) k boundary_le [of ?x ?n] by metis
  have split: "take ?n ?x = take (rc_offset ?tc) ?x @ ?d" using tc(3) by (metis le_add_diff_inverse take_add)
  have rope: "rope_ok (visible_text s)" using ok(1) by (simp add: snapshot_ok_def)
  have "utf8 ?d" using utf8_between [OF rope_utf8 [OF rope] tc(4)] k tc(3) by simp
  then have pos: "td_add T (as_position st) (measure ?d) = measure (take ?n ?x)" using split measure_append tc(5) by metis
  let ?st = "\<lparr>as_fragment_cursor = c, as_text_cursor = tc', as_position = measure (take ?n ?x)\<rparr>"
  have off: "(if fr_visible f then vlen ys + (anchor_offset (place_anchor s k) - insertion_offset f) else vlen ys) = ?n"
    using found(3) f(5) by simp
  have "anchors_step T s (place_anchor s k) st = Some (?st, measure (take ?n ?x))"
    using found(1,2) ends k c(1,4,5) tc'(1) pos off
    by (cases "fr_visible f") (simp_all add: anchors_step_def insertion_fragment_new_def assert_that_def Let_def)
  moreover have "anchors_at T s k ?st" using c(2,3) tc'(2-4) f(2) k unfolding anchors_at_def by auto
  ultimately show ?thesis by blast
qed

lemma anchors_loop_ok:
  assumes "snapshot_ok U ins s" "no_max_cell s" "sorted ks" "\<forall>k \<in> set ks. place_ok s k" "ks \<noteq> [] \<Longrightarrow> anchors_at T s (hd ks) st"
  shows "anchors_loop T s (map (\<lambda>k. (place_anchor s k, ())) ks) st =
    Some (map (\<lambda>k. (measure (take (place_offset s k) (rope_text (visible_text s))), ())) ks)"
  using assms(3-)
proof (induction ks arbitrary: st)
  case (Cons k ks)
  obtain st' where st': "anchors_step T s (place_anchor s k) st = Some (st', measure (take (place_offset s k) (rope_text (visible_text s))))"
    "anchors_at T s k st'"
    using anchors_step_ok [OF assms(1,2)] Cons.prems(2,3) by fastforce
  have "ks \<noteq> [] \<Longrightarrow> anchors_at T s (hd ks) st'" using anchors_at_later [OF st'(2)] Cons.prems(1) by (cases ks) auto
  then show ?case using Cons.IH [of st'] Cons.prems st'(1) by simp
qed simp

lemma summary_for_place:
  assumes ok: "snapshot_ok U ins s" "no_max_cell s" "sliceable (visible_text s)" and k: "place_ok s k"
  shows "summary_for_anchor T s (place_anchor s k) = Some (measure (take (place_offset s k) (rope_text (visible_text s))))"
proof -
  let ?x = "rope_text (visible_text s)" and ?n = "place_offset s k"
  have rope: "rope_ok (visible_text s)" using ok(1) by (simp add: snapshot_ok_def)
  obtain c where c: "rope_cursor_new (visible_text s) 0 = Some c" "rope_cursor_ok c" "rc_rope c = visible_text s" "rc_offset c = 0"
    using rope_cursor_start [OF rope ok(3)] .
  have floor: "str_floor_char_boundary ?x m = m" if "str_is_char_boundary ?x m" for m using boundary_le [OF that] by (intro str_floor_eq that) auto
  have start: "str_is_char_boundary ?x 0" by (simp add: str_is_char_boundary_def)
  have off: "usize_to_offset (visible_text s) 0 = Some 0" "usize_to_offset (visible_text s) ?n = Some ?n"
    using usize_to_offset_ok [OF rope] floor start k by simp_all
  obtain c' where "rope_cursor_summary T c ?n = Some (c', measure (take (?n - 0) (drop 0 ?x)))"
    using rope_cursor_summary_ok [OF c(2), of ?n] c(3,4) start k boundary_le [of ?x ?n] by auto
  then show ?thesis using place_resolves(1) [OF ok(1,2), of k] k c(1) off by (simp add: summary_for_anchor_def text_summary_for_range_def)
qed

lemma summaries_in_one_pass:
  assumes ok: "snapshot_ok U ins s" "no_max_cell s" "sliceable (visible_text s)" "node_height (fragments s) < STACK_CAP"
    and ks: "sorted ks" "\<forall>k \<in> set ks. place_ok s k"
  shows "\<exists>ds. summaries_for_anchors T s (map (place_anchor s) ks) = Some ds \<and> map (summary_for_anchor T s) (map (place_anchor s) ks) = map Some ds"
proof -
  let ?x = "rope_text (visible_text s)"
  have rope: "rope_ok (visible_text s)" and wf: "wf_tree fragment_item (fragments s)" using ok(1) by (simp_all add: snapshot_ok_def)
  obtain c where c: "rope_cursor_new (visible_text s) 0 = Some c" "rope_cursor_ok c" "rc_rope c = visible_text s" "rc_offset c = 0"
    using rope_cursor_start [OF rope ok(3)] .
  let ?st = "\<lparr>as_fragment_cursor = cursor_new undo_fragment_dim (fragments s), as_text_cursor = c, as_position = dim_zero (td_dim T)\<rparr>"
  have "cursor_at fragment_item undo_fragment_dim (cursor_new undo_fragment_dim (fragments s)) [] (items s)" using cursor_at_new [OF wf ok(4)] .
  moreover have "cursor_tree (cursor_new undo_fragment_dim (fragments s)) = fragments s" by (simp add: cursor_new_def)
  ultimately have "anchors_at T s k ?st" for k
    using c(2-4) td_zero unfolding anchors_at_def by (intro conjI exI [of _ "[]"] exI [of _ "items s"]) simp_all
  then have "summaries_for_anchors T s (map (place_anchor s) ks) = Some (map (\<lambda>k. measure (take (place_offset s k) ?x)) ks)"
    using anchors_loop_ok [OF ok(1,2) ks] c(1) by (simp add: summaries_for_anchors_def summaries_for_anchors_with_payload_def comp_def)
  moreover have "map (summary_for_anchor T s) (map (place_anchor s) ks) = map Some (map (\<lambda>k. measure (take (place_offset s k) ?x)) ks)"
    using summary_for_place [OF ok(1-3)] ks(2) by simp
  ultimately show ?thesis by blast
qed

end

end
