(* ===== verification/Selection.thy ===== *)
theory Selection
  imports Anchor
begin

text \<open>
  Selections of \<open>crates/text/src/selection.rs\<close>.  The goal of a selection is only copied; its floating point numbers are type
  parameters.
\<close>

section \<open>Definitions\<close>

datatype ('f, 'g) selection_goal =
  GoalNone | HorizontalPosition 'f | HorizontalRange 'f 'f | WrappedHorizontalPosition u32 'g

record ('t, 'f, 'g) selection =
  sel_id :: nat
  sel_start :: 't
  sel_end :: 't
  sel_reversed :: bool
  sel_goal :: "('f, 'g) selection_goal"

definition head :: "('t, 'f, 'g) selection \<Rightarrow> 't" where
  "head s = (if sel_reversed s then sel_start s else sel_end s)"

definition tail :: "('t, 'f, 'g) selection \<Rightarrow> 't" where
  "tail s = (if sel_reversed s then sel_end s else sel_start s)"

definition selection_map :: "('t \<Rightarrow> 'u) \<Rightarrow> ('t, 'f, 'g) selection \<Rightarrow> ('u, 'f, 'g) selection" where
  "selection_map f s = \<lparr>sel_id = sel_id s, sel_start = f (sel_start s), sel_end = f (sel_end s), sel_reversed = sel_reversed s,
     sel_goal = sel_goal s\<rparr>"

definition collapse_to :: "'t \<Rightarrow> ('f, 'g) selection_goal \<Rightarrow> ('t, 'f, 'g) selection \<Rightarrow> ('t, 'f, 'g) selection" where
  "collapse_to point new_goal s = s\<lparr>sel_start := point, sel_end := point, sel_goal := new_goal, sel_reversed := False\<rparr>"

definition selection_is_empty :: "('t, 'f, 'g) selection \<Rightarrow> bool" where
  "selection_is_empty s \<longleftrightarrow> sel_start s = sel_end s"

definition set_head :: "'t::linorder \<Rightarrow> ('f, 'g) selection_goal \<Rightarrow> ('t, 'f, 'g) selection \<Rightarrow> ('t, 'f, 'g) selection" where
  "set_head h new_goal s =
     (let s = (if cmp h (tail s) = Less
        then (if \<not> sel_reversed s then s\<lparr>sel_end := sel_start s, sel_reversed := True\<rparr> else s)\<lparr>sel_start := h\<rparr>
        else (if sel_reversed s then s\<lparr>sel_start := sel_end s, sel_reversed := False\<rparr> else s)\<lparr>sel_end := h\<rparr>)
      in s\<lparr>sel_goal := new_goal\<rparr>)"

definition set_tail :: "'t::linorder \<Rightarrow> ('f, 'g) selection_goal \<Rightarrow> ('t, 'f, 'g) selection \<Rightarrow> ('t, 'f, 'g) selection" where
  "set_tail t new_goal s =
     (let s = (if cmp t (head s) \<noteq> Greater
        then (if sel_reversed s then s\<lparr>sel_end := sel_start s, sel_reversed := False\<rparr> else s)\<lparr>sel_start := t\<rparr>
        else (if \<not> sel_reversed s then s\<lparr>sel_start := sel_end s, sel_reversed := True\<rparr> else s)\<lparr>sel_end := t\<rparr>)
      in s\<lparr>sel_goal := new_goal\<rparr>)"

definition set_head_tail :: "'t::linorder \<Rightarrow> 't \<Rightarrow> ('f, 'g) selection_goal \<Rightarrow> ('t, 'f, 'g) selection \<Rightarrow> ('t, 'f, 'g) selection" where
  "set_head_tail h t new_goal s =
     (if h < t then s\<lparr>sel_reversed := True, sel_start := h, sel_end := t\<rparr>
      else s\<lparr>sel_reversed := False, sel_start := t, sel_end := h\<rparr>)\<lparr>sel_goal := new_goal\<rparr>"

definition swap_head_tail :: "('t, 'f, 'g) selection \<Rightarrow> ('t, 'f, 'g) selection" where
  "swap_head_tail s =
     (if sel_reversed s then s\<lparr>sel_reversed := False\<rparr> else s\<lparr>sel_start := sel_end s, sel_end := sel_start s\<rparr>)"

definition selection_range :: "('t, 'f, 'g) selection \<Rightarrow> 't \<times> 't" where
  "selection_range s = (sel_start s, sel_end s)"

definition selection_len :: "('t::minus, 'f, 'g) selection \<Rightarrow> 't" where
  "selection_len s = sel_end s - sel_start s"

definition selection_equals :: "'t \<times> 't \<Rightarrow> ('t, 'f, 'g) selection \<Rightarrow> bool" where
  "selection_equals r s \<longleftrightarrow> sel_start s = fst r \<and> sel_end s = snd r"

definition selection_resolve :: "'d text_dimension \<Rightarrow> buffer_snapshot \<Rightarrow> (anchor, 'f, 'g) selection \<Rightarrow> ('d, 'f, 'g) selection option" where
  "selection_resolve T s sel = do {
     start \<leftarrow> summary_for_anchor T s (sel_start sel);
     end \<leftarrow> summary_for_anchor T s (sel_end sel);
     Some \<lparr>sel_id = sel_id sel, sel_start = start, sel_end = end, sel_reversed = sel_reversed sel, sel_goal = sel_goal sel\<rparr> }"

section \<open>Invariant\<close>

text \<open>A selection runs from its start to its end.\<close>

definition selection_ok :: "('t::linorder, 'f, 'g) selection \<Rightarrow> bool" where
  "selection_ok s \<longleftrightarrow> sel_start s \<le> sel_end s"

end
