(* ===== verification/Anchor_Properties.thy ===== *)
theory Anchor_Properties
  imports Buffer_Properties Anchor_Order Selection
begin

text \<open>
  The properties of anchors, of waiting for edits and anchors, and of selections, each with a witness.  The witnesses use the buffer
  that \<open>Buffer::new_normalized\<close> makes of a short text.
\<close>

section \<open>A buffer with text\<close>

lemma sample_document:
  obtains b where "new_normalized 0 1 Unix (chunk_rope sample_text) = Some b" "snapshot_ok (base_edits sample_text) (base_texts sample_text) (snapshot b)"
    "visible_text (snapshot b) = chunk_rope sample_text" "buffer_cells b = new_cells (lamport_new LOCAL) 0 8" "node_height (fragments (snapshot b)) = 0"
proof -
  let ?r = "chunk_rope sample_text" and ?ts = "lamport_new LOCAL"
  have r: "rope_ok ?r" "rope_text ?r = sample_text" "rope_len ?r = 8" using sample_rope_ok(1,2) by (simp_all add: rope_len_ok) (simp add: sample_text_def)
  obtain b where b: "new_normalized 0 1 Unix ?r = Some b" "snapshot_ok (base_edits sample_text) (base_texts sample_text) (snapshot b)"
    "visible_text (snapshot b) = ?r" "buffer_cells b = new_cells ?ts 0 (length sample_text)"
    using new_normalized_ok [OF r(1), of 0 1 Unix] r(2) by auto
  obtain st where st: "new_loop ?r ?ts 0 new_state_empty = Some st" "fragments (snapshot b) = ns_fragments st"
    using b(1) r(3) by (auto simp: new_normalized_def rope_is_empty_def Let_def split: bind_splits)
  have "node_height (ns_fragments st) = 0"
    using st(1) r(3)
    by (auto simp: new_loop.simps [of _ _ 0] new_loop.simps [of _ _ 8] MAX_INSERTION_LEN_def assert_that_def push_base_fragment_def tree_push_def
      new_state_empty_def tree_new_def tree_append_def Let_def split: bind_splits)
  moreover have "length sample_text = 8" by (simp add: sample_text_def)
  ultimately show thesis using that [OF b(1-3)] b(4) st(2) by (simp only:)
qed

section \<open>Anchors\<close>

lemma edit_timestamp_new:
  assumes "buffer_ok U ins base b" "lamport_value (lamport_clock b) < - 2"
  shows "fresh (edit_timestamp b) (snapshot b)"
proof -
  have "lamport_value (lamport_clock b) \<noteq> - 1" using assms(2) by auto
  then have "lamport_value (lamport_clock b) \<le> lamport_value (edit_timestamp b)"
    using word_less_Suc [of "lamport_value (lamport_clock b)"] by (simp add: edit_timestamp_def tick_def)
  moreover have "lamport_replica (edit_timestamp b) = lamport_replica (lamport_clock b)" by (simp add: edit_timestamp_def tick_def)
  ultimately show ?thesis using clock_fresh(1) [of U ins "snapshot b" "lamport_clock b" "edit_timestamp b"] assms(1) by (simp add: buffer_ok_def)
qed

text \<open>C6: an anchor made at a position resolves to that position, and after an edit to where the text it is attached to has gone: it
  stays in place before an edit, moves with the text behind an edit, and goes to the end of the new text when its own text was
  replaced; an anchor at the start of a range stays before the new text if it leans left and goes behind it if it leans right.  The
  bytes of every insertion stay in order.\<close>

theorem anchor_follows_edits:
  assumes "buffer_ok U ins base b" "buffer_fits b" "transaction_depth (buf_history b) = 0" "lamport_value (lamport_clock b) < - 2"
    and "edits_ok (buffer_text b) 0 (clip_edits (buffer_text b) es)" "es \<noteq> []"
    and "str_is_char_boundary (buffer_text b) n" "no_max_cell (snapshot b)"
  shows "\<exists>a b' op. anchor_at_offset (snapshot b) n bias = Some a \<and> offset_for_anchor (snapshot b) a = Some n \<and>
    buffer_edit now later es b = Some (b', EditOp op) \<and>
    offset_for_anchor (snapshot b') a = Some (follow bias 0 n (normal_clip_edits (buffer_text b) es)) \<and>
    (in_order (buffer_cells b) \<longrightarrow> in_order (buffer_cells b'))"
proof -
  have ok: "snapshot_ok U ins (snapshot b)" using assms(1) by (simp add: buffer_ok_def)
  obtain b' op where b': "buffer_edit now later es b = Some (b', EditOp op)"
    "local_spec (edit_timestamp b) 0 0 0 (buffer_cells b) (normal_clip_edits (buffer_text b) es) (buffer_cells b') (op_ranges op)"
    "buffer_ok U (ins(edit_timestamp b := edit_texts (normal_clip_edits (buffer_text b) es))) base b'"
    using buffer_edit_ok [OF assms(1-6), of now later] by blast
  have ok': "snapshot_ok U (ins(edit_timestamp b := edit_texts (normal_clip_edits (buffer_text b) es))) (snapshot b')"
    using b'(3) by (simp add: buffer_ok_def)
  obtain a where a: "anchor_at_offset (snapshot b) n bias = Some a"
    "offset_for_anchor (snapshot b') a = Some (follow bias 0 n (normal_clip_edits (buffer_text b) es))"
    using anchor_follow [OF ok ok' b'(2) assms(7,8), of bias] by blast
  moreover have "offset_for_anchor (snapshot b) a = Some n" using anchor_at_resolves [OF ok assms(7,8), of bias] a(1) by auto
  moreover have "in_order (buffer_cells b')" if "in_order (buffer_cells b)"
    using in_order_edit [OF b'(2) _ that] edit_timestamp_new [OF assms(1,4)] by (auto simp: fresh_def touched_def)
  ultimately show ?thesis using b'(1) by blast
qed

theorem anchor_follows_edits_witness:
  "\<exists>a b' op. anchor_at_offset (snapshot sample_buffer) 0 Right = Some a \<and> buffer_edit 0 1 [(0, 0, [0x61])] sample_buffer = Some (b', EditOp op) \<and>
    offset_for_anchor (snapshot b') a = Some 1"
proof -
  have clip: "clip_edits [] [(0, 0, [0x61])] = [(0, 0, [0x61])]" "normal_clip_edits [] [(0, 0, [0x61])] = [(0, 0, [0x61])]"
    by (simp_all add: str_floor_char_boundary_def)
  have "utf8 [0x61]" by (simp add: utf8_def)
  moreover have "no_max_cell (snapshot sample_buffer)" by (simp add: no_max_cell_def sample_buffer_def tree_new_def)
  ultimately show ?thesis
    using anchor_follows_edits [OF sample_buffer_ok(1) sample_buffer_fits, of "[(0, 0, [0x61])]" 0 Right 0 1] clip
    by (simp add: sample_buffer_ok(2) sample_buffer_sel history_new_def) blast
qed

text \<open>C7: \<open>Anchor::cmp\<close> orders anchors as their positions in the sequence of bytes, deleted bytes included, with the right end of a
  byte before the left end of the next; the anchors resolve to offsets in the same order.\<close>

theorem anchor_order:
  assumes "snapshot_ok U ins s" "no_max_cell s" "in_order (cells_of (items s))" "place_in s j" "place_in s k"
  shows "anchor_cmp s (place_anchor s j) (place_anchor s k) = Some (cmp j k) \<and>
    anchor_min s (place_anchor s j) (place_anchor s k) = Some (place_anchor s (min j k)) \<and>
    anchor_max s (place_anchor s j) (place_anchor s k) = Some (place_anchor s (max j k)) \<and>
    (\<exists>m n. offset_for_anchor s (place_anchor s j) = Some m \<and> offset_for_anchor s (place_anchor s k) = Some n \<and> (j \<le> k \<longrightarrow> m \<le> n))"
  using place_cmp [OF assms] place_resolves(1) [OF assms(1,2,4)] place_resolves(1) [OF assms(1,2,5)] place_offset_mono [of j k s]
  by (auto simp: anchor_min_def anchor_max_def cmp_def min_def max_def)

theorem anchor_order_witness:
  "\<exists>b. new_normalized 0 1 Unix (chunk_rope sample_text) = Some b \<and>
    anchor_cmp (snapshot b) (place_anchor (snapshot b) 3) (place_anchor (snapshot b) 4) = Some Less"
proof -
  obtain b where b: "new_normalized 0 1 Unix (chunk_rope sample_text) = Some b" "snapshot_ok (base_edits sample_text) (base_texts sample_text) (snapshot b)"
    "visible_text (snapshot b) = chunk_rope sample_text" "buffer_cells b = new_cells (lamport_new LOCAL) 0 8"
    using sample_document by metis
  have "no_max_cell (snapshot b)" "length (buffer_cells b) = 8"
    unfolding no_max_cell_def b(4) by (simp_all add: new_cells_def lamport_new_def lamport_MAX_def)
  moreover have "in_order (buffer_cells b)" unfolding b(4) by (rule in_order_new_cells)
  ultimately show ?thesis using anchor_order [OF b(2), of 3 4] b(1) by (simp add: cmp_def)
qed

text \<open>C8: resolving anchors in the order of their positions with one pair of cursors, as \<open>summaries_for_anchors\<close> does, returns for every
  anchor what resolving it alone returns, in rows and columns and in offsets.\<close>

theorem anchors_in_one_pass:
  assumes "snapshot_ok U ins s" "no_max_cell s" "sliceable (visible_text s)" "node_height (fragments s) < STACK_CAP" "sorted ks"
    and "\<forall>k \<in> set ks. place_in s k \<and> str_is_char_boundary (rope_text (visible_text s)) (place_offset s k)"
  shows "(\<exists>ds. summaries_for_anchors point_td s (map (place_anchor s) ks) = Some ds \<and>
      map (summary_for_anchor point_td s) (map (place_anchor s) ks) = map Some ds) \<and>
    (\<exists>ds. summaries_for_anchors offset_td s (map (place_anchor s) ks) = Some ds \<and>
      map (summary_for_anchor offset_td s) (map (place_anchor s) ks) = map Some ds)"
  using point_td.summaries_in_one_pass [OF assms] offset_td.summaries_in_one_pass [OF assms] by (rule conjI)

theorem anchors_in_one_pass_witness:
  "\<exists>b d e. new_normalized 0 1 Unix (chunk_rope sample_text) = Some b \<and>
    summaries_for_anchors point_td (snapshot b) [place_anchor (snapshot b) 4, place_anchor (snapshot b) 7] = Some [d, e] \<and>
    summary_for_anchor point_td (snapshot b) (place_anchor (snapshot b) 7) = Some e"
proof -
  obtain b where b: "new_normalized 0 1 Unix (chunk_rope sample_text) = Some b" "snapshot_ok (base_edits sample_text) (base_texts sample_text) (snapshot b)"
    "visible_text (snapshot b) = chunk_rope sample_text" "buffer_cells b = new_cells (lamport_new LOCAL) 0 8" "node_height (fragments (snapshot b)) = 0"
    using sample_document by metis
  have "no_max_cell (snapshot b)" "length (buffer_cells b) = 8"
    unfolding no_max_cell_def b(4) by (auto simp: new_cells_def lamport_new_def lamport_MAX_def)
  moreover have "place_offset (snapshot b) k = (k + 1) div 2" if "k < 16" for k
    using that unfolding place_offset_def b(4) by (simp add: new_cells_def take_map)
  ultimately show ?thesis
    using anchors_in_one_pass [OF b(2), of "[4, 7]"] b(1,3,5) sample_rope_ok(2,4) by (auto simp: STACK_CAP_def)
qed

section \<open>Waiting\<close>

definition registered :: "lamport \<Rightarrow> nat \<Rightarrow> buffer \<Rightarrow> bool" where
  "registered e channel b \<longleftrightarrow> (\<exists>txs. (e, txs) \<in> set (edit_id_resolvers b) \<and> channel \<in> set txs)"

lemma add_resolver_registers:
  "\<exists>txs. (e, txs) \<in> set (add_resolver e channel rs) \<and> channel \<in> set txs"
  "(d, txs) \<in> set rs \<Longrightarrow> c \<in> set txs \<Longrightarrow> \<exists>txs. (d, txs) \<in> set (add_resolver e channel rs) \<and> c \<in> set txs"
  by (induction e channel rs rule: add_resolver.induct) auto

lemma register:
  "registered e channel (b\<lparr>edit_id_resolvers := add_resolver e channel (edit_id_resolvers b)\<rparr>)"
  "registered d c b \<Longrightarrow> registered d c (b\<lparr>edit_id_resolvers := add_resolver e channel (edit_id_resolvers b)\<rparr>)"
  using add_resolver_registers by (auto simp: registered_def)

lemma wait_for_edits_keeps: "wait_for_edits es channel b = (b', futures) \<Longrightarrow> registered e c b \<Longrightarrow> registered e c b'"
proof (induction es channel b arbitrary: b' futures rule: wait_for_edits.induct)
  case (2 d es channel b)
  then show ?case using register(2) by (auto split: if_splits prod.splits)
qed simp

lemma wait_for_edits_registers:
  "wait_for_edits es channel b = (b', futures) \<Longrightarrow> c \<in> set futures \<Longrightarrow>
    \<exists>e \<in> set es. \<not> global_observed (buffer_version b) e \<and> registered e c b'"
proof (induction es channel b arbitrary: b' futures rule: wait_for_edits.induct)
  case (2 d es channel b)
  show ?case
  proof (cases "global_observed (snap_version (snapshot b)) d")
    case True
    then show ?thesis using 2 by auto
  next
    case False
    let ?b = "b\<lparr>edit_id_resolvers := add_resolver d channel (edit_id_resolvers b)\<rparr>"
    obtain fs where fs: "wait_for_edits es (Suc channel) ?b = (b', fs)" "futures = channel # fs"
      using 2(3) False by (auto split: prod.splits)
    then show ?thesis using 2(1) [OF False fs(1)] 2(4) False wait_for_edits_keeps [OF fs(1) register(1)] by auto
  qed
qed simp

text \<open>Waiting for anchors is waiting for the edits of those that are not an end of the buffer.\<close>

lemma wait_for_anchors_edits:
  "wait_for_anchors as channel b = wait_for_edits (map anchor_timestamp (filter (\<lambda>a. \<not> anchor_is_max a \<and> \<not> anchor_is_min a) as)) channel b"
  by (induction as channel b rule: wait_for_anchors.induct) (auto simp: Let_def split: prod.splits)

lemma resolve_all:
  "c \<in> set (notified b) \<Longrightarrow> c \<in> set (notified (fold resolve_edit rs b))"
  "registered e c b \<Longrightarrow> e \<in> set rs \<Longrightarrow> c \<in> set (notified (fold resolve_edit rs b))"
proof (induction rs arbitrary: b)
  case (Cons r rs)
  {
    case 1
    then show ?case using Cons.IH(1) by (simp add: resolve_edit_def)
  next
    case 2
    show ?case
    proof (cases "e = r")
      case True
      then have "c \<in> set (notified (resolve_edit r b))" using 2(1) by (force simp: resolve_edit_def registered_def)
      then show ?thesis using Cons.IH(1) by simp
    next
      case False
      then have "registered e c (resolve_edit r b)" using 2(1) by (auto simp: resolve_edit_def registered_def)
      then show ?thesis using Cons.IH(2) 2(2) False by simp
    qed
  }
qed simp_all

lemma wait_for_edits_futures:
  "wait_for_edits es channel b = (b', futures) \<Longrightarrow>
    futures = [channel ..< channel + length (filter (\<lambda>e. \<not> global_observed (buffer_version b) e) es)] \<and> notified b' = notified b"
proof (induction es channel b arbitrary: b' futures rule: wait_for_edits.induct)
  case (2 d es channel b)
  have upt: "channel # [Suc channel ..< Suc (channel + n)] = [channel ..< Suc (channel + n)]" for n by (simp add: upt_conv_Cons del: upt_Suc)
  show ?case using 2 by (auto simp: upt [symmetric] simp del: upt_Suc split: if_splits prod.splits)
qed simp

text \<open>C9: every future that \<open>wait_for_edits\<close> or \<open>wait_for_anchors\<close> returns completes: once the edits that were missing have been
  resolved, in any order and among any others, a message was sent on every channel that was handed out.  There is one channel for
  every missing edit, and no message is sent before.\<close>

theorem waiting_completes:
  assumes "wait_for_edits es channel b = (b1, futures)" "\<forall>e \<in> set es. global_observed (buffer_version b) e \<or> e \<in> set rs"
    and "wait_for_anchors as channel b = (b2, futures')" "\<forall>a \<in> set as. global_observed (buffer_version b) (anchor_timestamp a) \<or> anchor_timestamp a \<in> set rs'"
  shows "set futures \<subseteq> set (notified (fold resolve_edit rs b1)) \<and> set futures' \<subseteq> set (notified (fold resolve_edit rs' b2)) \<and>
    futures = [channel ..< channel + length (filter (\<lambda>e. \<not> global_observed (buffer_version b) e) es)] \<and>
    notified b1 = notified b \<and> notified b2 = notified b"
proof -
  let ?ts = "map anchor_timestamp (filter (\<lambda>a. \<not> anchor_is_max a \<and> \<not> anchor_is_min a) as)"
  have anchors: "wait_for_edits ?ts channel b = (b2, futures')" using assms(3) by (simp add: wait_for_anchors_edits)
  have "c \<in> set (notified (fold resolve_edit rs b1))" if "c \<in> set futures" for c
    using wait_for_edits_registers [OF assms(1) that] assms(2) resolve_all(2) by blast
  moreover have "c \<in> set (notified (fold resolve_edit rs' b2))" if "c \<in> set futures'" for c
    using wait_for_edits_registers [OF anchors that] assms(4) resolve_all(2) by auto
  ultimately show ?thesis using wait_for_edits_futures [OF assms(1)] wait_for_edits_futures [OF anchors] by blast
qed

theorem waiting_completes_witness:
  "\<exists>b1 b2. wait_for_edits [Lamport 3 7] 5 sample_buffer = (b1, [5]) \<and> 5 \<in> set (notified (fold resolve_edit [Lamport 2 7, Lamport 3 7] b1)) \<and>
    wait_for_anchors [anchor_new (Lamport 3 7) 4 Left 1] 5 sample_buffer = (b2, [5]) \<and> 5 \<in> set (notified (fold resolve_edit [Lamport 3 7] b2))"
proof -
  have new: "\<not> global_observed (buffer_version sample_buffer) (Lamport 3 7)" by (simp add: sample_buffer_sel global_new_def global_observed_def)
  let ?a = "anchor_new (Lamport 3 7) 4 Left 1"
  obtain b1 futures where b1: "wait_for_edits [Lamport 3 7] 5 sample_buffer = (b1, futures)" by fastforce
  obtain b2 where b2: "wait_for_anchors [?a] 5 sample_buffer = (b2, [5])" using new by (simp add: anchor_is_max_def anchor_is_min_def)
  from waiting_completes [OF b1 _ b2, of "[Lamport 2 7, Lamport 3 7]" "[Lamport 3 7]"] new b1 b2 show ?thesis by auto
qed

section \<open>Selections\<close>

text \<open>C10: moving the head or the tail of a selection, or both, leaves the other end where it is and a selection whose start is not
  behind its end, whichever way it was turned; collapsing and mapping along a monotone function keep that too.  Exchanging head and
  tail exchanges them, but the start is then behind the end unless the selection was reversed or empty.\<close>

theorem selection_ends:
  fixes s :: "('t::linorder, 'f, 'g) selection" and f :: "'t \<Rightarrow> 'u::linorder"
  assumes "selection_ok s" "mono f"
  shows "selection_ok (set_head p g s) \<and> head (set_head p g s) = p \<and> tail (set_head p g s) = tail s \<and>
    selection_ok (set_tail p g s) \<and> tail (set_tail p g s) = p \<and> head (set_tail p g s) = head s \<and>
    selection_ok (set_head_tail p q g s) \<and> head (set_head_tail p q g s) = p \<and> tail (set_head_tail p q g s) = q \<and>
    selection_ok (collapse_to p g s) \<and> selection_is_empty (collapse_to p g s) \<and> selection_ok (selection_map f s) \<and>
    head (selection_map f s) = f (head s) \<and> head (swap_head_tail s) = tail s \<and> tail (swap_head_tail s) = head s \<and>
    (selection_ok (swap_head_tail s) \<longleftrightarrow> sel_reversed s \<or> selection_is_empty s)"
proof -
  note ends = head_def tail_def selection_ok_def
  have "selection_ok (set_head p g s) \<and> head (set_head p g s) = p \<and> tail (set_head p g s) = tail s"
    by (auto simp: set_head_def ends cmp_def Let_def)
  moreover have "selection_ok (set_tail p g s) \<and> tail (set_tail p g s) = p \<and> head (set_tail p g s) = head s"
    by (auto simp: set_tail_def ends cmp_def Let_def)
  moreover have "selection_ok (set_head_tail p q g s) \<and> head (set_head_tail p q g s) = p \<and> tail (set_head_tail p q g s) = q"
    by (auto simp: set_head_tail_def ends)
  moreover have "selection_ok (selection_map f s) \<and> head (selection_map f s) = f (head s)"
    using assms by (auto simp: selection_map_def ends monoD)
  ultimately show ?thesis using assms(1)
    by (auto simp: collapse_to_def swap_head_tail_def selection_is_empty_def ends)
qed

theorem selection_ends_witness:
  "\<exists>s :: (nat, nat, nat) selection. set_head 2 GoalNone \<lparr>sel_id = 1, sel_start = 5, sel_end = 9, sel_reversed = False, sel_goal = GoalNone\<rparr> = s \<and>
    head s = 2 \<and> tail s = 5 \<and> sel_start (swap_head_tail \<lparr>sel_id = 1, sel_start = 5, sel_end = 9, sel_reversed = False, sel_goal = GoalNone\<rparr>) = (9 :: nat)"
proof -
  let ?s = "\<lparr>sel_id = 1, sel_start = 5, sel_end = 9, sel_reversed = False, sel_goal = GoalNone\<rparr> :: (nat, nat, nat) selection"
  have "selection_ok ?s" "mono (\<lambda>n :: nat. n)" by (simp_all add: selection_ok_def mono_def)
  from selection_ends [OF this, of 2 GoalNone] show ?thesis by (simp add: tail_def swap_head_tail_def)
qed

end
