(* ===== verification/Spec2Isabelle.thy ===== *)
theory Spec2Isabelle
  imports TreeMap Locator Undo_Map Subscription History Operation_Queue Rope_Properties Buffer_Properties Anchor_Properties
begin

text \<open>
  This development models the text core of the editor: the layer on which buffers, multi buffers and the
  collaboration protocol are built.  Every other crate of the workspace reaches text through it.

  \<^bold>\<open>The program.\<close>  A buffer stores its text and its edit history in \<^emph>\<open>sum trees\<close>: B-trees whose inner nodes cache a
  summary of their items, so that positions are found by seeking in a dimension of the summary.  The text
  itself is a \<^emph>\<open>rope\<close>, a sum tree of chunks of at most 128 bytes with bitmaps of characters, newlines and
  tabs.  Replicas stamp operations with Lamport timestamps, record what they have seen in version vectors,
  place insertions by locators, count undos in an undo map, exchange operations through a queue ordered by
  timestamp, describe the effect of a series of edits by a patch, and hand patches to subscribers.

  \<^bold>\<open>Theories and sources\<close> (paths under \<open>src/crates\<close>):
  \<^item> \<open>Prelude\<close>: options as fallible results, \<open>assert_that\<close>, arrays of bounded size, generic list lemmas.
  \<^item> \<open>SumTree\<close>, \<open>SumTree_Correct\<close> (\<open>sum_tree/src/sum_tree.rs\<close>): nodes, construction, \<open>append\<close>, \<open>push\<close>, \<open>extend\<close>, first and
    last items.  \<open>wf_tree\<close> is the invariant, \<open>tree_items\<close> the abstraction; the locale \<open>summary_monoid\<close> has the laws of
    a summary, on the summaries that occur.
  \<^item> \<open>SumTree_Find\<close>: dimensions, seek targets, \<open>find\<close>; locales \<open>measured\<close> and \<open>seekable\<close>.
  \<^item> \<open>SumTree_Cursor\<close>, \<open>SumTree_Seek\<close>, \<open>SumTree_Search\<close>, \<open>SumTree_Iter\<close> (\<open>sum_tree/src/cursor.rs\<close>): cursors with their stack,
    \<open>seek\<close>, \<open>slice\<close>, \<open>suffix\<close>, \<open>summary\<close>, filtered search in both directions, iterators; \<open>cursor_at\<close> relates a cursor to
    the items before and after it.
  \<^item> \<open>SumTree_Keyed\<close>: keyed insertion, removal and batch edits; locale of keyed items.
  \<^item> \<open>TreeMap\<close> (\<open>sum_tree/src/tree_map.rs\<close>): ordered maps and sets, refining finite maps.
  \<^item> \<open>Clock\<close> (\<open>clock/src/clock.rs\<close>): replica identifiers, Lamport timestamps, version vectors.
  \<^item> \<open>Locator\<close>, \<open>Undo_Map\<close>, \<open>Patch\<close>, \<open>Subscription\<close>, \<open>Operation_Queue\<close>, \<open>History\<close> (the files of these names in \<open>text/src\<close>, and the
    history part of \<open>text/src/text.rs\<close>).
  \<^item> \<open>Utf8\<close>: the functions of \<open>str\<close> the code uses, on byte lists; \<open>Bitmap\<close>: 128-bit words as bit sets.
  \<^item> \<open>Point\<close>, \<open>Text_Summary\<close>, \<open>Chunk\<close>, \<open>Chunk_Correct\<close>, \<open>Chunk_Summary\<close> (\<open>rope/src/point.rs\<close>, \<open>chunk.rs\<close>, the summaries of \<open>rope.rs\<close>):
    a chunk is \<open>chunk_of\<close> its text, and every bitmap computation agrees with the scan of the text.
  \<^item> \<open>Rope\<close>, \<open>Rope_Correct\<close>, \<open>Rope_Cursor\<close>, \<open>Rope_Find\<close>, \<open>Rope_Properties\<close> (\<open>rope/src/rope.rs\<close>): ropes and their cursors; \<open>rope_ok\<close> is the
    invariant, \<open>rope_text\<close> the abstraction; locale \<open>text_dim\<close> is the contract of a text dimension.
  \<^item> \<open>Fragment\<close> (\<open>text/src/text.rs\<close>): fragments, their summaries and dimensions, the index of insertions and the slices of edits.
  \<^item> \<open>Buffer\<close>, \<open>Buffer_Undo\<close>, \<open>Buffer_Remote\<close>, \<open>Buffer_Ops\<close> (\<open>text/src/text.rs\<close>): the state of a buffer and \<open>apply_local_edit\<close>; \<open>apply_undo\<close>;
    \<open>apply_remote_edit\<close>; construction, transactions, edit, undo, redo, operations of other replicas, waiting.
  \<^item> \<open>Buffer_Cells\<close>, \<open>Buffer_Local\<close>, \<open>Buffer_Edit\<close>, \<open>Buffer_Refine\<close>, \<open>Buffer_Invariant\<close>: a buffer as the sequence of its bytes (\<open>cells_of\<close>), the
    abstract edit \<open>local_spec\<close> on such sequences, the invariant \<open>snapshot_ok\<close>, and that a local edit returns, keeps the invariant
    and refines the abstract edit.
  \<^item> \<open>Buffer_Ids\<close>, \<open>Buffer_Undo_Correct\<close>: an undo finds every fragment its edits touched and gives all bytes the visibility of the undo map.
  \<^item> \<open>Buffer_Start\<close>, \<open>Buffer_Session\<close>, \<open>Buffer_Delivery\<close>, \<open>Buffer_Properties\<close>: new buffers; \<open>buffer_ok\<close>, the invariant with history and clock;
    edits, undo and redo together; operations that change nothing; the properties of buffers.
  \<^item> \<open>Anchor\<close>, \<open>Anchor_Correct\<close>, \<open>Anchor_Order\<close>, \<open>Anchor_Properties\<close> (\<open>text/src/anchor.rs\<close>, \<open>text/src/text.rs\<close>): positions that follow the text; an
    anchor names a byte of an insertion (\<open>cell_anchor\<close>), \<open>follow\<close> is where an edit moves it, \<open>place_anchor\<close> numbers the ends of all bytes;
    \<open>Selection\<close> (\<open>text/src/selection.rs\<close>).

  \<^bold>\<open>Conventions.\<close>  A panic (a failed assertion, an overflowing array, an index out of range, a shift by the width of
  the type) is the value \<open>None\<close>; operations that cannot panic have plain result types.  Mutation is state
  passing.  Offsets, rows and columns are natural numbers: the theorems hold for texts whose
  lengths fit the types of the source, and Lamport values, bitmaps and locator digits, where wrap-around or
  bit operations matter, are machine words.  In particular the offsets and lengths of fragments, which the source keeps in
  \<open>u32\<close>, do not wrap: a text or an insertion of more than \<open>u32::MAX\<close> bytes is outside.  Debug assertions are not modelled;
  the assertions of \<open>OperationSummary\<close>, which a release build checks, are a mark of the summary (\<open>Operation_Queue\<close>).

  \<^bold>\<open>Bounds.\<close>  The stack of a cursor holds 16 entries (\<open>STACK_CAP\<close>), and going deeper panics; theorems about cursors assume
  a tree lower than that, and slicing a rope assumes (\<open>sliceable\<close>) that the trees cut from it are, too.  Node capacity
  is 12 (\<open>TREE_BASE = 6\<close>, a release build).  Loops that the code runs until an iterator ends (\<open>undo_loop\<close> and the
  functions that collect an iterator) take fuel of one more than the number of items, and the theorems
  state that the result is reached.

  \<^bold>\<open>What the theorems show.\<close>  Trees: joining, building, finding, seeking, slicing, iterating and editing act on the sequence of
  items as the corresponding list functions do, never panic on well-formed trees, and keep all cached
  summaries right.  Maps refine finite maps.  Clocks: \<open>as_u64\<close> embeds the order, version vectors are sets of observed
  timestamps.  Locators are dense.  Patches compose and invert as functions on texts, and subscriptions
  accumulate them.  The history keeps each transaction once.  The queue is in timestamp order; operations of other replicas
  that cannot change the text yet wait in it, exactly those that must.  Ropes hold exactly the text that was put in, at every
  operation, and answer questions about boundaries, positions and measures as the whole text would.  A buffer
  holds its text as ropes, fragments and indices that agree with one another; an edit replaces exactly the ranges it names,
  undo and redo toggle exactly the edits of a transaction and restore the text.  Anchors resolve to the place of their byte,
  whatever edits came between, and compare as places do; whoever waits for an edit is told when it arrives.

  \<^bold>\<open>Not modelled.\<close>  Formatting (\<open>Debug\<close>, \<open>Display\<close>), \<open>size_hint\<close>, test-only code; parallel construction is modelled by its
  sequential meaning.  The definitions of \<open>Buffer_Remote\<close> are complete but no theorem is stated about the
  convergence of replicas.  Queries of snapshots by line, indentation and version,
  the iterators over chunks and lines of a rope and conversions from points to offsets are not modelled.  The user interface, language
  servers, project and network layers are effects on foreign systems.
\<close>

section \<open>Sample data for the witnesses\<close>

definition entry :: "nat \<Rightarrow> nat \<Rightarrow> (nat, nat) map_entry" where
  "entry k v = \<lparr>me_key = k, me_value = v\<rparr>"

definition sample_map :: "(nat, nat) tree_map" where
  "sample_map = Leaf (Some 3) [entry 1 10, entry 3 30] [Some 1, Some 3]"

definition later_map :: "(nat, nat) tree_map" where
  "later_map = Leaf (Some 7) [entry 5 50, entry 7 70] [Some 5, Some 7]"

lemmas sample_defs = sample_map_def later_map_def entry_def

lemma sample_ok [simp]:
  "map_ok sample_map" "wf_tree map_entry_impl sample_map" "node_height sample_map < STACK_CAP"
  "map_ok later_map" "wf_tree map_entry_impl later_map" "node_height later_map < STACK_CAP"
  by (simp_all add: sample_defs map_ok_def map_entry_impl_def map_entry_key_def summary_sum_def TREE_BASE_def STACK_CAP_def)

lemma sample_items [simp]:
  "tree_items sample_map = [entry 1 10, entry 3 30]" "tree_items later_map = [entry 5 50, entry 7 70]"
  by (simp_all add: sample_defs)

lemma sample_abs [simp]: "map_abs sample_map = [1 \<mapsto> 10, 3 \<mapsto> 30]" "map_abs later_map = [5 \<mapsto> 50, 7 \<mapsto> 70]"
  by (auto simp: map_abs_def entry_def fun_eq_iff)

lemma sample_simps [simp]:
  "map_entry_key (entry k v) = Some k" "dim_zero map_key_ref = None" "dim_add map_key_ref d s = s"
  "item_summary map_entry_impl = map_entry_key" "cursor_position (cursor_new D t) = dim_zero D"
  by (simp_all add: entry_def map_entry_key_def map_key_ref_def map_entry_impl_def cursor_new_def)

lemmas target_defs = target_past_def ord_target_def cmp_def Let_def

lemmas map_monoid = map_tree.summary_monoid_axioms [unfolded map_keyed_simps]
  and map_seekable = map_tree.seekable_axioms [unfolded map_keyed_simps]
  and map_measured = map_tree.measured_axioms [unfolded map_keyed_simps]

lemma sample_cursor: "cursor_at map_entry_impl map_key_ref (cursor_new map_key_ref sample_map) [] [entry 1 10, entry 3 30]"
  using cursor_at_new [of map_entry_impl sample_map] by simp

lemma sample_mono: "seek_mono map_entry_impl map_key_ref (target_past (ord_target (Some k)) b) None [entry 1 10, entry 3 30]"
  using map_tree.key_seek_mono [of "[entry 1 10, entry 3 30]" None "Some k" b]
  by simp

definition lamport_id :: "lamport \<Rightarrow> lamport" where "lamport_id t = t"

definition undo_entry :: "lamport \<Rightarrow> lamport \<Rightarrow> u32 \<Rightarrow> undo_map_entry" where
  "undo_entry e u n = \<lparr>ume_key = (e, u), ume_count = n\<rparr>"

definition sample_undo :: undo_map where
  "sample_undo = Leaf (Lamport 2 0, Lamport 5 0) [undo_entry (Lamport 1 0) (Lamport 4 0) 1, undo_entry (Lamport 2 0) (Lamport 5 0) 1]
     [(Lamport 1 0, Lamport 4 0), (Lamport 2 0, Lamport 5 0)]"

lemma sample_undo_ok [simp]:
  "undo_map_ok sample_undo" "wf_tree undo_entry_impl sample_undo" "node_height sample_undo < STACK_CAP"
  by (simp_all add: sample_undo_def undo_entry_def undo_map_ok_def undo_entry_impl_def undo_key_zero_def lamport_MIN_def
      summary_sum_def TREE_BASE_def STACK_CAP_def lamport_less_iff max_def less_eq_lamport_def cmp_def less_prod_def' less_eq_prod_def)

lemma sample_undo_items [simp]:
  "tree_items sample_undo = [undo_entry (Lamport 1 0) (Lamport 4 0) 1, undo_entry (Lamport 2 0) (Lamport 5 0) 1]"
  by (simp add: sample_undo_def)

section \<open>The balanced tree\<close>

text \<open>
  C11: appending two well-formed trees never panics, whatever their heights, keeps the tree
  well-formed (capacity, balance and every cached summary), and concatenates the items.
\<close>

theorem append_concatenates:
  assumes "summary_monoid I" "wf_tree I t" "wf_tree I u"
  shows "\<exists>r. tree_append I t u = Some r \<and> wf_tree I r \<and> tree_items r = tree_items t @ tree_items u \<and>
    node_summary r = items_summary I (tree_items t @ tree_items u)"
  using summary_monoid.append_ok [OF assms] summary_monoid.wf_summary [OF assms(1)] by metis

theorem append_concatenates_witness:
  "\<exists>r. tree_append map_entry_impl sample_map later_map = Some r \<and> wf_tree map_entry_impl r \<and>
    tree_items r = [entry 1 10, entry 3 30, entry 5 50, entry 7 70]"
  using append_concatenates [OF map_tree.summary_monoid_axioms [unfolded map_keyed_simps], of sample_map later_map] by auto

text \<open>
  C12: building a tree from an iterator never panics and loses nothing: the result is well-formed,
  holds exactly the given items, and the parallel construction builds the same tree.
\<close>

theorem from_iter_builds:
  assumes "summary_monoid I"
  shows "\<exists>r. from_iter I its = Some r \<and> from_par_iter I its = Some r \<and> wf_tree I r \<and> tree_items r = its"
  using summary_monoid.from_iter_ok [OF assms] summary_monoid.from_par_iter_eq [OF assms] by metis

theorem from_iter_builds_witness:
  "\<exists>r. from_iter map_entry_impl [entry 1 10, entry 3 30] = Some r \<and> wf_tree map_entry_impl r \<and>
    tree_items r = [entry 1 10, entry 3 30]"
  using from_iter_builds [OF map_monoid] by metis

text \<open>
  C13: \<open>find\<close>, which descends the tree by the cached summaries, returns what a linear scan of the items
  returns: the first item whose end is not before the target, with its start and end positions.
\<close>

theorem find_is_scan:
  assumes "seekable I D" "wf_tree I t"
    and "seek_mono I D (target_past target b) (dim_zero D) (tree_items t)"
  shows "find D target b t =
    (case seek_split I D (target_past target b) (dim_zero D) (tree_items t) of
       (ys, []) \<Rightarrow> (pos_after I D (dim_zero D) ys, pos_after I D (dim_zero D) ys, None)
     | (ys, z # zs) \<Rightarrow> (pos_after I D (dim_zero D) ys, pos_after I D (dim_zero D) (ys @ [z]), Some z))"
  unfolding seekable.find_ok [OF assms] scan_result_def by (simp split: prod.splits list.splits)

theorem find_is_scan_witness:
  "find map_key_ref (ord_target (Some 2)) Left sample_map = (Some 1, Some 3, Some (entry 3 30))"
  using find_is_scan [OF map_seekable, of sample_map "ord_target (Some 2)" Left] sample_mono
  by (simp add: map_split map_pos target_defs)

text \<open>
  C14: slicing to a target and then taking the suffix cuts the remaining items in two well-formed
  trees, without loss, repetition or reordering, and leaves the cursor at the end.
\<close>

theorem slice_suffix_partition:
  assumes "measured I D" "cursor_at I D c ys zs"
    and "seek_mono I D (target_past target b) (cursor_position c) zs" "target (cursor_position c) \<noteq> Less"
  shows "\<exists>c' t c'' u. slice I D target b c = Some (c', t) \<and> suffix I D c' = Some (c'', u) \<and>
    wf_tree I t \<and> wf_tree I u \<and> tree_items t @ tree_items u = zs \<and>
    tree_items t = fst (seek_split I D (target_past target b) (cursor_position c) zs) \<and>
    cursor_at I D c'' (ys @ zs) []"
proof -
  obtain as bs where split: "seek_split I D (target_past target b) (cursor_position c) zs = (as, bs)"
    by fastforce
  obtain c' t where t: "slice I D target b c = Some (c', t)" "wf_tree I t" "tree_items t = as" "cursor_at I D c' (ys @ as) bs"
    using measured.slice_ok [OF assms split] by blast
  obtain c'' u where "suffix I D c' = Some (c'', u)" "wf_tree I u" "tree_items u = bs" "cursor_at I D c'' ((ys @ as) @ bs) []"
    using measured.suffix_ok [OF assms(1) t(4)] by blast
  with t split seek_split_append [OF split] show ?thesis by auto
qed

theorem slice_suffix_partition_witness:
  "\<exists>c' t c'' u. slice map_entry_impl map_key_ref (ord_target (Some 2)) Left (cursor_new map_key_ref sample_map) = Some (c', t) \<and>
    suffix map_entry_impl map_key_ref c' = Some (c'', u) \<and> tree_items t = [entry 1 10] \<and> tree_items u = [entry 3 30]"
proof -
  have "fst (seek_split map_entry_impl map_key_ref (target_past (ord_target (Some 2)) Left) None [entry 1 10, entry 3 30]) = [entry 1 10]"
    by (simp add: map_split target_defs)
  then obtain c' t c'' u where
    "slice map_entry_impl map_key_ref (ord_target (Some 2)) Left (cursor_new map_key_ref sample_map) = Some (c', t)"
    "suffix map_entry_impl map_key_ref c' = Some (c'', u)"
    "tree_items t @ tree_items u = [entry 1 10, entry 3 30]" "tree_items t = [entry 1 10]"
    using slice_suffix_partition [OF map_measured sample_cursor, of "ord_target (Some 2)" Left] sample_mono
    by (auto simp: ord_target_def cmp_def)
  then show ?thesis by auto
qed

text \<open>
  C15: stepping forward and back: after \<open>next\<close> and then \<open>prev\<close> the cursor is at the item it started from,
  and on the way it is at the item that follows.
\<close>

theorem next_prev_roundtrip:
  assumes "measured I D" "cursor_at I D c ys (z # zs)" "did_seek c"
  shows "\<exists>c' c''. cursor_next D c = Some c' \<and> cursor_item c' = Some (list_first zs) \<and>
    cursor_prev D c' = Some c'' \<and> cursor_item c'' = Some (Some z) \<and> cursor_at I D c'' ys (z # zs)"
proof -
  obtain c' where c': "cursor_next D c = Some c'" "did_seek c'" "cursor_at I D c' (ys @ [z]) zs"
    using measured.cursor_next_ok [OF assms] by auto
  obtain c'' where "cursor_prev D c' = Some c''" "cursor_item c'' = Some (Some z)" "cursor_at I D c'' ys (z # zs)"
    using measured.cursor_prev_ok [OF assms(1) c'(3,2)] by auto
  with c' cursor_at_item(1) [OF c'(3,2)] show ?thesis by auto
qed

theorem next_prev_roundtrip_witness:
  "\<exists>c c' c''. seek map_key_ref (ord_target (Some 1)) Left (cursor_new map_key_ref sample_map) = Some (c, True) \<and>
    cursor_next map_key_ref c = Some c' \<and> cursor_item c' = Some (Some (entry 3 30)) \<and>
    cursor_prev map_key_ref c' = Some c'' \<and> cursor_item c'' = Some (Some (entry 1 10))"
proof -
  obtain c where "seek map_key_ref (ord_target (Some 1)) Left (cursor_new map_key_ref sample_map) = Some (c, True)"
    "cursor_at map_entry_impl map_key_ref c [] [entry 1 10, entry 3 30]" "did_seek c"
    using measured.seek_ok [OF map_measured sample_cursor, of "ord_target (Some 1)" Left "[]" "[entry 1 10, entry 3 30]"] sample_mono
    by (auto simp: map_split map_pos target_defs)
  with next_prev_roundtrip [OF map_measured, of c "[]" "entry 1 10" "[entry 3 30]"] show ?thesis by auto
qed

text \<open>
  C16: \<open>edit\<close> applies a batch of insertions and removals with distinct keys in one pass: afterwards an
  entry is present iff it was inserted, or was there before under a key the batch does not mention;
  the tree stays sorted by key and the displaced entries are returned in order.
\<close>

theorem edit_batch:
  assumes "keyed K" "wf_tree (keyed_item K) t" "node_height t < STACK_CAP" "key_sorted K (tree_items t)"
    and "distinct (map (edit_key K) es)"
  shows "\<exists>r. tree_edit K t es = Some (r, filter (\<lambda>x. item_key K x \<in> edit_key K ` set es) (tree_items t)) \<and>
    wf_tree (keyed_item K) r \<and> key_sorted K (tree_items r) \<and>
    set (tree_items r) = {x \<in> set (tree_items t). item_key K x \<notin> edit_key K ` set es} \<union> {x. Insert x \<in> set es}"
  using keyed.tree_edit_ok [OF assms] merge_edits_set [OF assms(4) keyed.sort_edits [OF assms(1,5)]]
    merge_edits_sorted [OF assms(4) keyed.sort_edits [OF assms(1,5)]] by fastforce

theorem edit_batch_witness:
  "\<exists>r. tree_edit map_keyed sample_map [Remove (Some 3), Insert (entry 2 20)] = Some (r, [entry 3 30]) \<and>
    set (tree_items r) = {entry 1 10, entry 2 20}"
proof -
  have "\<exists>r. tree_edit map_keyed sample_map [Remove (Some 3), Insert (entry 2 20)] =
      Some (r, filter (\<lambda>x. item_key map_keyed x \<in> edit_key map_keyed ` set [Remove (Some 3), Insert (entry 2 20)]) (tree_items sample_map)) \<and>
    wf_tree (keyed_item map_keyed) r \<and> key_sorted map_keyed (tree_items r) \<and>
    set (tree_items r) = {x \<in> set (tree_items sample_map). item_key map_keyed x \<notin> edit_key map_keyed ` set [Remove (Some 3), Insert (entry 2 20)]} \<union>
      {x. Insert x \<in> set [Remove (Some (3::nat)), Insert (entry 2 20)]}"
    using sample_ok(1) by (intro edit_batch [OF map_tree.keyed_axioms]) (auto simp: map_ok_def)
  moreover have "{x \<in> set (tree_items sample_map). item_key map_keyed x \<notin> edit_key map_keyed ` set [Remove (Some 3), Insert (entry 2 20)]} \<union>
      {x. Insert x \<in> set [Remove (Some (3::nat)), Insert (entry 2 20)]} = {entry 1 10, entry 2 20}" by auto
  ultimately show ?thesis by auto
qed

section \<open>Ordered maps\<close>

text \<open>
  C17: \<open>TreeMap\<close> refines finite maps: \<open>get\<close> and \<open>contains_key\<close> read the abstract map, \<open>insert\<close> overrides
  one key and returns the old value, and the representation stays sorted and well-formed.
\<close>

theorem tree_map_insert_get:
  assumes "map_ok m" "node_height m < STACK_CAP"
  shows "\<exists>r. map_insert_or_replace m k v = Some (r, map_get m k) \<and> map_insert m k v = Some r \<and> map_ok r \<and>
    (\<forall>k'. map_get r k' = (if k' = k then Some v else map_get m k')) \<and>
    (\<forall>k'. contains_key r k' \<longleftrightarrow> k' = k \<or> contains_key m k')"
proof -
  obtain r where r: "map_insert_or_replace m k v = Some (r, map_abs m k)" "map_insert m k v = Some r" "map_ok r"
    "map_abs r = (map_abs m)(k \<mapsto> v)"
    using map_insert_correct [OF assms] by blast
  then show ?thesis
    using map_get_correct [OF assms(1)] map_get_correct [OF r(3)] contains_key_correct [OF assms(1)] contains_key_correct [OF r(3)]
    by auto
qed

theorem tree_map_insert_get_witness:
  "\<exists>r. map_insert sample_map 2 20 = Some r \<and> map_get r 2 = Some 20 \<and> map_get r 3 = Some 30"
  using tree_map_insert_get [of sample_map 2 20] map_get_correct [of sample_map] by auto

text \<open>
  C18: \<open>remove\<close> deletes one key and returns its value, and \<open>update\<close> changes the value of a present key
  in place and leaves an absent one absent; no other key is affected.
\<close>

theorem tree_map_remove_update:
  assumes "map_ok m" "node_height m < STACK_CAP"
  shows "(\<exists>r. map_remove m k = Some (r, map_abs m k) \<and> map_ok r \<and> map_abs r = (map_abs m)(k := None)) \<and>
    (\<exists>r. map_update m k f = Some (r, map_option (snd \<circ> f) (map_abs m k)) \<and> map_ok r \<and>
      map_abs r = (map_abs m)(k := map_option (fst \<circ> f) (map_abs m k)))"
  using map_remove_correct [OF assms] map_update_correct [OF assms] by blast

theorem tree_map_remove_update_witness:
  "\<exists>r. map_remove sample_map 3 = Some (r, Some 30) \<and> map_abs r = [1 \<mapsto> 10]"
  using tree_map_remove_update [of sample_map 3 "\<lambda>v. (v, v)"] by (auto simp: fun_upd_twist)

text \<open>
  C19: \<open>extend\<close> with distinct keys and \<open>insert_tree\<close> override the map with the given one; \<open>retain\<close> keeps
  exactly the entries the predicate accepts.
\<close>

theorem tree_map_bulk:
  assumes "map_ok m" "node_height m < STACK_CAP" "map_ok other" "node_height other < STACK_CAP" "distinct (map fst kvs)"
  shows "(\<exists>r. map_extend m kvs = Some r \<and> map_ok r \<and> map_abs r = map_abs m ++ map_of kvs) \<and>
    (\<exists>r. insert_tree m other = Some r \<and> map_ok r \<and> map_abs r = map_abs m ++ map_abs other) \<and>
    (\<exists>r. retain m P = Some r \<and> map_ok r \<and> (\<forall>k v. map_abs r k = Some v \<longleftrightarrow> map_abs m k = Some v \<and> P k v))"
proof -
  obtain r where r: "retain m P = Some r" "map_ok r"
    "map_abs r = (\<lambda>k. case map_abs m k of Some v \<Rightarrow> if P k v then Some v else None | None \<Rightarrow> None)"
    using retain_correct [OF assms(1,2)] by blast
  then have "\<forall>k v. map_abs r k = Some v \<longleftrightarrow> map_abs m k = Some v \<and> P k v" by (auto split: option.splits)
  with r map_edit_correct [OF assms(1,2,5)] insert_tree_correct [OF assms(1-4)] show ?thesis by blast
qed

theorem tree_map_bulk_witness:
  "\<exists>r. insert_tree sample_map later_map = Some r \<and> map_abs r = [1 \<mapsto> 10, 3 \<mapsto> 30] ++ [5 \<mapsto> 50, 7 \<mapsto> 70]"
  using tree_map_bulk [of sample_map later_map "[]" "\<lambda>_ _. True"] by auto

text \<open>
  C20: \<open>remove_range\<close> removes exactly the keys between two monotone seek targets.
\<close>

theorem tree_map_remove_range:
  assumes "map_ok m" "node_height m < STACK_CAP" "target_mono start" "target_mono finish"
    and "\<forall>k. start k = Greater \<longrightarrow> finish k = Greater"
  shows "\<exists>r. remove_range m start finish = Some r \<and> map_ok r \<and>
    map_abs r = (\<lambda>k. if start k \<noteq> Greater \<and> finish k = Greater then None else map_abs m k)"
  by (rule remove_range_correct [OF assms])

theorem tree_map_remove_range_witness:
  "\<exists>r. remove_range sample_map (cmp 2) (cmp 4) = Some r \<and> map_abs r = [1 \<mapsto> 10]"
proof -
  have mono: "target_mono (cmp k)" for k :: nat by (auto simp: target_mono_def cmp_def split: if_splits)
  have order: "\<forall>k :: nat. cmp 2 k = Greater \<longrightarrow> cmp 4 k = Greater" by (auto simp: cmp_def)
  obtain r where "remove_range sample_map (cmp 2) (cmp 4) = Some r"
    "map_abs r = (\<lambda>k. if cmp 2 k \<noteq> Greater \<and> cmp 4 k = Greater then None else map_abs sample_map k)"
    using tree_map_remove_range [of sample_map "cmp 2" "cmp 4", OF _ _ mono mono order] by auto
  moreover have "(\<lambda>k. if cmp 2 k \<noteq> Greater \<and> cmp 4 k = Greater then None else map_abs sample_map k) = [1 \<mapsto> 10]"
    by (auto simp: fun_eq_iff cmp_def)
  ultimately show ?thesis by simp
qed

section \<open>Logical clocks\<close>

text \<open>
  C21: the packed 64-bit form of a Lamport timestamp is an order embedding, so comparing packed
  timestamps is comparing timestamps, and distinct timestamps have distinct packings.
\<close>

theorem lamport_as_u64_embedding:
  "(as_u64 a < as_u64 b \<longleftrightarrow> a < b) \<and> (as_u64 a = as_u64 b \<longleftrightarrow> a = b)"
  using as_u64_less_iff [of a b] as_u64_less_iff [of b a] by (metis less_irrefl linorder_neqE)

text \<open>
  C22: a version vector is the set of timestamps it has observed: observing a timestamp adds exactly
  the timestamps of that replica up to it, joining takes the union, and vectors that observe the
  same timestamps are equal.
\<close>

theorem version_observes:
  assumes "global_ok g" "global_ok h"
  shows "(0 < lamport_value u \<longrightarrow> global_observed (global_observe g t) u \<longleftrightarrow>
      global_observed g u \<or> lamport_replica u = lamport_replica t \<and> lamport_value u \<le> lamport_value t) \<and>
    (global_observed (global_join g h) u \<longleftrightarrow> global_observed g u \<or> global_observed h u) \<and>
    global_ok (global_observe g t) \<and> global_ok (global_join g h) \<and>
    ((\<forall>t. global_observed g t \<longleftrightarrow> global_observed h t) \<longrightarrow> g = h)"
  using get_observe [of g t] get_join [of g h] ok_observe [OF assms(1)] ok_join [OF assms] observed_eqI [OF assms]
  by (auto simp: global_observed_def le_max_iff_disj)

theorem version_observes_witness:
  "global_observed (global_join [0, 2] [1]) (Lamport 1 0) \<and> \<not> global_observed (global_join [0, 2] [1]) (Lamport 3 1)"
  using version_observes [of "[0, 2]" "[1]" "Lamport 1 0" "Lamport 1 0"] version_observes [of "[0, 2]" "[1]" "Lamport 3 1" "Lamport 1 0"]
  by (simp add: global_ok_def global_observed_def global_get_def list_get_def)

text \<open>
  C23: \<open>observed_all\<close> is the causal order on version vectors (one observes every timestamp the other
  does), \<open>changed_since\<close> is its negation with the arguments exchanged, \<open>observed_any\<close> finds a common
  non-zero timestamp, and the join is the least upper bound.
\<close>

theorem version_order:
  assumes "global_ok g" "global_ok h" "global_ok k"
  shows "(observed_all g h \<longleftrightarrow> (\<forall>t. global_observed h t \<longrightarrow> global_observed g t)) \<and>
    (changed_since g h \<longleftrightarrow> \<not> observed_all h g) \<and>
    (observed_any g h \<longleftrightarrow> (\<exists>r. 0 < global_get h r \<and> global_observed g (Lamport (global_get h r) r))) \<and>
    (observed_all k (global_join g h) \<longleftrightarrow> observed_all k g \<and> observed_all k h)"
  using observed_all_observed [OF assms(2)] changed_since_iff [OF assms(1)] observed_any_iff [of g h] assms
    observed_all_iff [OF ok_join [OF assms(1,2)], of k] observed_all_iff [OF assms(1), of k] observed_all_iff [OF assms(2), of k]
  by (auto simp: global_observed_def global_ok_def get_join)

theorem version_order_witness:
  "observed_all [2, 1] [1] \<and> changed_since [2, 1] [1] \<and> \<not> observed_all [1] [2, 1]"
  using version_order [of "[2, 1]" "[1]" "[]"] version_order [of "[1]" "[2, 1]" "[]"]
  by (simp add: global_ok_def observed_all_def global_iter_def)

section \<open>Locators\<close>

text \<open>
  C24: \<open>Locator::between\<close> terminates with a locator strictly between its arguments, which never ends in
  the digit 0, so that another one always fits below it; it is at most one digit longer than they are.
\<close>

theorem locator_between:
  assumes "lhs < rhs" "last rhs \<noteq> 0"
  shows "lhs < between lhs rhs \<and> between lhs rhs < rhs \<and> last (between lhs rhs) \<noteq> 0 \<and>
    length (between lhs rhs) \<le> Suc (max (length lhs) (length rhs))"
  using between_loop_above [of lhs rhs] between_loop_below [OF assms] between_loop_last [of lhs rhs] between_loop_length [of lhs rhs]
  by (simp add: between_def)

theorem locator_between_witness:
  "locator_min < between locator_min locator_max \<and> between locator_min locator_max < locator_max"
  using locator_between [of locator_min locator_max] by (simp add: locator_min_def locator_max_def word_gt_0)

section \<open>Undo counts\<close>

text \<open>
  C25: inserting an undo operation records its counts, and the undo count of an edit is the greatest
  count any undo operation recorded for it: an edit is undone iff that number is odd, and it was
  undone at a version iff the greatest count among the operations the version has observed is odd.
\<close>

theorem undo_map_counts:
  assumes "undo_map_ok m" "node_height m < STACK_CAP" "distinct (map fst (undo_counts undo))"
  shows "(\<exists>r. undo_map_insert m undo = Some r \<and> undo_map_ok r \<and>
      (\<forall>e u. undo_map_abs r e u =
        (if u = undo_timestamp undo then
           (case map_of (undo_counts undo) e of Some n \<Rightarrow> Some n | None \<Rightarrow> undo_map_abs m e u)
         else undo_map_abs m e u))) \<and>
    undo_count m e = Some (max_count (tree_items m) e (\<lambda>_. True)) \<and>
    is_undone m e = Some (odd (unat (max_count (tree_items m) e (\<lambda>_. True)))) \<and>
    was_undone m e version = Some (odd (unat (max_count (tree_items m) e (global_observed version))))"
  using undo_map_insert_correct [OF assms] undo_scan_correct [OF assms(1,2)]
  by (simp add: undo_count_def is_undone_def was_undone_def word_odd_mod)

theorem undo_map_counts_witness:
  "is_undone sample_undo (Lamport 1 0) = Some True \<and> is_undone sample_undo (Lamport 3 0) = Some False"
  using undo_map_counts [of sample_undo "\<lparr>undo_timestamp = Lamport 9 0, undo_version = [], undo_counts = []\<rparr>"]
  by (simp add: max_count_def undo_entry_def)

section \<open>Patches\<close>

text \<open>
  C26: composing patches composes the changes they describe: if \<open>p\<close> turns \<open>xs\<close> into \<open>ys\<close> and \<open>q\<close> turns \<open>ys\<close>
  into \<open>zs\<close>, then \<open>compose\<close> returns, without underflow, a patch that turns \<open>xs\<close> into \<open>zs\<close>, with its
  edits in order and separated as \<open>Patch::new\<close> requires.
\<close>

theorem patch_compose_correct:
  assumes "patched p 0 0 xs ys" "patched q 0 0 ys zs"
  shows "\<exists>r. patch_compose p q = Some r \<and> patched r 0 0 xs zs \<and> patch_new r = Some r"
  using compose_separated [OF assms] by (auto simp: patch_new_def)

theorem patch_compose_correct_witness:
  "\<exists>r. patch_compose [mk_edit 1 3 1 4] [mk_edit 0 0 0 4] = Some r \<and>
    patched r 0 0 ''abcd'' (''WXYZ'' @ ''a'' @ ''xyz'' @ ''d'')"
  using patch_compose_correct [of "[mk_edit 1 3 1 4]" "''abcd''" "''axyzd''" "[mk_edit 0 0 0 4]" "''WXYZaxyzd''"]
  by (auto simp: mk_edit_def seg_def)

text \<open>
  C27: inverting a patch gives a patch from the new text back to the old one, and inverting twice gives
  the patch back.
\<close>

theorem patch_invert_correct:
  assumes "patched p 0 0 xs ys"
  shows "patched (patch_invert p) 0 0 ys xs \<and> patch_invert (patch_invert p) = p"
  using patched_invert [OF assms] patch_invert_invert by blast

theorem patch_invert_correct_witness:
  "patched (patch_invert [mk_edit 1 3 1 4]) 0 0 ''axyzd'' ''abcd''"
  using patch_invert_correct [of "[mk_edit 1 3 1 4]" "''abcd''" "''axyzd''"] by (simp add: mk_edit_def seg_def)

text \<open>
  C28: \<open>old_to_new\<close> maps every character the patch does not touch to the same character of the new text,
  is monotone, and never leaves the new text.
\<close>

theorem old_to_new_correct:
  assumes "patched p 0 0 xs ys" "edits_separated p" "a \<le> b" "b \<le> length xs"
  shows "old_to_new p a \<le> old_to_new p b \<and> old_to_new p b \<le> length ys \<and>
    (b < length xs \<and> untouched p b \<longrightarrow> old_to_new p b < length ys \<and> ys ! old_to_new p b = xs ! b)"
  unfolding old_to_new_spec [OF assms(1) separated_old [OF assms(2)] assms(1) separated_old [OF assms(2)]]
  using translate_mono [OF assms(1) _ assms(3)] translate_le [OF assms(1) _ assms(4)] translate_nth [OF assms(1)] by auto

theorem old_to_new_correct_witness:
  "old_to_new [mk_edit 1 3 1 4] 3 < 5 \<and> ''axyzd'' ! old_to_new [mk_edit 1 3 1 4] 3 = ''abcd'' ! 3"
  using old_to_new_correct [of "[mk_edit 1 3 1 4]" "''abcd''" "''axyzd''" 0 3] by (simp add: mk_edit_def seg_def untouched_def)

section \<open>Subscriptions\<close>

text \<open>
  C29: what a subscription has accumulated always describes the change from the text it last saw to
  the current text, through any interleaving of subscribing, publishing, consuming and dropping;
  publishing any edits of the current text succeeds and forgets exactly the dropped subscriptions.
\<close>

theorem subscription_accumulates:
  assumes "topic_reach t xs base"
  shows "(\<forall>s p. cells t s = Some p \<longrightarrow> patched p 0 0 (base s) xs \<and> edits_separated p) \<and>
    (\<forall>edits ys. patched edits 0 0 xs ys \<longrightarrow>
      (\<exists>t'. publish t edits = Some t' \<and> topic_reach t' ys base \<and> set (subscriptions t') = dom (cells t)))"
proof -
  have inv: "topic_inv t xs base" by (rule topic_reach_inv [OF assms])
  have "\<exists>t'. publish t edits = Some t' \<and> topic_reach t' ys base \<and> set (subscriptions t') = dom (cells t)"
    if "patched edits 0 0 xs ys" for edits ys
    using publish_ok [OF inv that] topic_reach.publish [OF assms that] by auto
  with inv show ?thesis unfolding topic_inv_def by simp
qed

theorem subscription_accumulates_witness:
  "\<exists>t'. publish (snd (subscribe topic_default)) [mk_edit 0 0 0 1] = Some t' \<and> set (subscriptions t') = {0}"
proof -
  have "topic_reach (snd (subscribe topic_default)) ''a'' ((\<lambda>_. [])(0 := ''a''))"
    by (rule topic_reach.subscribe [OF topic_reach.start]) (simp add: subscribe_def topic_default_def)
  from subscription_accumulates [OF this] have "patched [mk_edit 0 0 0 1] 0 0 ''a'' ''ba'' \<longrightarrow>
      (\<exists>t'. publish (snd (subscribe topic_default)) [mk_edit 0 0 0 1] = Some t' \<and>
        set (subscriptions t') = dom (cells (snd (subscribe topic_default))))" by blast
  then show ?thesis by (simp add: mk_edit_def seg_def subscribe_def topic_default_def)
qed

section \<open>Undo history\<close>

definition sample_entry :: "nat \<Rightarrow> u32 \<Rightarrow> history_entry" where
  "sample_entry time n = new_entry \<lparr>tr_id = Lamport n 0, edit_ids = [Lamport (n + 1) 0], tr_start = []\<rparr> time"

text \<open>
  C30: through any sequence of calls on a history, an identity is on the undo and redo stacks at most once
  more than callers have handed it to \<open>push_transaction\<close>; one that was never handed in is there at most once
  and was issued earlier by the clock; and an open transaction is on the stack, so that closing it cannot
  panic.
\<close>

theorem history_invariant:
  assumes "history_step\<^sup>*\<^sup>* (history_new r, clock, {#}) (h, clock', P)"
  shows "(\<forall>t. count (history_ids h) t \<le> count P t + 1) \<and>
    (\<forall>t \<in># history_ids h. t \<in># P \<or> count (history_ids h) t = 1 \<and> lamport_value t < lamport_value clock') \<and>
    (transaction_depth h \<noteq> 0 \<longrightarrow> (\<exists>h' e. end_transaction h now = Some (h', e)))"
proof -
  have ok: "history_ok (h, clock', P)" by (rule history_ok_reachable [OF assms history_ok_new_state])
  then have bound: "count (history_ids h) t \<le> id_bound clock' P t" for t by (simp add: history_ok_def)
  have "id_bound clock' P t \<le> count P t + 1" for t by (simp add: id_bound_def)
  then have "\<forall>t. count (history_ids h) t \<le> count P t + 1" using bound le_trans by blast
  moreover have "t \<in># P \<or> count (history_ids h) t = 1 \<and> lamport_value t < lamport_value clock'" if "t \<in># history_ids h" for t
  proof (cases "t \<in># P")
    case False
    then have "count (history_ids h) t \<le> (if lamport_value t < lamport_value clock' then 1 else 0)"
      using bound [of t] by (simp add: id_bound_def not_in_iff)
    moreover have "count (history_ids h) t \<noteq> 0" using that by (simp add: not_in_iff [symmetric])
    moreover have "n \<le> (if Q then 1 else 0) \<Longrightarrow> n \<noteq> 0 \<Longrightarrow> n = 1 \<and> Q" for n :: nat and Q by (cases Q) auto
    ultimately show ?thesis by blast
  qed simp
  moreover have "transaction_depth h \<noteq> 0 \<longrightarrow> (\<exists>h' e. end_transaction h now = Some (h', e))"
    using ok by (auto simp: history_ok_def end_transaction_def Let_def list_last_def)
  ultimately show ?thesis by blast
qed

text \<open>A transaction that is pushed and one that is started.\<close>

theorem history_invariant_witness:
  "\<exists>h h' clock tid. push_transaction (history_new ()) \<lparr>tr_id = Lamport 9 1, edit_ids = [], tr_start = []\<rparr> 0 = Some h \<and>
    start_transaction h [] 0 (Lamport 1 0) = (h', clock, tid) \<and> (\<forall>t. count (history_ids h') t \<le> count {#Lamport 9 1#} t + 1) \<and>
    (\<exists>h'' e. end_transaction h' 0 = Some (h'', e))"
proof -
  let ?tr = "\<lparr>tr_id = Lamport 9 1, edit_ids = [], tr_start = []\<rparr>"
  obtain h where h: "push_transaction (history_new ()) ?tr 0 = Some h" "transaction_depth h = 0"
    by (simp add: push_transaction_def history_new_def)
  obtain h' c t where s: "start_transaction h [] 0 (Lamport 1 0) = (h', c, t)" by (metis prod_cases3)
  have depth: "transaction_depth h' \<noteq> 0" using s h(2) by (auto simp: start_transaction_def Let_def split: prod.splits)
  have "history_step (history_new (), Lamport 1 0, {#}) (h, Lamport 1 0, {#Lamport 9 1#})"
    using history_step.push [OF h(1), of "Lamport 1 0" "{#}"] by simp
  moreover have "history_step (h, Lamport 1 0, {#Lamport 9 1#}) (h', c, {#Lamport 9 1#})" by (rule history_step.start [OF _ s]) simp
  ultimately have "history_step\<^sup>*\<^sup>* (history_new (), Lamport 1 0, {#}) (h', c, {#Lamport 9 1#})"
    by (rule converse_rtranclp_into_rtranclp [OF _ r_into_rtranclp])
  note inv = history_invariant [OF this, of 0]
  have "\<forall>t. count (history_ids h') t \<le> count {#Lamport 9 1#} t + 1" by (rule inv [THEN conjunct1])
  moreover have "\<exists>h'' e. end_transaction h' 0 = Some (h'', e)" using inv [THEN conjunct2, THEN conjunct2] depth by (rule mp)
  ultimately show ?thesis using h(1) s by blast
qed

text \<open>
  C31: undoing back to a transaction yields that transaction and all later ones, the latest first, and moves
  them to the redo stack; redoing up to the one that was on top yields them in their original order and restores
  the history.
\<close>

theorem undo_redo_until_roundtrip:
  assumes "transaction_depth h = 0" "undo_stack h = keep @ e # later" "distinct (map entry_id (undo_stack h @ redo_stack h))"
  shows "\<exists>h'. remove_from_undo_until h (entry_id e) = Some (h', rev (e # later)) \<and> undo_stack h' = keep \<and>
    redo_stack h' = redo_stack h @ rev (e # later) \<and>
    remove_from_redo h' (entry_id (last (undo_stack h))) = Some (h, e # later)"
  using undo_redo_until [OF assms] .

theorem undo_redo_until_roundtrip_witness:
  "\<exists>h'. remove_from_undo_until ((history_new ())\<lparr>undo_stack := [sample_entry 0 1, sample_entry 5 3, sample_entry 9 2]\<rparr>) (Lamport 3 0) =
      Some (h', [sample_entry 9 2, sample_entry 5 3]) \<and> undo_stack h' = [sample_entry 0 1]"
proof -
  let ?h = "(history_new ())\<lparr>undo_stack := [sample_entry 0 1, sample_entry 5 3, sample_entry 9 2]\<rparr>"
  have id: "entry_id (sample_entry n k) = Lamport k 0" for n k by (simp add: sample_entry_def entry_id_def new_entry_def)
  have "undo_stack ?h = [sample_entry 0 1] @ sample_entry 5 3 # [sample_entry 9 2]" by simp
  from undo_redo_until_roundtrip [OF _ this] show ?thesis by (simp add: history_new_def id) blast
qed

text \<open>
  C32: grouping merges the longest run of recent transactions that follow each other within the
  interval and are not finalized: their edits are kept, in order, under the identity of the earliest,
  and all earlier transactions are unchanged.
\<close>

theorem group_merges_run:
  assumes "undo_stack h \<noteq> []"
  shows "\<exists>keep e merge e'. undo_stack h = keep @ e # merge \<and>
    group h = Some (h\<lparr>undo_stack := keep @ [e']\<rparr>, Some (entry_id e)) \<and>
    entry_id e' = entry_id e \<and> edit_ids (transaction_of e') = stack_edits (e # merge) \<and>
    close_run (group_interval h) (e # merge) \<and>
    (keep \<noteq> [] \<longrightarrow> \<not> close_run (group_interval h) (last keep # e # merge))"
  by (rule group_ok [OF assms])

theorem group_merges_run_witness:
  "\<exists>h' e. group ((history_new ())\<lparr>undo_stack := [sample_entry 0 1, sample_entry 5 3]\<rparr>) = Some (h', Some (entry_id e)) \<and>
    e \<in> {sample_entry 0 1, sample_entry 5 3}"
proof -
  obtain keep e merge e' where "[sample_entry 0 1, sample_entry 5 3] = keep @ e # merge"
    "group ((history_new ())\<lparr>undo_stack := [sample_entry 0 1, sample_entry 5 3]\<rparr>) =
      Some ((history_new ())\<lparr>undo_stack := keep @ [e']\<rparr>, Some (entry_id e))"
    using group_merges_run [of "(history_new ())\<lparr>undo_stack := [sample_entry 0 1, sample_entry 5 3]\<rparr>"] by simp metis
  moreover from this(1) have "e \<in> {sample_entry 0 1, sample_entry 5 3}" by (auto simp: Cons_eq_append_conv)
  ultimately show ?thesis by blast
qed

text \<open>
  C33: for operations stamped above \<open>Lamport::MIN\<close>, which is the key of the empty summary, inserting deferred
  operations passes every assertion of the summaries, and the queue stays in strict timestamp order without
  duplicates: the timestamps afterwards are those queued before and those inserted, an operation already queued
  stays unless a new one has its timestamp, no position in the queue is above the key of a part that follows it
  (the assertion of the dimension), and draining yields all of them, in order, and leaves an empty queue.
\<close>

theorem queue_orders_operations:
  assumes "queue_ok stamp q" "node_height q < STACK_CAP" "\<forall>op \<in> set ops. lamport_MIN < stamp op"
  shows "\<exists>q'. queue_insert stamp q ops = Some q' \<and> \<not> os_panicked (node_summary q') \<and> queue_ok stamp q' \<and> queue_len q' = length (tree_items q') \<and>
    sorted_wrt (<) (map stamp (tree_items q')) \<and>
    stamp ` set (tree_items q') = stamp ` set (tree_items q) \<union> stamp ` set ops \<and>
    set (tree_items q') \<subseteq> set (tree_items q) \<union> set ops \<and>
    {op \<in> set (tree_items q). stamp op \<notin> stamp ` set ops} \<subseteq> set (tree_items q') \<and>
    (\<forall>xs ys zs. tree_items q' = xs @ ys @ zs \<longrightarrow> ys \<noteq> [] \<longrightarrow>
      operation_key_assert (pos_after (operation_item stamp) operation_key lamport_MIN xs) (items_summary (operation_item stamp) ys)) \<and>
    queue_drain stamp q' = (queue_new stamp, q') \<and> queue_is_empty (queue_new stamp) \<and>
    (node_height q' < STACK_CAP \<longrightarrow> queue_iter q' (Suc (queue_len q')) = Some (tree_items q'))"
proof -
  obtain r where r: "queue_insert stamp q ops = Some r" "queue_ok stamp r"
    "stamp ` set (tree_items r) = stamp ` set (tree_items q) \<union> stamp ` set ops"
    "set (tree_items r) \<subseteq> set (tree_items q) \<union> set ops"
    "{op \<in> set (tree_items q). stamp op \<notin> stamp ` set ops} \<subseteq> set (tree_items r)"
    using queue_insert_ok [OF assms] by blast
  have len: "queue_len r = length (tree_items r)" using r(2) queue_len_ok [of stamp r] by (simp add: queue_ok_def)
  have "queue_is_empty (queue_new stamp)" using queue_len_ok [of stamp "queue_new stamp"] queue_new_ok [of stamp]
    by (simp add: queue_is_empty_def queue_ok_def)
  moreover have "node_height r < STACK_CAP \<longrightarrow> queue_iter r (Suc (queue_len r)) = Some (tree_items r)"
    using queue_iter_ok [OF r(2)] len by simp
  moreover have "sorted_wrt (<) (map stamp (tree_items r))" using r(2) by (simp add: queue_ok_def sorted_wrt_map)
  moreover have "\<not> os_panicked (node_summary r)" by (rule queue_ok_unmarked [OF r(2)])
  moreover have "\<forall>xs ys zs. tree_items r = xs @ ys @ zs \<longrightarrow> ys \<noteq> [] \<longrightarrow>
      operation_key_assert (pos_after (operation_item stamp) operation_key lamport_MIN xs) (items_summary (operation_item stamp) ys)"
    using operation_key_assertion [of stamp r] r(2) queue_ok_unmarked [OF r(2)] by (simp add: queue_ok_def)
  ultimately show ?thesis using r len by (intro exI [of _ r]) (simp add: queue_drain_def)
qed

theorem queue_orders_operations_witness:
  "\<exists>q'. queue_insert lamport_id (queue_new lamport_id) [Lamport 2 0, Lamport 1 0, Lamport 2 0] = Some q' \<and>
    set (tree_items q') = {Lamport 1 0, Lamport 2 0} \<and> sorted_wrt (<) (tree_items q')"
proof -
  have new: "queue_ok lamport_id (queue_new lamport_id)" "node_height (queue_new lamport_id) < STACK_CAP"
    by (simp_all add: queue_new_ok) (simp add: queue_new_def tree_new_def STACK_CAP_def)
  have "\<forall>op \<in> set [Lamport 2 0, Lamport 1 0, Lamport 2 0]. lamport_MIN < lamport_id op"
    by (simp add: lamport_id_def lamport_MIN_def lamport_less_iff)
  from queue_orders_operations [OF new this] obtain q' where
    q': "queue_insert lamport_id (queue_new lamport_id) [Lamport 2 0, Lamport 1 0, Lamport 2 0] = Some q'"
    "sorted_wrt (<) (map lamport_id (tree_items q'))"
    "lamport_id ` set (tree_items q') = lamport_id ` set (tree_items (queue_new lamport_id)) \<union> lamport_id ` set [Lamport 2 0, Lamport 1 0, Lamport 2 0]"
    by (elim exE conjE)
  have id: "lamport_id ` X = X" "map lamport_id xs = xs" for X xs by (simp_all add: lamport_id_def map_idI)
  have "set (tree_items q') = {Lamport 1 0, Lamport 2 0}"
    using q'(3) unfolding id queue_new_ok(2) by (simp only: list.set Un_empty_left) blast
  with q'(1,2) show ?thesis unfolding id by blast
qed

end
